(* ===== verification/Grace_Prelude.thy ===== *)
theory Grace_Prelude
  imports Complex_Main "HOL-Library.AList" "HOL-Library.Sublist"
begin

text \<open>
  What the component theories share: the collections their simplification rules go into, the
  types that stand for Python's (a dict as an association list in insertion order, a float as
  an exact rational), the string operations of \<open>str\<close> the code uses, and the contracts that
  many components have in common, as locales: an operation that keeps an invariant, one that
  never leaves a latched state, one that never decreases a quantity.
\<close>

section \<open>Collections of rules\<close>

named_theorems dict_simps \<open>lookups after an update or a deletion of a dict\<close>
named_theorems op_simps \<open>definitions of the operations of a component, for case analysis\<close>

section \<open>Types\<close>

text \<open>
  A dict keeps its keys in insertion order: \<open>AList.update\<close> overwrites in place or appends,
  exactly as \<open>d[k] = v\<close> does, and \<open>AList.delete\<close> is \<open>d.pop(k, None)\<close>. A float is an exact
  rational: rounding is not modelled, and the code compares and adds such values only.
\<close>

type_synonym ('k, 'v) dict = "('k \<times> 'v) list"
type_synonym time = rat

abbreviation dict_get :: "('k, 'v) dict \<Rightarrow> 'k \<Rightarrow> 'v option" where
  "dict_get \<equiv> map_of"

abbreviation dict_set :: "'k \<Rightarrow> 'v \<Rightarrow> ('k, 'v) dict \<Rightarrow> ('k, 'v) dict" where
  "dict_set \<equiv> AList.update"

abbreviation dict_del :: "'k \<Rightarrow> ('k, 'v) dict \<Rightarrow> ('k, 'v) dict" where
  "dict_del \<equiv> AList.delete"

definition dict_keys :: "('k, 'v) dict \<Rightarrow> 'k list" where
  "dict_keys d = map fst d"

definition dict_values :: "('k, 'v) dict \<Rightarrow> 'v list" where
  "dict_values d = map snd d"

definition is_dict :: "('k, 'v) dict \<Rightarrow> bool" where
  "is_dict d \<longleftrightarrow> distinct (map fst d)"

definition the_default :: "'a \<Rightarrow> 'a option \<Rightarrow> 'a" where
  "the_default d x = (case x of None \<Rightarrow> d | Some y \<Rightarrow> y)"

lemma the_default_simps [simp]:
  "the_default d None = d" "the_default d (Some y) = y"
  by (simp_all add: the_default_def)

lemma dict_get_set [dict_simps]:
  "dict_get (dict_set k v d) k' = (if k' = k then Some v else dict_get d k')"
  by (simp add: update_conv')

lemma dict_get_del [dict_simps]:
  "dict_get (dict_del k d) k' = (if k' = k then None else dict_get d k')"
  by (simp add: delete_conv')

lemma is_dict_nil [simp]: "is_dict []"
  by (simp add: is_dict_def)

lemma is_dict_set [simp]: "is_dict d \<Longrightarrow> is_dict (dict_set k v d)"
  by (simp add: is_dict_def distinct_update)

lemma is_dict_del [simp]: "is_dict d \<Longrightarrow> is_dict (dict_del k d)"
  by (simp add: is_dict_def distinct_delete)

lemma in_dict_get: "is_dict d \<Longrightarrow> (k, v) \<in> set d \<longleftrightarrow> dict_get d k = Some v"
  by (simp add: is_dict_def)

lemma dict_set_in: "(a, b) \<in> set (dict_set k v d) \<Longrightarrow> (a = k \<and> b = v) \<or> (a, b) \<in> set d"
  by (induction d) (auto split: if_splits)

lemma dict_set_fresh: "k \<notin> fst ` set d \<Longrightarrow> dict_set k v d = d @ [(k, v)]"
  by (induction d) auto

lemma filter_upt_first:
  assumes "filter P [0..<n] = i # js"
  shows "i < n \<and> P i \<and> (\<forall>j < i. \<not> P j)"
proof -
  obtain us vs where split: "[0..<n] = us @ i # vs" "\<forall>u \<in> set us. \<not> P u" "P i"
    using Cons_eq_filterD [OF assms [symmetric]] by metis
  have len: "length us < n" using arg_cong [OF split(1), of length] by simp
  have "[0..<n] ! length us = i" using split(1) by simp
  then have i: "i = length us" using len by simp
  have "us = take i [0..<n]" using split(1) i by simp
  then have "us = [0..<i]" using len i by simp
  then have "set us = {0..<i}" by (metis set_upt)
  then show ?thesis using split len i by auto
qed

section \<open>Strings\<close>

text \<open>
  A Python string is a list of characters. The names follow \<open>str\<close>: \<open>lower\<close>, \<open>strip\<close>,
  \<open>split(sep)\<close> with a one-character separator, and \<open>split()\<close> on white space. Characters
  stand for the code points below 256, with Python's notions of white space and case on them.
\<close>

definition is_space :: "char \<Rightarrow> bool" where
  "is_space c = (let n = of_char c :: nat in
     (9 \<le> n \<and> n \<le> 13) \<or> (28 \<le> n \<and> n \<le> 32) \<or> n = 133 \<or> n = 160)"

definition lower_char :: "char \<Rightarrow> char" where
  "lower_char c = (let n = of_char c :: nat in
     if (65 \<le> n \<and> n \<le> 90) \<or> (192 \<le> n \<and> n \<le> 222 \<and> n \<noteq> 215) then char_of (n + 32) else c)"

fun words_from :: "string \<Rightarrow> string \<Rightarrow> string list" where
  "words_from w [] = (if w = [] then [] else [rev w])"
| "words_from w (c # cs) =
     (if is_space c then (if w = [] then words_from [] cs else rev w # words_from [] cs)
      else words_from (c # w) cs)"

definition str_words :: "string \<Rightarrow> string list" where
  "str_words s = words_from [] s"

fun str_join :: "string \<Rightarrow> string list \<Rightarrow> string" where
  "str_join sep [] = []"
| "str_join sep [w] = w"
| "str_join sep (w # ws) = w @ sep @ str_join sep ws"

definition str_lower :: "string \<Rightarrow> string" where
  "str_lower s = map lower_char s"

definition str_strip :: "string \<Rightarrow> string" where
  "str_strip s = rev (dropWhile is_space (rev (dropWhile is_space s)))"

fun split_on :: "char \<Rightarrow> string \<Rightarrow> string list" where
  "split_on sep [] = [[]]"
| "split_on sep (c # cs) =
     (if c = sep then [] # split_on sep cs
      else case split_on sep cs of [] \<Rightarrow> [[c]] | w # ws \<Rightarrow> (c # w) # ws)"

definition starts_with :: "string \<Rightarrow> string \<Rightarrow> bool" where
  "starts_with s p \<longleftrightarrow> take (length p) s = p"

definition ends_with :: "string \<Rightarrow> string \<Rightarrow> bool" where
  "ends_with s p \<longleftrightarrow> starts_with (rev s) (rev p)"

fun contains_str :: "string \<Rightarrow> string \<Rightarrow> bool" where
  "contains_str [] p = (p = [])"
| "contains_str (c # cs) p = (starts_with (c # cs) p \<or> contains_str cs p)"

definition or_else :: "string \<Rightarrow> string \<Rightarrow> string" where
  "or_else a b = (if a = [] then b else a)"

definition str_quoted :: "string \<Rightarrow> string" where
  "str_quoted s = [CHR 0x27] @ s @ [CHR 0x27]"

lemma split_on_nonempty [simp]: "split_on sep s \<noteq> []"
  by (cases s) (auto split: list.splits)

lemma starts_with_prefix: "starts_with s p \<longleftrightarrow> prefix p s"
  unfolding starts_with_def prefix_def by (metis append_eq_conv_conj)

lemma starts_with_empty [simp]: "starts_with s []"
  by (simp add: starts_with_def)

lemma starts_with_append [simp]: "starts_with (p @ s) p"
  by (simp add: starts_with_def)

lemma or_else_empty [simp]: "or_else [] b = b"
  by (simp add: or_else_def)

lemma or_else_nonempty [simp]: "a \<noteq> [] \<Longrightarrow> or_else a b = a"
  by (simp add: or_else_def)

section \<open>Contracts shared by the components\<close>

text \<open>
  A component is a state and a function \<open>step\<close> from the state and one call to the next state;
  a history of calls is a list, run by \<open>foldl step\<close>. Each method of the code holds its object's
  lock, so a concurrent execution is one such list.
\<close>

locale op_invariant =
  fixes step :: "'s \<Rightarrow> 'o \<Rightarrow> 's"
    and inv :: "'s \<Rightarrow> bool"
  assumes step_inv: "inv s \<Longrightarrow> inv (step s x)"
begin

lemma run_inv: "inv s \<Longrightarrow> inv (foldl step s xs)"
  by (induction xs arbitrary: s) (auto intro: step_inv)

lemma run_inv_everywhere: "inv s \<Longrightarrow> xs = ys @ zs \<Longrightarrow> inv (foldl step s ys)"
  by (rule run_inv)

end

locale op_latch =
  fixes step :: "'s \<Rightarrow> 'o \<Rightarrow> 's"
    and latched :: "'s \<Rightarrow> bool"
  assumes latch_step: "latched s \<Longrightarrow> latched (step s x)"

sublocale op_latch \<subseteq> latch_inv: op_invariant step latched
  by unfold_locales (rule latch_step)

context op_latch begin

lemma latch_prefix: "latched (foldl step s xs) \<Longrightarrow> latched (foldl step s (xs @ ys))"
  using latch_inv.run_inv [of "foldl step s xs" ys] by simp

end

locale op_monotone =
  fixes step :: "'s \<Rightarrow> 'o \<Rightarrow> 's"
    and quantity :: "'s \<Rightarrow> 'q::preorder"
  assumes step_mono: "quantity s \<le> quantity (step s x)"
begin

lemma run_mono: "quantity s \<le> quantity (foldl step s xs)"
  by (induction xs arbitrary: s) (auto intro: order_trans step_mono)

lemma run_mono_prefix: "quantity (foldl step s xs) \<le> quantity (foldl step s (xs @ ys))"
  using run_mono [of "foldl step s xs" ys] by simp

end

text \<open>
  Operations that may raise: the exception is the left summand, and a history stops at the first
  one, as the exception would stop the caller.
\<close>

fun run_ok :: "('s \<Rightarrow> 'o \<Rightarrow> 'e + 's) \<Rightarrow> 's \<Rightarrow> 'o list \<Rightarrow> 'e + 's" where
  "run_ok step s [] = Inr s"
| "run_ok step s (x # xs) = (case step s x of Inl e \<Rightarrow> Inl e | Inr s' \<Rightarrow> run_ok step s' xs)"

locale raising_invariant =
  fixes step :: "'s \<Rightarrow> 'o \<Rightarrow> 'e + 's"
    and inv :: "'s \<Rightarrow> bool"
  assumes raising_step_inv: "inv s \<Longrightarrow> step s x = Inr s' \<Longrightarrow> inv s'"
begin

lemma run_ok_inv: "inv s \<Longrightarrow> run_ok step s xs = Inr s' \<Longrightarrow> inv s'"
  by (induction xs arbitrary: s) (auto split: sum.splits intro: raising_step_inv)

end

text \<open>
  A component that implements a simpler one: the abstraction of every step is the abstract step.
\<close>

locale data_refinement =
  fixes cstep :: "'c \<Rightarrow> 'o \<Rightarrow> 'c"
    and astep :: "'a \<Rightarrow> 'o \<Rightarrow> 'a"
    and abs_of :: "'c \<Rightarrow> 'a"
    and cinv :: "'c \<Rightarrow> bool"
  assumes cinv_step: "cinv c \<Longrightarrow> cinv (cstep c x)"
    and sim_step: "cinv c \<Longrightarrow> abs_of (cstep c x) = astep (abs_of c) x"

sublocale data_refinement \<subseteq> concrete: op_invariant cstep cinv
  by unfold_locales (rule cinv_step)

context data_refinement begin

lemma run_refines: "cinv c \<Longrightarrow> abs_of (foldl cstep c xs) = foldl astep (abs_of c) xs"
  by (induction xs arbitrary: c) (simp_all add: sim_step cinv_step)

end

end
