(* ===== verification/Circuit_Breaker.thy ===== *)
theory Circuit_Breaker
  imports Grace_Prelude
begin

text \<open>
  \<^verbatim>\<open>core/circuit_breaker.py\<close>: the breaker that ends a run after too many denials, failures or
  too much time. Every method is a function on the record of the breaker's fields; the clock
  that \<open>check\<close> reads is the argument \<open>now\<close>. A trip reason is the constructor of the f-string
  that builds it, with the values the string interpolates. The theory ends with the recovery
  the class documents and the code does not perform: the trip is a latch.
\<close>

section \<open>State\<close>

datatype breaker_state = CLOSED | HALF_OPEN | OPEN

record breaker_config =
  max_consecutive_tool_denials :: int
  max_session_tool_denials :: int
  max_consecutive_subagent_failures :: int
  max_consecutive_tool_errors :: int
  max_elapsed_seconds :: time

definition default_breaker_config :: breaker_config where
  "default_breaker_config =
     \<lparr>max_consecutive_tool_denials = 3, max_session_tool_denials = 20,
      max_consecutive_subagent_failures = 2, max_consecutive_tool_errors = 3,
      max_elapsed_seconds = 0\<rparr>"

datatype trip_cause =
    NotTripped
  | ConsecutiveDenials int int
  | SessionDenials int int
  | SubagentFailures int int
  | ToolErrors int int
  | ElapsedTime time time

record breaker =
  config :: breaker_config
  consecutive_denials :: int
  session_denials :: int
  consecutive_subagent_failures :: int
  consecutive_tool_errors :: int
  br_started_at :: time
  br_state :: breaker_state
  trip_reason :: trip_cause

definition new_breaker :: "breaker_config \<Rightarrow> time \<Rightarrow> breaker" where
  "new_breaker cfg now =
     \<lparr>config = cfg, consecutive_denials = 0, session_denials = 0,
      consecutive_subagent_failures = 0, consecutive_tool_errors = 0,
      br_started_at = now, br_state = CLOSED, trip_reason = NotTripped\<rparr>"

section \<open>Operations\<close>

definition br_elapsed_seconds :: "time \<Rightarrow> breaker \<Rightarrow> time" where
  "br_elapsed_seconds now b = now - br_started_at b"

definition trip_state :: "trip_cause \<Rightarrow> breaker \<Rightarrow> breaker" where
  "trip_state r b = b\<lparr>br_state := OPEN, trip_reason := r\<rparr>"

definition breaker_check :: "time \<Rightarrow> breaker \<Rightarrow> bool \<times> breaker" where
  "breaker_check now b =
     (let cfg = config b in
      if consecutive_denials b \<ge> max_consecutive_tool_denials cfg then
        (True, trip_state (ConsecutiveDenials (consecutive_denials b)
                             (max_consecutive_tool_denials cfg)) b)
      else if session_denials b \<ge> max_session_tool_denials cfg then
        (True, trip_state (SessionDenials (session_denials b) (max_session_tool_denials cfg)) b)
      else if consecutive_subagent_failures b \<ge> max_consecutive_subagent_failures cfg then
        (True, trip_state (SubagentFailures (consecutive_subagent_failures b)
                             (max_consecutive_subagent_failures cfg)) b)
      else if consecutive_tool_errors b \<ge> max_consecutive_tool_errors cfg then
        (True, trip_state (ToolErrors (consecutive_tool_errors b)
                             (max_consecutive_tool_errors cfg)) b)
      else if max_elapsed_seconds cfg > 0 \<and> br_elapsed_seconds now b \<ge> max_elapsed_seconds cfg then
        (True, trip_state (ElapsedTime (br_elapsed_seconds now b) (max_elapsed_seconds cfg)) b)
      else (False, b))"

definition is_tripped :: "time \<Rightarrow> breaker \<Rightarrow> bool \<times> breaker" where
  "is_tripped now b = (let b' = snd (breaker_check now b) in (br_state b' = OPEN, b'))"

definition record_denial :: "time \<Rightarrow> breaker \<Rightarrow> breaker" where
  "record_denial now b =
     snd (breaker_check now (b\<lparr>consecutive_denials := consecutive_denials b + 1,
                              session_denials := session_denials b + 1\<rparr>))"

definition record_approval :: "breaker \<Rightarrow> breaker" where
  "record_approval b = b\<lparr>consecutive_denials := 0\<rparr>"

definition record_subagent_failure :: "time \<Rightarrow> breaker \<Rightarrow> breaker" where
  "record_subagent_failure now b =
     snd (breaker_check now
            (b\<lparr>consecutive_subagent_failures := consecutive_subagent_failures b + 1\<rparr>))"

definition record_subagent_success :: "breaker \<Rightarrow> breaker" where
  "record_subagent_success b = b\<lparr>consecutive_subagent_failures := 0\<rparr>"

definition record_tool_error :: "time \<Rightarrow> breaker \<Rightarrow> breaker" where
  "record_tool_error now b =
     snd (breaker_check now (b\<lparr>consecutive_tool_errors := consecutive_tool_errors b + 1\<rparr>))"

definition record_tool_success :: "breaker \<Rightarrow> breaker" where
  "record_tool_success b = b\<lparr>consecutive_tool_errors := 0\<rparr>"

definition clone_for_subagent :: "time \<Rightarrow> breaker \<Rightarrow> breaker" where
  "clone_for_subagent now b = new_breaker (config b) now"

definition is_gate_enabled :: "breaker \<Rightarrow> bool" where
  "is_gate_enabled b \<longleftrightarrow> br_state b \<noteq> OPEN"

text \<open>One call on a breaker, and what it does to the breaker.\<close>

datatype breaker_call =
    RecordDenial time
  | RecordApproval
  | RecordSubagentFailure time
  | RecordSubagentSuccess
  | RecordToolError time
  | RecordToolSuccess
  | CheckBreaker time

fun breaker_step :: "breaker \<Rightarrow> breaker_call \<Rightarrow> breaker" where
  "breaker_step b (RecordDenial t) = record_denial t b"
| "breaker_step b RecordApproval = record_approval b"
| "breaker_step b (RecordSubagentFailure t) = record_subagent_failure t b"
| "breaker_step b RecordSubagentSuccess = record_subagent_success b"
| "breaker_step b (RecordToolError t) = record_tool_error t b"
| "breaker_step b RecordToolSuccess = record_tool_success b"
| "breaker_step b (CheckBreaker t) = snd (breaker_check t b)"

fun is_denial :: "breaker_call \<Rightarrow> bool" where
  "is_denial (RecordDenial t) = True"
| "is_denial _ = False"

section \<open>Lemmas\<close>

definition over_threshold :: "time \<Rightarrow> breaker \<Rightarrow> bool" where
  "over_threshold now b \<longleftrightarrow>
     consecutive_denials b \<ge> max_consecutive_tool_denials (config b)
     \<or> session_denials b \<ge> max_session_tool_denials (config b)
     \<or> consecutive_subagent_failures b \<ge> max_consecutive_subagent_failures (config b)
     \<or> consecutive_tool_errors b \<ge> max_consecutive_tool_errors (config b)
     \<or> (max_elapsed_seconds (config b) > 0
        \<and> br_elapsed_seconds now b \<ge> max_elapsed_seconds (config b))"

lemmas breaker_op_defs =
  record_denial_def record_approval_def record_subagent_failure_def record_subagent_success_def
  record_tool_error_def record_tool_success_def

lemma fst_breaker_check: "fst (breaker_check now b) \<longleftrightarrow> over_threshold now b"
  by (simp add: breaker_check_def over_threshold_def Let_def)

lemma br_state_check [simp]:
  "br_state (snd (breaker_check now b)) = (if over_threshold now b then OPEN else br_state b)"
  by (auto simp: breaker_check_def over_threshold_def trip_state_def Let_def)

lemma breaker_check_frame [simp]:
  "config (snd (breaker_check now b)) = config b"
  "consecutive_denials (snd (breaker_check now b)) = consecutive_denials b"
  "session_denials (snd (breaker_check now b)) = session_denials b"
  "consecutive_subagent_failures (snd (breaker_check now b)) = consecutive_subagent_failures b"
  "consecutive_tool_errors (snd (breaker_check now b)) = consecutive_tool_errors b"
  "br_started_at (snd (breaker_check now b)) = br_started_at b"
  by (simp_all add: breaker_check_def trip_state_def Let_def)

lemma breaker_step_open: "br_state b = OPEN \<Longrightarrow> br_state (breaker_step b c) = OPEN"
  by (cases c) (simp_all add: breaker_op_defs)

lemma breaker_step_not_half: "br_state b \<noteq> HALF_OPEN \<Longrightarrow> br_state (breaker_step b c) \<noteq> HALF_OPEN"
  by (cases c) (simp_all add: breaker_op_defs)

lemma breaker_step_session_denials:
  "session_denials (breaker_step b c) = session_denials b + (if is_denial c then 1 else 0)"
  by (cases c) (simp_all add: breaker_op_defs)

lemma breaker_step_config [simp]: "config (breaker_step b c) = config b"
  by (cases c) (simp_all add: breaker_op_defs)

interpretation breaker_latch: op_latch breaker_step "\<lambda>b. br_state b = OPEN"
  by unfold_locales (rule breaker_step_open)

interpretation breaker_two_state: op_invariant breaker_step "\<lambda>b. br_state b \<noteq> HALF_OPEN"
  by unfold_locales (rule breaker_step_not_half)

interpretation breaker_denials: op_monotone breaker_step session_denials
  by unfold_locales (simp add: breaker_step_session_denials)

lemma foldl_breaker_config [simp]: "config (foldl breaker_step b cs) = config b"
  by (induction cs arbitrary: b) simp_all

lemma foldl_session_denials:
  "session_denials (foldl breaker_step b cs)
     = session_denials b + int (length (filter is_denial cs))"
  by (induction cs arbitrary: b) (simp_all add: breaker_step_session_denials)

text \<open>
  The state that decides a trip is the one after the counters moved and before \<open>check\<close> wrote the
  state; \<open>check\<close> leaves the counters alone, so it can be read after the call as well.
\<close>

fun call_time :: "breaker_call \<Rightarrow> time option" where
  "call_time (RecordDenial t) = Some t"
| "call_time (RecordSubagentFailure t) = Some t"
| "call_time (RecordToolError t) = Some t"
| "call_time (CheckBreaker t) = Some t"
| "call_time _ = None"

definition trips :: "breaker \<Rightarrow> breaker_call \<Rightarrow> bool" where
  "trips b c = (case call_time c of None \<Rightarrow> False | Some t \<Rightarrow> over_threshold t (breaker_step b c))"

lemma over_threshold_check [simp]:
  "over_threshold t (snd (breaker_check now b)) = over_threshold t b"
  by (simp add: over_threshold_def br_elapsed_seconds_def)

lemma breaker_step_state:
  "br_state (breaker_step b c) = (if trips b c then OPEN else br_state b)"
  by (cases c) (simp_all add: trips_def breaker_op_defs)

section \<open>Properties\<close>

text \<open>
  The trip is a latch and the only way into OPEN: after any history of calls on a new breaker
  the state is OPEN exactly when some call of the history that checks found a counter at its
  threshold (or the time limit reached) after it had moved the counters; otherwise it is CLOSED.
  In particular no recorded success ever closes the breaker again.
\<close>

theorem breaker_open_iff_tripped:
  "br_state (foldl breaker_step (new_breaker cfg t0) cs) =
     (if \<exists>pre c post. cs = pre @ c # post
          \<and> trips (foldl breaker_step (new_breaker cfg t0) pre) c
      then OPEN else CLOSED)"
proof (induction cs rule: rev_induct)
  case Nil
  then show ?case by (simp add: new_breaker_def)
next
  case (snoc d ds)
  let ?b = "foldl breaker_step (new_breaker cfg t0)"
  let ?P = "\<lambda>cs. \<exists>pre c post. cs = pre @ c # post \<and> trips (?b pre) c"
  have split: "?P (ds @ [d]) \<longleftrightarrow> ?P ds \<or> trips (?b ds) d"
  proof
    assume "?P (ds @ [d])"
    then obtain pre c post where *: "ds @ [d] = pre @ c # post" "trips (?b pre) c" by blast
    then show "?P ds \<or> trips (?b ds) d"
      by (cases post rule: rev_cases) auto
  next
    assume "?P ds \<or> trips (?b ds) d"
    then show "?P (ds @ [d])" by (metis append_Cons append_assoc)
  qed
  have "br_state (?b (ds @ [d])) = (if trips (?b ds) d then OPEN else br_state (?b ds))"
    by (simp add: breaker_step_state)
  also have "\<dots> = (if ?P (ds @ [d]) then OPEN else CLOSED)"
    unfolding split snoc.IH by simp
  finally show ?case .
qed

text \<open>
  The session's denial count is exactly the number of recorded denials, whatever else is
  recorded between them: no approval or success lowers it, and a breaker whose history holds the
  configured number of denials is OPEN however they are interleaved with successes.
\<close>

theorem session_denials_never_forgiven:
  assumes "max_session_tool_denials cfg \<ge> 1"
    and "int (length (filter is_denial cs)) \<ge> max_session_tool_denials cfg"
  shows "br_state (foldl breaker_step (new_breaker cfg t0) cs) = OPEN
    \<and> session_denials (foldl breaker_step (new_breaker cfg t0) cs)
        = int (length (filter is_denial cs))"
proof -
  let ?b = "foldl breaker_step (new_breaker cfg t0)"
  have count: "session_denials (?b cs) = int (length (filter is_denial cs))" for cs
    by (simp add: foldl_session_denials new_breaker_def)
  have "br_state (?b cs) = OPEN"
    using assms
  proof (induction cs rule: rev_induct)
    case Nil
    then show ?case by simp
  next
    case (snoc c cs)
    show ?case
    proof (cases "is_denial c")
      case True
      then obtain t where c: "c = RecordDenial t" by (cases c) auto
      have "session_denials (?b (cs @ [c])) \<ge> max_session_tool_denials (config (?b (cs @ [c])))"
        using snoc.prems by (simp only: count foldl_breaker_config) (simp add: new_breaker_def)
      then have "trips (?b cs) c" by (simp add: trips_def c over_threshold_def)
      then show ?thesis by (simp add: breaker_step_state)
    next
      case False
      with snoc show ?thesis by (simp add: breaker_step_open)
    qed
  qed
  then show ?thesis using count by blast
qed

theorem session_denials_never_forgiven_witness:
  "br_state (foldl breaker_step (new_breaker (default_breaker_config
       \<lparr>max_session_tool_denials := 2\<rparr>) 0)
       [RecordDenial 1, RecordApproval, RecordToolSuccess, RecordDenial 2, RecordApproval]) = OPEN"
  using session_denials_never_forgiven
    [of "default_breaker_config\<lparr>max_session_tool_denials := 2\<rparr>"
      "[RecordDenial 1, RecordApproval, RecordToolSuccess, RecordDenial 2, RecordApproval]" 0]
  by (simp add: default_breaker_config_def)

text \<open>
  \<open>check\<close> and \<open>is_tripped\<close> disagree exactly on a breaker that is OPEN while every counter is
  below its threshold again, and such a breaker is reachable from a new one with the default
  configuration: three denials and one approval. There \<open>check\<close>, which the main loop and the
  state machine's guard ask, answers that the agent may go on although the state is OPEN.
\<close>

theorem check_ignores_open_state:
  "(fst (is_tripped now b) \<noteq> fst (breaker_check now b)
      \<longleftrightarrow> br_state b = OPEN \<and> \<not> over_threshold now b)
   \<and> (\<exists>cs. fst (is_tripped now (foldl breaker_step (new_breaker default_breaker_config t0) cs))
        \<and> \<not> fst (breaker_check now (foldl breaker_step (new_breaker default_breaker_config t0) cs)))"
proof
  show "fst (is_tripped now b) \<noteq> fst (breaker_check now b)
      \<longleftrightarrow> br_state b = OPEN \<and> \<not> over_threshold now b"
    by (auto simp: is_tripped_def fst_breaker_check Let_def)
next
  let ?b = "foldl breaker_step (new_breaker default_breaker_config t0)
      [RecordDenial t0, RecordDenial t0, RecordDenial t0, RecordApproval]"
  have "fst (is_tripped now ?b) \<and> \<not> fst (breaker_check now ?b)"
    by (simp add: is_tripped_def fst_breaker_check over_threshold_def breaker_op_defs
        new_breaker_def default_breaker_config_def breaker_check_def trip_state_def Let_def)
  then show "\<exists>cs. fst (is_tripped now (foldl breaker_step (new_breaker default_breaker_config t0) cs))
        \<and> \<not> fst (breaker_check now (foldl breaker_step (new_breaker default_breaker_config t0) cs))"
    by blast
qed

end
