(* ===== verification/Exec_Budget.thy ===== *)
theory Exec_Budget
  imports Grace_Prelude
begin

text \<open>
  \<^verbatim>\<open>agent/session/execution_budget.py\<close>: the token, step and time budget a run shares with its
  subagents. A \<open>BudgetReservation\<close> object is an entry of the budget's list of reservations, named
  by its index; the clock is the argument \<open>now\<close>; a message is the constructor of the text the code
  builds, with the values it interpolates. The lemmas keep the reserve ledger, order the levels and
  show that each escalation message is injected once.
\<close>

section \<open>Levels, states and configuration\<close>

datatype budget_level = COMFORTABLE | WARNING | CRITICAL | EXHAUSTED

fun level_rank :: "budget_level \<Rightarrow> nat" where
  "level_rank COMFORTABLE = 0"
| "level_rank WARNING = 1"
| "level_rank CRITICAL = 2"
| "level_rank EXHAUSTED = 3"

lemma level_rank_inject: "level_rank a = level_rank b \<Longrightarrow> a = b"
  by (cases a; cases b) simp_all

instantiation budget_level :: linorder
begin

definition less_eq_budget_level :: "budget_level \<Rightarrow> budget_level \<Rightarrow> bool" where
  "less_eq_budget_level a b \<longleftrightarrow> level_rank a \<le> level_rank b"

definition less_budget_level :: "budget_level \<Rightarrow> budget_level \<Rightarrow> bool" where
  "less_budget_level a b \<longleftrightarrow> level_rank a < level_rank b"

instance
  by intro_classes (auto simp: less_eq_budget_level_def less_budget_level_def level_rank_inject)

end

datatype budget_state = BS_PENDING | BS_RUNNING | BS_EXHAUSTED | BS_COMPLETED

record budget_config =
  token_limit :: int
  step_limit :: int
  time_limit_seconds :: time
  warning_threshold :: rat
  critical_threshold :: rat

definition default_budget_config :: budget_config where
  "default_budget_config =
     \<lparr>token_limit = 200000, step_limit = 100, time_limit_seconds = 1800,
      warning_threshold = 80 / 100, critical_threshold = 95 / 100\<rparr>"

record budget_usage =
  productive_steps :: int
  retry_steps :: int
  overhead_tokens :: int
  subagent_tokens :: int

definition total_steps :: "budget_usage \<Rightarrow> int" where
  "total_steps u = productive_steps u + retry_steps u"

record reservation =
  reserved_tokens :: int
  settled :: bool

datatype warning_part =
    TokensPart int int rat int
  | StepsPart int int rat int
  | TimePart time time

datatype dominant_factor = OverallBudget | TokenBudget | StepBudget

datatype budget_message =
    NoMessage
  | WarningMessage "warning_part list"
  | CriticalMessage dominant_factor int int int int time
  | ExhaustedMessage int int int int time

record exec_budget =
  bcfg :: budget_config
  bstate :: budget_state
  token_used :: int
  steps_taken :: int
  bstarted_at :: time
  bcompleted_at :: time
  last_level :: budget_level
  warning_injected :: bool
  critical_injected :: bool
  force_finish_injected :: bool
  token_reserved :: int
  usage :: budget_usage
  reservations :: "reservation list"

definition new_budget :: "budget_config \<Rightarrow> exec_budget" where
  "new_budget cfg =
     \<lparr>bcfg = cfg, bstate = BS_PENDING, token_used = 0, steps_taken = 0, bstarted_at = 0,
      bcompleted_at = 0, last_level = COMFORTABLE, warning_injected = False,
      critical_injected = False, force_finish_injected = False, token_reserved = 0,
      usage = \<lparr>productive_steps = 0, retry_steps = 0, overhead_tokens = 0, subagent_tokens = 0\<rparr>,
      reservations = []\<rparr>"

record budget_status =
  level :: budget_level
  st_token_used :: int
  st_token_limit :: int
  st_steps_taken :: int
  st_step_limit :: int
  st_elapsed_seconds :: time
  st_time_limit_s :: time
  inject_message :: budget_message

definition status_is_exhausted :: "budget_status \<Rightarrow> bool" where
  "status_is_exhausted s \<longleftrightarrow> level s = EXHAUSTED"

definition token_percent :: "budget_status \<Rightarrow> rat" where
  "token_percent s =
     (if st_token_limit s \<le> 0 then 0
      else min 100 (of_int (st_token_used s) / of_int (st_token_limit s) * 100))"

definition step_percent :: "budget_status \<Rightarrow> rat" where
  "step_percent s =
     (if st_step_limit s \<le> 0 then 0
      else min 100 (of_int (st_steps_taken s) / of_int (st_step_limit s) * 100))"

section \<open>Operations\<close>

text \<open>\<open>core/time_utils.py\<close>.\<close>

definition elapsed_interval :: "time \<Rightarrow> time \<Rightarrow> time \<Rightarrow> time" where
  "elapsed_interval now started completed =
     (if started = 0 then 0 else (if completed > 0 then completed else now) - started)"

definition elapsed_seconds :: "time \<Rightarrow> exec_budget \<Rightarrow> time" where
  "elapsed_seconds now b = elapsed_interval now (bstarted_at b) (bcompleted_at b)"

definition token_remaining :: "exec_budget \<Rightarrow> int" where
  "token_remaining b = max 0 (token_limit (bcfg b) - token_used b - token_reserved b)"

definition steps_remaining :: "exec_budget \<Rightarrow> int" where
  "steps_remaining b = max 0 (step_limit (bcfg b) - steps_taken b)"

definition is_exhausted :: "exec_budget \<Rightarrow> bool" where
  "is_exhausted b \<longleftrightarrow> bstate b = BS_EXHAUSTED"

definition start :: "time \<Rightarrow> exec_budget \<Rightarrow> exec_budget" where
  "start now b = b\<lparr>bstate := BS_RUNNING, bstarted_at := now\<rparr>"

definition complete :: "time \<Rightarrow> exec_budget \<Rightarrow> exec_budget" where
  "complete now b = b\<lparr>bstate := BS_COMPLETED, bcompleted_at := now\<rparr>"

definition exhaust :: "time \<Rightarrow> exec_budget \<Rightarrow> exec_budget" where
  "exhaust now b = b\<lparr>bstate := BS_EXHAUSTED, bcompleted_at := now\<rparr>"

definition consume :: "int \<Rightarrow> exec_budget \<Rightarrow> exec_budget" where
  "consume n b = b\<lparr>token_used := token_used b + max 0 n\<rparr>"

definition record_retry_step :: "exec_budget \<Rightarrow> exec_budget" where
  "record_retry_step b = b\<lparr>usage := (usage b)\<lparr>retry_steps := retry_steps (usage b) + 1\<rparr>\<rparr>"

definition record_overhead_tokens :: "int \<Rightarrow> exec_budget \<Rightarrow> exec_budget" where
  "record_overhead_tokens n b =
     b\<lparr>usage := (usage b)\<lparr>overhead_tokens := overhead_tokens (usage b) + n\<rparr>\<rparr>"

definition record_subagent_tokens :: "int \<Rightarrow> exec_budget \<Rightarrow> exec_budget" where
  "record_subagent_tokens n b =
     b\<lparr>usage := (usage b)\<lparr>subagent_tokens := subagent_tokens (usage b) + n\<rparr>\<rparr>"

definition record_step :: "bool \<Rightarrow> exec_budget \<Rightarrow> int \<times> exec_budget" where
  "record_step retry b =
     (let b' = b\<lparr>steps_taken := steps_taken b + 1\<rparr>;
          u = usage b' in
      (steps_taken b',
       if retry then b'\<lparr>usage := u\<lparr>retry_steps := retry_steps u + 1\<rparr>\<rparr>
       else b'\<lparr>usage := u\<lparr>productive_steps := productive_steps u + 1\<rparr>\<rparr>))"

datatype reserve_error = NonPositiveReservation | ReservationTooLarge int int

definition reserve_tokens :: "int \<Rightarrow> exec_budget \<Rightarrow> reserve_error + nat \<times> exec_budget" where
  "reserve_tokens tokens b =
     (let requested = max 0 tokens in
      if requested \<le> 0 then Inl NonPositiveReservation
      else let available = max 0 (token_limit (bcfg b) - token_used b - token_reserved b) in
        if requested > available then Inl (ReservationTooLarge requested available)
        else Inr (length (reservations b),
               b\<lparr>token_reserved := token_reserved b + requested,
                 reservations := reservations b
                   @ [\<lparr>reserved_tokens = requested, settled = False\<rparr>]\<rparr>))"

definition settle_reservation :: "int \<Rightarrow> int \<Rightarrow> exec_budget \<Rightarrow> exec_budget" where
  "settle_reservation reserved actual b =
     (let u = usage b in
      b\<lparr>token_reserved := max 0 (token_reserved b - max 0 reserved),
        token_used := token_used b + max 0 actual,
        usage := u\<lparr>subagent_tokens := subagent_tokens u + max 0 actual\<rparr>\<rparr>)"

definition settle :: "nat \<Rightarrow> int \<Rightarrow> exec_budget \<Rightarrow> exec_budget" where
  "settle i actual b =
     (if i < length (reservations b) then
        (let r = reservations b ! i in
         if settled r then b
         else settle_reservation (reserved_tokens r) (max 0 actual)
                (b\<lparr>reservations := (reservations b)[i := r\<lparr>settled := True\<rparr>]\<rparr>))
      else b)"

definition release :: "nat \<Rightarrow> exec_budget \<Rightarrow> exec_budget" where
  "release i b = settle i 0 b"

section \<open>The level check\<close>

definition token_pct :: "exec_budget \<Rightarrow> rat" where
  "token_pct b = of_int (token_used b + token_reserved b) / of_int (max 1 (token_limit (bcfg b)))"

definition step_pct :: "exec_budget \<Rightarrow> rat" where
  "step_pct b = of_int (steps_taken b) / of_int (max 1 (step_limit (bcfg b)))"

definition time_pct :: "time \<Rightarrow> exec_budget \<Rightarrow> rat" where
  "time_pct now b =
     (if time_limit_seconds (bcfg b) > 0
      then elapsed_seconds now b / time_limit_seconds (bcfg b) else 0)"

definition level_of :: "budget_config \<Rightarrow> rat \<Rightarrow> budget_level" where
  "level_of cfg max_pct =
     (if max_pct \<ge> 1 then EXHAUSTED
      else if max_pct \<ge> critical_threshold cfg then CRITICAL
      else if max_pct \<ge> warning_threshold cfg then WARNING
      else COMFORTABLE)"

definition build_warning_message :: "time \<Rightarrow> exec_budget \<Rightarrow> budget_message" where
  "build_warning_message now b =
     (let w = warning_threshold (bcfg b) in
      WarningMessage
        ((if token_pct b \<ge> w then
            [TokensPart (token_used b) (token_limit (bcfg b)) (token_pct b * 100) (token_remaining b)]
          else [])
         @ (if step_pct b \<ge> w then
              [StepsPart (steps_taken b) (step_limit (bcfg b)) (step_pct b * 100) (steps_remaining b)]
            else [])
         @ (if time_pct now b \<ge> w then
              [TimePart (elapsed_seconds now b) (time_limit_seconds (bcfg b))]
            else [])))"

definition build_critical_message :: "time \<Rightarrow> exec_budget \<Rightarrow> budget_message" where
  "build_critical_message now b =
     (let dominant =
        (if token_pct b \<ge> step_pct b \<and> token_pct b \<ge> time_pct now b then TokenBudget
         else if step_pct b \<ge> time_pct now b then StepBudget
         else OverallBudget) in
      CriticalMessage dominant (token_used b) (token_limit (bcfg b)) (steps_taken b)
        (step_limit (bcfg b)) (elapsed_seconds now b))"

definition build_exhausted_message :: "time \<Rightarrow> exec_budget \<Rightarrow> budget_message" where
  "build_exhausted_message now b =
     ExhaustedMessage (token_used b) (token_limit (bcfg b)) (steps_taken b) (step_limit (bcfg b))
       (elapsed_seconds now b)"

definition make_status ::
  "time \<Rightarrow> exec_budget \<Rightarrow> budget_level \<Rightarrow> budget_message \<Rightarrow> budget_status" where
  "make_status now b lev msg =
     \<lparr>level = lev, st_token_used = token_used b, st_token_limit = token_limit (bcfg b),
      st_steps_taken = steps_taken b, st_step_limit = step_limit (bcfg b),
      st_elapsed_seconds = elapsed_seconds now b,
      st_time_limit_s = time_limit_seconds (bcfg b), inject_message = msg\<rparr>"

definition budget_check :: "time \<Rightarrow> exec_budget \<Rightarrow> budget_status \<times> exec_budget" where
  "budget_check now b =
     (if bstate b \<noteq> BS_RUNNING then (make_status now b COMFORTABLE NoMessage, b)
      else
        let max_pct = max (token_pct b) (max (step_pct b) (time_pct now b));
            lev = level_of (bcfg b) max_pct;
            (msg, b1) =
              (if lev = EXHAUSTED \<and> \<not> force_finish_injected b then
                 (build_exhausted_message now b,
                  b\<lparr>force_finish_injected := True, bstate := BS_EXHAUSTED\<rparr>)
               else if lev = CRITICAL \<and> \<not> critical_injected b then
                 (build_critical_message now b, b\<lparr>critical_injected := True\<rparr>)
               else if lev = WARNING \<and> \<not> warning_injected b then
                 (build_warning_message now b, b\<lparr>warning_injected := True\<rparr>)
               else (NoMessage, b));
            b2 = (if lev \<noteq> last_level b1 then b1\<lparr>last_level := lev\<rparr> else b1)
        in (make_status now b2 lev msg, b2))"

text \<open>The terminating message of \<open>exhausted_terminate_message\<close> is a constant text.\<close>

datatype terminate_message = ExhaustedTerminateMessage

definition exhausted_terminate_message :: terminate_message where
  "exhausted_terminate_message = ExhaustedTerminateMessage"

section \<open>Histories of calls\<close>

datatype budget_call =
    Start time
  | Complete time
  | Exhaust time
  | Consume int
  | Reserve int
  | Settle nat int
  | Release nat
  | RecordStep bool
  | RecordRetryStep
  | RecordOverhead int
  | RecordSubagent int
  | CheckBudget time

fun budget_step :: "exec_budget \<Rightarrow> budget_call \<Rightarrow> exec_budget" where
  "budget_step b (Start t) = start t b"
| "budget_step b (Complete t) = complete t b"
| "budget_step b (Exhaust t) = exhaust t b"
| "budget_step b (Consume n) = consume n b"
| "budget_step b (Reserve n) = (case reserve_tokens n b of Inl e \<Rightarrow> b | Inr (i, b') \<Rightarrow> b')"
| "budget_step b (Settle i n) = settle i n b"
| "budget_step b (Release i) = release i b"
| "budget_step b (RecordStep retry) = snd (record_step retry b)"
| "budget_step b RecordRetryStep = record_retry_step b"
| "budget_step b (RecordOverhead n) = record_overhead_tokens n b"
| "budget_step b (RecordSubagent n) = record_subagent_tokens n b"
| "budget_step b (CheckBudget t) = snd (budget_check t b)"

fun injected_by :: "exec_budget \<Rightarrow> budget_call \<Rightarrow> budget_message" where
  "injected_by b (CheckBudget t) = inject_message (fst (budget_check t b))"
| "injected_by b _ = NoMessage"

fun injections :: "exec_budget \<Rightarrow> budget_call list \<Rightarrow> budget_message list" where
  "injections b [] = []"
| "injections b (c # cs) = injected_by b c # injections (budget_step b c) cs"

section \<open>The reserve ledger\<close>

definition outstanding :: "exec_budget \<Rightarrow> int" where
  "outstanding b = sum_list (map (\<lambda>r. if settled r then 0 else reserved_tokens r) (reservations b))"

definition budget_ledger :: "exec_budget \<Rightarrow> bool" where
  "budget_ledger b \<longleftrightarrow>
     token_reserved b = outstanding b \<and> 0 \<le> token_used b
     \<and> (\<forall>r \<in> set (reservations b). 0 < reserved_tokens r)"

lemmas budget_op_defs =
  start_def complete_def exhaust_def consume_def record_retry_step_def record_overhead_tokens_def
  record_subagent_tokens_def record_step_def reserve_tokens_def settle_reservation_def release_def

lemma sum_list_update_int:
  "i < length xs \<Longrightarrow> sum_list (xs[i := (y :: int)]) = sum_list xs - xs ! i + y"
  by (induction xs arbitrary: i) (auto split: nat.splits)

lemma sum_list_nth_le_int:
  "i < length xs \<Longrightarrow> (\<forall>x \<in> set xs. (0 :: int) \<le> x) \<Longrightarrow> xs ! i \<le> sum_list xs"
proof (induction xs arbitrary: i)
  case (Cons x xs)
  have "0 \<le> sum_list xs" using Cons.prems(2) by (auto intro: sum_list_nonneg)
  then show ?case using Cons by (cases i) (auto simp: add_increasing)
qed simp

lemma outstanding_settle:
  assumes "i < length (reservations b)" "\<not> settled (reservations b ! i)"
  shows "outstanding (b\<lparr>reservations := (reservations b)[i := (reservations b ! i)\<lparr>settled := True\<rparr>]\<rparr>)
    = outstanding b - reserved_tokens (reservations b ! i)"
  using assms by (simp add: outstanding_def map_update sum_list_update_int)

lemma outstanding_ge:
  assumes "budget_ledger b" "i < length (reservations b)" "\<not> settled (reservations b ! i)"
  shows "reserved_tokens (reservations b ! i) \<le> outstanding b"
proof -
  let ?xs = "map (\<lambda>r. if settled r then 0 else reserved_tokens r) (reservations b)"
  have "?xs ! i \<le> sum_list ?xs"
    by (rule sum_list_nth_le_int)
      (use assms in \<open>auto simp: budget_ledger_def intro: less_imp_le\<close>)
  then show ?thesis using assms by (simp add: outstanding_def)
qed

lemma outstanding_nonneg: "budget_ledger b \<Longrightarrow> 0 \<le> outstanding b"
  unfolding budget_ledger_def outstanding_def
  by (intro sum_list_nonneg) (auto intro: less_imp_le)

lemma outstanding_cong: "reservations b = reservations b' \<Longrightarrow> outstanding b = outstanding b'"
  by (simp add: outstanding_def)

lemma settle_open:
  assumes "budget_ledger b" "i < length (reservations b)" "\<not> settled (reservations b ! i)"
  shows "token_reserved (settle i n b) = token_reserved b - reserved_tokens (reservations b ! i)"
    and "token_used (settle i n b) = token_used b + max 0 n"
    and "reservations (settle i n b)
      = (reservations b)[i := (reservations b ! i)\<lparr>settled := True\<rparr>]"
    and "bcfg (settle i n b) = bcfg b"
proof -
  have "0 < reserved_tokens (reservations b ! i)"
    using assms by (simp add: budget_ledger_def)
  moreover have "reserved_tokens (reservations b ! i) \<le> token_reserved b"
    using assms outstanding_ge [OF assms] by (simp add: budget_ledger_def)
  ultimately show "token_reserved (settle i n b)
      = token_reserved b - reserved_tokens (reservations b ! i)"
    using assms by (simp add: settle_def settle_reservation_def Let_def)
qed (use assms in \<open>simp_all add: settle_def settle_reservation_def Let_def\<close>)

lemma settle_closed:
  "i < length (reservations b) \<Longrightarrow> settled (reservations b ! i) \<Longrightarrow> settle i n b = b"
  "\<not> i < length (reservations b) \<Longrightarrow> settle i n b = b"
  by (simp_all add: settle_def Let_def)

lemma settle_ledger:
  assumes "budget_ledger b"
  shows "budget_ledger (settle i n b)"
proof (cases "i < length (reservations b) \<and> \<not> settled (reservations b ! i)")
  case True
  then have "outstanding (settle i n b) = outstanding b - reserved_tokens (reservations b ! i)"
    using outstanding_settle [of i b] settle_open(3) [OF assms, of i n]
    by (simp add: outstanding_def)
  moreover have "\<forall>r \<in> set (reservations (settle i n b)). 0 < reserved_tokens r"
    using True assms settle_open(3) [OF assms, of i n]
    by (auto simp: budget_ledger_def dest!: set_update_subset_insert [THEN subsetD])
  ultimately show ?thesis
    using True assms by (simp add: budget_ledger_def settle_open)
next
  case False
  then show ?thesis using assms settle_closed by metis
qed

lemma reserve_ledger:
  "budget_ledger b \<Longrightarrow> reserve_tokens n b = Inr (i, b') \<Longrightarrow> budget_ledger b'"
  by (auto simp: budget_ledger_def reserve_tokens_def outstanding_def Let_def split: if_splits)

lemma check_counters [simp]:
  "token_used (snd (budget_check t b)) = token_used b"
  "token_reserved (snd (budget_check t b)) = token_reserved b"
  "reservations (snd (budget_check t b)) = reservations b"
  "steps_taken (snd (budget_check t b)) = steps_taken b"
  "bcfg (snd (budget_check t b)) = bcfg b"
  by (simp_all add: budget_check_def Let_def split: prod.splits)

lemma budget_step_ledger: "budget_ledger b \<Longrightarrow> budget_ledger (budget_step b c)"
proof (cases c)
  case (Reserve n)
  then show "budget_ledger b \<Longrightarrow> ?thesis"
    by (auto split: sum.splits intro: reserve_ledger)
next
  case (Settle i n)
  then show "budget_ledger b \<Longrightarrow> ?thesis" by (simp add: settle_ledger)
next
  case (Release i)
  then show "budget_ledger b \<Longrightarrow> ?thesis" by (simp add: settle_ledger release_def)
qed (simp_all add: budget_ledger_def outstanding_def budget_op_defs Let_def)

interpretation budget_books: op_invariant budget_step budget_ledger
  by unfold_locales (rule budget_step_ledger)

lemma new_budget_ledger: "budget_ledger (new_budget cfg)"
  by (simp add: budget_ledger_def outstanding_def new_budget_def)

text \<open>
  After any sequence of calls the tokens held in reserve are exactly the sum of the
  reservations not yet settled, so settling (once, twice, or as a release) never frees tokens
  that another child still holds, and the clamping at zero in the settlement never acts.
\<close>

theorem reserve_ledger_exact:
  "let b = foldl budget_step (new_budget cfg) cs in
     token_reserved b
       = sum_list (map (\<lambda>r. if settled r then 0 else reserved_tokens r) (reservations b))
     \<and> 0 \<le> token_used b"
  using budget_books.run_inv [OF new_budget_ledger, of cfg cs]
  by (simp add: budget_ledger_def outstanding_def Let_def)

section \<open>No overcommitment\<close>

text \<open>
  A caller is disciplined when it consumes no more than what remains and a child settles for no
  more than it reserved. Reservations need no discipline: the budget refuses those it cannot hold.
\<close>

fun disciplined_call :: "exec_budget \<Rightarrow> budget_call \<Rightarrow> bool" where
  "disciplined_call b (Consume n) = (n \<le> token_remaining b)"
| "disciplined_call b (Settle i n) =
     (i < length (reservations b) \<longrightarrow> n \<le> reserved_tokens (reservations b ! i))"
| "disciplined_call b _ = True"

fun disciplined :: "exec_budget \<Rightarrow> budget_call list \<Rightarrow> bool" where
  "disciplined b [] = True"
| "disciplined b (c # cs) = (disciplined_call b c \<and> disciplined (budget_step b c) cs)"

definition within_limit :: "exec_budget \<Rightarrow> bool" where
  "within_limit b \<longleftrightarrow> token_used b + token_reserved b \<le> token_limit (bcfg b)"

lemma settle_within:
  assumes "budget_ledger b" "within_limit b"
    "i < length (reservations b) \<longrightarrow> n \<le> reserved_tokens (reservations b ! i)"
  shows "within_limit (settle i n b)"
proof (cases "i < length (reservations b) \<and> \<not> settled (reservations b ! i)")
  case True
  moreover have "0 < reserved_tokens (reservations b ! i)"
    using True assms(1) by (simp add: budget_ledger_def)
  ultimately show ?thesis
    using assms(2,3) by (simp add: within_limit_def settle_open [OF assms(1)])
next
  case False
  then show ?thesis using assms settle_closed by metis
qed

lemma reserve_within:
  "within_limit b \<Longrightarrow> reserve_tokens n b = Inr (i, b') \<Longrightarrow> within_limit b'"
  by (auto simp: within_limit_def reserve_tokens_def Let_def split: if_splits)

lemma step_within:
  assumes "budget_ledger b" "within_limit b" "disciplined_call b c"
  shows "within_limit (budget_step b c)"
proof (cases c)
  case (Release i)
  have "i < length (reservations b) \<longrightarrow> 0 \<le> reserved_tokens (reservations b ! i)"
    using assms(1) by (auto simp: budget_ledger_def intro!: less_imp_le)
  then show ?thesis using assms Release by (simp add: release_def settle_within)
next
  case (Reserve n)
  then show ?thesis using assms by (auto split: sum.splits intro: reserve_within)
next
  case (Settle i n)
  then show ?thesis using assms by (auto intro: settle_within)
qed (use assms in \<open>auto simp: within_limit_def budget_op_defs token_remaining_def Let_def\<close>)

lemma run_within:
  "budget_ledger b \<Longrightarrow> within_limit b \<Longrightarrow> disciplined b cs \<Longrightarrow> within_limit (foldl budget_step b cs)"
  by (induction cs arbitrary: b) (auto intro: step_within budget_step_ledger)

lemma budget_step_cfg [simp]: "bcfg (budget_step b c) = bcfg b"
  by (cases c) (auto simp: budget_op_defs settle_def Let_def split: sum.splits)

lemma run_cfg [simp]: "bcfg (foldl budget_step b cs) = bcfg b"
  by (induction cs arbitrary: b) simp_all

text \<open>
  C15. The pool is never overcommitted: whatever the interleaving of the parent and its children,
  if each consumption fits what remains and no child settles above its reservation, the tokens
  used and reserved together stay within the limit; the reservations themselves need no
  assumption, since the budget refuses any that does not fit.
\<close>

theorem budget_never_overcommitted:
  assumes "0 \<le> token_limit cfg" and "disciplined (new_budget cfg) cs"
  shows "token_used (foldl budget_step (new_budget cfg) cs)
       + token_reserved (foldl budget_step (new_budget cfg) cs) \<le> token_limit cfg"
proof -
  have "within_limit (new_budget cfg)" using assms(1) by (simp add: within_limit_def new_budget_def)
  from run_within [OF new_budget_ledger this assms(2)] show ?thesis
    by (simp add: within_limit_def new_budget_def)
qed

definition small_config :: budget_config where
  "small_config = default_budget_config\<lparr>token_limit := 100\<rparr>"

lemma budget_never_overcommitted_witness:
  "token_used (foldl budget_step (new_budget small_config)
      [Reserve 60, Reserve 50, Consume 40, Settle 0 55])
   + token_reserved (foldl budget_step (new_budget small_config)
      [Reserve 60, Reserve 50, Consume 40, Settle 0 55]) \<le> token_limit small_config"
  by (rule budget_never_overcommitted)
    (simp_all add: small_config_def default_budget_config_def new_budget_def budget_op_defs
      token_remaining_def settle_def)

section \<open>Escalation\<close>

fun is_warning :: "budget_message \<Rightarrow> bool" where
  "is_warning (WarningMessage ps) = True"
| "is_warning _ = False"

fun is_critical :: "budget_message \<Rightarrow> bool" where
  "is_critical (CriticalMessage d a b c e t) = True"
| "is_critical _ = False"

fun is_final :: "budget_message \<Rightarrow> bool" where
  "is_final (ExhaustedMessage a b c e t) = True"
| "is_final _ = False"

lemma message_kinds [simp]:
  "is_warning (build_warning_message t b)" "\<not> is_warning (build_critical_message t b)"
  "\<not> is_warning (build_exhausted_message t b)"
  "is_critical (build_critical_message t b)" "\<not> is_critical (build_warning_message t b)"
  "\<not> is_critical (build_exhausted_message t b)"
  "is_final (build_exhausted_message t b)" "\<not> is_final (build_warning_message t b)"
  "\<not> is_final (build_critical_message t b)"
  by (simp_all add: build_warning_message_def build_critical_message_def
      build_exhausted_message_def Let_def)

lemma make_status_message [simp]: "inject_message (make_status t b l m) = m"
  by (simp add: make_status_def)

text \<open>Each message has a flag: a call that injects it finds the flag down and raises it.\<close>

definition escalation_flag :: "(budget_message \<Rightarrow> bool) \<Rightarrow> (exec_budget \<Rightarrow> bool) \<Rightarrow> bool" where
  "escalation_flag is_m flag \<longleftrightarrow>
     \<not> is_m NoMessage
     \<and> (\<forall>b t. is_m (inject_message (fst (budget_check t b)))
              \<longrightarrow> \<not> flag b \<and> flag (snd (budget_check t b)))
     \<and> (\<forall>b c. flag b \<longrightarrow> flag (budget_step b c))"

lemma flag_kept:
  "warning_injected b \<Longrightarrow> warning_injected (budget_step b c)"
  "critical_injected b \<Longrightarrow> critical_injected (budget_step b c)"
  "force_finish_injected b \<Longrightarrow> force_finish_injected (budget_step b c)"
  by (cases c; auto simp: budget_op_defs settle_def budget_check_def Let_def split: sum.splits)+

lemma escalation_flags:
  "escalation_flag is_warning warning_injected"
  "escalation_flag is_critical critical_injected"
  "escalation_flag is_final force_finish_injected"
  by (auto simp: escalation_flag_def flag_kept budget_check_def Let_def split: if_splits)

lemma injected_once:
  assumes "escalation_flag is_m flag"
  shows "length (filter is_m (injections b cs)) \<le> (if flag b then 0 else 1)"
proof (induction cs arbitrary: b)
  case (Cons c cs)
  have no: "\<not> is_m NoMessage" and up: "\<And>t. is_m (inject_message (fst (budget_check t b)))
      \<Longrightarrow> \<not> flag b \<and> flag (snd (budget_check t b))"
    and keep: "flag b \<Longrightarrow> flag (budget_step b c)"
    using assms by (auto simp: escalation_flag_def)
  show ?case using no up keep Cons [of "budget_step b c"] by (cases c) (auto split: if_splits)
qed simp

text \<open>
  In any sequence of calls on one budget each escalation message (warning, critical and
  exhausted) is injected into the conversation at most once, whatever the usage does meanwhile
  and however often the budget is checked or restarted.
\<close>

theorem escalation_injected_once:
  "length (filter is_warning (injections (new_budget cfg) cs)) \<le> 1
   \<and> length (filter is_critical (injections (new_budget cfg) cs)) \<le> 1
   \<and> length (filter is_final (injections (new_budget cfg) cs)) \<le> 1"
  using escalation_flags [THEN injected_once, of "new_budget cfg" cs]
  by (simp add: new_budget_def)

lemma level_of_mono: "p \<le> q \<Longrightarrow> level_of cfg p \<le> level_of cfg q"
  by (auto simp: level_of_def less_eq_budget_level_def)

lemma running_level:
  "bstate b = BS_RUNNING \<Longrightarrow>
   level (fst (budget_check t b))
     = level_of (bcfg b) (max (token_pct b) (max (step_pct b) (time_pct t b)))"
  by (simp add: budget_check_def make_status_def Let_def split: prod.splits)

fun spending :: "budget_call \<Rightarrow> bool" where
  "spending (Consume n) = True"
| "spending (Reserve n) = True"
| "spending (RecordStep r) = True"
| "spending _ = False"

lemma pct_mono: "(a::int) \<le> b \<Longrightarrow> (of_int a / of_int (max 1 l) :: rat) \<le> of_int b / of_int (max 1 l)"
  by (intro divide_right_mono) simp_all

lemma spending_counters:
  assumes "spending c"
  shows "token_used b + token_reserved b
      \<le> token_used (budget_step b c) + token_reserved (budget_step b c)"
    "steps_taken b \<le> steps_taken (budget_step b c)"
    "bstarted_at (budget_step b c) = bstarted_at b"
    "bcompleted_at (budget_step b c) = bcompleted_at b"
    "bstate (budget_step b c) = bstate b"
  using assms by (cases c; simp add: budget_op_defs Let_def split: sum.splits; fail)+

lemma spending_pct:
  assumes "spending c"
  shows "token_pct b \<le> token_pct (budget_step b c)"
    "step_pct b \<le> step_pct (budget_step b c)"
    "time_pct t (budget_step b c) = time_pct t b"
    "bstate (budget_step b c) = bstate b"
  using spending_counters [OF assms, of b] pct_mono
  unfolding token_pct_def step_pct_def
  by (simp_all add: time_pct_def elapsed_seconds_def del: of_int_add)

text \<open>
  Spending never lowers the alarm: on a running budget, consuming tokens, reserving tokens
  for a child or recording a step never decreases the level the next check at the same time
  reports.
\<close>

theorem spending_never_lowers_level:
  assumes "bstate b = BS_RUNNING" and "spending c"
  shows "level (fst (budget_check t b)) \<le> level (fst (budget_check t (budget_step b c)))"
  using spending_pct [OF assms(2), where b = b] assms(1)
  by (auto simp: running_level intro!: level_of_mono intro: max.mono)

lemma spending_never_lowers_level_witness:
  "level (fst (budget_check 5 (start 1 (new_budget small_config))))
     \<le> level (fst (budget_check 5 (budget_step (start 1 (new_budget small_config)) (Consume 90))))"
  by (rule spending_never_lowers_level) (simp_all add: start_def new_budget_def)

text \<open>
  A budget that has just reported EXHAUSTED with its final message reports COMFORTABLE, with
  no message, at every later check until it is started again: the code returns early because the
  state is no longer RUNNING, although the usage has not changed. The run loop must therefore
  read \<open>is_exhausted\<close>, not the level of a later check.
\<close>

theorem exhausted_then_comfortable:
  assumes "inject_message (fst (budget_check t b)) = build_exhausted_message t b"
  shows "is_exhausted (snd (budget_check t b))
    \<and> level (fst (budget_check t' (snd (budget_check t b)))) = COMFORTABLE
    \<and> inject_message (fst (budget_check t' (snd (budget_check t b)))) = NoMessage
    \<and> snd (budget_check t' (snd (budget_check t b))) = snd (budget_check t b)"
proof -
  have "is_final (inject_message (fst (budget_check t b)))" using assms by simp
  then have "bstate (snd (budget_check t b)) = BS_EXHAUSTED"
    by (auto simp: budget_check_def Let_def split: if_splits)
  then show ?thesis
    by (simp add: is_exhausted_def budget_check_def [of t'] make_status_def)
qed

definition spent_budget :: exec_budget where
  "spent_budget = consume 200 (start 1 (new_budget small_config))"

lemma exhausted_then_comfortable_witness:
  "is_exhausted (snd (budget_check 5 spent_budget))
    \<and> level (fst (budget_check 6 (snd (budget_check 5 spent_budget)))) = COMFORTABLE
    \<and> inject_message (fst (budget_check 6 (snd (budget_check 5 spent_budget)))) = NoMessage
    \<and> snd (budget_check 6 (snd (budget_check 5 spent_budget))) = snd (budget_check 5 spent_budget)"
proof (rule exhausted_then_comfortable)
  have "token_pct spent_budget = 2" "bstate spent_budget = BS_RUNNING"
    "\<not> force_finish_injected spent_budget"
    by (simp_all add: spent_budget_def token_pct_def consume_def start_def new_budget_def
        small_config_def default_budget_config_def)
  then show "inject_message (fst (budget_check 5 spent_budget))
      = build_exhausted_message 5 spent_budget"
    by (simp add: budget_check_def level_of_def le_max_iff_disj Let_def)
qed

end
