(* ===== verification/Task_Machine.thy ===== *)
theory Task_Machine
  imports Grace_Prelude Circuit_Breaker Exec_Budget
begin

text \<open>
  \<^verbatim>\<open>agent/session/task_state_machine.py\<close> and the enums of \<^verbatim>\<open>agent/task.py\<close> it uses: the lifecycle of
  a task, its guarded transitions and the registry of guards. A \<open>ValueError\<close> is the left summand
  of the result; the clock is the argument \<open>now\<close>; a guard is a function of the clock and the
  context that may change the objects the context refers to and may raise (\<open>None\<close>). The calls of
  the \<open>on_transition\<close> hook are logged. The lemmas show that the history is a path of the table,
  that terminal states absorb, and what the guards decide.
\<close>

section \<open>Enumerations\<close>

datatype run_status = SUCCESS | RS_FAILED | MAX_STEPS_STATUS | GAVE_UP | BLOCKED | RS_CANCELLED

datatype task_intent = EDIT | ANALYSIS

datatype termination_reason =
    TR_NONE | USER_CANCELLED | AGENT_GAVE_UP | CIRCUIT_BREAKER | BUDGET_EXHAUSTED | MAX_STEPS
  | TOOL_FAILURE_LIMIT | ENVIRONMENT_UNAVAILABLE | MODEL_ERROR | GUARD_REJECTED | INTERNAL_ERROR
  | PROMPT_TOO_LONG | TOOL_USE_STOP | HOOK_STOPPED | ABORTED_TOOLS | MAX_TURNS

fun termination_value :: "termination_reason \<Rightarrow> string" where
  "termination_value TR_NONE = ''none''"
| "termination_value USER_CANCELLED = ''user_cancelled''"
| "termination_value AGENT_GAVE_UP = ''agent_gave_up''"
| "termination_value CIRCUIT_BREAKER = ''circuit_breaker''"
| "termination_value BUDGET_EXHAUSTED = ''budget_exhausted''"
| "termination_value MAX_STEPS = ''max_steps''"
| "termination_value TOOL_FAILURE_LIMIT = ''tool_failure_limit''"
| "termination_value ENVIRONMENT_UNAVAILABLE = ''environment_unavailable''"
| "termination_value MODEL_ERROR = ''model_error''"
| "termination_value GUARD_REJECTED = ''guard_rejected''"
| "termination_value INTERNAL_ERROR = ''internal_error''"
| "termination_value PROMPT_TOO_LONG = ''prompt_too_long''"
| "termination_value TOOL_USE_STOP = ''tool_use_stop''"
| "termination_value HOOK_STOPPED = ''hook_stopped''"
| "termination_value ABORTED_TOOLS = ''aborted_tools''"
| "termination_value MAX_TURNS = ''max_turns''"

datatype verification_status =
  VS_NOT_APPLICABLE | VS_VERIFIED | VS_UNVERIFIED | VS_UNAVAILABLE | VS_FAILED

datatype verification_reason =
  VR_NONE | NOT_RUN | NO_TEST_ENVIRONMENT | NO_VERSION_CONTROL | TEST_FAILED | NO_NET_CHANGE

datatype task_state = PENDING | RUNNING | COMPLETING | COMPLETED | FAILED | CANCELLED

fun allowed_transitions :: "task_state \<Rightarrow> task_state list" where
  "allowed_transitions PENDING = [RUNNING, CANCELLED]"
| "allowed_transitions RUNNING = [COMPLETING, FAILED, CANCELLED]"
| "allowed_transitions COMPLETING = [COMPLETED, RUNNING, FAILED, CANCELLED]"
| "allowed_transitions COMPLETED = []"
| "allowed_transitions FAILED = []"
| "allowed_transitions CANCELLED = []"

definition terminal_states :: "task_state list" where
  "terminal_states = [COMPLETED, FAILED, CANCELLED]"

datatype guard_transition =
    RUNNING_TO_FAILED | RUNNING_TO_RUNNING | COMPLETING_TO_COMPLETED | COMPLETING_TO_FAILED
  | COMPLETING_TO_RUNNING

section \<open>Guards\<close>

record git_state =
  is_git_repo :: bool
  has_changes :: bool

record guard_context =
  gc_step :: int
  gc_max_steps :: int
  gc_consecutive_failures :: int
  gc_task_intent :: task_intent
  gc_budget :: "exec_budget option"
  gc_breaker :: "breaker option"
  gc_git_state :: "git_state option"

datatype guard_reason =
    NoReason
  | NotAGitRepo
  | NoDiffEvidence
  | BreakerTripped trip_cause
  | BudgetIsExhausted
  | ToolFailures int int
  | ConsecutiveFailures int
  | GuardRaised nat guard_transition

datatype guard_message =
    NoInjection
  | CannotVerify
  | TerminateMessage terminate_message

record guard_result =
  passed :: bool
  reason :: guard_reason
  inject :: guard_message
  terminate :: bool

definition guard_pass :: guard_result where
  "guard_pass = \<lparr>passed = True, reason = NoReason, inject = NoInjection, terminate = False\<rparr>"

type_synonym guard_fn = "time \<Rightarrow> guard_context \<Rightarrow> guard_result option \<times> guard_context"

definition git_diff_guard :: guard_fn where
  "git_diff_guard now ctx =
     (if gc_task_intent ctx \<noteq> EDIT then (Some guard_pass, ctx)
      else case gc_git_state ctx of
        None \<Rightarrow> (Some (guard_pass\<lparr>reason := NotAGitRepo\<rparr>), ctx)
      | Some g \<Rightarrow>
          if \<not> is_git_repo g then (Some (guard_pass\<lparr>reason := NotAGitRepo\<rparr>), ctx)
          else if \<not> has_changes g then
            (Some \<lparr>passed = False, reason = NoDiffEvidence, inject = CannotVerify,
                   terminate = False\<rparr>, ctx)
          else (Some guard_pass, ctx))"

definition env_blocked_guard :: guard_fn where
  "env_blocked_guard now ctx = (Some guard_pass, ctx)"

definition circuit_breaker_guard :: guard_fn where
  "circuit_breaker_guard now ctx =
     (case gc_breaker ctx of
        None \<Rightarrow> (Some guard_pass, ctx)
      | Some br \<Rightarrow>
          (let (trip, br') = breaker_check now br;
               ctx' = ctx\<lparr>gc_breaker := Some br'\<rparr> in
           if trip then
             (Some \<lparr>passed = False, reason = BreakerTripped (trip_reason br'),
                    inject = NoInjection, terminate = True\<rparr>, ctx')
           else (Some guard_pass, ctx')))"

definition budget_exhausted_guard :: guard_fn where
  "budget_exhausted_guard now ctx =
     (case gc_budget ctx of
        None \<Rightarrow> (Some guard_pass, ctx)
      | Some b \<Rightarrow>
          if is_exhausted b then
            (Some \<lparr>passed = False, reason = BudgetIsExhausted,
                   inject = TerminateMessage exhausted_terminate_message, terminate = True\<rparr>, ctx)
          else (Some guard_pass, ctx))"

definition consecutive_failures_guard :: guard_fn where
  "consecutive_failures_guard now ctx =
     (let fallback =
        (if gc_consecutive_failures ctx \<ge> 3 then
           \<lparr>passed = False, reason = ConsecutiveFailures (gc_consecutive_failures ctx),
            inject = NoInjection, terminate = True\<rparr>
         else guard_pass)
      in case gc_breaker ctx of
        None \<Rightarrow> (Some fallback, ctx)
      | Some br \<Rightarrow>
          (let limit = max_consecutive_tool_errors (config br);
               failures = consecutive_tool_errors br in
           if failures \<ge> limit then
             (Some \<lparr>passed = False, reason = ToolFailures failures limit, inject = NoInjection,
                    terminate = True\<rparr>, ctx)
           else (Some fallback, ctx)))"

definition stop_hook_retry_guard :: guard_fn where
  "stop_hook_retry_guard now ctx = (Some guard_pass, ctx)"

section \<open>The state machine\<close>

record task_machine =
  state :: task_state
  state_history :: "(task_state \<times> time \<times> string) list"
  terminated_by :: termination_reason
  verification :: verification_status
  verification_why :: verification_reason
  outcome_detail :: string
  tm_started_at :: time
  tm_completed_at :: time
  step_count :: int
  hook_installed :: bool
  hook_calls :: "(task_state \<times> task_state \<times> string) list"
  reflection_done :: bool
  guards :: "(guard_transition, guard_fn list) dict"

definition new_machine :: "bool \<Rightarrow> task_machine" where
  "new_machine hook =
     \<lparr>state = PENDING, state_history = [], terminated_by = TR_NONE,
      verification = VS_NOT_APPLICABLE, verification_why = VR_NONE, outcome_detail = [],
      tm_started_at = 0, tm_completed_at = 0, step_count = 0, hook_installed = hook,
      hook_calls = [], reflection_done = False, guards = []\<rparr>"

definition is_terminal :: "task_machine \<Rightarrow> bool" where
  "is_terminal m \<longleftrightarrow> state m \<in> set terminal_states"

definition is_running :: "task_machine \<Rightarrow> bool" where
  "is_running m \<longleftrightarrow> state m = RUNNING"

definition tm_elapsed_seconds :: "time \<Rightarrow> task_machine \<Rightarrow> time" where
  "tm_elapsed_seconds now m = elapsed_interval now (tm_started_at m) (tm_completed_at m)"

datatype illegal_transition = IllegalTransition task_state task_state "task_state list"

definition transition ::
  "time \<Rightarrow> task_state \<Rightarrow> string \<Rightarrow> task_machine \<Rightarrow> illegal_transition + task_machine" where
  "transition now to why m =
     (let allowed = allowed_transitions (state m) in
      if to \<notin> set allowed then Inl (IllegalTransition (state m) to allowed)
      else
        let previous = state m;
            m1 = m\<lparr>state := to, state_history := state_history m @ [(to, now, why)]\<rparr>;
            m2 = (if previous = PENDING \<and> to = RUNNING then m1\<lparr>tm_started_at := now\<rparr> else m1);
            m3 = (if to \<in> set terminal_states then m2\<lparr>tm_completed_at := now\<rparr> else m2)
        in Inr (if hook_installed m then m3\<lparr>hook_calls := hook_calls m @ [(previous, to, why)]\<rparr>
                else m3))"

definition complete_task ::
  "time \<Rightarrow> verification_status \<Rightarrow> verification_reason \<Rightarrow> string \<Rightarrow> task_machine
     \<Rightarrow> illegal_transition + task_machine" where
  "complete_task now vs vr detail m =
     (case transition now COMPLETED detail m of
        Inl e \<Rightarrow> Inl e
      | Inr m' \<Rightarrow> Inr (m'\<lparr>verification := vs, verification_why := vr, outcome_detail := detail\<rparr>))"

definition fail_task ::
  "time \<Rightarrow> termination_reason \<Rightarrow> string \<Rightarrow> task_machine \<Rightarrow> illegal_transition + task_machine" where
  "fail_task now r detail m =
     (case transition now FAILED (or_else detail (termination_value r)) m of
        Inl e \<Rightarrow> Inl e
      | Inr m' \<Rightarrow> Inr (m'\<lparr>terminated_by := r, outcome_detail := detail\<rparr>))"

definition cancel_task ::
  "time \<Rightarrow> string \<Rightarrow> task_machine \<Rightarrow> illegal_transition + task_machine" where
  "cancel_task now detail m =
     (case transition now CANCELLED (or_else detail (termination_value USER_CANCELLED)) m of
        Inl e \<Rightarrow> Inl e
      | Inr m' \<Rightarrow> Inr (m'\<lparr>terminated_by := USER_CANCELLED, outcome_detail := detail\<rparr>))"

definition mark_reflection_done :: "task_machine \<Rightarrow> task_machine" where
  "mark_reflection_done m = m\<lparr>reflection_done := True\<rparr>"

definition tm_record_step :: "task_machine \<Rightarrow> int \<times> task_machine" where
  "tm_record_step m = (step_count m + 1, m\<lparr>step_count := step_count m + 1\<rparr>)"

definition add_guard :: "guard_transition \<Rightarrow> guard_fn \<Rightarrow> task_machine \<Rightarrow> task_machine" where
  "add_guard tr g m =
     (let gs = the_default [] (dict_get (guards m) tr) in
      m\<lparr>guards := dict_set tr (gs @ [g]) (guards m)\<rparr>)"

fun run_guards ::
  "nat \<Rightarrow> guard_transition \<Rightarrow> guard_fn list \<Rightarrow> time \<Rightarrow> guard_context
     \<Rightarrow> guard_result \<times> guard_context" where
  "run_guards i tr [] now ctx = (guard_pass, ctx)"
| "run_guards i tr (g # gs) now ctx =
     (case g now ctx of
        (None, ctx') \<Rightarrow>
          (\<lparr>passed = False, reason = GuardRaised i tr, inject = NoInjection, terminate = True\<rparr>,
           ctx')
      | (Some r, ctx') \<Rightarrow>
          if \<not> passed r then (r, ctx') else run_guards (Suc i) tr gs now ctx')"

definition evaluate_guards ::
  "guard_transition \<Rightarrow> time \<Rightarrow> guard_context \<Rightarrow> task_machine \<Rightarrow> guard_result \<times> guard_context" where
  "evaluate_guards tr now ctx m =
     run_guards 0 tr (the_default [] (dict_get (guards m) tr)) now ctx"

definition to_run_status :: "task_machine \<Rightarrow> run_status" where
  "to_run_status m =
     (if state m = FAILED \<and> terminated_by m = ENVIRONMENT_UNAVAILABLE then BLOCKED
      else if state m = FAILED \<and> terminated_by m = MAX_STEPS then MAX_STEPS_STATUS
      else case state m of
        COMPLETED \<Rightarrow> SUCCESS
      | FAILED \<Rightarrow> RS_FAILED
      | CANCELLED \<Rightarrow> RS_CANCELLED
      | _ \<Rightarrow> SUCCESS)"

text \<open>The guards \<open>agent/core.py\<close> registers when it starts a run, in its order.\<close>

definition register_run_guards :: "task_machine \<Rightarrow> task_machine" where
  "register_run_guards m =
     add_guard COMPLETING_TO_FAILED stop_hook_retry_guard
       (add_guard COMPLETING_TO_COMPLETED git_diff_guard
         (add_guard RUNNING_TO_FAILED consecutive_failures_guard
           (add_guard RUNNING_TO_FAILED circuit_breaker_guard m)))"

section \<open>Histories of calls\<close>

text \<open>A call that raises leaves the machine as it was.\<close>

datatype machine_call =
    Transition time task_state string
  | CompleteTask time verification_status verification_reason string
  | FailTask time termination_reason string
  | CancelTask time string
  | MarkReflection
  | AddGuard guard_transition guard_fn
  | RecordTaskStep

fun machine_call_result :: "task_machine \<Rightarrow> machine_call \<Rightarrow> illegal_transition + task_machine" where
  "machine_call_result m (Transition t to why) = transition t to why m"
| "machine_call_result m (CompleteTask t vs vr d) = complete_task t vs vr d m"
| "machine_call_result m (FailTask t r d) = fail_task t r d m"
| "machine_call_result m (CancelTask t d) = cancel_task t d m"
| "machine_call_result m MarkReflection = Inr (mark_reflection_done m)"
| "machine_call_result m (AddGuard tr g) = Inr (add_guard tr g m)"
| "machine_call_result m RecordTaskStep = Inr (snd (tm_record_step m))"

definition machine_step :: "task_machine \<Rightarrow> machine_call \<Rightarrow> task_machine" where
  "machine_step m c = (case machine_call_result m c of Inl e \<Rightarrow> m | Inr m' \<Rightarrow> m')"

section \<open>The history\<close>

definition legal :: "task_state \<Rightarrow> task_state \<Rightarrow> bool" where
  "legal a b \<longleftrightarrow> b \<in> set (allowed_transitions a)"

lemma transition_Inr:
  "transition now to why m = Inr m' \<Longrightarrow>
     legal (state m) to \<and> state m' = to \<and> state_history m' = state_history m @ [(to, now, why)]
     \<and> terminated_by m' = terminated_by m \<and> verification m' = verification m
     \<and> verification_why m' = verification_why m
     \<and> hook_installed m' = hook_installed m
     \<and> hook_calls m' = hook_calls m @ (if hook_installed m then [(state m, to, why)] else [])
     \<and> outcome_detail m' = outcome_detail m \<and> guards m' = guards m"
  by (auto simp: transition_def legal_def Let_def split: if_splits)

lemma transition_illegal:
  "\<not> legal (state m) to \<Longrightarrow>
     transition now to why m = Inl (IllegalTransition (state m) to (allowed_transitions (state m)))"
  by (simp add: transition_def legal_def)

lemma legal_not_terminal: "legal a b \<Longrightarrow> a \<notin> set terminal_states"
  by (cases a) (auto simp: legal_def terminal_states_def)

lemma terminal_no_transition:
  "is_terminal m \<Longrightarrow> \<exists>e. transition now to why m = Inl e"
  using legal_not_terminal [of "state m" to] transition_illegal [of m to now why]
  by (auto simp: is_terminal_def)

text \<open>The path of states after \<open>s\<close>: each state follows from the one before it by the table.\<close>

fun legal_path :: "task_state \<Rightarrow> task_state list \<Rightarrow> bool" where
  "legal_path s [] = True"
| "legal_path s (t # ts) = (legal s t \<and> legal_path t ts)"

lemma legal_path_snoc:
  "legal_path s (ts @ [t]) \<longleftrightarrow> legal_path s ts \<and> legal (last (s # ts)) t"
  by (induction ts arbitrary: s) auto

definition states_of :: "task_machine \<Rightarrow> task_state list" where
  "states_of m = map fst (state_history m)"

definition history_inv :: "task_machine \<Rightarrow> bool" where
  "history_inv m \<longleftrightarrow> legal_path PENDING (states_of m) \<and> last (PENDING # states_of m) = state m"

lemma transition_history_inv:
  "history_inv m \<Longrightarrow> transition now to why m = Inr m' \<Longrightarrow> history_inv m'"
  by (auto simp: history_inv_def states_of_def legal_path_snoc dest!: transition_Inr split: if_splits)

text \<open>What the outcome fields may hold in which state.\<close>

definition outcome_inv :: "task_machine \<Rightarrow> bool" where
  "outcome_inv m \<longleftrightarrow>
     (terminated_by m \<noteq> TR_NONE \<longrightarrow> state m = FAILED \<or> state m = CANCELLED)
     \<and> (verification m \<noteq> VS_NOT_APPLICABLE \<or> verification_why m \<noteq> VR_NONE \<longrightarrow> state m = COMPLETED)"

lemma transition_outcome_inv:
  assumes "outcome_inv m" "transition now to why m = Inr m'"
  shows "terminated_by m' = TR_NONE \<and> verification m' = VS_NOT_APPLICABLE
    \<and> verification_why m' = VR_NONE"
  using assms transition_Inr [OF assms(2)] legal_not_terminal [of "state m" to]
  by (auto simp: outcome_inv_def terminal_states_def)

definition machine_inv :: "task_machine \<Rightarrow> bool" where
  "machine_inv m \<longleftrightarrow> history_inv m \<and> outcome_inv m"

lemma history_inv_outcome [simp]:
  "history_inv (m\<lparr>verification := vs, verification_why := vr, outcome_detail := d\<rparr>) = history_inv m"
  "history_inv (m\<lparr>terminated_by := r, outcome_detail := d\<rparr>) = history_inv m"
  by (simp_all add: history_inv_def states_of_def)

lemma machine_call_inv:
  assumes "machine_inv m" "machine_call_result m c = Inr m'"
  shows "machine_inv m'"
proof -
  have h: "history_inv m" and o: "outcome_inv m" using assms(1) by (auto simp: machine_inv_def)
  show ?thesis
  proof (cases c)
    case (Transition t to why)
    with assms(2) h show ?thesis
      using transition_outcome_inv [OF o, of t to why m']
      by (auto simp: machine_inv_def outcome_inv_def intro: transition_history_inv)
  next
    case (CompleteTask t vs vr d)
    with assms(2) obtain m1 where m1: "transition t COMPLETED d m = Inr m1"
      "m' = m1\<lparr>verification := vs, verification_why := vr, outcome_detail := d\<rparr>"
      by (auto simp: complete_task_def split: sum.splits)
    with transition_outcome_inv [OF o m1(1)] transition_Inr [OF m1(1)]
      transition_history_inv [OF h m1(1)]
    show ?thesis by (simp add: machine_inv_def outcome_inv_def)
  next
    case (FailTask t r d)
    with assms(2) obtain m1 where m1: "transition t FAILED (or_else d (termination_value r)) m = Inr m1"
      "m' = m1\<lparr>terminated_by := r, outcome_detail := d\<rparr>"
      by (auto simp: fail_task_def split: sum.splits)
    with transition_outcome_inv [OF o m1(1)] transition_Inr [OF m1(1)]
      transition_history_inv [OF h m1(1)]
    show ?thesis by (simp add: machine_inv_def outcome_inv_def)
  next
    case (CancelTask t d)
    with assms(2) obtain m1 where
      m1: "transition t CANCELLED (or_else d (termination_value USER_CANCELLED)) m = Inr m1"
      "m' = m1\<lparr>terminated_by := USER_CANCELLED, outcome_detail := d\<rparr>"
      by (auto simp: cancel_task_def split: sum.splits)
    with transition_outcome_inv [OF o m1(1)] transition_Inr [OF m1(1)]
      transition_history_inv [OF h m1(1)]
    show ?thesis by (simp add: machine_inv_def outcome_inv_def)
  qed (use assms in \<open>auto simp: machine_inv_def history_inv_def outcome_inv_def states_of_def
      mark_reflection_done_def add_guard_def tm_record_step_def Let_def\<close>)
qed

interpretation lifecycle: op_invariant machine_step machine_inv
  by unfold_locales (auto simp: machine_step_def split: sum.splits intro: machine_call_inv)

lemma new_machine_inv: "machine_inv (new_machine hook)"
  by (simp add: machine_inv_def history_inv_def outcome_inv_def states_of_def new_machine_def)

text \<open>
  After any sequence of calls, those that raise included, the recorded history is a path of
  the transition table from PENDING whose last state is the current one; a termination reason is
  only found on a failed or cancelled task, and a verification outcome only on a completed one.
\<close>

theorem task_history_is_path:
  "let m = foldl machine_step (new_machine hook) cs in
     legal_path PENDING (map fst (state_history m))
     \<and> last (PENDING # map fst (state_history m)) = state m
     \<and> (terminated_by m = TR_NONE \<or> state m = FAILED \<or> state m = CANCELLED)
     \<and> ((verification m = VS_NOT_APPLICABLE \<and> verification_why m = VR_NONE) \<or> state m = COMPLETED)"
  using lifecycle.run_inv [OF new_machine_inv, of hook cs]
  unfolding machine_inv_def history_inv_def outcome_inv_def states_of_def Let_def
  by blast

text \<open>What a finished task reports, and what a terminal state keeps for ever.\<close>

definition outcome_of ::
  "task_machine \<Rightarrow> task_state \<times> (task_state \<times> time \<times> string) list \<times> termination_reason
     \<times> verification_status \<times> verification_reason \<times> string \<times> time" where
  "outcome_of m = (state m, state_history m, terminated_by m, verification m, verification_why m,
     outcome_detail m, tm_completed_at m)"

lemma machine_step_terminal:
  assumes "is_terminal m"
  shows "outcome_of (machine_step m c) = outcome_of m"
proof (cases c)
  case (Transition t to why)
  with terminal_no_transition [OF assms, of t to why] show ?thesis
    by (auto simp: machine_step_def)
next
  case (CompleteTask t vs vr d)
  with terminal_no_transition [OF assms, of t COMPLETED d] show ?thesis
    by (auto simp: machine_step_def complete_task_def)
next
  case (FailTask t r d)
  with terminal_no_transition [OF assms, of t FAILED "or_else d (termination_value r)"]
  show ?thesis by (auto simp: machine_step_def fail_task_def)
next
  case (CancelTask t d)
  with terminal_no_transition [OF assms, of t CANCELLED "or_else d (termination_value USER_CANCELLED)"]
  show ?thesis by (auto simp: machine_step_def cancel_task_def)
qed (simp_all add: machine_step_def outcome_of_def mark_reflection_done_def add_guard_def
    tm_record_step_def Let_def)

interpretation finished: op_latch machine_step "\<lambda>m. is_terminal m \<and> outcome_of m = out"
  by unfold_locales (auto simp: machine_step_terminal, simp add: is_terminal_def outcome_of_def,
    metis (no_types) machine_step_terminal outcome_of_def prod.inject is_terminal_def)

text \<open>
  C16. A terminal state absorbs: once a task is completed, failed or cancelled, no sequence of
  calls changes its state, its history, its termination reason, its verification outcome, its
  detail or its completion time.
\<close>

theorem terminal_outcome_is_final:
  assumes "is_terminal m"
  shows "outcome_of (foldl machine_step m cs) = outcome_of m"
  using finished.latch_inv.run_inv [of m "outcome_of m" cs] assms by simp

definition cancelled_machine :: task_machine where
  "cancelled_machine = foldl machine_step (new_machine True) [Transition 1 RUNNING [], CancelTask 2 []]"

lemma terminal_outcome_is_final_witness:
  "outcome_of (foldl machine_step cancelled_machine
     [Transition 3 RUNNING [], CompleteTask 4 VS_VERIFIED VR_NONE [], RecordTaskStep])
   = outcome_of cancelled_machine"
  by (rule terminal_outcome_is_final)
    (simp add: cancelled_machine_def machine_step_def new_machine_def transition_def cancel_task_def
      is_terminal_def terminal_states_def Let_def)

text \<open>
  The status a run reports: BLOCKED and MAX_STEPS are failures with those termination
  reasons, CANCELLED is a cancelled task, and SUCCESS is reported exactly for tasks that are
  neither failed nor cancelled, a task that has not started or is still running included.
\<close>

theorem run_status_classification:
  "to_run_status m =
     (case state m of
        FAILED \<Rightarrow> (if terminated_by m = ENVIRONMENT_UNAVAILABLE then BLOCKED
                   else if terminated_by m = MAX_STEPS then MAX_STEPS_STATUS else RS_FAILED)
      | CANCELLED \<Rightarrow> RS_CANCELLED
      | _ \<Rightarrow> SUCCESS)
   \<and> to_run_status m \<noteq> GAVE_UP
   \<and> to_run_status (new_machine hook) = SUCCESS"
  by (auto simp: to_run_status_def new_machine_def split: task_state.splits)

section \<open>Guards\<close>

text \<open>The context the \<open>i\<close>-th guard sees: the guards before it have run, in order.\<close>

fun context_after :: "guard_fn list \<Rightarrow> nat \<Rightarrow> time \<Rightarrow> guard_context \<Rightarrow> guard_context" where
  "context_after gs 0 now ctx = ctx"
| "context_after [] (Suc n) now ctx = ctx"
| "context_after (g # gs) (Suc n) now ctx = context_after gs n now (snd (g now ctx))"

definition guard_verdict :: "guard_fn list \<Rightarrow> nat \<Rightarrow> time \<Rightarrow> guard_context \<Rightarrow> guard_result option" where
  "guard_verdict gs i now ctx = fst ((gs ! i) now (context_after gs i now ctx))"

definition blocks :: "guard_result option \<Rightarrow> bool" where
  "blocks v = (case v of None \<Rightarrow> True | Some r \<Rightarrow> \<not> passed r)"

lemma run_guards_pass:
  "(\<forall>i < length gs. \<not> blocks (guard_verdict gs i now ctx)) \<Longrightarrow>
   run_guards k tr gs now ctx = (guard_pass, context_after gs (length gs) now ctx)"
proof (induction gs arbitrary: k ctx)
  case (Cons g gs)
  have first: "\<not> blocks (fst (g now ctx))"
    using Cons.prems [rule_format, of 0] by (simp add: guard_verdict_def)
  have rest: "\<forall>i < length gs. \<not> blocks (guard_verdict gs i now (snd (g now ctx)))"
  proof (intro allI impI)
    fix i assume "i < length gs"
    then show "\<not> blocks (guard_verdict gs i now (snd (g now ctx)))"
      using Cons.prems [rule_format, of "Suc i"] by (simp add: guard_verdict_def)
  qed
  show ?case
    using first Cons.IH [OF rest] by (cases "g now ctx") (auto simp: blocks_def split: option.splits)
qed simp

lemma run_guards_block:
  "n < length gs \<Longrightarrow> blocks (guard_verdict gs n now ctx) \<Longrightarrow>
   (\<forall>i < n. \<not> blocks (guard_verdict gs i now ctx)) \<Longrightarrow>
   run_guards k tr gs now ctx =
     (case guard_verdict gs n now ctx of
        None \<Rightarrow> \<lparr>passed = False, reason = GuardRaised (k + n) tr, inject = NoInjection,
                 terminate = True\<rparr>
      | Some r \<Rightarrow> r, context_after gs (Suc n) now ctx)"
proof (induction gs arbitrary: k ctx n)
  case (Cons g gs)
  show ?case
  proof (cases n)
    case 0
    with Cons.prems show ?thesis
      by (cases "g now ctx") (auto simp: guard_verdict_def blocks_def split: option.splits)
  next
    case (Suc m)
    have first: "\<not> blocks (fst (g now ctx))"
      using Cons.prems(3) [rule_format, of 0] Suc by (simp add: guard_verdict_def)
    have rest: "\<forall>i < m. \<not> blocks (guard_verdict gs i now (snd (g now ctx)))"
    proof (intro allI impI)
      fix i assume "i < m"
      then show "\<not> blocks (guard_verdict gs i now (snd (g now ctx)))"
        using Cons.prems(3) [rule_format, of "Suc i"] Suc by (simp add: guard_verdict_def)
    qed
    have "guard_verdict (g # gs) n now ctx = guard_verdict gs m now (snd (g now ctx))"
      by (simp add: guard_verdict_def Suc)
    then show ?thesis
      using first Cons.IH [of m "snd (g now ctx)" "Suc k"] Cons.prems(1,2) rest Suc
      by (cases "g now ctx") (auto simp: blocks_def split: option.splits)
  qed
qed simp

text \<open>
  Guards fail closed and in registration order: the evaluation passes exactly when every
  registered guard, applied to the context the guards before it left, returns a passing result;
  a guard that raises blocks and terminates like one that refuses, and the guards after the first
  blocking one are not run (the context is the one that guard left).
\<close>

theorem guards_first_block_decides:
  "let gs = the_default [] (dict_get (guards m) tr);
       blocking = filter (\<lambda>i. blocks (guard_verdict gs i now ctx)) [0..<length gs] in
   evaluate_guards tr now ctx m =
     (case blocking of
        [] \<Rightarrow> (guard_pass, context_after gs (length gs) now ctx)
      | i # _ \<Rightarrow>
          (case guard_verdict gs i now ctx of
             None \<Rightarrow> \<lparr>passed = False, reason = GuardRaised i tr, inject = NoInjection,
                      terminate = True\<rparr>
           | Some r \<Rightarrow> r, context_after gs (Suc i) now ctx))"
proof -
  define gs where "gs = the_default [] (dict_get (guards m) tr)"
  let ?P = "\<lambda>i. blocks (guard_verdict gs i now ctx)"
  show ?thesis
  proof (cases "filter ?P [0..<length gs]")
    case Nil
    then have "\<forall>i < length gs. \<not> ?P i" by (simp add: filter_empty_conv)
    from run_guards_pass [OF this, of 0 tr] show ?thesis
      using Nil by (simp add: evaluate_guards_def gs_def Let_def)
  next
    case (Cons n ns)
    then have "n < length gs" "?P n" "\<forall>i < n. \<not> ?P i"
      using filter_upt_first by blast+
    from run_guards_block [OF this, of 0 tr] show ?thesis
      using Cons by (simp add: evaluate_guards_def gs_def Let_def split: option.splits)
  qed
qed

end
