(* ===== verification/Workspace_Lease.thy ===== *)
theory Workspace_Lease
  imports Grace_Prelude
begin

text \<open>
  \<^verbatim>\<open>application/workspaces/workspace_lease_service.py\<close>: read and write leases on workspace keys.
  The state is the dict from a key to its list of leases; an unknown mode string raises. The monotonic clock is the
  argument \<open>now\<close> of each method, which runs under the service's lock: it is one reading per method, where
  \<open>acquire\<close> reads the clock before it takes the lock, for the times of the new lease, and again inside for
  the leases it finds. The
  service is related to an abstract lock table, the live holders of each key, and the lemmas
  show that it grants exactly what that table allows.
\<close>

section \<open>State and operations\<close>

datatype lease_mode = READ | WRITE

fun lease_mode_of :: "string \<Rightarrow> lease_mode option" where
  "lease_mode_of s = (if s = ''read'' then Some READ else if s = ''write'' then Some WRITE else None)"

record lease =
  lease_key :: string
  owner_run_id :: string
  lease_mode :: lease_mode
  acquired_at :: time
  expires_at :: time

type_synonym lease_table = "(string, lease list) dict"

definition default_lease_s :: time where
  "default_lease_s = 300"

definition expired :: "time \<Rightarrow> lease \<Rightarrow> bool" where
  "expired now l \<longleftrightarrow> now > expires_at l"

datatype lease_error = UnknownMode string

definition leases_of :: "string \<Rightarrow> lease_table \<Rightarrow> lease list" where
  "leases_of key s = the_default [] (dict_get s key)"

fun conflict_in :: "time \<Rightarrow> lease_mode \<Rightarrow> lease list \<Rightarrow> bool" where
  "conflict_in now m [] = False"
| "conflict_in now m (l # ls) =
     (if expired now l then conflict_in now m ls
      else if lease_mode l = WRITE then True
      else if m = WRITE then True
      else conflict_in now m ls)"

definition acquire ::
  "time \<Rightarrow> string \<Rightarrow> string \<Rightarrow> string \<Rightarrow> time \<Rightarrow> lease_table
     \<Rightarrow> lease_error + lease option \<times> lease_table" where
  "acquire now key run mode lease_s s =
     (case lease_mode_of mode of
        None \<Rightarrow> Inl (UnknownMode mode)
      | Some m \<Rightarrow>
          if conflict_in now m (leases_of key s) then Inr (None, s)
          else
            let l = \<lparr>lease_key = key, owner_run_id = run, lease_mode = m, acquired_at = now,
                     expires_at = now + lease_s\<rparr>
            in Inr (Some l, dict_set key (leases_of key s @ [l]) s))"

fun acquire_many ::
  "time \<Rightarrow> string list \<Rightarrow> string \<Rightarrow> string \<Rightarrow> lease_table
     \<Rightarrow> lease_error + lease list \<times> lease_table" where
  "acquire_many now [] run mode s = Inr ([], s)"
| "acquire_many now (k # ks) run mode s =
     (case acquire now k run mode default_lease_s s of
        Inl e \<Rightarrow> Inl e
      | Inr (got, s') \<Rightarrow>
          (case acquire_many now ks run mode s' of
             Inl e \<Rightarrow> Inl e
           | Inr (ls, s'') \<Rightarrow>
               Inr (case got of None \<Rightarrow> ls | Some l \<Rightarrow> l # ls, s'')))"

fun pop_owner :: "string \<Rightarrow> lease list \<Rightarrow> lease list option" where
  "pop_owner run [] = None"
| "pop_owner run (l # ls) =
     (if owner_run_id l = run then Some ls
      else case pop_owner run ls of None \<Rightarrow> None | Some ls' \<Rightarrow> Some (l # ls'))"

definition release_lease :: "string \<Rightarrow> string \<Rightarrow> lease_table \<Rightarrow> bool \<times> lease_table" where
  "release_lease key run s =
     (case pop_owner run (leases_of key s) of
        None \<Rightarrow> (False, s)
      | Some ls \<Rightarrow> (True, if ls = [] then dict_del key s else dict_set key ls s))"

text \<open>The loop that \<open>release_all\<close> and \<open>expire_stale\<close> share: filter every list, drop the empty ones.\<close>

fun keep_leases :: "(lease \<Rightarrow> bool) \<Rightarrow> lease_table \<Rightarrow> nat \<times> lease_table" where
  "keep_leases p [] = (0, [])"
| "keep_leases p ((k, ls) # s) =
     (let kept = filter p ls; rest = keep_leases p s in
      (length ls - length kept + fst rest,
       if kept = [] then snd rest else (k, kept) # snd rest))"

definition release_all :: "string \<Rightarrow> lease_table \<Rightarrow> nat \<times> lease_table" where
  "release_all run s = keep_leases (\<lambda>l. owner_run_id l \<noteq> run) s"

definition expire_stale :: "time \<Rightarrow> lease_table \<Rightarrow> nat \<times> lease_table" where
  "expire_stale now s = keep_leases (\<lambda>l. \<not> expired now l) s"

definition list_for_run :: "string \<Rightarrow> lease_table \<Rightarrow> lease list" where
  "list_for_run run s = filter (\<lambda>l. owner_run_id l = run) (concat (dict_values s))"

definition check_conflict :: "time \<Rightarrow> string \<Rightarrow> string \<Rightarrow> lease_table \<Rightarrow> lease_error + bool" where
  "check_conflict now key mode s =
     (case lease_mode_of mode of
        None \<Rightarrow> Inl (UnknownMode mode)
      | Some m \<Rightarrow> Inr (conflict_in now m (leases_of key s)))"

definition active_lease_count :: "lease_table \<Rightarrow> nat" where
  "active_lease_count s = sum_list (map length (dict_values s))"

section \<open>The abstract lock table\<close>

text \<open>
  The specification: the holders of a key at a time, each a run and its mode, and a request that
  is granted when nobody holds the key or when everybody, the applicant included, only reads.
\<close>

type_synonym holders = "(string \<times> lease_mode) list"

definition compatible :: "lease_mode \<Rightarrow> holders \<Rightarrow> bool" where
  "compatible m hs \<longleftrightarrow> hs = [] \<or> (m = READ \<and> (\<forall>h \<in> set hs. snd h = READ))"

definition grant :: "string \<Rightarrow> lease_mode \<Rightarrow> holders \<Rightarrow> holders" where
  "grant run m hs = (if compatible m hs then hs @ [(run, m)] else hs)"

definition live_holders :: "time \<Rightarrow> string \<Rightarrow> lease_table \<Rightarrow> holders" where
  "live_holders now key s =
     map (\<lambda>l. (owner_run_id l, lease_mode l)) (filter (\<lambda>l. \<not> expired now l) (leases_of key s))"

definition exclusive :: "holders \<Rightarrow> bool" where
  "exclusive hs \<longleftrightarrow> length hs \<le> 1 \<or> (\<forall>h \<in> set hs. snd h = READ)"

lemma conflict_iff:
  "conflict_in now m ls \<longleftrightarrow>
     \<not> compatible m (map (\<lambda>l. (owner_run_id l, lease_mode l)) (filter (\<lambda>l. \<not> expired now l) ls))"
proof (induction ls)
  case (Cons l ls)
  have "lease_mode l \<noteq> WRITE \<longleftrightarrow> lease_mode l = READ" "m \<noteq> WRITE \<longleftrightarrow> m = READ"
    by (cases "lease_mode l"; simp) (cases m; simp)
  then show ?case using Cons by (auto simp: compatible_def filter_empty_conv)
qed (simp add: compatible_def)

lemma leases_of_set [simp]:
  "leases_of k (dict_set k' ls s) = (if k = k' then ls else leases_of k s)"
  by (simp add: leases_of_def dict_simps)

lemma leases_of_del [simp]:
  "leases_of k (dict_del k' s) = (if k = k' then [] else leases_of k s)"
  by (simp add: leases_of_def dict_simps)

lemma keep_leases_keys: "fst ` set (snd (keep_leases p s)) \<subseteq> fst ` set s"
  by (induction s) (force simp: Let_def split: if_splits)+

lemma is_dict_keep [simp]: "is_dict s \<Longrightarrow> is_dict (snd (keep_leases p s))"
proof (induction s)
  case (Cons a s)
  obtain k ls where a: "a = (k, ls)" by force
  have "k \<notin> fst ` set (snd (keep_leases p s))"
    using Cons.prems keep_leases_keys [of p s] by (auto simp: a is_dict_def)
  then show ?case using Cons by (auto simp: a is_dict_def Let_def split: prod.splits)
qed simp

lemma leases_of_keep:
  "is_dict s \<Longrightarrow> leases_of k (snd (keep_leases p s)) = filter p (leases_of k s)"
proof (induction s)
  case (Cons a s)
  obtain j ls where a: "a = (j, ls)" by force
  have "j \<notin> fst ` set (snd (keep_leases p s))"
    using Cons.prems keep_leases_keys [of p s] by (auto simp: a is_dict_def)
  then have "dict_get (snd (keep_leases p s)) j = None" by (simp add: map_of_eq_None_iff)
  moreover have "is_dict s" using Cons.prems by (simp add: a is_dict_def)
  ultimately show ?case
    using Cons.IH by (auto simp: a leases_of_def Let_def split: prod.splits)
qed (simp add: leases_of_def)

section \<open>Histories of calls\<close>

datatype lease_call =
    Acquire time string string string time
  | AcquireMany time "string list" string string
  | ReleaseLease time string string
  | ReleaseAll time string
  | ExpireStale time

fun lease_call_time :: "lease_call \<Rightarrow> time" where
  "lease_call_time (Acquire t k r m d) = t"
| "lease_call_time (AcquireMany t ks r m) = t"
| "lease_call_time (ReleaseLease t k r) = t"
| "lease_call_time (ReleaseAll t r) = t"
| "lease_call_time (ExpireStale t) = t"

text \<open>
  A mode string that names no mode raises before anything is stored; in \<open>acquire_many\<close> it is the
  same string for every key, so a raising call stores nothing either.
\<close>

fun lease_step :: "lease_table \<Rightarrow> lease_call \<Rightarrow> lease_table" where
  "lease_step s (Acquire t k r m d) = (case acquire t k r m d s of Inl e \<Rightarrow> s | Inr (l, s') \<Rightarrow> s')"
| "lease_step s (AcquireMany t ks r m) =
     (case acquire_many t ks r m s of Inl e \<Rightarrow> s | Inr (ls, s') \<Rightarrow> s')"
| "lease_step s (ReleaseLease t k r) = snd (release_lease k r s)"
| "lease_step s (ReleaseAll t r) = snd (release_all r s)"
| "lease_step s (ExpireStale t) = snd (expire_stale t s)"

definition lease_inv :: "time \<Rightarrow> lease_table \<Rightarrow> bool" where
  "lease_inv t s \<longleftrightarrow> is_dict s \<and> (\<forall>k. exclusive (live_holders t k s))"

lemma exclusive_subseq:
  assumes "exclusive hs" "subseq hs' hs"
  shows "exclusive hs'"
proof -
  have "set hs' \<subseteq> set hs" using assms(2) by (auto elim: list_emb_set)
  moreover have "length hs' \<le> length hs" using assms(2) by (rule list_emb_length)
  ultimately show ?thesis using assms(1) by (auto simp: exclusive_def)
qed

lemma live_later:
  "t \<le> t' \<Longrightarrow> subseq (live_holders t' k s) (live_holders t k s)"
proof -
  assume "t \<le> t'"
  then have "filter (\<lambda>l. \<not> expired t' l) ls
      = filter (\<lambda>l. \<not> expired t' l) (filter (\<lambda>l. \<not> expired t l) ls)" for ls
    by (induction ls) (auto simp: expired_def)
  then show ?thesis
    unfolding live_holders_def by (metis subseq_filter_left subseq_map)
qed

lemma lease_inv_later: "lease_inv t s \<Longrightarrow> t \<le> t' \<Longrightarrow> lease_inv t' s"
  unfolding lease_inv_def using live_later exclusive_subseq by blast

lemma grant_exclusive: "exclusive hs \<Longrightarrow> exclusive (grant run m hs)"
  by (auto simp: exclusive_def grant_def compatible_def)

lemma pop_owner_subseq: "pop_owner run ls = Some ls' \<Longrightarrow> subseq ls' ls"
  by (induction ls arbitrary: ls') (auto split: if_splits option.splits)

lemma live_subseq:
  "subseq (leases_of k s') (leases_of k s) \<Longrightarrow> subseq (live_holders t k s') (live_holders t k s)"
  unfolding live_holders_def by (intro subseq_map subseq_filter)

lemma release_subseq: "subseq (leases_of k (snd (release_lease key run s))) (leases_of k s)"
  by (auto simp: release_lease_def split: option.splits dest: pop_owner_subseq)

lemma release_is_dict [simp]: "is_dict s \<Longrightarrow> is_dict (snd (release_lease key run s))"
  by (auto simp: release_lease_def split: option.splits)

lemma acquire_abs:
  assumes "acquire now key run mode d s = Inr (got, s')" "lease_mode_of mode = Some m" "0 \<le> d"
  shows "live_holders now k s' = (if k = key then grant run m (live_holders now k s)
      else live_holders now k s)"
    and "got = None \<longleftrightarrow> \<not> compatible m (live_holders now key s)"
  using assms by (auto simp: acquire_def grant_def live_holders_def conflict_iff expired_def
      Let_def simp del: lease_mode_of.simps split: if_splits)

text \<open>A lease that is born expired (a negative duration) does not change the holders.\<close>

lemma acquire_inv:
  assumes "lease_inv now s" "acquire now key run mode d s = Inr (got, s')"
  shows "lease_inv now s'"
proof (cases "lease_mode_of mode")
  case (Some m)
  have dict: "is_dict s'" using assms Some by (auto simp: lease_inv_def acquire_def Let_def split: if_splits)
  have "exclusive (live_holders now k s')" for k
  proof (cases "0 \<le> d")
    case True
    show ?thesis
      using assms(1) acquire_abs(1) [OF assms(2) Some True, of k]
      by (auto simp: lease_inv_def intro: grant_exclusive)
  next
    case False
    then have "live_holders now k s' = live_holders now k s"
      using assms(2) Some by (auto simp: acquire_def live_holders_def expired_def Let_def split: if_splits)
    then show ?thesis using assms(1) by (simp add: lease_inv_def)
  qed
  with dict show ?thesis by (simp add: lease_inv_def)
qed (use assms in \<open>simp add: acquire_def\<close>)

lemma acquire_many_inv:
  "lease_inv now s \<Longrightarrow> acquire_many now ks run mode s = Inr (ls, s') \<Longrightarrow> lease_inv now s'"
proof (induction ks arbitrary: s ls s')
  case (Cons k ks)
  then obtain got s1 ls1 where "acquire now k run mode default_lease_s s = Inr (got, s1)"
    "acquire_many now ks run mode s1 = Inr (ls1, s')"
    by (auto split: sum.splits)
  with Cons show ?case by (blast intro: acquire_inv)
qed simp

lemma shrink_inv:
  assumes "lease_inv t s" "is_dict s'" "\<And>k. subseq (leases_of k s') (leases_of k s)"
  shows "lease_inv t s'"
  using assms exclusive_subseq live_subseq unfolding lease_inv_def by blast

lemma keep_inv: "lease_inv t s \<Longrightarrow> lease_inv t (snd (keep_leases p s))"
  by (rule shrink_inv) (auto simp: lease_inv_def leases_of_keep subseq_filter_left)

lemma lease_step_inv:
  assumes "lease_inv (lease_call_time c) s"
  shows "lease_inv (lease_call_time c) (lease_step s c)"
proof (cases c)
  case (Acquire t k r m d)
  with assms show ?thesis by (auto split: sum.splits intro: acquire_inv)
next
  case (AcquireMany t ks r m)
  with assms show ?thesis by (auto split: sum.splits intro: acquire_many_inv)
next
  case (ReleaseLease t k r)
  with assms show ?thesis
    by simp (rule shrink_inv, assumption, simp_all add: release_subseq lease_inv_def)
next
  case (ReleaseAll t r)
  with assms show ?thesis by (simp add: release_all_def keep_inv)
next
  case (ExpireStale t)
  with assms show ?thesis by (simp add: expire_stale_def keep_inv)
qed

text \<open>A history with a clock that does not go back, from the time \<open>t\<close> on.\<close>

fun clocked :: "time \<Rightarrow> lease_call list \<Rightarrow> bool" where
  "clocked t [] = True"
| "clocked t (c # cs) = (t \<le> lease_call_time c \<and> clocked (lease_call_time c) cs)"

fun last_time :: "time \<Rightarrow> lease_call list \<Rightarrow> time" where
  "last_time t [] = t"
| "last_time t (c # cs) = last_time (lease_call_time c) cs"

lemma run_lease_inv:
  "lease_inv t s \<Longrightarrow> clocked t cs \<Longrightarrow> lease_inv (last_time t cs) (foldl lease_step s cs)"
proof (induction cs arbitrary: t s)
  case (Cons c cs)
  then show ?case using lease_step_inv [of c s] lease_inv_later [of t s "lease_call_time c"] by simp
qed simp

section \<open>Properties\<close>

text \<open>
  C14. Mutual exclusion: along any history of calls with any durations and a clock that does not go back, at every
  time from the last call on, the live leases of a key are at most one or all read leases. A
  write lease is therefore never live together with another lease, whoever crashed or expired
  before, and whichever calls raised.
\<close>

theorem write_lease_excludes:
  assumes "clocked t0 cs" and "last_time t0 cs \<le> t"
  shows "exclusive (live_holders t key (foldl lease_step [] cs))"
proof -
  have "lease_inv t0 []" by (simp add: lease_inv_def live_holders_def leases_of_def exclusive_def)
  from lease_inv_later [OF run_lease_inv [OF this assms(1)] assms(2)] show ?thesis
    by (simp add: lease_inv_def)
qed

lemma write_lease_excludes_witness:
  "exclusive (live_holders 20 ''repo'' (foldl lease_step []
     [Acquire 1 ''repo'' ''run1'' ''write'' 5, Acquire 3 ''repo'' ''run2'' ''read'' 300,
      Acquire 10 ''repo'' ''run3'' ''read'' 300, Acquire 11 ''repo'' ''run4'' ''bogus'' 300,
      Acquire 12 ''repo'' ''run2'' ''read'' 300]))"
  by (rule write_lease_excludes [of 0]) simp_all

text \<open>
  C39. Refinement of the lock table: \<open>acquire\<close> with a valid mode and a duration that is not negative changes the live holders of its
  key exactly as the specification's \<open>grant\<close> does, changes no other key, returns \<open>None\<close> exactly
  when the specification refuses, and \<open>check_conflict\<close> predicts that refusal.
\<close>

theorem acquire_refines_lock_table:
  assumes "lease_mode_of mode = Some m" and "0 \<le> d"
  shows "\<exists>got s'. acquire now key run mode d s = Inr (got, s')
    \<and> live_holders now key s' = grant run m (live_holders now key s)
    \<and> (\<forall>k. k = key \<or> live_holders now k s' = live_holders now k s)
    \<and> (got = None) = (\<not> compatible m (live_holders now key s))
    \<and> check_conflict now key mode s = Inr (got = None)"
proof -
  obtain got s' where *: "acquire now key run mode d s = Inr (got, s')"
    using assms(1) by (cases "acquire now key run mode d s") (auto simp: acquire_def Let_def split: if_splits)
  have "check_conflict now key mode s = Inr (got = None)"
    using assms(1) acquire_abs(2) [OF * assms]
    by (simp add: check_conflict_def conflict_iff live_holders_def)
  with * show ?thesis
    using acquire_abs(1) [OF * assms] acquire_abs(2) [OF * assms] by auto
qed

lemma acquire_refines_lock_table_witness:
  "\<exists>got s'. acquire 1 ''repo'' ''run1'' ''write'' 300 [] = Inr (got, s')
    \<and> live_holders 1 ''repo'' s' = grant ''run1'' WRITE (live_holders 1 ''repo'' [])
    \<and> (\<forall>k. k = ''repo'' \<or> live_holders 1 k s' = live_holders 1 k [])
    \<and> (got = None) = (\<not> compatible WRITE (live_holders 1 ''repo'' []))
    \<and> check_conflict 1 ''repo'' ''write'' [] = Inr (got = None)"
  by (rule acquire_refines_lock_table) simp_all

text \<open>
  Taking over an expired lease does not replace it: a new request is granted whatever the
  expired lease's mode, but the record of the crashed run stays in the list in front of the new
  one, is still returned by \<open>list_for_run\<close> for that run and still counted as active, until
  \<open>expire_stale\<close> removes exactly it.
\<close>

theorem takeover_keeps_expired_lease:
  assumes "expired now old" and "lease_mode_of mode = Some m" and "0 \<le> d"
  shows "\<exists>new s'. acquire now key run mode d [(key, [old])] = Inr (Some new, s')
    \<and> leases_of key s' = [old, new]
    \<and> old \<in> set (list_for_run (owner_run_id old) s')
    \<and> active_lease_count s' = 2
    \<and> expire_stale now s' = (1, [(key, [new])])"
  using assms
  by (auto simp: acquire_def leases_of_def list_for_run_def dict_values_def active_lease_count_def
      expire_stale_def expired_def Let_def simp del: lease_mode_of.simps)

definition crashed_lease :: lease where
  "crashed_lease = \<lparr>lease_key = ''repo'', owner_run_id = ''run1'', lease_mode = WRITE,
     acquired_at = 0, expires_at = 5\<rparr>"

lemma takeover_keeps_expired_lease_witness:
  "\<exists>new s'. acquire 9 ''repo'' ''run2'' ''write'' 300 [(''repo'', [crashed_lease])] = Inr (Some new, s')
    \<and> leases_of ''repo'' s' = [crashed_lease, new]
    \<and> crashed_lease \<in> set (list_for_run (owner_run_id crashed_lease) s')
    \<and> active_lease_count s' = 2
    \<and> expire_stale 9 s' = (1, [(''repo'', [new])])"
  by (rule takeover_keeps_expired_lease) (simp_all add: expired_def crashed_lease_def)

end
