(* ===== verification/Outbox_Store.thy ===== *)
theory Outbox_Store
  imports Grace_Prelude
begin

text \<open>
  \<^verbatim>\<open>infrastructure/outbox/sqlite_store.py\<close> and the lookups of
  \<^verbatim>\<open>application/events/schema_registry.py\<close> it uses: the durable outbox, a table of events that a
  relay claims, delivers, reschedules or dead-letters. A table is its list of rows in insertion
  order, and a SQL statement is the list operation it denotes; each method is one transaction.
  The clock is the argument \<open>now\<close>; time stamps, which the code stores as ISO texts in UTC, are
  times. An envelope carries its canonical JSON text as a field, and SHA-256 is the parameter
  \<open>sha\<close> of \<open>append\<close>. The lemmas show what a claim may take, that versions of an
  aggregate are delivered in order, and what the identity check keeps.
\<close>

section \<open>The schema registry\<close>

record schema_entry =
  se_event_type :: string
  se_version :: int
  se_payload_class :: string

type_synonym schema_registry = "(string \<times> int, schema_entry) dict"

definition se_key :: "schema_entry \<Rightarrow> string \<times> int" where
  "se_key e = (se_event_type e, se_version e)"

datatype registry_error = DuplicateSchemaKey "string \<times> int" string string

definition registry_register ::
  "schema_entry \<Rightarrow> schema_registry \<Rightarrow> registry_error + schema_registry" where
  "registry_register e r =
     (case dict_get r (se_key e) of
        Some old \<Rightarrow> Inl (DuplicateSchemaKey (se_key e) (se_payload_class old) (se_payload_class e))
      | None \<Rightarrow> Inr (dict_set (se_key e) e r))"

fun registry_search :: "string \<Rightarrow> schema_registry \<Rightarrow> schema_entry option" where
  "registry_search ty [] = None"
| "registry_search ty ((k, e) # r) = (if fst k = ty then Some e else registry_search ty r)"

definition registry_get :: "string \<Rightarrow> int option \<Rightarrow> schema_registry \<Rightarrow> schema_entry option" where
  "registry_get ty v r =
     (case v of Some n \<Rightarrow> dict_get r (ty, n) | None \<Rightarrow> registry_search ty r)"

definition registry_has :: "string \<Rightarrow> schema_registry \<Rightarrow> bool" where
  "registry_has ty r \<longleftrightarrow> registry_get ty None r \<noteq> None"

definition validate_payload :: "string \<Rightarrow> string \<Rightarrow> schema_registry \<Rightarrow> bool" where
  "validate_payload ty cls r =
     (case registry_get ty None r of None \<Rightarrow> False | Some e \<Rightarrow> se_payload_class e = cls)"

section \<open>The table\<close>

datatype row_status = OB_PENDING | OB_CLAIMED | OB_DELIVERED | OB_DEAD_LETTER

record outbox_row =
  event_id :: string
  event_type :: string
  row_session_id :: string
  aggregate_id :: string
  aggregate_version :: int
  payload_json :: string
  payload_digest :: string
  occurred_at :: time
  status :: row_status
  attempts :: int
  claimed_by :: "string option"
  claimed_at :: "time option"
  available_at :: "time option"
  delivered_at :: "time option"
  last_error :: "string option"

record outbox =
  rows :: "outbox_row list"
  receipts :: "((string \<times> string) \<times> time) list"

definition empty_outbox :: outbox where
  "empty_outbox = \<lparr>rows = [], receipts = []\<rparr>"

record envelope =
  env_event_id :: string
  env_event_type :: string
  env_session_id :: "string option"
  env_aggregate_id :: string
  env_aggregate_version :: int
  env_occurred_at :: time
  env_payload_class :: string
  env_canonical_json :: string

datatype append_error =
    EventTypeNotRegistered string
  | PayloadTypeMismatch string
  | EventIdentityConflict string string string

text \<open>\<open>_normalize_event_type\<close>: the known version suffixes are three characters long.\<close>

definition normalize_event_type :: "string \<Rightarrow> string" where
  "normalize_event_type raw =
     (if ends_with raw ''.v1'' \<or> ends_with raw ''.v2'' \<or> ends_with raw ''.v3''
      then take (length raw - 3) raw else raw)"

fun find_row :: "string \<Rightarrow> outbox_row list \<Rightarrow> outbox_row option" where
  "find_row i [] = None"
| "find_row i (r # rs) = (if event_id r = i then Some r else find_row i rs)"

definition new_row :: "(string \<Rightarrow> string) \<Rightarrow> envelope \<Rightarrow> outbox_row" where
  "new_row sha e =
     \<lparr>event_id = env_event_id e, event_type = normalize_event_type (env_event_type e),
      row_session_id = the_default [] (env_session_id e), aggregate_id = env_aggregate_id e,
      aggregate_version = env_aggregate_version e, payload_json = env_canonical_json e,
      payload_digest = sha (env_canonical_json e), occurred_at = env_occurred_at e,
      status = OB_PENDING, attempts = 0, claimed_by = None, claimed_at = None,
      available_at = Some (env_occurred_at e), delivered_at = None, last_error = None\<rparr>"

definition outbox_append ::
  "(string \<Rightarrow> string) \<Rightarrow> schema_registry \<Rightarrow> envelope \<Rightarrow> outbox \<Rightarrow> append_error + outbox" where
  "outbox_append sha reg e ob =
     (if \<not> registry_has (env_event_type e) reg then Inl (EventTypeNotRegistered (env_event_type e))
      else if \<not> validate_payload (env_event_type e) (env_payload_class e) reg then
        Inl (PayloadTypeMismatch (env_payload_class e))
      else
        let digest = sha (env_canonical_json e) in
        case find_row (env_event_id e) (rows ob) of
          Some old \<Rightarrow>
            if payload_digest old = digest then Inr ob
            else Inl (EventIdentityConflict (env_event_id e) (payload_digest old) digest)
        | None \<Rightarrow> Inr (ob\<lparr>rows := rows ob @ [new_row sha e]\<rparr>))"

section \<open>Claims\<close>

definition expire_claim :: "time \<Rightarrow> outbox_row \<Rightarrow> outbox_row" where
  "expire_claim limit r =
     (if status r = OB_CLAIMED \<and> (case claimed_at r of None \<Rightarrow> False | Some t \<Rightarrow> t < limit)
      then r\<lparr>status := OB_PENDING, claimed_by := None, claimed_at := None\<rparr> else r)"

definition blocked_by :: "outbox_row \<Rightarrow> outbox_row \<Rightarrow> bool" where
  "blocked_by e prev \<longleftrightarrow> aggregate_id prev = aggregate_id e
     \<and> aggregate_version prev < aggregate_version e \<and> status prev \<noteq> OB_DELIVERED"

definition claimable :: "time \<Rightarrow> outbox_row list \<Rightarrow> outbox_row \<Rightarrow> bool" where
  "claimable now rs e \<longleftrightarrow> status e = OB_PENDING
     \<and> (case available_at e of None \<Rightarrow> True | Some t \<Rightarrow> t \<le> now)
     \<and> \<not> list_ex (blocked_by e) rs"

definition claim_ids :: "time \<Rightarrow> nat \<Rightarrow> outbox_row list \<Rightarrow> string list" where
  "claim_ids now limit rs =
     map event_id (take limit (sort_key occurred_at (filter (claimable now rs) rs)))"

definition claim_row :: "string \<Rightarrow> time \<Rightarrow> outbox_row \<Rightarrow> outbox_row" where
  "claim_row w now r = r\<lparr>status := OB_CLAIMED, claimed_by := Some w, claimed_at := Some now\<rparr>"

text \<open>
  SQLite leaves the order of equal \<open>occurred_at\<close> and the order of \<open>RETURNING\<close> open; the model
  takes the table's order for both, and no property below depends on it.
\<close>

definition claim_batch ::
  "time \<Rightarrow> string \<Rightarrow> nat \<Rightarrow> time \<Rightarrow> outbox \<Rightarrow> outbox_row list \<times> outbox" where
  "claim_batch now w limit lease_s ob =
     (let rs = map (expire_claim (now - lease_s)) (rows ob);
          ids = claim_ids now limit rs;
          rs' = map (\<lambda>r. if event_id r \<in> set ids then claim_row w now r else r) rs
      in (filter (\<lambda>r. event_id r \<in> set ids) rs', ob\<lparr>rows := rs'\<rparr>))"

section \<open>Outcomes\<close>

definition owned :: "string \<Rightarrow> string \<Rightarrow> outbox_row \<Rightarrow> bool" where
  "owned i w r \<longleftrightarrow> event_id r = i \<and> claimed_by r = Some w"

definition update_owned ::
  "string \<Rightarrow> string \<Rightarrow> (outbox_row \<Rightarrow> outbox_row) \<Rightarrow> outbox \<Rightarrow> bool \<times> outbox" where
  "update_owned i w f ob =
     (list_ex (owned i w) (rows ob),
      ob\<lparr>rows := map (\<lambda>r. if owned i w r then f r else r) (rows ob)\<rparr>)"

definition mark_delivered :: "time \<Rightarrow> string \<Rightarrow> string \<Rightarrow> outbox \<Rightarrow> bool \<times> outbox" where
  "mark_delivered now i w ob =
     update_owned i w (\<lambda>r. r\<lparr>status := OB_DELIVERED, delivered_at := Some now\<rparr>) ob"

definition reschedule ::
  "time \<Rightarrow> string \<Rightarrow> string \<Rightarrow> string \<Rightarrow> time \<Rightarrow> outbox \<Rightarrow> bool \<times> outbox" where
  "reschedule now i w err delay ob =
     update_owned i w
       (\<lambda>r. r\<lparr>status := OB_PENDING, claimed_by := None, claimed_at := None,
             attempts := attempts r + 1, last_error := Some (take 500 err),
             available_at := Some (now + delay)\<rparr>) ob"

definition dead_letter :: "string \<Rightarrow> string \<Rightarrow> string \<Rightarrow> outbox \<Rightarrow> bool \<times> outbox" where
  "dead_letter i w err ob =
     update_owned i w
       (\<lambda>r. r\<lparr>status := OB_DEAD_LETTER, attempts := attempts r + 1,
             last_error := Some (take 500 err), available_at := None\<rparr>) ob"

definition record_receipt :: "time \<Rightarrow> string \<Rightarrow> string \<Rightarrow> outbox \<Rightarrow> bool \<times> outbox" where
  "record_receipt now consumer i ob =
     (if (consumer, i) \<in> fst ` set (receipts ob) then (False, ob)
      else (True, ob\<lparr>receipts := receipts ob @ [((consumer, i), now)]\<rparr>))"

definition count_by_status :: "row_status \<Rightarrow> outbox \<Rightarrow> nat" where
  "count_by_status st ob = length (filter (\<lambda>r. status r = st) (rows ob))"

definition count_pending :: "outbox \<Rightarrow> nat" where
  "count_pending ob = count_by_status OB_PENDING ob"

section \<open>Histories of calls\<close>

datatype outbox_call =
    Append envelope
  | ClaimBatch time string nat time
  | MarkDelivered time string string
  | Reschedule time string string string time
  | DeadLetter string string string
  | RecordReceipt time string string

fun outbox_step ::
  "(string \<Rightarrow> string) \<Rightarrow> schema_registry \<Rightarrow> outbox \<Rightarrow> outbox_call \<Rightarrow> outbox" where
  "outbox_step sha reg ob (Append e) =
     (case outbox_append sha reg e ob of Inl err \<Rightarrow> ob | Inr ob' \<Rightarrow> ob')"
| "outbox_step sha reg ob (ClaimBatch t w n l) = snd (claim_batch t w n l ob)"
| "outbox_step sha reg ob (MarkDelivered t i w) = snd (mark_delivered t i w ob)"
| "outbox_step sha reg ob (Reschedule t i w e d) = snd (reschedule t i w e d ob)"
| "outbox_step sha reg ob (DeadLetter i w e) = snd (dead_letter i w e ob)"
| "outbox_step sha reg ob (RecordReceipt t c i) = snd (record_receipt t c i ob)"

section \<open>Identity\<close>

text \<open>What an event is, apart from its delivery.\<close>

definition row_identity ::
  "outbox_row \<Rightarrow> string \<times> string \<times> string \<times> string \<times> int \<times> string \<times> string \<times> time" where
  "row_identity r = (event_id r, event_type r, row_session_id r, aggregate_id r,
     aggregate_version r, payload_json r, payload_digest r, occurred_at r)"

definition identities ::
  "outbox \<Rightarrow> (string \<times> string \<times> string \<times> string \<times> int \<times> string \<times> string \<times> time) list" where
  "identities ob = map row_identity (rows ob)"

lemma identity_expire [simp]: "row_identity (expire_claim l r) = row_identity r"
  by (simp add: row_identity_def expire_claim_def)

lemma identity_claim [simp]: "row_identity (claim_row w now r) = row_identity r"
  by (simp add: row_identity_def claim_row_def)

lemma identity_fields:
  "row_identity r = row_identity r' \<Longrightarrow> event_id r = event_id r'
     \<and> aggregate_id r = aggregate_id r' \<and> aggregate_version r = aggregate_version r'"
  by (simp add: row_identity_def)

lemma id_expire [simp]:
  "event_id (expire_claim l r) = event_id r" "aggregate_id (expire_claim l r) = aggregate_id r"
  "aggregate_version (expire_claim l r) = aggregate_version r"
  using identity_fields [OF identity_expire [of l r]] by simp_all

lemma id_claim [simp]:
  "event_id (claim_row w t r) = event_id r" "aggregate_id (claim_row w t r) = aggregate_id r"
  "aggregate_version (claim_row w t r) = aggregate_version r"
  "status (claim_row w t r) = OB_CLAIMED" "claimed_by (claim_row w t r) = Some w"
  "claimed_at (claim_row w t r) = Some t"
  by (simp_all add: claim_row_def)

lemma update_owned_identities:
  "(\<And>r. row_identity (f r) = row_identity r) \<Longrightarrow>
     identities (snd (update_owned i w f ob)) = identities ob"
  by (simp add: identities_def update_owned_def)

lemma outcome_identities [simp]:
  "identities (snd (mark_delivered t i w ob)) = identities ob"
  "identities (snd (reschedule t i w e d ob)) = identities ob"
  "identities (snd (dead_letter i w e ob)) = identities ob"
  "identities (snd (record_receipt t c i ob)) = identities ob"
  unfolding mark_delivered_def reschedule_def dead_letter_def
  by (rule update_owned_identities, simp add: row_identity_def)+
    (simp add: record_receipt_def identities_def)

lemma claim_identities [simp]: "identities (snd (claim_batch t w n l ob)) = identities ob"
  by (simp add: claim_batch_def identities_def Let_def comp_def if_distrib [of row_identity]
      cong: if_cong)

lemma find_row_None: "find_row i rs = None \<longleftrightarrow> i \<notin> event_id ` set rs"
  by (induction rs) auto

lemma find_row_Some: "find_row i rs = Some r \<Longrightarrow> r \<in> set rs \<and> event_id r = i"
  by (induction rs) (auto split: if_splits)

lemma find_row_distinct:
  "distinct (map event_id rs) \<Longrightarrow> r \<in> set rs \<Longrightarrow> find_row (event_id r) rs = Some r"
  by (induction rs) (auto simp: image_iff)

lemma append_cases:
  assumes "outbox_append sha reg e ob = Inr ob'"
  shows "(ob' = ob \<and> (\<exists>r. find_row (env_event_id e) (rows ob) = Some r
            \<and> payload_digest r = sha (env_canonical_json e)))
    \<or> (find_row (env_event_id e) (rows ob) = None \<and> ob' = ob\<lparr>rows := rows ob @ [new_row sha e]\<rparr>)"
  using assms by (auto simp: outbox_append_def Let_def split: if_splits option.splits)

lemma step_identities_append:
  "outbox_step sha reg ob (Append e) = ob
   \<or> (find_row (env_event_id e) (rows ob) = None
      \<and> outbox_step sha reg ob (Append e) = ob\<lparr>rows := rows ob @ [new_row sha e]\<rparr>)"
  by (auto split: sum.splits dest: append_cases)

lemma step_identities:
  "\<exists>new. identities (outbox_step sha reg ob c) = identities ob @ new"
proof (cases c)
  case (Append e)
  show ?thesis
    using step_identities_append [of sha reg ob e] unfolding Append
    by (auto simp: identities_def simp del: outbox_step.simps)
qed simp_all

interpretation outbox_log: op_latch "outbox_step sha reg" "\<lambda>ob. prefix xs (identities ob)"
  for sha reg xs
  by unfold_locales (metis step_identities prefix_def append_assoc)

definition distinct_ids :: "outbox \<Rightarrow> bool" where
  "distinct_ids ob \<longleftrightarrow> distinct (map event_id (rows ob))"

lemma distinct_ids_identities: "distinct_ids ob \<longleftrightarrow> distinct (map fst (identities ob))"
  by (simp add: distinct_ids_def identities_def comp_def row_identity_def)

lemma step_distinct_ids: "distinct_ids ob \<Longrightarrow> distinct_ids (outbox_step sha reg ob c)"
proof (cases c)
  case (Append e)
  assume d: "distinct_ids ob"
  show ?thesis
    using step_identities_append [of sha reg ob e] d Append
    by (auto simp: distinct_ids_def find_row_None new_row_def simp del: outbox_step.simps)
qed (simp_all add: distinct_ids_identities)

interpretation outbox_keys: op_invariant "outbox_step sha reg" distinct_ids for sha reg
  by unfold_locales (rule step_distinct_ids)

text \<open>
  An event keeps its identity: once its row is in the outbox, no sequence of appends, claims
  and outcomes changes its type, session, aggregate, version, payload, digest or time, event ids
  stay unique, and an append of the same id with another digest is refused and changes nothing.
\<close>

theorem outbox_identity_is_stable:
  assumes "distinct_ids ob" and "find_row i (rows ob) = Some r"
  shows "\<exists>r'. find_row i (rows (foldl (outbox_step sha reg) ob cs)) = Some r'
    \<and> row_identity r' = row_identity r
    \<and> distinct_ids (foldl (outbox_step sha reg) ob cs)
    \<and> (sha (env_canonical_json e) \<noteq> payload_digest r \<and> env_event_id e = i \<longrightarrow>
         (\<exists>err. outbox_append sha reg e (foldl (outbox_step sha reg) ob cs) = Inl err))"
proof -
  let ?ob = "foldl (outbox_step sha reg) ob cs"
  have d: "distinct_ids ?ob" using assms(1) by (rule outbox_keys.run_inv)
  have "prefix (identities ob) (identities ?ob)" by (rule outbox_log.latch_inv.run_inv) simp
  then have "set (identities ob) \<subseteq> set (identities ?ob)" by (rule set_mono_prefix)
  then have "row_identity r \<in> set (identities ?ob)"
    using find_row_Some [OF assms(2)] by (auto simp: identities_def)
  then obtain r' where r': "r' \<in> set (rows ?ob)" "row_identity r' = row_identity r"
    by (auto simp: identities_def)
  then have i: "event_id r' = i" "payload_digest r' = payload_digest r"
    using find_row_Some [OF assms(2)] by (auto simp: row_identity_def)
  have f: "find_row i (rows ?ob) = Some r'"
    using find_row_distinct [OF d [unfolded distinct_ids_def] r'(1)] i by simp
  have "\<exists>err. outbox_append sha reg e ?ob = Inl err"
    if "sha (env_canonical_json e) \<noteq> payload_digest r" "env_event_id e = i"
    using that f i by (auto simp: outbox_append_def Let_def)
  with f r'(2) d show ?thesis by blast
qed

section \<open>Claims\<close>

lemma sort_take_in: "i \<in> set (claim_ids now n rs) \<Longrightarrow> \<exists>r \<in> set rs. event_id r = i \<and> claimable now rs r"
proof -
  assume "i \<in> set (claim_ids now n rs)"
  then obtain r where "r \<in> set (take n (sort_key occurred_at (filter (claimable now rs) rs)))"
    "event_id r = i"
    by (auto simp: claim_ids_def)
  moreover from this(1) have "r \<in> set (sort_key occurred_at (filter (claimable now rs) rs))"
    by (rule in_set_takeD)
  ultimately show ?thesis by auto
qed

lemma length_claim_ids: "length (claim_ids now n rs) \<le> n"
  by (simp add: claim_ids_def)

lemma claim_ids_all:
  assumes "length (filter (claimable now rs) rs) \<le> n" "r \<in> set rs" "claimable now rs r"
  shows "event_id r \<in> set (claim_ids now n rs)"
  using assms by (simp add: claim_ids_def)

lemma distinct_row_eq:
  "distinct (map event_id rs) \<Longrightarrow> r \<in> set rs \<Longrightarrow> r' \<in> set rs \<Longrightarrow> event_id r = event_id r' \<Longrightarrow> r = r'"
  by (auto simp: distinct_map dest: inj_onD)

definition after_expiry :: "time \<Rightarrow> time \<Rightarrow> outbox \<Rightarrow> outbox_row list" where
  "after_expiry now lease_s ob = map (expire_claim (now - lease_s)) (rows ob)"

lemma after_expiry_ids: "map event_id (after_expiry now l ob) = map event_id (rows ob)"
  by (simp add: after_expiry_def)

lemma claim_batch_fst:
  "fst (claim_batch now w n l ob)
     = map (claim_row w now) (filter (\<lambda>r. event_id r \<in> set (claim_ids now n (after_expiry now l ob)))
         (after_expiry now l ob))"
proof -
  have "filter (\<lambda>r. event_id r \<in> S) (map (\<lambda>r. if event_id r \<in> S then claim_row w now r else r) rs)
      = map (claim_row w now) (filter (\<lambda>r. event_id r \<in> S) rs)" for S rs
    by (induction rs) auto
  then show ?thesis by (simp only: claim_batch_def after_expiry_def Let_def fst_conv)
qed

lemma claim_batch_rows:
  "rows (snd (claim_batch now w n l ob))
     = map (\<lambda>r. if event_id r \<in> set (claim_ids now n (after_expiry now l ob))
                then claim_row w now r else r) (after_expiry now l ob)"
  by (simp add: claim_batch_def after_expiry_def Let_def)

lemma claimed_was_claimable:
  assumes "distinct_ids ob" "x \<in> set (fst (claim_batch now w n l ob))"
  obtains r where "r \<in> set (after_expiry now l ob)" "claimable now (after_expiry now l ob) r"
    "x = claim_row w now r"
proof -
  let ?rs = "after_expiry now l ob"
  have d: "distinct (map event_id ?rs)"
    using assms(1) by (simp add: after_expiry_ids distinct_ids_def)
  obtain r where r: "r \<in> set ?rs" "event_id r \<in> set (claim_ids now n ?rs)" "x = claim_row w now r"
    using assms(2) by (auto simp: claim_batch_fst)
  obtain r1 where "r1 \<in> set ?rs" "event_id r1 = event_id r" "claimable now ?rs r1"
    using sort_take_in [OF r(2)] by blast
  with distinct_row_eq [OF d] r(1) have "r1 = r" by blast
  with r \<open>claimable now ?rs r1\<close> that show ?thesis by blast
qed

lemma delivered_expire [simp]: "status (expire_claim l r) = OB_DELIVERED \<longleftrightarrow> status r = OB_DELIVERED"
  by (simp add: expire_claim_def)

lemma filter_ids_length:
  "distinct (map event_id rs) \<Longrightarrow> length (filter (\<lambda>r. event_id r \<in> set ids) rs) \<le> length ids"
proof -
  assume "distinct (map event_id rs)"
  then have "distinct (map event_id (filter (\<lambda>r. event_id r \<in> set ids) rs))"
    by (simp add: distinct_map_filter)
  then have "length (filter (\<lambda>r. event_id r \<in> set ids) rs)
      = card (set (map event_id (filter (\<lambda>r. event_id r \<in> set ids) rs)))"
    using distinct_card [of "map event_id (filter (\<lambda>r. event_id r \<in> set ids) rs)"] by simp
  also have "\<dots> \<le> card (set ids)" by (rule card_mono) auto
  also have "\<dots> \<le> length ids" by (rule card_length)
  finally show ?thesis .
qed

text \<open>
  What a claim takes: at most \<open>limit\<close> events, each stored as claimed by the worker at that
  time and available by then; every event of the same aggregate with a lower version is already
  delivered, so one batch never holds two versions of an aggregate; and when the claimable events
  do not exceed the limit, the batch holds all of them.
\<close>

theorem claim_respects_aggregate_order:
  assumes "distinct_ids ob"
  shows "length (fst (claim_batch now w n l ob)) \<le> n
    \<and> (\<forall>e \<in> set (fst (claim_batch now w n l ob)).
         e \<in> set (rows (snd (claim_batch now w n l ob)))
         \<and> status e = OB_CLAIMED \<and> claimed_by e = Some w \<and> claimed_at e = Some now
         \<and> (\<forall>p \<in> set (rows (snd (claim_batch now w n l ob))).
              aggregate_id p = aggregate_id e \<and> aggregate_version p < aggregate_version e
              \<longrightarrow> status p = OB_DELIVERED))
    \<and> (length (filter (claimable now (after_expiry now l ob)) (after_expiry now l ob)) \<le> n \<longrightarrow>
         (\<forall>r \<in> set (after_expiry now l ob). claimable now (after_expiry now l ob) r \<longrightarrow>
            claim_row w now r \<in> set (fst (claim_batch now w n l ob))))"
proof (intro conjI ballI impI)
  let ?rs = "after_expiry now l ob"
  let ?ids = "claim_ids now n ?rs"
  have d: "distinct (map event_id ?rs)" using assms by (simp add: after_expiry_ids distinct_ids_def)
  show "length (fst (claim_batch now w n l ob)) \<le> n"
    using filter_ids_length [OF d, of ?ids] length_claim_ids [of now n ?rs]
    by (simp add: claim_batch_fst)
  fix e assume e: "e \<in> set (fst (claim_batch now w n l ob))"
  then obtain r where r: "r \<in> set ?rs" "claimable now ?rs r" "e = claim_row w now r"
    by (rule claimed_was_claimable [OF assms])
  show "e \<in> set (rows (snd (claim_batch now w n l ob)))"
    using e by (auto simp: claim_batch_fst claim_batch_rows)
  show "status e = OB_CLAIMED" "claimed_by e = Some w" "claimed_at e = Some now"
    using r(3) by simp_all
  fix p assume p: "p \<in> set (rows (snd (claim_batch now w n l ob)))"
    "aggregate_id p = aggregate_id e \<and> aggregate_version p < aggregate_version e"
  then obtain q where q: "q \<in> set ?rs"
    "p = (if event_id q \<in> set ?ids then claim_row w now q else q)"
    by (auto simp: claim_batch_rows)
  then have "aggregate_id q = aggregate_id r" "aggregate_version q < aggregate_version r"
    using p(2) r(3) by (auto split: if_splits)
  then have del: "status q = OB_DELIVERED"
    using r(2) q(1) by (auto simp: claimable_def blocked_by_def list_ex_iff)
  have "event_id q \<notin> set ?ids"
    using sort_take_in [of "event_id q" now n ?rs] distinct_row_eq [OF d q(1)] del
    by (metis claimable_def row_status.distinct(3))
  then show "status p = OB_DELIVERED" using q(2) del by simp
next
  fix r assume "length (filter (claimable now (after_expiry now l ob)) (after_expiry now l ob)) \<le> n"
    "r \<in> set (after_expiry now l ob)" "claimable now (after_expiry now l ob) r"
  then show "claim_row w now r \<in> set (fst (claim_batch now w n l ob))"
    using claim_ids_all by (auto simp: claim_batch_fst)
qed

section \<open>Ownership\<close>

lemma update_not_owned:
  "\<forall>r \<in> set (rows ob). \<not> owned i w r \<Longrightarrow> update_owned i w f ob = (False, ob)"
proof -
  assume no: "\<forall>r \<in> set (rows ob). \<not> owned i w r"
  then have "map (\<lambda>r. if owned i w r then f r else r) (rows ob) = rows ob" by (intro map_idI) simp
  with no show ?thesis by (simp add: update_owned_def list_ex_iff)
qed

lemma outcome_not_owned:
  assumes "\<forall>r \<in> set (rows ob). \<not> owned i w r"
  shows "mark_delivered t i w ob = (False, ob)" "reschedule t i w err d ob = (False, ob)"
    "dead_letter i w err ob = (False, ob)"
  using update_not_owned [OF assms] by (simp_all add: mark_delivered_def reschedule_def dead_letter_def)

lemma claim_not_again:
  assumes "distinct_ids ob" "e \<in> set (rows ob)" "status e = OB_CLAIMED" "claimed_at e = Some t"
    "now - l \<le> t"
  shows "event_id e \<notin> event_id ` set (fst (claim_batch now w n l ob))"
proof
  let ?rs = "after_expiry now l ob"
  assume "event_id e \<in> event_id ` set (fst (claim_batch now w n l ob))"
  then obtain x where "x \<in> set (fst (claim_batch now w n l ob))" "event_id x = event_id e" by force
  then obtain r where r: "r \<in> set ?rs" "claimable now ?rs r" "event_id r = event_id e"
    using claimed_was_claimable [OF assms(1)] by (metis id_claim(1))
  have "e \<in> set ?rs"
    using assms by (auto simp: after_expiry_def expire_claim_def image_iff intro!: bexI [of _ e])
  then have "r = e"
    using r distinct_row_eq [of ?rs r e] assms(1) by (simp add: after_expiry_ids distinct_ids_def)
  then show False using r(2) assms(3) by (simp add: claimable_def)
qed

text \<open>
  C8. A claim is exclusive: while it is fresh, no worker (the same one included) can claim the
  event again, and the calls of any other worker on it, such as one whose own claim of it had
  expired, return False and leave the outbox exactly as it is.
\<close>

theorem claim_is_exclusive:
  assumes "distinct_ids ob" and "e \<in> set (fst (claim_batch now w n l ob))"
    and "w' \<noteq> w" and "now' - l' \<le> now"
  shows "let ob' = snd (claim_batch now w n l ob) in
     event_id e \<notin> event_id ` set (fst (claim_batch now' w'' n' l' ob'))
     \<and> mark_delivered t (event_id e) w' ob' = (False, ob')
     \<and> reschedule t (event_id e) w' err d ob' = (False, ob')
     \<and> dead_letter (event_id e) w' err ob' = (False, ob')"
proof -
  let ?ob = "snd (claim_batch now w n l ob)"
  have d: "distinct_ids ?ob" using assms(1) by (simp add: distinct_ids_identities)
  have e: "e \<in> set (rows ?ob)" "claimed_by e = Some w"
    using assms(2) by (auto simp: claim_batch_fst claim_batch_rows)
  have c: "status e = OB_CLAIMED" "claimed_at e = Some now"
    using assms(2) by (auto simp: claim_batch_fst)
  have "\<forall>r \<in> set (rows ?ob). \<not> owned (event_id e) w' r"
    using distinct_row_eq [OF d [unfolded distinct_ids_def] _ e(1)] e(2) assms(3)
    unfolding owned_def by (metis option.inject)
  from outcome_not_owned [OF this] show ?thesis
    using claim_not_again [OF d e(1) c assms(4)] by (simp add: Let_def)
qed

section \<open>Delivery in version order\<close>

definition in_order :: "outbox \<Rightarrow> bool" where
  "in_order ob \<longleftrightarrow>
     (\<forall>e \<in> set (rows ob). (status e = OB_PENDING \<longrightarrow> claimed_by e = None)
        \<and> (status e \<noteq> OB_PENDING \<longrightarrow> (\<forall>p \<in> set (rows ob). \<not> blocked_by e p)))"

text \<open>
  A publisher appends the versions of an aggregate in order, and a worker does not reopen an
  event it has already delivered.
\<close>

fun well_used :: "outbox \<Rightarrow> outbox_call \<Rightarrow> bool" where
  "well_used ob (Append e) = (\<forall>r \<in> set (rows ob).
     aggregate_id r = env_aggregate_id e \<longrightarrow> aggregate_version r \<le> env_aggregate_version e)"
| "well_used ob (Reschedule t i w err d) = (\<forall>r \<in> set (rows ob). owned i w r \<longrightarrow> status r \<noteq> OB_DELIVERED)"
| "well_used ob (DeadLetter i w err) = (\<forall>r \<in> set (rows ob). owned i w r \<longrightarrow> status r \<noteq> OB_DELIVERED)"
| "well_used ob _ = True"

fun well_used_all ::
  "(string \<Rightarrow> string) \<Rightarrow> schema_registry \<Rightarrow> outbox \<Rightarrow> outbox_call list \<Rightarrow> bool" where
  "well_used_all sha reg ob [] = True"
| "well_used_all sha reg ob (c # cs) =
     (well_used ob c \<and> well_used_all sha reg (outbox_step sha reg ob c) cs)"

lemma blocked_by_frame:
  "aggregate_id e' = aggregate_id e \<Longrightarrow> aggregate_version e' = aggregate_version e \<Longrightarrow>
   aggregate_id p' = aggregate_id p \<Longrightarrow> aggregate_version p' = aggregate_version p \<Longrightarrow>
   (status p = OB_DELIVERED \<Longrightarrow> status p' = OB_DELIVERED) \<Longrightarrow>
   blocked_by e' p' \<Longrightarrow> blocked_by e p"
  by (auto simp: blocked_by_def)

lemma update_in_order:
  assumes "in_order ob" "\<And>r. row_identity (f r) = row_identity r"
    "\<And>r. r \<in> set (rows ob) \<Longrightarrow> owned i w r \<Longrightarrow> status r = OB_DELIVERED \<Longrightarrow> status (f r) = OB_DELIVERED"
    "\<And>r. status (f r) = OB_PENDING \<Longrightarrow> claimed_by (f r) = None"
  shows "in_order (snd (update_owned i w f ob))"
proof -
  let ?g = "\<lambda>r. if owned i w r then f r else r"
  have rows: "rows (snd (update_owned i w f ob)) = map ?g (rows ob)" by (simp add: update_owned_def)
  have g: "aggregate_id (?g r) = aggregate_id r" "aggregate_version (?g r) = aggregate_version r" for r
    using identity_fields [OF assms(2)] by auto
  have key: "\<not> blocked_by (?g e) (?g p)" if "e \<in> set (rows ob)" "p \<in> set (rows ob)"
    "status (?g e) \<noteq> OB_PENDING" for e p
  proof
    assume "blocked_by (?g e) (?g p)"
    then have b: "blocked_by e p"
      by (rule blocked_by_frame [rotated 5]) (use g that assms(3) in auto)
    have "status e \<noteq> OB_PENDING"
    proof
      assume "status e = OB_PENDING"
      then have "claimed_by e = None" using assms(1) that(1) by (simp add: in_order_def)
      then have "?g e = e" by (simp add: owned_def)
      then show False using that(3) \<open>status e = OB_PENDING\<close> by simp
    qed
    then show False using b assms(1) that by (simp add: in_order_def)
  qed
  show ?thesis
    unfolding in_order_def rows
  proof (intro ballI conjI impI)
    fix e assume "e \<in> set (map ?g (rows ob))" "status e = OB_PENDING"
    then show "claimed_by e = None"
      using assms(1,4) by (auto simp: in_order_def split: if_splits)
  next
    fix e p assume "e \<in> set (map ?g (rows ob))" "status e \<noteq> OB_PENDING" "p \<in> set (map ?g (rows ob))"
    then obtain e0 p0 where "e0 \<in> set (rows ob)" "e = ?g e0" "p0 \<in> set (rows ob)" "p = ?g p0"
      by auto
    with key [of e0 p0] \<open>status e \<noteq> OB_PENDING\<close> show "\<not> blocked_by e p" by simp
  qed
qed

lemma claim_in_order:
  assumes "distinct_ids ob" "in_order ob"
  shows "in_order (snd (claim_batch now w n l ob))"
proof -
  let ?rs = "after_expiry now l ob"
  let ?ids = "claim_ids now n ?rs"
  let ?g = "\<lambda>r. if event_id r \<in> set ?ids then claim_row w now r else r"
  have d: "distinct (map event_id ?rs)" using assms(1) by (simp add: after_expiry_ids distinct_ids_def)
  have g: "aggregate_id (?g r) = aggregate_id r" "aggregate_version (?g r) = aggregate_version r" for r
    by auto
  have del: "status (?g p) = OB_DELIVERED" if "p \<in> set ?rs" "status p = OB_DELIVERED" for p
    using that sort_take_in [of "event_id p" now n ?rs] distinct_row_eq [OF d that(1)]
    by (metis claimable_def row_status.distinct(3))
  have old: "\<not> blocked_by e p"
    if ep: "e \<in> set ?rs" "p \<in> set ?rs" "status e \<noteq> OB_PENDING" for e p
  proof
    assume b: "blocked_by e p"
    obtain e0 where e0: "e0 \<in> set (rows ob)" "e = expire_claim (now - l) e0"
      using ep(1) by (auto simp: after_expiry_def)
    obtain p0 where p0: "p0 \<in> set (rows ob)" "p = expire_claim (now - l) p0"
      using ep(2) by (auto simp: after_expiry_def)
    from b have "blocked_by e0 p0" by (rule blocked_by_frame [rotated 5]) (simp_all add: e0 p0)
    moreover have "status e0 \<noteq> OB_PENDING" using ep(3) e0(2) by (auto simp: expire_claim_def split: if_splits)
    ultimately show False using assms(2) e0 p0 by (simp add: in_order_def)
  qed
  show ?thesis
    unfolding in_order_def claim_batch_rows
  proof (intro ballI conjI impI)
    fix e assume "e \<in> set (map ?g ?rs)" "status e = OB_PENDING"
    then obtain r where "r \<in> set (rows ob)" "e = expire_claim (now - l) r"
      by (auto simp: after_expiry_def split: if_splits)
    then show "claimed_by e = None"
      using assms(2) \<open>status e = OB_PENDING\<close>
      by (auto simp: in_order_def expire_claim_def split: if_splits)
  next
    fix e p assume *: "e \<in> set (map ?g ?rs)" "status e \<noteq> OB_PENDING" "p \<in> set (map ?g ?rs)"
    then obtain e0 p0 where e0: "e0 \<in> set ?rs" "e = ?g e0" and p0: "p0 \<in> set ?rs" "p = ?g p0"
      by auto
    show "\<not> blocked_by e p"
    proof
      assume "blocked_by e p"
      then have b: "blocked_by e0 p0"
        by (rule blocked_by_frame [rotated 5]) (use g e0 p0 del in auto)
      show False
      proof (cases "event_id e0 \<in> set ?ids")
        case True
        then obtain r where "r \<in> set ?rs" "event_id r = event_id e0" "claimable now ?rs r"
          using sort_take_in by blast
        then have "claimable now ?rs e0" using distinct_row_eq [OF d _ e0(1)] by blast
        then show False using b p0 by (auto simp: claimable_def list_ex_iff)
      next
        case False
        then show False using old [OF e0(1) p0(1)] b e0(2) *(2) by simp
      qed
    qed
  qed
qed

lemma step_in_order:
  assumes "distinct_ids ob" "in_order ob" "well_used ob c"
  shows "in_order (outbox_step sha reg ob c)"
proof (cases c)
  case (Append e)
  have "in_order (ob\<lparr>rows := rows ob @ [new_row sha e]\<rparr>)"
  proof -
    let ?n = "new_row sha e"
    have "status ?n = OB_PENDING" "claimed_by ?n = None" by (simp_all add: new_row_def)
    moreover have "\<not> blocked_by x ?n" if "x \<in> set (rows ob)" for x
      using assms(3) that Append by (auto simp: blocked_by_def new_row_def)
    ultimately show ?thesis using assms(2) by (auto simp: in_order_def)
  qed
  then show ?thesis
    using step_identities_append [of sha reg ob e] assms(2) unfolding Append by metis
next
  case (ClaimBatch t w n l)
  then show ?thesis using claim_in_order assms by simp
next
  case (MarkDelivered t i w)
  then show ?thesis
    using assms by (auto simp: mark_delivered_def row_identity_def intro!: update_in_order)
next
  case (Reschedule t i w err d)
  then show ?thesis
    using assms by (auto simp: reschedule_def row_identity_def intro!: update_in_order)
next
  case (DeadLetter i w err)
  then show ?thesis
    using assms by (auto simp: dead_letter_def row_identity_def intro!: update_in_order)
next
  case (RecordReceipt t c i)
  then show ?thesis using assms by (simp add: record_receipt_def in_order_def)
qed

lemma run_in_order:
  "distinct_ids ob \<Longrightarrow> in_order ob \<Longrightarrow> well_used_all sha reg ob cs \<Longrightarrow>
   in_order (foldl (outbox_step sha reg) ob cs)"
  by (induction cs arbitrary: ob) (auto intro: step_in_order step_distinct_ids)

text \<open>
  C38. Delivery follows the versions: if publishers append the versions of each aggregate in order
  and no worker reopens an event it delivered, then whatever the interleaving of claims, expired
  claims, retries and dead letters, an event is only ever claimed, delivered or dead-lettered
  when every event of its aggregate with a lower version has been delivered.
\<close>

theorem delivery_follows_versions:
  assumes "well_used_all sha reg empty_outbox cs"
    and "e \<in> set (rows (foldl (outbox_step sha reg) empty_outbox cs))"
    and "p \<in> set (rows (foldl (outbox_step sha reg) empty_outbox cs))"
    and "aggregate_id p = aggregate_id e" and "aggregate_version p < aggregate_version e"
    and "status e \<noteq> OB_PENDING"
  shows "status p = OB_DELIVERED"
proof -
  have "in_order (foldl (outbox_step sha reg) empty_outbox cs)"
    by (rule run_in_order [OF _ _ assms(1)])
      (simp_all add: distinct_ids_def in_order_def empty_outbox_def)
  from this [unfolded in_order_def, rule_format, OF assms(2)] have "\<not> blocked_by e p"
    using assms(3,6) by blast
  then show ?thesis using assms(4,5) by (simp add: blocked_by_def)
qed

section \<open>Dead letters\<close>

fun resolves :: "string \<Rightarrow> outbox_call \<Rightarrow> bool" where
  "resolves i (MarkDelivered t j w) = (j = i)"
| "resolves i (Reschedule t j w err d) = (j = i)"
| "resolves i (DeadLetter j w err) = (j = i)"
| "resolves i _ = False"

definition stuck :: "outbox_row \<Rightarrow> outbox_row \<Rightarrow> outbox \<Rightarrow> bool" where
  "stuck d e ob \<longleftrightarrow> distinct_ids ob \<and> d \<in> set (rows ob) \<and> e \<in> set (rows ob)
     \<and> status d = OB_DEAD_LETTER \<and> status e = OB_PENDING \<and> claimed_by e = None
     \<and> aggregate_id d = aggregate_id e \<and> aggregate_version d < aggregate_version e"

lemma claim_keeps_stuck:
  assumes "stuck d e ob"
  shows "stuck d e (snd (claim_batch now w n l ob))"
proof -
  let ?rs = "after_expiry now l ob"
  have dist: "distinct (map event_id ?rs)"
    using assms by (simp add: after_expiry_ids distinct_ids_def stuck_def)
  have in_rs: "d \<in> set ?rs" "e \<in> set ?rs"
    using assms by (auto simp: after_expiry_def stuck_def expire_claim_def image_iff
        intro: bexI [of _ d] bexI [of _ e])
  have "\<not> claimable now ?rs d" "\<not> claimable now ?rs e"
    using assms in_rs(1) by (auto simp: stuck_def claimable_def list_ex_iff blocked_by_def)
  then have "event_id d \<notin> set (claim_ids now n ?rs)" "event_id e \<notin> set (claim_ids now n ?rs)"
    using in_rs sort_take_in distinct_row_eq [OF dist] by metis+
  then have "d \<in> set (rows (snd (claim_batch now w n l ob)))"
    "e \<in> set (rows (snd (claim_batch now w n l ob)))"
    using in_rs by (force simp: claim_batch_rows)+
  moreover have "distinct_ids (snd (claim_batch now w n l ob))"
    using assms by (simp add: stuck_def distinct_ids_identities)
  ultimately show ?thesis using assms by (simp add: stuck_def)
qed

lemma update_keeps_stuck:
  assumes "stuck d e ob" "i \<noteq> event_id d" "\<And>r. row_identity (f r) = row_identity r"
  shows "stuck d e (snd (update_owned i w f ob))"
proof -
  have "distinct_ids (snd (update_owned i w f ob))"
    using assms by (simp add: stuck_def distinct_ids_identities update_owned_identities)
  moreover have "\<not> owned i w d" "\<not> owned i w e" using assms by (auto simp: stuck_def owned_def)
  ultimately show ?thesis
    using assms(1) by (force simp: stuck_def update_owned_def)
qed

lemma step_keeps_stuck:
  assumes "stuck d e ob" "\<not> resolves (event_id d) c"
  shows "stuck d e (outbox_step sha reg ob c)"
proof (cases c)
  case (Append x)
  have "distinct_ids (outbox_step sha reg ob c)" using assms by (auto simp: stuck_def intro: step_distinct_ids)
  then show ?thesis
    using step_identities_append [of sha reg ob x] assms(1) unfolding Append stuck_def
    by (auto simp del: outbox_step.simps)
next
  case (RecordReceipt t c i)
  then show ?thesis using assms by (simp add: record_receipt_def stuck_def distinct_ids_def)
qed (use assms in \<open>auto simp: claim_keeps_stuck mark_delivered_def reschedule_def dead_letter_def
      row_identity_def intro!: update_keeps_stuck\<close>)

lemma run_keeps_stuck:
  "stuck d e ob \<Longrightarrow> (\<forall>c \<in> set cs. \<not> resolves (event_id d) c) \<Longrightarrow>
   stuck d e (foldl (outbox_step sha reg) ob cs)"
  by (induction cs arbitrary: ob) (auto intro: step_keeps_stuck)

text \<open>
  A dead letter stops its aggregate: as long as nobody resolves the dead-lettered event
  itself, no claim of any worker ever returns a later version of the aggregate; it stays pending,
  and counted as such, for ever, because the claim waits for \<open>delivered\<close>, not for a final status.
\<close>

theorem dead_letter_blocks_aggregate:
  assumes "distinct_ids ob" and "d \<in> set (rows ob)" and "e \<in> set (rows ob)"
    and "status d = OB_DEAD_LETTER" and "status e = OB_PENDING" and "claimed_by e = None"
    and "aggregate_id d = aggregate_id e" and "aggregate_version d < aggregate_version e"
    and "\<forall>c \<in> set cs. \<not> resolves (event_id d) c"
  shows "find_row (event_id e) (rows (foldl (outbox_step sha reg) ob cs)) = Some e
    \<and> count_pending (foldl (outbox_step sha reg) ob cs) \<noteq> 0"
proof -
  have "stuck d e (foldl (outbox_step sha reg) ob cs)"
    using assms by (intro run_keeps_stuck) (simp_all add: stuck_def)
  then show ?thesis
    by (auto simp: stuck_def distinct_ids_def find_row_distinct count_pending_def
        count_by_status_def filter_empty_conv)
qed

section \<open>Witnesses\<close>

definition sample_registry :: schema_registry where
  "sample_registry =
     [((''run.started.v1'', 1), \<lparr>se_event_type = ''run.started.v1'', se_version = 1,
        se_payload_class = ''RunStartedV1''\<rparr>)]"

definition sample_envelope :: "string \<Rightarrow> int \<Rightarrow> envelope" where
  "sample_envelope i v =
     \<lparr>env_event_id = i, env_event_type = ''run.started.v1'', env_session_id = None,
      env_aggregate_id = ''run'', env_aggregate_version = v, env_occurred_at = of_int v,
      env_payload_class = ''RunStartedV1'', env_canonical_json = i\<rparr>"

definition sample_row :: "string \<Rightarrow> int \<Rightarrow> outbox_row" where
  "sample_row i v = new_row id (sample_envelope i v)"

definition sample_outbox :: outbox where
  "sample_outbox = \<lparr>rows = [sample_row ''a'' 1, sample_row ''b'' 2], receipts = []\<rparr>"

definition dead_row :: outbox_row where
  "dead_row = (sample_row ''a'' 1)\<lparr>status := OB_DEAD_LETTER, claimed_by := Some ''w1''\<rparr>"

definition dead_outbox :: outbox where
  "dead_outbox = \<lparr>rows = [dead_row, sample_row ''b'' 2], receipts = []\<rparr>"

lemmas sample_defs = sample_outbox_def sample_row_def new_row_def sample_envelope_def
  dead_row_def dead_outbox_def

lemma sample_distinct: "distinct_ids sample_outbox" "distinct_ids dead_outbox"
  by (simp_all add: distinct_ids_def sample_defs)

lemma outbox_identity_is_stable_witness:
  "\<exists>r'. find_row ''a'' (rows (foldl (outbox_step id sample_registry) sample_outbox
           [ClaimBatch 5 ''w1'' 10 30, MarkDelivered 6 ''a'' ''w1''])) = Some r'
    \<and> row_identity r' = row_identity (sample_row ''a'' 1)"
  using outbox_identity_is_stable [OF sample_distinct(1), of "''a''" "sample_row ''a'' 1" id
      sample_registry "[ClaimBatch 5 ''w1'' 10 30, MarkDelivered 6 ''a'' ''w1'']"]
  by (auto simp: sample_outbox_def sample_row_def new_row_def sample_envelope_def
      simp del: foldl.simps)

lemma claim_respects_aggregate_order_witness:
  "length (fst (claim_batch 5 ''w1'' 10 30 sample_outbox)) \<le> 10"
  using claim_respects_aggregate_order [OF sample_distinct(1), of 5 "''w1''" 10 30] by blast

lemma sample_claimed: "(sample_row ''a'' 1)\<lparr>status := OB_CLAIMED, claimed_by := Some ''w1'', claimed_at := Some 5\<rparr>
    \<in> set (fst (claim_batch 5 ''w1'' 10 30 sample_outbox))"
  by (simp add: claim_batch_def claim_ids_def claimable_def blocked_by_def expire_claim_def
      claim_row_def sample_defs)

lemma claim_is_exclusive_witness:
  "mark_delivered 7 ''a'' ''w2'' (snd (claim_batch 5 ''w1'' 10 30 sample_outbox))
     = (False, snd (claim_batch 5 ''w1'' 10 30 sample_outbox))"
  using claim_is_exclusive [OF sample_distinct(1) sample_claimed, of "''w2''" 6 30]
  by (simp add: Let_def sample_row_def new_row_def sample_envelope_def)

definition sample_calls :: "outbox_call list" where
  "sample_calls =
     [Append (sample_envelope ''a'' 1), Append (sample_envelope ''b'' 2), ClaimBatch 5 ''w1'' 10 30,
      MarkDelivered 6 ''a'' ''w1'', ClaimBatch 7 ''w1'' 10 30]"

lemmas outbox_eval = claim_batch_def claim_ids_def claimable_def blocked_by_def expire_claim_def
  claim_row_def mark_delivered_def update_owned_def owned_def outbox_append_def registry_has_def
  registry_get_def validate_payload_def sample_registry_def sample_envelope_def new_row_def
  empty_outbox_def sample_calls_def

lemma sample_run:
  "rows (foldl (outbox_step id sample_registry) empty_outbox sample_calls)
     = [(sample_row ''a'' 1)\<lparr>status := OB_DELIVERED, claimed_by := Some ''w1'',
          claimed_at := Some 5, delivered_at := Some 6\<rparr>,
        (sample_row ''b'' 2)\<lparr>status := OB_CLAIMED, claimed_by := Some ''w1'',
          claimed_at := Some 7\<rparr>]"
  by (simp add: outbox_eval sample_row_def)

lemma sample_well_used: "well_used_all id sample_registry empty_outbox sample_calls"
  by (simp add: outbox_eval)

lemma delivery_follows_versions_witness:
  "status (hd (rows (foldl (outbox_step id sample_registry) empty_outbox sample_calls))) = OB_DELIVERED"
  by (rule delivery_follows_versions
      [where e = "last (rows (foldl (outbox_step id sample_registry) empty_outbox sample_calls))",
        OF sample_well_used])
    (simp_all add: sample_run sample_row_def new_row_def sample_envelope_def)

lemma dead_letter_blocks_aggregate_witness:
  "find_row ''b'' (rows (foldl (outbox_step id sample_registry) dead_outbox
      [ClaimBatch 5 ''w2'' 10 30, ClaimBatch 5000 ''w3'' 10 30])) = Some (sample_row ''b'' 2)"
  using dead_letter_blocks_aggregate [OF sample_distinct(2), of dead_row "sample_row ''b'' 2"
      "[ClaimBatch 5 ''w2'' 10 30, ClaimBatch 5000 ''w3'' 10 30]" id sample_registry]
  by (simp add: sample_defs del: foldl.simps)

end
