(* ===== verification/Owner_Lease.thy ===== *)
theory Owner_Lease
  imports Grace_Prelude
begin

text \<open>
  \<^verbatim>\<open>infrastructure/outbox/owner_lease.py\<close>: the durable lease that makes one process the owner of
  the relay. The shared state is the lease's row and, for each process, whether its object has
  \<open>_acquired\<close> set; a process is its id. The clock is the argument \<open>now\<close>; \<open>db_ok\<close> tells whether
  the heartbeat's statement raised. The lemmas show that an unexpired row cannot change hands and
  that a process that lost it learns so at its next heartbeat.
\<close>

section \<open>State and operations\<close>

definition lease_timeout_s :: time where "lease_timeout_s = 30"

definition heartbeat_interval_s :: time where "heartbeat_interval_s = 10"

record owner_row =
  process_id :: int
  ol_acquired_at :: time
  heartbeat_at :: time
  lease_expires_at :: time
  release_reason :: "string option"

record lease_world =
  owner_row :: "owner_row option"
  acquired :: "int list"

definition no_owner :: lease_world where
  "no_owner = \<lparr>owner_row = None, acquired = []\<rparr>"

definition set_acquired :: "int \<Rightarrow> bool \<Rightarrow> lease_world \<Rightarrow> lease_world" where
  "set_acquired pid b lw =
     lw\<lparr>acquired := (if b then List.insert pid (acquired lw) else removeAll pid (acquired lw))\<rparr>"

datatype lease_conflict = LeaseConflict int time

definition take_row :: "time \<Rightarrow> int \<Rightarrow> owner_row" where
  "take_row now pid =
     \<lparr>process_id = pid, ol_acquired_at = now, heartbeat_at = now,
      lease_expires_at = now + lease_timeout_s, release_reason = None\<rparr>"

definition owner_acquire :: "time \<Rightarrow> int \<Rightarrow> lease_world \<Rightarrow> lease_conflict + lease_world" where
  "owner_acquire now pid lw =
     (if pid \<in> set (acquired lw) then Inr lw
      else case owner_row lw of
        Some r \<Rightarrow>
          if lease_expires_at r > now then Inl (LeaseConflict (process_id r) (lease_expires_at r))
          else Inr (set_acquired pid True (lw\<lparr>owner_row := Some (take_row now pid)\<rparr>))
      | None \<Rightarrow> Inr (set_acquired pid True (lw\<lparr>owner_row := Some (take_row now pid)\<rparr>)))"

definition owner_heartbeat :: "time \<Rightarrow> bool \<Rightarrow> int \<Rightarrow> lease_world \<Rightarrow> bool \<times> lease_world" where
  "owner_heartbeat now db_ok pid lw =
     (if pid \<notin> set (acquired lw) then (False, lw)
      else if \<not> db_ok then (False, set_acquired pid False lw)
      else case owner_row lw of
        None \<Rightarrow> (False, set_acquired pid False lw)
      | Some r \<Rightarrow>
          if process_id r = pid then
            (True, lw\<lparr>owner_row := Some (r\<lparr>heartbeat_at := now,
                                          lease_expires_at := now + lease_timeout_s\<rparr>)\<rparr>)
          else (False, set_acquired pid False lw))"

definition owner_release :: "time \<Rightarrow> string \<Rightarrow> int \<Rightarrow> lease_world \<Rightarrow> lease_world" where
  "owner_release now why pid lw =
     (if pid \<notin> set (acquired lw) then lw
      else
        let row = (case owner_row lw of
                     None \<Rightarrow> None
                   | Some r \<Rightarrow>
                       if process_id r = pid
                       then Some (r\<lparr>release_reason := Some why, lease_expires_at := now\<rparr>)
                       else Some r)
        in set_acquired pid False (lw\<lparr>owner_row := row\<rparr>))"

section \<open>Histories of calls\<close>

datatype owner_call =
    OwnerAcquire time int
  | OwnerHeartbeat time bool int
  | OwnerRelease time string int

fun call_pid :: "owner_call \<Rightarrow> int" where
  "call_pid (OwnerAcquire t p) = p"
| "call_pid (OwnerHeartbeat t ok p) = p"
| "call_pid (OwnerRelease t why p) = p"

fun owner_call_time :: "owner_call \<Rightarrow> time" where
  "owner_call_time (OwnerAcquire t p) = t"
| "owner_call_time (OwnerHeartbeat t ok p) = t"
| "owner_call_time (OwnerRelease t why p) = t"

fun owner_step :: "lease_world \<Rightarrow> owner_call \<Rightarrow> lease_world" where
  "owner_step lw (OwnerAcquire t p) =
     (case owner_acquire t p lw of Inl e \<Rightarrow> lw | Inr lw' \<Rightarrow> lw')"
| "owner_step lw (OwnerHeartbeat t ok p) = snd (owner_heartbeat t ok p lw)"
| "owner_step lw (OwnerRelease t why p) = owner_release t why p lw"

lemmas owner_op_defs = owner_acquire_def owner_heartbeat_def owner_release_def

lemma acquired_set [simp]:
  "pid \<in> set (acquired (set_acquired pid b lw)) \<longleftrightarrow> b"
  "q \<noteq> pid \<Longrightarrow> q \<in> set (acquired (set_acquired pid b lw)) \<longleftrightarrow> q \<in> set (acquired lw)"
  "owner_row (set_acquired pid b lw) = owner_row lw"
  by (simp_all add: set_acquired_def)

lemma foreign_step_row:
  assumes "owner_row lw = Some r" "process_id r \<noteq> call_pid c" "owner_call_time c < lease_expires_at r"
  shows "owner_row (owner_step lw c) = Some r"
  using assms by (cases c) (auto simp: owner_op_defs Let_def split: option.splits)

lemma foreign_step_flag:
  assumes "p \<noteq> call_pid c"
  shows "p \<in> set (acquired (owner_step lw c)) \<longleftrightarrow> p \<in> set (acquired lw)"
  using assms by (cases c) (auto simp: owner_op_defs Let_def split: option.splits)

definition foreign_before :: "int \<Rightarrow> time \<Rightarrow> owner_call list \<Rightarrow> bool" where
  "foreign_before p t cs \<longleftrightarrow> (\<forall>c \<in> set cs. call_pid c \<noteq> p \<and> owner_call_time c < t)"

lemma foreign_run:
  assumes "owner_row lw = Some r" "foreign_before (process_id r) (lease_expires_at r) cs"
  shows "owner_row (foldl owner_step lw cs) = Some r
    \<and> (process_id r \<in> set (acquired (foldl owner_step lw cs))
        \<longleftrightarrow> process_id r \<in> set (acquired lw))"
  using assms
proof (induction cs arbitrary: lw)
  case (Cons c cs)
  from Cons.prems have c: "call_pid c \<noteq> process_id r" "owner_call_time c < lease_expires_at r"
    and cs: "foreign_before (process_id r) (lease_expires_at r) cs"
    by (auto simp: foreign_before_def)
  have "owner_row (owner_step lw c) = Some r"
    using foreign_step_row [OF Cons.prems(1)] c by metis
  from Cons.IH [OF this cs] show ?case
    using foreign_step_flag [of "process_id r" c lw] c(1) by simp
qed simp

text \<open>
  Single ownership: until thirty seconds after the owner's last successful acquire or
  heartbeat, no sequence of acquires, heartbeats and releases by other processes changes the
  lease's row or the owner's flag, every acquire among them by a process that does not already
  believe it owns the lease is refused, and the owner's next heartbeat then succeeds.
\<close>

theorem owner_lease_single_owner:
  assumes "owner_row lw = Some r" and "process_id r \<in> set (acquired lw)"
    and "foreign_before (process_id r) (lease_expires_at r) cs"
    and "q \<notin> set (acquired (foldl owner_step lw cs))" and "t < lease_expires_at r"
  shows "owner_row (foldl owner_step lw cs) = Some r
    \<and> owner_acquire t q (foldl owner_step lw cs)
        = Inl (LeaseConflict (process_id r) (lease_expires_at r))
    \<and> fst (owner_heartbeat t True (process_id r) (foldl owner_step lw cs))"
  using foreign_run [OF assms(1,3)] assms(2,4,5)
  by (simp add: owner_acquire_def owner_heartbeat_def)

definition owned_world :: lease_world where
  "owned_world = \<lparr>owner_row = Some (take_row 0 1), acquired = [1]\<rparr>"

lemma owner_lease_single_owner_witness:
  "owner_acquire 29 3 (foldl owner_step owned_world [OwnerAcquire 5 2, OwnerRelease 6 ''x'' 2])
     = Inl (LeaseConflict 1 30)"
  using owner_lease_single_owner [of owned_world "take_row 0 1"
      "[OwnerAcquire 5 2, OwnerRelease 6 ''x'' 2]" 3 29]
  by (simp add: owned_world_def take_row_def lease_timeout_s_def foreign_before_def owner_op_defs)

text \<open>
  Takeover fences the old owner: once another process has acquired an expired lease, the old
  owner's object still says it holds it, and its acquire is a silent no-op that succeeds; only
  its next heartbeat returns False, clears the flag and leaves the row to the new owner, and its
  release does not touch that row.
\<close>

theorem takeover_fences_old_owner:
  assumes "owner_row lw = Some r" and "process_id r = p" and "p \<in> set (acquired lw)"
    and "q \<notin> set (acquired lw)" and "lease_expires_at r \<le> t"
  shows "\<exists>lw'. owner_acquire t q lw = Inr lw'
    \<and> owner_row lw' = Some (take_row t q) \<and> p \<in> set (acquired lw') \<and> q \<in> set (acquired lw')
    \<and> owner_acquire t' p lw' = Inr lw'
    \<and> fst (owner_heartbeat t' ok p lw') = False
    \<and> p \<notin> set (acquired (snd (owner_heartbeat t' ok p lw')))
    \<and> owner_row (snd (owner_heartbeat t' ok p lw')) = Some (take_row t q)
    \<and> owner_row (owner_release t' why p lw') = Some (take_row t q)"
proof -
  have "p \<noteq> q" using assms by auto
  then show ?thesis
    using assms by (simp add: owner_op_defs take_row_def Let_def)
qed

lemma takeover_fences_old_owner_witness:
  "\<exists>lw'. owner_acquire 31 2 owned_world = Inr lw'
    \<and> owner_row lw' = Some (take_row 31 2) \<and> 1 \<in> set (acquired lw') \<and> 2 \<in> set (acquired lw')
    \<and> owner_acquire 32 1 lw' = Inr lw'
    \<and> fst (owner_heartbeat 32 True 1 lw') = False
    \<and> 1 \<notin> set (acquired (snd (owner_heartbeat 32 True 1 lw')))
    \<and> owner_row (snd (owner_heartbeat 32 True 1 lw')) = Some (take_row 31 2)
    \<and> owner_row (owner_release 32 ''stop'' 1 lw') = Some (take_row 31 2)"
  by (rule takeover_fences_old_owner [of owned_world "take_row 0 1"])
    (simp_all add: owned_world_def take_row_def lease_timeout_s_def)

end
