(* ===== verification/Outbox_Relay.thy ===== *)
theory Outbox_Relay
  imports Outbox_Store Owner_Lease
begin

text \<open>
  \<^verbatim>\<open>infrastructure/outbox/relay.py\<close> and \<^verbatim>\<open>listeners/delivery.py\<close>: the loop that claims a batch,
  delivers each record and settles it in the store by the outcome. The callback, the random
  jitter and the time at which a record is settled are the parameters of a run. What the relay
  needs of its store is the locale \<open>claim_store\<close>, interpreted on the SQLite store's model; the
  lemmas show that a batch is settled completely and that retries are bounded.
\<close>

section \<open>Delivery outcomes\<close>

record receipt =
  projection_name :: string
  rc_event_id :: string
  rc_success :: bool
  rc_error :: string

datatype delivery_outcome =
    Delivered "receipt list" nat
  | RetryableDeliveryFailure string "receipt list" string
  | PermanentDeliveryFailure string "receipt list"

definition permanent_error :: "string \<Rightarrow> bool" where
  "permanent_error e \<longleftrightarrow>
     contains_str (str_lower e) ''permanent'' \<or> contains_str (str_lower e) ''unknown schema''"

definition permanent_reason :: "receipt \<Rightarrow> string" where
  "permanent_reason r =
     ''Required projection '' @ projection_name r @ '' permanent failure: '' @ rc_error r"

definition retryable_reason :: "receipt \<Rightarrow> string" where
  "retryable_reason r = ''Required projection '' @ projection_name r @ '' failed: '' @ rc_error r"

fun merge_loop ::
  "receipt list \<Rightarrow> string set \<Rightarrow> string set \<Rightarrow> nat \<Rightarrow> receipt list \<Rightarrow> delivery_outcome" where
  "merge_loop all required best errs [] = Delivered all errs"
| "merge_loop all required best errs (r # rs) =
     (if rc_success r then merge_loop all required best errs rs
      else if projection_name r \<in> required then
        if permanent_error (rc_error r)
        then PermanentDeliveryFailure (permanent_reason r) all
        else RetryableDeliveryFailure (retryable_reason r) all (projection_name r)
      else merge_loop all required best (if projection_name r \<in> best then errs + 1 else errs) rs)"

definition merge_receipts ::
  "receipt list \<Rightarrow> string set \<Rightarrow> string set \<Rightarrow> delivery_outcome" where
  "merge_receipts rs required best = merge_loop rs required best 0 rs"

lemma merge_loop_find:
  "merge_loop all req best k rs =
     (case find (\<lambda>r. \<not> rc_success r \<and> projection_name r \<in> req) rs of
        None \<Rightarrow> Delivered all
          (k + length (filter (\<lambda>r. \<not> rc_success r \<and> projection_name r \<in> best) rs))
      | Some r \<Rightarrow>
          if permanent_error (rc_error r) then PermanentDeliveryFailure (permanent_reason r) all
          else RetryableDeliveryFailure (retryable_reason r) all (projection_name r))"
proof (induction rs arbitrary: k)
  case (Cons r rs)
  then show ?case by (cases "rc_success r"; cases "projection_name r \<in> req")
    (simp_all split: option.split)
qed simp

text \<open>
  The verdict on a delivery: the first failed receipt of a required projection decides, by
  its error text, between a permanent and a retryable failure; without one the event is
  delivered and the failed best-effort receipts are counted, so a best-effort projection never
  holds an event back.
\<close>

theorem merge_receipts_verdict:
  "merge_receipts rs req best =
     (case find (\<lambda>r. \<not> rc_success r \<and> projection_name r \<in> req) rs of
        None \<Rightarrow> Delivered rs
          (length (filter (\<lambda>r. \<not> rc_success r \<and> projection_name r \<in> best) rs))
      | Some r \<Rightarrow>
          if permanent_error (rc_error r) then PermanentDeliveryFailure (permanent_reason r) rs
          else RetryableDeliveryFailure (retryable_reason r) rs (projection_name r))"
  by (simp add: merge_receipts_def merge_loop_find split: option.split)

section \<open>The store a relay needs\<close>

text \<open>
  For one worker: \<open>holds s i\<close> says the worker has the event \<open>i\<close> claimed, \<open>settle_event\<close> applies a
  decision to an event. The store promises that claimed events are held, and that settling a held
  event lets go of it and touches no other.
\<close>

locale claim_store =
  fixes good :: "'s \<Rightarrow> bool"
    and holds :: "'s \<Rightarrow> 'i \<Rightarrow> bool"
    and claim :: "'s \<Rightarrow> 'i list \<times> 's"
    and settle_event :: "'i \<Rightarrow> 'd \<Rightarrow> 's \<Rightarrow> 's"
  assumes claim_good: "good s \<Longrightarrow> good (snd (claim s))"
    and settle_good: "good s \<Longrightarrow> good (settle_event i d s)"
    and claim_holds: "good s \<Longrightarrow> i \<in> set (fst (claim s)) \<Longrightarrow> holds (snd (claim s)) i"
    and settle_done: "good s \<Longrightarrow> holds s i \<Longrightarrow> \<not> holds (settle_event i d s) i"
    and settle_other: "good s \<Longrightarrow> j \<noteq> i \<Longrightarrow> holds (settle_event i d s) j = holds s j"
begin

lemma batch_good: "good s \<Longrightarrow> good (foldl (\<lambda>s i. settle_event i (d i) s) s ids)"
  by (induction ids arbitrary: s) (auto intro: settle_good)

lemma batch_other:
  "good s \<Longrightarrow> j \<notin> set ids \<Longrightarrow> holds (foldl (\<lambda>s i. settle_event i (d i) s) s ids) j = holds s j"
proof (induction ids arbitrary: s)
  case (Cons i ids)
  then show ?case using settle_good [OF Cons.prems(1)] settle_other [OF Cons.prems(1)] by simp
qed simp

lemma batch_settled:
  "good s \<Longrightarrow> distinct ids \<Longrightarrow> \<forall>i \<in> set ids. holds s i \<Longrightarrow> i \<in> set ids \<Longrightarrow>
   \<not> holds (foldl (\<lambda>s i. settle_event i (d i) s) s ids) i"
proof (induction ids arbitrary: s)
  case (Cons j js)
  have g: "good (settle_event j (d j) s)" using Cons.prems(1) by (rule settle_good)
  have h: "\<forall>i \<in> set js. holds (settle_event j (d j) s) i"
  proof
    fix i assume "i \<in> set js"
    then have "i \<noteq> j" "holds s i" using Cons.prems by auto
    then show "holds (settle_event j (d j) s) i" using settle_other [OF Cons.prems(1)] by simp
  qed
  show ?case
  proof (cases "i = j")
    case True
    then have "\<not> holds (settle_event j (d j) s) i" using Cons.prems settle_done by simp
    then show ?thesis using batch_other [OF g, of i js d] True Cons.prems(2) by simp
  next
    case False
    then show ?thesis using Cons.IH [OF g _ h] Cons.prems by simp
  qed
qed simp

lemma claimed_batch_settled:
  assumes "good s" "distinct (fst (claim s))" "i \<in> set (fst (claim s))"
  shows "\<not> holds (foldl (\<lambda>s i. settle_event i (d i) s) (snd (claim s)) (fst (claim s))) i"
  using batch_settled [OF claim_good [OF assms(1)] assms(2) _ assms(3)] claim_holds [OF assms(1)]
  by blast

end

section \<open>The relay\<close>

definition max_attempts :: int where "max_attempts = 5"

definition max_backoff_s :: time where "max_backoff_s = 60"

text \<open>
  What the callback does with a record, the jitter drawn for it and the time it is settled at.
  \<open>UnknownOutcome\<close> is a returned object of another type, named by its class, and \<open>Raised\<close> an
  exception with its text.
\<close>

datatype callback_result =
    Outcome delivery_outcome
  | UnknownOutcome string
  | Raised string

record relay_env =
  deliver :: "outbox_row \<Rightarrow> callback_result"
  jitter :: "outbox_row \<Rightarrow> rat"
  settle_time :: "outbox_row \<Rightarrow> time"

datatype decision =
    Ack
  | Retry string time
  | Bury string

definition backoff :: "int \<Rightarrow> rat \<Rightarrow> time" where
  "backoff new_attempts jit = min (2 ^ nat (new_attempts - 1)) max_backoff_s * jit"

definition retry_or_bury :: "outbox_row \<Rightarrow> rat \<Rightarrow> string \<Rightarrow> decision" where
  "retry_or_bury r jit why =
     (let new_attempts = attempts r + 1 in
      if new_attempts \<ge> max_attempts then Bury (take 500 why)
      else Retry (take 500 why) (backoff new_attempts jit))"

definition decide :: "relay_env \<Rightarrow> outbox_row \<Rightarrow> decision" where
  "decide env r =
     (case deliver env r of
        Outcome (Delivered rs n) \<Rightarrow> Ack
      | Outcome (RetryableDeliveryFailure why rs p) \<Rightarrow> retry_or_bury r (jitter env r) why
      | Outcome (PermanentDeliveryFailure why rs) \<Rightarrow> Bury (take 500 why)
      | UnknownOutcome ty \<Rightarrow> Retry (''Unknown outcome: '' @ ty) 1
      | Raised msg \<Rightarrow> retry_or_bury r (jitter env r) msg)"

fun settle_decision :: "string \<Rightarrow> string \<Rightarrow> decision \<times> time \<Rightarrow> outbox \<Rightarrow> outbox" where
  "settle_decision w i (Ack, t) ob = snd (mark_delivered t i w ob)"
| "settle_decision w i (Retry why delay, t) ob = snd (reschedule t i w why delay ob)"
| "settle_decision w i (Bury why, t) ob = snd (dead_letter i w why ob)"

definition process_batch :: "relay_env \<Rightarrow> string \<Rightarrow> outbox_row list \<Rightarrow> outbox \<Rightarrow> outbox" where
  "process_batch env w batch ob =
     foldl (\<lambda>ob r. settle_decision w (event_id r) (decide env r, settle_time env r) ob) ob batch"

record relay =
  worker_id :: string
  lease_pid :: "int option"
  running :: bool
  inflight :: int
  last_heartbeat :: time
  lease_active :: bool

definition new_relay :: "string \<Rightarrow> int option \<Rightarrow> relay" where
  "new_relay w pid = \<lparr>worker_id = w, lease_pid = pid, running = False, inflight = 0,
     last_heartbeat = 0, lease_active = False\<rparr>"

datatype relay_error = LeaseNotAcquired | OwnerConflict lease_conflict

definition acquire_lease ::
  "time \<Rightarrow> relay \<Rightarrow> lease_world \<Rightarrow> relay_error + relay \<times> lease_world" where
  "acquire_lease now rl lw =
     (if lease_active rl then Inr (rl, lw)
      else case lease_pid rl of
        None \<Rightarrow> Inr (rl\<lparr>lease_active := True\<rparr>, lw)
      | Some pid \<Rightarrow>
          (case owner_acquire now pid lw of
             Inl e \<Rightarrow> Inl (OwnerConflict e)
           | Inr lw' \<Rightarrow> Inr (rl\<lparr>lease_active := True\<rparr>, lw')))"

definition relay_start :: "time \<Rightarrow> relay \<Rightarrow> relay_error + relay" where
  "relay_start tick rl =
     (if \<not> lease_active rl then Inl LeaseNotAcquired
      else Inr (rl\<lparr>running := True, last_heartbeat := tick\<rparr>))"

definition relay_stop :: "time \<Rightarrow> relay \<Rightarrow> lease_world \<Rightarrow> outbox \<Rightarrow> nat \<times> relay \<times> lease_world" where
  "relay_stop now rl lw ob =
     (let rl1 = rl\<lparr>running := False\<rparr> in
      case lease_pid rl1 of
        Some pid \<Rightarrow>
          if lease_active rl1
          then (count_pending ob, rl1\<lparr>lease_active := False\<rparr>,
                owner_release now ''normal_shutdown'' pid lw)
          else (count_pending ob, rl1, lw)
      | None \<Rightarrow> (count_pending ob, rl1, lw))"

definition check_lease ::
  "time \<Rightarrow> time \<Rightarrow> bool \<Rightarrow> relay \<Rightarrow> lease_world \<Rightarrow> bool \<times> relay \<times> lease_world" where
  "check_lease now tick db_ok rl lw =
     (case lease_pid rl of
        None \<Rightarrow> (True, rl, lw)
      | Some pid \<Rightarrow>
          if tick - last_heartbeat rl < heartbeat_interval_s then (True, rl, lw)
          else
            let (ok, lw') = owner_heartbeat now db_ok pid lw in
            (ok, rl\<lparr>last_heartbeat := tick\<rparr>, lw'))"

text \<open>One turn of \<open>_run\<close>'s loop, the sleep of an empty batch left out.\<close>

definition relay_turn ::
  "relay_env \<Rightarrow> time \<Rightarrow> time \<Rightarrow> bool \<Rightarrow> relay \<times> lease_world \<times> outbox \<Rightarrow> relay \<times> lease_world \<times> outbox"
  where
  "relay_turn env now tick db_ok st =
     (let (rl, lw, ob) = st in
      if \<not> running rl then st
      else
        let (ok, rl1, lw1) = check_lease now tick db_ok rl lw in
        if \<not> ok then (rl1\<lparr>running := False\<rparr>, lw1, ob)
        else
          let (batch, ob1) = claim_batch now (worker_id rl1) 10 30 ob in
          if batch = [] then (rl1, lw1, ob1)
          else
            let rl2 = rl1\<lparr>inflight := inflight rl1 + int (length batch)\<rparr>;
                ob2 = process_batch env (worker_id rl2) batch ob1
            in (rl2\<lparr>inflight := inflight rl2 - int (length batch)\<rparr>, lw1, ob2))"

section \<open>The store's contract on the SQLite model\<close>

definition held_by :: "string \<Rightarrow> outbox \<Rightarrow> string \<Rightarrow> bool" where
  "held_by w ob i \<longleftrightarrow>
     (\<exists>r \<in> set (rows ob). event_id r = i \<and> status r = OB_CLAIMED \<and> claimed_by r = Some w)"

definition claim_ids_of :: "time \<Rightarrow> string \<Rightarrow> nat \<Rightarrow> time \<Rightarrow> outbox \<Rightarrow> string list \<times> outbox" where
  "claim_ids_of now w n l ob =
     (map event_id (fst (claim_batch now w n l ob)), snd (claim_batch now w n l ob))"

lemma settle_distinct: "distinct_ids ob \<Longrightarrow> distinct_ids (settle_decision w i dt ob)"
  by (cases dt; cases "fst dt") (auto simp: distinct_ids_identities)

fun settle_row :: "string \<Rightarrow> decision \<times> time \<Rightarrow> outbox_row \<Rightarrow> outbox_row" where
  "settle_row w (Ack, t) r = r\<lparr>status := OB_DELIVERED, delivered_at := Some t\<rparr>"
| "settle_row w (Retry why delay, t) r =
     r\<lparr>status := OB_PENDING, claimed_by := None, claimed_at := None, attempts := attempts r + 1,
       last_error := Some (take 500 why), available_at := Some (t + delay)\<rparr>"
| "settle_row w (Bury why, t) r =
     r\<lparr>status := OB_DEAD_LETTER, attempts := attempts r + 1, last_error := Some (take 500 why),
       available_at := None\<rparr>"

lemma settle_decision_rows:
  "rows (settle_decision w i dt ob) = map (\<lambda>r. if owned i w r then settle_row w dt r else r) (rows ob)"
  by (cases dt; cases "fst dt")
    (auto simp: mark_delivered_def reschedule_def dead_letter_def update_owned_def)

lemma settle_row_id [simp]: "event_id (settle_row w dt r) = event_id r"
  by (cases dt; cases "fst dt") auto

lemma settle_row_status [simp]: "status (settle_row w dt r) \<noteq> OB_CLAIMED"
  by (cases dt; cases "fst dt") auto

lemma settle_lets_go: "\<not> held_by w (settle_decision w i dt ob) i"
proof
  assume "held_by w (settle_decision w i dt ob) i"
  then have "\<exists>r. let r' = if owned i w r then settle_row w dt r else r in
      event_id r' = i \<and> status r' = OB_CLAIMED \<and> claimed_by r' = Some w"
    unfolding held_by_def settle_decision_rows Let_def set_map by blast
  then obtain r where "let r' = if owned i w r then settle_row w dt r else r in
      event_id r' = i \<and> status r' = OB_CLAIMED \<and> claimed_by r' = Some w" ..
  then show False by (cases "owned i w r") (auto simp: owned_def Let_def)
qed

lemma settle_keeps_other:
  assumes "j \<noteq> i"
  shows "held_by w (settle_decision w i dt ob) j = held_by w ob j"
proof -
  let ?g = "\<lambda>r. if owned i w r then settle_row w dt r else r"
  let ?P = "\<lambda>r. event_id r = j \<and> status r = OB_CLAIMED \<and> claimed_by r = Some w"
  have "?P (?g r) \<longleftrightarrow> ?P r" for r
    using assms by (cases "owned i w r") (auto simp: owned_def)
  then have "(\<exists>r \<in> set (rows ob). ?P (?g r)) \<longleftrightarrow> (\<exists>r \<in> set (rows ob). ?P r)" by simp
  then show ?thesis by (simp only: held_by_def settle_decision_rows set_map bex_simps)
qed

lemma claim_held:
  assumes "i \<in> set (fst (claim_ids_of now w n l ob))"
  shows "held_by w (snd (claim_ids_of now w n l ob)) i"
proof -
  obtain x where "x \<in> set (fst (claim_batch now w n l ob))" "event_id x = i"
    using assms by (auto simp: claim_ids_of_def)
  then show ?thesis
    by (auto simp: claim_ids_of_def held_by_def claim_batch_fst claim_batch_rows)
qed

lemma claim_keeps_distinct: "distinct_ids ob \<Longrightarrow> distinct_ids (snd (claim_ids_of now w n l ob))"
  by (simp add: claim_ids_of_def distinct_ids_identities)

interpretation sqlite: claim_store distinct_ids "held_by w" "claim_ids_of now w n l" "settle_decision w"
  for w now n l
  by unfold_locales
    (simp_all add: claim_keeps_distinct claim_held settle_distinct settle_lets_go settle_keeps_other)

section \<open>What a batch leaves behind\<close>

lemma process_batch_Cons:
  "process_batch env w (b # bs) ob =
     process_batch env w bs (settle_decision w (event_id b) (decide env b, settle_time env b) ob)"
  by (simp add: process_batch_def)

lemma process_batch_rows:
  assumes "distinct_ids ob" "distinct (map event_id batch)"
    "\<forall>b \<in> set batch. b \<in> set (rows ob) \<and> claimed_by b = Some w"
  shows "rows (process_batch env w batch ob) =
     map (\<lambda>r. if r \<in> set batch then settle_row w (decide env r, settle_time env r) r else r) (rows ob)"
  using assms
proof (induction batch arbitrary: ob)
  case Nil
  then show ?case by (simp add: process_batch_def)
next
  case (Cons b bs)
  let ?s = "\<lambda>r. settle_row w (decide env r, settle_time env r) r"
  let ?ob = "settle_decision w (event_id b) (decide env b, settle_time env b) ob"
  have inj: "inj_on event_id (set (rows ob))"
    using Cons.prems(1) by (simp add: distinct_ids_def distinct_map)
  have b: "b \<in> set (rows ob)" "claimed_by b = Some w" using Cons.prems(3) by auto
  have rows1: "rows ?ob = map (\<lambda>r. if r = b then ?s r else r) (rows ob)"
    using b inj by (auto simp: settle_decision_rows owned_def dest: inj_onD)
  have "event_id b \<notin> event_id ` set bs" using Cons.prems(2) by simp
  then have notin: "b \<notin> set bs" "?s b \<notin> set bs" by (metis imageI settle_row_id)+
  have "rows (process_batch env w bs ?ob)
      = map (\<lambda>r. if r \<in> set bs then ?s r else r) (rows ?ob)"
  proof (rule Cons.IH)
    show "distinct_ids ?ob" using Cons.prems(1) by (rule settle_distinct)
    show "distinct (map event_id bs)" using Cons.prems(2) by simp
    show "\<forall>b' \<in> set bs. b' \<in> set (rows ?ob) \<and> claimed_by b' = Some w"
    proof
      fix b' assume "b' \<in> set bs"
      then have "b' \<noteq> b" "b' \<in> set (rows ob)" "claimed_by b' = Some w"
        using notin(1) Cons.prems(3) by auto
      then show "b' \<in> set (rows ?ob) \<and> claimed_by b' = Some w"
        by (auto simp: rows1 image_iff intro: bexI [of _ b'])
    qed
  qed
  then show ?case
    using notin by (auto simp: process_batch_Cons rows1)
qed

lemma claim_batch_members:
  assumes "distinct_ids ob"
  shows "distinct (map event_id (fst (claim_batch now w n l ob)))"
    and "\<forall>b \<in> set (fst (claim_batch now w n l ob)).
      b \<in> set (rows (snd (claim_batch now w n l ob))) \<and> claimed_by b = Some w"
proof -
  let ?rs = "after_expiry now l ob"
  have "distinct (map event_id ?rs)" using assms by (simp add: after_expiry_ids distinct_ids_def)
  then show "distinct (map event_id (fst (claim_batch now w n l ob)))"
    by (simp add: claim_batch_fst comp_def distinct_map_filter)
  show "\<forall>b \<in> set (fst (claim_batch now w n l ob)).
      b \<in> set (rows (snd (claim_batch now w n l ob))) \<and> claimed_by b = Some w"
    by (auto simp: claim_batch_fst claim_batch_rows image_iff)
qed

text \<open>The batch, seen through its ids, is the client of the locale.\<close>

definition decision_for :: "relay_env \<Rightarrow> outbox_row list \<Rightarrow> string \<Rightarrow> decision \<times> time" where
  "decision_for env batch i =
     (case find_row i batch of None \<Rightarrow> (Ack, 0) | Some r \<Rightarrow> (decide env r, settle_time env r))"

lemma process_batch_by_ids:
  assumes "distinct (map event_id batch)"
  shows "process_batch env w batch ob =
     foldl (\<lambda>ob i. settle_decision w i (decision_for env batch i) ob) ob (map event_id batch)"
proof -
  have "foldl (\<lambda>ob r. settle_decision w (event_id r) (decide env r, settle_time env r) ob) ob bs
      = foldl (\<lambda>ob i. settle_decision w i (decision_for env batch i) ob) ob (map event_id bs)"
    if "set bs \<subseteq> set batch" for bs
    using that
  proof (induction bs arbitrary: ob)
    case (Cons b bs)
    then have "find_row (event_id b) batch = Some b" using find_row_distinct [OF assms] by simp
    then show ?case using Cons by (simp add: decision_for_def)
  qed simp
  then show ?thesis by (simp add: process_batch_def)
qed

lemma batch_lets_go:
  assumes "distinct_ids ob" "i \<in> set (map event_id (fst (claim_batch now w n l ob)))"
  shows "\<not> held_by w (process_batch env w (fst (claim_batch now w n l ob))
     (snd (claim_batch now w n l ob))) i"
  using sqlite.claimed_batch_settled [OF assms(1), of now w n l i
      "decision_for env (fst (claim_batch now w n l ob))"] assms(2)
    claim_batch_members(1) [OF assms(1), of now w n l]
  by (simp add: process_batch_by_ids claim_ids_of_def)

lemma held_after_claim:
  assumes "held_by w (snd (claim_batch now w n l ob)) i"
  shows "i \<in> set (map event_id (fst (claim_batch now w n l ob))) \<or> held_by w ob i"
proof -
  let ?rs = "after_expiry now l ob"
  let ?ids = "claim_ids now n ?rs"
  obtain q where q: "q \<in> set ?rs" "event_id q = i"
    "event_id q \<in> set ?ids \<or> (status q = OB_CLAIMED \<and> claimed_by q = Some w)"
    using assms by (auto simp: held_by_def claim_batch_rows split: if_splits)
  show ?thesis
  proof (cases "event_id q \<in> set ?ids")
    case True
    then show ?thesis using q by (auto simp: claim_batch_fst)
  next
    case False
    then have s: "status q = OB_CLAIMED" "claimed_by q = Some w" using q(3) by auto
    obtain r where r: "r \<in> set (rows ob)" "q = expire_claim (now - l) r"
      using q(1) by (auto simp: after_expiry_def)
    then have "q = r" using s(1) by (auto simp: expire_claim_def split: if_splits)
    then show ?thesis using r s q(2) by (auto simp: held_by_def)
  qed
qed

definition idle :: "relay \<times> lease_world \<times> outbox \<Rightarrow> bool" where
  "idle st \<longleftrightarrow> (case st of (rl, lw, ob) \<Rightarrow>
     distinct_ids ob \<and> inflight rl = 0 \<and> (\<forall>i. \<not> held_by (worker_id rl) ob i))"

lemma check_lease_frame [simp]:
  "worker_id (fst (snd (check_lease now tick ok rl lw))) = worker_id rl"
  "inflight (fst (snd (check_lease now tick ok rl lw))) = inflight rl"
  by (auto simp: check_lease_def split: option.splits prod.splits)

lemma process_batch_distinct: "distinct_ids ob \<Longrightarrow> distinct_ids (process_batch env w batch ob)"
  unfolding process_batch_def
  by (induction batch arbitrary: ob) (auto intro: settle_distinct)

lemma process_other:
  assumes "distinct_ids ob" "distinct (map event_id batch)" "i \<notin> event_id ` set batch"
  shows "held_by w (process_batch env w batch ob) i = held_by w ob i"
  using sqlite.batch_other [OF assms(1), of i "map event_id batch" w "decision_for env batch"]
    assms(3) by (simp add: process_batch_by_ids [OF assms(2)])

lemma turn_outbox:
  "snd (snd (relay_turn env now tick ok (rl, lw, ob))) =
     (if \<not> running rl \<or> \<not> fst (check_lease now tick ok rl lw) then ob
      else process_batch env (worker_id rl) (fst (claim_batch now (worker_id rl) 10 30 ob))
             (snd (claim_batch now (worker_id rl) 10 30 ob)))"
proof (cases "check_lease now tick ok rl lw")
  case (fields a rl1 lw1)
  then have "worker_id rl1 = worker_id rl" using check_lease_frame(1) [of now tick ok rl lw] by simp
  then show ?thesis
    by (cases "claim_batch now (worker_id rl) 10 30 ob")
      (simp add: relay_turn_def fields Let_def process_batch_def)
qed

lemma turn_relay [simp]:
  "worker_id (fst (relay_turn env now tick ok (rl, lw, ob))) = worker_id rl"
  "inflight (fst (relay_turn env now tick ok (rl, lw, ob))) = inflight rl"
proof -
  obtain a rl1 lw1 where c: "check_lease now tick ok rl lw = (a, rl1, lw1)" by (metis prod_cases3)
  then have "worker_id rl1 = worker_id rl" "inflight rl1 = inflight rl"
    using check_lease_frame [of now tick ok rl lw] by simp_all
  then show "worker_id (fst (relay_turn env now tick ok (rl, lw, ob))) = worker_id rl"
    "inflight (fst (relay_turn env now tick ok (rl, lw, ob))) = inflight rl"
    by (auto simp: relay_turn_def c Let_def split: prod.splits)
qed

lemma turn_idle:
  assumes "idle st"
  shows "idle (relay_turn env now tick ok st)"
proof -
  obtain rl lw ob where st: "st = (rl, lw, ob)" by (cases st)
  let ?w = "worker_id rl"
  let ?batch = "fst (claim_batch now ?w 10 30 ob)"
  let ?ob1 = "snd (claim_batch now ?w 10 30 ob)"
  have d: "distinct_ids ob" and z: "inflight rl = 0" and h: "\<And>i. \<not> held_by ?w ob i"
    using assms by (auto simp: idle_def st)
  have d1: "distinct_ids ?ob1" using d by (simp add: distinct_ids_identities)
  have "\<not> held_by ?w (process_batch env ?w ?batch ?ob1) i" for i
  proof (cases "i \<in> set (map event_id ?batch)")
    case True
    then show ?thesis by (rule batch_lets_go [OF d])
  next
    case False
    then have "\<not> held_by ?w ?ob1 i" using held_after_claim h by blast
    then show ?thesis
      using process_other [OF d1 claim_batch_members(1) [OF d]] False by simp
  qed
  then have "\<not> held_by ?w (snd (snd (relay_turn env now tick ok st))) i" for i
    using h by (simp add: st turn_outbox)
  moreover have "distinct_ids (snd (snd (relay_turn env now tick ok st)))"
    using d d1 by (simp add: st turn_outbox process_batch_distinct)
  moreover have "inflight (fst (relay_turn env now tick ok st)) = 0"
    "worker_id (fst (relay_turn env now tick ok st)) = ?w"
    using z by (simp_all add: st)
  ultimately show ?thesis by (simp add: idle_def split: prod.splits) (metis prod.collapse fst_conv snd_conv)
qed

type_synonym turn_input = "relay_env \<times> time \<times> time \<times> bool"

definition turn_step :: "relay \<times> lease_world \<times> outbox \<Rightarrow> turn_input \<Rightarrow> relay \<times> lease_world \<times> outbox" where
  "turn_step st x = (case x of (env, now, tick, ok) \<Rightarrow> relay_turn env now tick ok st)"

interpretation relay_idle: op_invariant turn_step idle
  by unfold_locales (auto simp: turn_step_def turn_idle split: prod.splits)

text \<open>
  The relay settles what it claims: between any two turns of its loop, whatever the callback
  returned or raised and whether or not the lease was lost, the relay holds no claimed event and
  its count of events in flight is zero again.
\<close>

theorem relay_settles_every_batch:
  assumes "distinct_ids ob" and "inflight rl = 0" and "\<forall>i. \<not> held_by (worker_id rl) ob i"
  shows "case foldl turn_step (rl, lw, ob) turns of
     (rl', lw', ob') \<Rightarrow> inflight rl' = 0 \<and> (\<forall>i. \<not> held_by (worker_id rl') ob' i)"
  using relay_idle.run_inv [of "(rl, lw, ob)" turns] assms
  by (auto simp: idle_def split: prod.splits)

definition failing_env :: relay_env where
  "failing_env = \<lparr>deliver = (\<lambda>r. Raised ''Timeout: down''), jitter = (\<lambda>r. 1), settle_time = (\<lambda>r. 9)\<rparr>"

lemma relay_settles_every_batch_witness:
  "case foldl turn_step ((new_relay ''w1'' None)\<lparr>running := True\<rparr>, no_owner, sample_outbox)
       [(failing_env, 8, 1, True), (failing_env, 10, 2, True)] of
     (rl', lw', ob') \<Rightarrow> inflight rl' = 0 \<and> (\<forall>i. \<not> held_by (worker_id rl') ob' i)"
  by (rule relay_settles_every_batch)
    (simp_all add: sample_distinct new_relay_def, simp add: held_by_def sample_defs)

section \<open>Retries\<close>

definition row_attempts_ok :: "outbox_row \<Rightarrow> bool" where
  "row_attempts_ok r \<longleftrightarrow> 0 \<le> attempts r \<and> attempts r \<le> max_attempts
     \<and> (status r = OB_PENDING \<or> status r = OB_CLAIMED \<longrightarrow> attempts r < max_attempts)"

definition attempts_ok :: "outbox \<Rightarrow> bool" where
  "attempts_ok ob \<longleftrightarrow> (\<forall>r \<in> set (rows ob). row_attempts_ok r)"

definition typed_env :: "relay_env \<Rightarrow> bool" where
  "typed_env env \<longleftrightarrow> (\<forall>r ty. deliver env r \<noteq> UnknownOutcome ty)"

lemma decide_typed:
  "typed_env env \<Longrightarrow> decide env r = Retry why d \<Longrightarrow> attempts r + 1 < max_attempts"
  by (auto simp: decide_def typed_env_def retry_or_bury_def Let_def
      split: callback_result.splits delivery_outcome.splits if_splits)

lemma settle_attempts:
  assumes "typed_env env" "0 \<le> attempts r" "attempts r < max_attempts"
  shows "row_attempts_ok (settle_row w (decide env r, t) r)"
  using assms decide_typed [OF assms(1), of r]
  by (cases "decide env r") (auto simp: row_attempts_ok_def)

lemma claim_attempts:
  assumes "attempts_ok ob" "distinct_ids ob"
  shows "attempts_ok (snd (claim_batch now w n l ob))"
    and "\<forall>b \<in> set (fst (claim_batch now w n l ob)). status b = OB_CLAIMED"
proof -
  have "attempts (expire_claim t r) = attempts r"
    "status (expire_claim t r) = OB_PENDING \<or> status (expire_claim t r) = OB_CLAIMED
       \<longleftrightarrow> status r = OB_PENDING \<or> status r = OB_CLAIMED" for t r
    by (auto simp: expire_claim_def)
  note e = this
  show "\<forall>b \<in> set (fst (claim_batch now w n l ob)). status b = OB_CLAIMED"
    by (auto simp: claim_batch_fst)
  have "row_attempts_ok r'"
    if new: "r' \<in> set (rows (snd (claim_batch now w n l ob)))" for r'
  proof -
    let ?ids = "claim_ids now n (after_expiry now l ob)"
    obtain q where q: "q \<in> set (after_expiry now l ob)"
      "r' = (if event_id q \<in> set ?ids then claim_row w now q else q)"
      using new by (auto simp: claim_batch_rows)
    then obtain r where r: "r \<in> set (rows ob)" "q = expire_claim (now - l) r"
      by (auto simp: after_expiry_def)
    have q_ok: "row_attempts_ok q"
      using assms r(1) unfolding r(2) row_attempts_ok_def e
      by (auto simp: attempts_ok_def row_attempts_ok_def)
    show ?thesis
    proof (cases "event_id q \<in> set ?ids")
      case True
      then obtain q' where "q' \<in> set (after_expiry now l ob)" "event_id q' = event_id q"
        "claimable now (after_expiry now l ob) q'"
        using sort_take_in by blast
      moreover have "distinct (map event_id (after_expiry now l ob))"
        using assms(2) by (simp add: after_expiry_ids distinct_ids_def)
      ultimately have "claimable now (after_expiry now l ob) q" using distinct_row_eq q(1) by metis
      then show ?thesis using q_ok q(2) True
        by (simp add: claimable_def claim_row_def row_attempts_ok_def)
    next
      case False
      then show ?thesis using q(2) q_ok by simp
    qed
  qed
  then show "attempts_ok (snd (claim_batch now w n l ob))" by (simp add: attempts_ok_def)
qed

lemma batch_attempts:
  assumes "attempts_ok ob" "distinct_ids ob" "typed_env env"
  shows "attempts_ok (process_batch env w (fst (claim_batch now w n l ob))
     (snd (claim_batch now w n l ob)))"
proof -
  let ?batch = "fst (claim_batch now w n l ob)"
  let ?ob = "snd (claim_batch now w n l ob)"
  have d: "distinct_ids ?ob" using assms(2) by (simp add: distinct_ids_identities)
  note rows = process_batch_rows [OF d claim_batch_members [OF assms(2)], of env]
  have ok: "\<forall>r \<in> set (rows ?ob). row_attempts_ok r"
    using claim_attempts(1) [OF assms(1,2)] by (simp add: attempts_ok_def)
  have "row_attempts_ok (settle_row w (decide env r, settle_time env r) r)"
    if "r \<in> set (rows ?ob)" "r \<in> set ?batch" for r
    using ok that claim_attempts(2) [OF assms(1,2)] assms(3)
    by (intro settle_attempts) (auto simp: row_attempts_ok_def)
  with ok show ?thesis by (auto simp: attempts_ok_def rows)
qed

definition retries_inv :: "relay \<times> lease_world \<times> outbox \<Rightarrow> bool" where
  "retries_inv st \<longleftrightarrow> distinct_ids (snd (snd st)) \<and> attempts_ok (snd (snd st))"

lemma turn_retries:
  assumes "retries_inv st" "typed_env (fst x)"
  shows "retries_inv (turn_step st x)"
proof -
  obtain env now tick ok where x: "x = (env, now, tick, ok)" by (cases x)
  obtain rl lw ob where st: "st = (rl, lw, ob)" by (cases st)
  have "distinct_ids ob" "attempts_ok ob" using assms(1) by (simp_all add: retries_inv_def st)
  then show ?thesis
    using batch_attempts [of ob env "worker_id rl" now 10 30] assms(2)
      process_batch_distinct [of "snd (claim_batch now (worker_id rl) 10 30 ob)"]
      claim_keeps_distinct [of ob now "worker_id rl" 10 30]
    by (simp add: retries_inv_def turn_step_def x st turn_outbox claim_ids_of_def)
qed

lemma run_retries:
  "retries_inv st \<Longrightarrow> \<forall>x \<in> set turns. typed_env (fst x) \<Longrightarrow> retries_inv (foldl turn_step st turns)"
proof (induction turns arbitrary: st)
  case (Cons x turns)
  then show ?case using turn_retries [OF Cons.prems(1), of x] by simp
qed simp

text \<open>
  Retries are bounded: with a callback that raises or returns one of the three outcomes, no
  event is ever attempted more than \<open>MAX_ATTEMPTS\<close> (five) times, and every event that is still
  to be delivered has been attempted fewer than five times.
\<close>

theorem retries_are_bounded:
  assumes "distinct_ids ob" and "attempts_ok ob"
    and "\<forall>x \<in> set turns. typed_env (fst x)"
    and "r \<in> set (rows (snd (snd (foldl turn_step (rl, lw, ob) turns))))"
  shows "attempts r \<le> 5 \<and> (status r \<in> {OB_PENDING, OB_CLAIMED} \<longrightarrow> attempts r < 5)"
proof -
  have "retries_inv (foldl turn_step (rl, lw, ob) turns)"
    using assms by (intro run_retries) (simp_all add: retries_inv_def)
  then show ?thesis
    using assms(4) by (auto simp: retries_inv_def attempts_ok_def row_attempts_ok_def max_attempts_def)
qed

lemma sample_attempts: "attempts_ok sample_outbox"
  by (simp add: attempts_ok_def row_attempts_ok_def sample_defs max_attempts_def)

lemma length_turn: "length (rows (snd (snd (turn_step st x)))) = length (rows (snd (snd st)))"
proof -
  have "length (rows (process_batch env w bs ob)) = length (rows ob)" for env w bs ob
    by (induction bs arbitrary: ob)
      (simp_all add: process_batch_Cons settle_decision_rows, simp add: process_batch_def)
  then show ?thesis
    by (cases st; cases x) (simp add: turn_step_def turn_outbox claim_batch_rows after_expiry_def)
qed

lemma retries_are_bounded_witness:
  "attempts (hd (rows (snd (snd (foldl turn_step
      ((new_relay ''w1'' None)\<lparr>running := True\<rparr>, no_owner, sample_outbox)
      [(failing_env, 8, 1, True)]))))) \<le> 5"
proof -
  let ?st = "foldl turn_step ((new_relay ''w1'' None)\<lparr>running := True\<rparr>, no_owner, sample_outbox)
      [(failing_env, 8, 1, True)]"
  have "length (rows (snd (snd ?st))) = 2" by (simp add: length_turn) (simp add: sample_outbox_def)
  then have "hd (rows (snd (snd ?st))) \<in> set (rows (snd (snd ?st)))"
    by (intro hd_in_set) auto
  from retries_are_bounded [OF sample_distinct(1) sample_attempts _ this] show ?thesis
    by (simp add: typed_env_def failing_env_def)
qed

text \<open>
  The back-off of a retry: the delays double with the attempts, and since the fifth attempt
  is never rescheduled the delay is \<open>2 ^ attempts\<close> times the jitter, at least half a second and
  at most twelve; the cap of sixty seconds never applies.
\<close>

theorem backoff_within_bounds:
  assumes "0 \<le> attempts r" and "1 / 2 \<le> j" and "j \<le> 3 / 2" and "retry_or_bury r j why = Retry w d"
  shows "d = 2 ^ nat (attempts r) * j \<and> 1 / 2 \<le> d \<and> d \<le> 12"
proof -
  have "attempts r < 4" "d = backoff (attempts r + 1) j"
    using assms(4) by (auto simp: retry_or_bury_def Let_def max_attempts_def split: if_splits)
  moreover from this assms(1) have "attempts r = 0 \<or> attempts r = 1 \<or> attempts r = 2 \<or> attempts r = 3"
    by linarith
  ultimately show ?thesis
    using assms(2,3) by (auto simp: backoff_def max_backoff_s_def)
qed

lemma backoff_within_bounds_witness:
  "backoff 1 1 = 2 ^ nat (attempts (sample_row ''a'' 1)) * 1 \<and> 1 / 2 \<le> backoff 1 1 \<and> backoff 1 1 \<le> 12"
  by (rule backoff_within_bounds [where why = "''x''" and w = "''x''"])
    (simp_all add: sample_defs retry_or_bury_def max_attempts_def)

end
