(* ===== verification/Permission_Rules.thy ===== *)
theory Permission_Rules
  imports Grace_Prelude
begin

text \<open>
  \<^verbatim>\<open>hitl/permission_rule.py\<close>, \<^verbatim>\<open>hitl/pattern_inference.py\<close> and the dispatch of \<^verbatim>\<open>re.match\<close> they
  rely on: the syntax \<open>Tool(pattern)\<close> of permission rules, the translation of a pattern to a
  regular expression, and the match of a rule against a tool call. The regular expression is the
  list of the pieces the code concatenates; matching is Python's, so \<open>.\<close> stops at a newline and
  \<open>$\<close> also matches before a final one. A parameter is a text, or another JSON value with its
  \<open>str()\<close> and its truth value; a \<open>TypeError\<close> is \<open>None\<close>.
\<close>

section \<open>Rules and parameters\<close>

datatype tier = DENY | ASK | ALLOW

fun tier_of :: "string \<Rightarrow> tier option" where
  "tier_of s = (if s = ''deny'' then Some DENY else if s = ''ask'' then Some ASK
     else if s = ''allow'' then Some ALLOW else None)"

record permission_rule =
  raw :: string
  rule_tool :: string
  pattern :: "string option"
  rule_tier :: tier
  source :: string

datatype param = PStr string | PJson string bool

fun param_text :: "param \<Rightarrow> string" where
  "param_text (PStr s) = s"
| "param_text (PJson s b) = s"

fun param_truth :: "param \<Rightarrow> bool" where
  "param_truth (PStr s) = (s \<noteq> [])"
| "param_truth (PJson s b) = b"

type_synonym params = "(string, param) dict"

definition get_param :: "string \<Rightarrow> params \<Rightarrow> param" where
  "get_param k ps = the_default (PStr []) (dict_get ps k)"

definition param_or :: "param \<Rightarrow> param \<Rightarrow> param" where
  "param_or a b = (if param_truth a then a else b)"

definition source_priority :: "string \<Rightarrow> nat option" where
  "source_priority s = map_of
     [(''builtin'', 1), (''user'', 2), (''project'', 3), (''local'', 4), (''flag'', 5),
      (''policy'', 6), (''cli'', 7), (''command'', 8), (''session'', 9)] s"

definition tool_alias :: "string \<Rightarrow> string option" where
  "tool_alias s = map_of [(''bash'', ''shell'')] s"

section \<open>Parsing a rule\<close>

text \<open>\<open>\w\<close> on the code points below 256.\<close>

definition is_word :: "char \<Rightarrow> bool" where
  "is_word c = (let n = of_char c :: nat in
     (48 \<le> n \<and> n \<le> 57) \<or> (65 \<le> n \<and> n \<le> 90) \<or> n = 95 \<or> (97 \<le> n \<and> n \<le> 122)
     \<or> n \<in> {170, 178, 179, 181, 185, 186, 188, 189, 190}
     \<or> (192 \<le> n \<and> n \<noteq> 215 \<and> n \<noteq> 247))"

definition newline :: char where "newline = CHR 0x0A"

definition rule_syntax :: "string \<Rightarrow> (string \<times> string option) option" where
  "rule_syntax s =
     (let name = takeWhile is_word s; rest = dropWhile is_word s in
      if name = [] then None
      else if rest = [] then Some (name, None)
      else
        let body = butlast (tl rest) in
        if hd rest = CHR ''('' \<and> length rest \<ge> 3 \<and> last rest = CHR '')'' \<and> newline \<notin> set body
        then Some (name, Some body) else None)"

datatype rule_error = InvalidRuleSyntax string | InvalidTier string

definition parse_rule :: "string \<Rightarrow> string \<Rightarrow> string \<Rightarrow> rule_error + permission_rule" where
  "parse_rule text tr src =
     (let s = str_strip text in
      case rule_syntax s of
        None \<Rightarrow> Inl (InvalidRuleSyntax s)
      | Some (name, pat) \<Rightarrow>
          (case tier_of tr of
             None \<Rightarrow> Inl (InvalidTier tr)
           | Some t \<Rightarrow> Inr \<lparr>raw = s, rule_tool = str_lower name, pattern = pat, rule_tier = t,
                           source = src\<rparr>))"

section \<open>Patterns\<close>

text \<open>
  The pieces of the regular expressions: an escaped character, \<open>[^ ]*\<close>, \<open>.*\<close>, \<open>(?:/.*)?\<close> and
  \<open>(\s.*)?\<close>.
\<close>

datatype piece = Lit char | NonSpaces | AnyRun | OptSlash | OptTail

definition star :: char where "star = CHR ''*''"
definition slash :: char where "slash = CHR 0x2F"
definition space :: char where "space = CHR 0x20"

fun has_double_star :: "string \<Rightarrow> bool" where
  "has_double_star (a # b # s) = ((a = star \<and> b = star) \<or> has_double_star (b # s))"
| "has_double_star _ = False"

text \<open>\<open>str.replace\<close> on the escaped pattern: the leftmost occurrence first, none overlapping.\<close>

function replace_pieces :: "piece list \<Rightarrow> piece list \<Rightarrow> piece list \<Rightarrow> piece list" where
  "replace_pieces old new ps =
     (if ps = [] \<or> old = [] then ps
      else if take (length old) ps = old then new @ replace_pieces old new (drop (length old) ps)
      else hd ps # replace_pieces old new (tl ps))"
  by pat_completeness auto

termination by (relation "measure (\<lambda>(old, new, ps). length ps)") auto

declare replace_pieces.simps [simp del]

definition recursive_pieces :: "string \<Rightarrow> piece list" where
  "recursive_pieces pat =
     replace_pieces [Lit star, Lit star] [AnyRun]
       (replace_pieces [Lit slash, Lit star, Lit star] [OptSlash]
         (replace_pieces [Lit star, Lit star, Lit slash] [AnyRun, OptSlash] (map Lit pat)))"

definition pattern_to_regex :: "string \<Rightarrow> piece list" where
  "pattern_to_regex pat =
     (if has_double_star pat then recursive_pieces pat
      else if ends_with pat [space, star] then map Lit (take (length pat - 2) pat) @ [OptTail]
      else if star \<in> set pat then map (\<lambda>c. if c = star then NonSpaces else Lit c) pat
      else map Lit pat)"

text \<open>\<open>re.match\<close> with \<open>IGNORECASE\<close> on \<open>^...$\<close>: the alternatives of the pieces, with backtracking.\<close>

fun re_match :: "piece list \<Rightarrow> string \<Rightarrow> bool" where
  "re_match [] s = (s = [] \<or> s = [newline])"
| "re_match (Lit c # ps) s =
     (case s of [] \<Rightarrow> False | d # t \<Rightarrow> lower_char d = lower_char c \<and> re_match ps t)"
| "re_match (NonSpaces # ps) s =
     (re_match ps s \<or> (case s of [] \<Rightarrow> False | d # t \<Rightarrow> d \<noteq> space \<and> re_match (NonSpaces # ps) t))"
| "re_match (AnyRun # ps) s =
     (re_match ps s \<or> (case s of [] \<Rightarrow> False | d # t \<Rightarrow> d \<noteq> newline \<and> re_match (AnyRun # ps) t))"
| "re_match (OptSlash # ps) s =
     (re_match ps s \<or> (case s of [] \<Rightarrow> False | d # t \<Rightarrow> d = slash \<and> re_match (AnyRun # ps) t))"
| "re_match (OptTail # ps) s =
     (re_match ps s \<or> (case s of [] \<Rightarrow> False | d # t \<Rightarrow> is_space d \<and> re_match (AnyRun # ps) t))"

definition glob_match :: "string \<Rightarrow> string \<Rightarrow> bool" where
  "glob_match pat target = re_match (pattern_to_regex pat) target"

section \<open>Matching a call\<close>

definition extract_match_target :: "string \<Rightarrow> params \<Rightarrow> param" where
  "extract_match_target tool ps =
     (let name = str_lower tool in
      if name \<in> {''shell'', ''bash''} then
        param_or (get_param ''command'' ps) (get_param ''cmd'' ps)
      else if name \<in> {''file_write'', ''file_edit'', ''file_read'', ''file_view'', ''read'',
                      ''write'', ''edit''} then
        param_or (get_param ''path'' ps) (get_param ''file_path'' ps)
      else if name \<in> {''git_add'', ''git_commit''} then
        param_or (param_or (get_param ''message'' ps) (get_param ''path'' ps)) (PStr [])
      else if name \<in> {''search_text'', ''find_files'', ''find_symbol'', ''grep'', ''glob''} then
        param_or (get_param ''path'' ps) (get_param ''pattern'' ps)
      else if name \<in> {''agent'', ''task''} then
        param_or (get_param ''subagent_type'' ps) (get_param ''agent_name'' ps)
      else PStr (str_join [space] (map param_text (dict_values ps))))"

definition rule_names :: "permission_rule \<Rightarrow> string \<Rightarrow> bool" where
  "rule_names r tool \<longleftrightarrow>
     (let name = str_lower tool in
      rule_tool r = name \<or> rule_tool r = [star] \<or> tool_alias name = Some (rule_tool r))"

definition rule_matches :: "permission_rule \<Rightarrow> string \<Rightarrow> params \<Rightarrow> bool option" where
  "rule_matches r tool ps =
     (if \<not> rule_names r tool then Some False
      else case pattern r of
        None \<Rightarrow> Some True
      | Some pat \<Rightarrow>
          (case extract_match_target (str_lower tool) ps of
             PStr target \<Rightarrow> Some (glob_match pat target)
           | PJson t b \<Rightarrow> None))"

section \<open>Inferring a rule\<close>

definition infer_shell_pattern :: "string \<Rightarrow> string" where
  "infer_shell_pattern cmd =
     (case str_words cmd of
        [] \<Rightarrow> [star]
      | [w] \<Rightarrow> w @ [space, star]
      | w1 # w2 # _ \<Rightarrow> w1 @ [space] @ w2 @ [space, star])"

text \<open>
  \<open>PurePosixPath(p).parts\<close>: the non-empty components other than \<open>.\<close>, after the root (\<open>/\<close>, or \<open>//\<close>
  for exactly two slashes) when there is one.
\<close>

definition posix_parts :: "string \<Rightarrow> string list" where
  "posix_parts p =
     (let comps = filter (\<lambda>c. c \<noteq> [] \<and> c \<noteq> ''.'') (split_on slash p) in
      if starts_with p [slash, slash] \<and> \<not> starts_with p [slash, slash, slash]
      then [slash, slash] # comps
      else if starts_with p [slash] then [slash] # comps
      else comps)"

definition infer_path_pattern :: "string \<Rightarrow> string" where
  "infer_path_pattern path =
     (let normalized = map (\<lambda>c. if c = CHR 0x5C then slash else c) path;
          local = (if starts_with normalized [CHR ''.'', slash] then drop 2 normalized
                   else normalized);
          parts = posix_parts local
      in if length parts \<ge> 2 then [CHR ''.'', slash] @ hd parts @ [slash, star]
         else [CHR ''.'', slash, star])"

text \<open>
  \<open>infer_permission_pattern\<close>: the parameters it reads must be texts (\<open>cmd.split\<close> and
  \<open>path.replace\<close> raise otherwise), and the rule it builds is parsed, which may raise.
\<close>

datatype infer_error = NotText | BadRule rule_error

definition infer_permission_pattern :: "string \<Rightarrow> params \<Rightarrow> infer_error + permission_rule" where
  "infer_permission_pattern tool ps =
     (let name = str_lower tool;
          parse = (\<lambda>t. case parse_rule t ''allow'' ''session'' of Inl e \<Rightarrow> Inl (BadRule e) | Inr r \<Rightarrow> Inr r)
      in
      if name = ''shell'' then
        (case get_param ''cmd'' ps of
           PStr cmd \<Rightarrow> parse (''shell('' @ infer_shell_pattern cmd @ '')'')
         | _ \<Rightarrow> Inl NotText)
      else if name \<in> {''file_write'', ''file_edit'', ''file_read'', ''file_view''} then
        (case get_param ''path'' ps of
           PStr path \<Rightarrow> parse (name @ ''('' @ infer_path_pattern path @ '')'')
         | _ \<Rightarrow> Inl NotText)
      else parse name)"

section \<open>What a pattern matches\<close>

text \<open>\<open>$\<close>, and \<open>.*$\<close>: to the end, a single final newline allowed.\<close>

definition at_end :: "string \<Rightarrow> bool" where
  "at_end s \<longleftrightarrow> s = [] \<or> s = [newline]"

definition one_line :: "string \<Rightarrow> bool" where
  "one_line s \<longleftrightarrow> newline \<notin> set s \<or> (\<exists>x. s = x @ [newline] \<and> newline \<notin> set x)"

lemma re_match_lits:
  "re_match (map Lit p @ ps) s \<longleftrightarrow> length p \<le> length s
     \<and> str_lower (take (length p) s) = str_lower p \<and> re_match ps (drop (length p) s)"
proof (induction p arbitrary: s)
  case (Cons c p)
  then show ?case by (cases s) (auto simp: str_lower_def)
qed (simp add: str_lower_def)

lemma one_line_Cons: "one_line (d # t) \<longleftrightarrow> (d \<noteq> newline \<and> one_line t) \<or> (d = newline \<and> t = [])"
proof
  assume "one_line (d # t)"
  then show "(d \<noteq> newline \<and> one_line t) \<or> (d = newline \<and> t = [])"
    unfolding one_line_def by (auto simp: Cons_eq_append_conv)
next
  assume "(d \<noteq> newline \<and> one_line t) \<or> (d = newline \<and> t = [])"
  then show "one_line (d # t)"
    unfolding one_line_def by (auto intro: exI [of _ "d # _"])
qed

lemma re_match_any_run: "re_match [AnyRun] s \<longleftrightarrow> one_line s"
proof (induction s)
  case (Cons d t)
  then show ?case by (cases t) (auto simp: one_line_Cons)
qed (simp add: one_line_def)

lemma re_match_opt_tail:
  "re_match [OptTail] s \<longleftrightarrow> at_end s \<or> (\<exists>w x. s = w # x \<and> is_space w \<and> one_line x)"
  by (auto simp: at_end_def re_match_any_run simp del: re_match.simps(4) split: list.splits)

lemma double_star_append:
  "\<not> has_double_star p \<Longrightarrow> \<not> has_double_star (p @ [space, star])"
proof (induction p rule: has_double_star.induct)
  case (1 a b s)
  then show ?case by (cases s) (auto simp: space_def star_def)
qed (auto simp: space_def star_def)

lemma ends_with_append [simp]: "ends_with (p @ q) q"
  by (simp add: ends_with_def)

text \<open>
  The language of the two common kinds of pattern: one without \<open>*\<close> matches exactly its own
  text, and one that ends in \<open> *\<close> matches its prefix alone or followed by white space and one line
  of anything; letters match in either case, and one newline may follow at the very end.
\<close>

theorem pattern_language:
  "(star \<in> set p \<or>
      glob_match p t = (\<exists>v. at_end v \<and> (\<exists>u. t = u @ v \<and> str_lower u = str_lower p)))
   \<and> (has_double_star p \<or>
      glob_match (p @ [space, star]) t =
        (\<exists>u v. t = u @ v \<and> str_lower u = str_lower p
           \<and> (at_end v \<or> (\<exists>w x. v = w # x \<and> is_space w \<and> one_line x))))"
proof (intro conjI)
  have prefix_iff: "length p \<le> length t \<and> str_lower (take (length p) t) = str_lower p \<and> P (drop (length p) t)
      \<longleftrightarrow> (\<exists>u v. t = u @ v \<and> str_lower u = str_lower p \<and> P v)" for P
  proof
    assume "length p \<le> length t \<and> str_lower (take (length p) t) = str_lower p \<and> P (drop (length p) t)"
    then show "\<exists>u v. t = u @ v \<and> str_lower u = str_lower p \<and> P v"
      by (metis append_take_drop_id)
  next
    assume "\<exists>u v. t = u @ v \<and> str_lower u = str_lower p \<and> P v"
    then obtain u v where *: "t = u @ v" "str_lower u = str_lower p" "P v" by blast
    then have "length u = length p" by (metis length_map str_lower_def)
    then show "length p \<le> length t \<and> str_lower (take (length p) t) = str_lower p
        \<and> P (drop (length p) t)"
      using * by simp
  qed
  show "star \<in> set p \<or> glob_match p t = (\<exists>v. at_end v \<and> (\<exists>u. t = u @ v \<and> str_lower u = str_lower p))"
  proof (cases "star \<in> set p")
    case False
    have "\<not> has_double_star p" using False by (induction p rule: has_double_star.induct) auto
    moreover have "\<not> ends_with p [space, star]"
    proof
      assume "ends_with p [space, star]"
      then have "prefix [star, space] (rev p)" by (simp add: ends_with_def starts_with_prefix)
      then show False using False by (auto simp: prefix_def rev_swap)
    qed
    ultimately have "glob_match p t = re_match (map Lit p @ []) t"
      using False by (simp add: glob_match_def pattern_to_regex_def)
    also have "\<dots> = (\<exists>u v. t = u @ v \<and> str_lower u = str_lower p \<and> at_end v)"
      unfolding re_match_lits using prefix_iff [of at_end] by (simp add: at_end_def)
    finally show ?thesis by blast
  qed simp
  show "has_double_star p \<or> glob_match (p @ [space, star]) t =
      (\<exists>u v. t = u @ v \<and> str_lower u = str_lower p
         \<and> (at_end v \<or> (\<exists>w x. v = w # x \<and> is_space w \<and> one_line x)))"
  proof (cases "has_double_star p")
    case False
    have "pattern_to_regex (p @ [space, star]) = map Lit p @ [OptTail]"
      using double_star_append [OF False] by (simp add: pattern_to_regex_def)
    then show ?thesis
      unfolding glob_match_def using prefix_iff [of "re_match [OptTail]"]
      by (simp only: re_match_lits re_match_opt_tail simp_thms)
  qed simp
qed

lemma lower_bash: "str_lower ''Bash'' = ''bash''"
  by code_simp

lemma bash_target: "c \<noteq> [] \<Longrightarrow> extract_match_target ''bash'' [(''command'', PStr c)] = PStr c"
  by (simp add: extract_match_target_def get_param_def param_or_def str_lower_def lower_char_def)

text \<open>
  A command of several lines escapes every prefix rule: for a rule whose pattern is a prefix
  without \<open>**\<close> and then \<open> *\<close>, a deny rule included, a Bash command that starts with the very prefix
  but holds a newline before its last character does not match, since \<open>.\<close> stops at the newline.
\<close>

theorem multi_line_command_escapes_prefix_rule:
  assumes "pattern r = Some (p @ [space, star])" and "\<not> has_double_star p" and "y \<noteq> []"
  shows "rule_matches r ''Bash'' [(''command'', PStr (p @ [space] @ x @ [newline] @ y))] = Some False"
proof -
  have "\<not> one_line (x @ newline # y)"
    using assms(3) by (induction x) (auto simp: one_line_Cons)
  then have "\<not> re_match [OptTail] (space # x @ newline # y)"
    unfolding re_match_opt_tail by (simp add: at_end_def space_def newline_def)
  then have "\<not> glob_match (p @ [space, star]) (p @ [space] @ x @ [newline] @ y)"
    using double_star_append [OF assms(2)]
    by (simp add: glob_match_def pattern_to_regex_def re_match_lits del: re_match.simps)
  then show ?thesis
    using assms(1) unfolding rule_matches_def lower_bash
    by (subst bash_target) simp_all
qed

definition deny_rm :: permission_rule where
  "deny_rm = \<lparr>raw = ''shell(rm *)'', rule_tool = ''shell'', pattern = Some ''rm *'',
     rule_tier = DENY, source = ''user''\<rparr>"

lemma multi_line_command_escapes_prefix_rule_witness:
  "rule_matches deny_rm ''Bash'' [(''command'', PStr (''rm'' @ [space] @ ''-rf build'' @ [newline] @ ''ls''))]
     = Some False"
  by (rule multi_line_command_escapes_prefix_rule)
    (simp_all add: deny_rm_def space_def star_def)

section \<open>Parsing\<close>

lemma str_strip_id: "s \<noteq> [] \<Longrightarrow> \<not> is_space (hd s) \<Longrightarrow> \<not> is_space (last s) \<Longrightarrow> str_strip s = s"
proof -
  assume s: "s \<noteq> []" "\<not> is_space (hd s)" "\<not> is_space (last s)"
  then have "dropWhile is_space s = s" "dropWhile is_space (rev s) = rev s"
    by (simp_all add: dropWhile_eq_self_iff hd_rev)
  then show ?thesis by (simp add: str_strip_def)
qed

lemma str_strip_idem [simp]: "str_strip (str_strip s) = str_strip s"
proof (cases "str_strip s = []")
  case False
  let ?a = "dropWhile is_space s"
  let ?b = "dropWhile is_space (rev ?a)"
  have b: "?b \<noteq> []" "str_strip s = rev ?b" using False by (auto simp: str_strip_def)
  have end_ok: "\<not> is_space (last (str_strip s))"
    using hd_dropWhile [OF b(1)] b by (simp add: last_rev)
  have "suffix ?b (rev ?a)" by (rule suffix_dropWhile)
  then have "prefix (rev ?b) ?a" by (metis rev_rev_ident suffix_to_prefix)
  then obtain z where "?a = rev ?b @ z" by (auto simp: prefix_def)
  moreover have "rev ?b \<noteq> []" using b(1) by simp
  ultimately have "hd (rev ?b) = hd ?a" "?a \<noteq> []" by (metis hd_append2, metis append_is_Nil_conv)
  then have "\<not> is_space (hd (str_strip s))"
    using hd_dropWhile [of is_space s] b(2) by metis
  then show ?thesis using False end_ok by (intro str_strip_id)
next
  case True
  have "str_strip [] = []" by (simp add: str_strip_def)
  then show ?thesis by (simp only: True)
qed

lemma word_no_space: "is_word c \<Longrightarrow> \<not> is_space c"
  by (auto simp: is_word_def is_space_def Let_def)

text \<open>
  Parsing round trip: a rule written \<open>name(pattern)\<close> with a word for a name and a one-line
  pattern parses to that tool, in lower case, and that pattern; and the text kept in any parsed
  rule parses to the same rule again.
\<close>

theorem rule_parse_roundtrip:
  assumes "name \<noteq> []" and "list_all is_word name" and "pat \<noteq> []" and "newline \<notin> set pat"
  shows "parse_rule (name @ ''('' @ pat @ '')'') ''deny'' src
        = Inr \<lparr>raw = name @ ''('' @ pat @ '')'', rule_tool = str_lower name, pattern = Some pat,
               rule_tier = DENY, source = src\<rparr>
   \<and> (case parse_rule text tr src of
        Inl e \<Rightarrow> True
      | Inr r \<Rightarrow> parse_rule (raw r) tr src = Inr r)"
proof
  have w: "\<forall>c \<in> set name. is_word c" using assms(2) by (simp add: list_all_iff)
  let ?t = "name @ ''('' @ pat @ '')''"
  have "\<not> is_space (hd ?t)" using w assms(1) by (cases name) (auto dest: word_no_space)
  moreover have "\<not> is_space (last ?t)" by (simp add: is_space_def)
  ultimately have s: "str_strip ?t = ?t" by (intro str_strip_id) simp_all
  have "\<not> is_word CHR ''(''" by (simp add: is_word_def)
  then have "takeWhile is_word ?t = name" "dropWhile is_word ?t = ''('' @ pat @ '')''"
    using w by simp_all
  then have "rule_syntax ?t = Some (name, Some pat)"
    using assms by (simp add: rule_syntax_def Let_def butlast_append Suc_le_eq)
  then show "parse_rule ?t ''deny'' src
      = Inr \<lparr>raw = ?t, rule_tool = str_lower name, pattern = Some pat, rule_tier = DENY, source = src\<rparr>"
    by (simp add: parse_rule_def s Let_def del: append.simps)
  show "case parse_rule text tr src of Inl e \<Rightarrow> True | Inr r \<Rightarrow> parse_rule (raw r) tr src = Inr r"
    by (auto simp: parse_rule_def Let_def split: sum.splits option.splits)
qed

lemma rule_parse_roundtrip_witness:
  "parse_rule (''Bash'' @ ''('' @ ''git push *'' @ '')'') ''deny'' ''user''
     = Inr \<lparr>raw = ''Bash'' @ ''('' @ ''git push *'' @ '')'', rule_tool = str_lower ''Bash'',
            pattern = Some ''git push *'', rule_tier = DENY, source = ''user''\<rparr>"
  by (rule rule_parse_roundtrip [THEN conjunct1]) (simp_all add: is_word_def newline_def)

text \<open>
  "Always allow" on a shell or file tool forgets the call: for the tools named Bash, Write,
  Edit and Read the inferred rule has no pattern, since the inference only knows the names
  \<open>shell\<close>, \<open>file_write\<close>, \<open>file_edit\<close>, \<open>file_read\<close> and \<open>file_view\<close>, and it then matches every call of
  that tool, whatever was approved.
\<close>

theorem always_allow_forgets_the_call:
  "(\<exists>r. infer_permission_pattern ''Bash'' ps = Inr r \<and> rule_matches r ''Bash'' ps' = Some True)
   \<and> (\<exists>r. infer_permission_pattern ''Write'' ps = Inr r \<and> rule_matches r ''Write'' ps' = Some True)
   \<and> (\<exists>r. infer_permission_pattern ''Edit'' ps = Inr r \<and> rule_matches r ''Edit'' ps' = Some True)
   \<and> (\<exists>r. infer_permission_pattern ''Read'' ps = Inr r \<and> rule_matches r ''Read'' ps' = Some True)"
  by (simp add: infer_permission_pattern_def parse_rule_def rule_syntax_def str_strip_def
      is_space_def is_word_def rule_matches_def rule_names_def str_lower_def lower_char_def Let_def)

end
