(* ===== verification/Trust.thy ===== *)
theory Trust
  imports Permission_Rules
begin

text \<open>
  \<^verbatim>\<open>hitl/trust_accumulator.py\<close>: how often the user has approved a kind of call in this session, with
  decay over time. A counter is an exact rational; the clock is the argument \<open>now\<close>; SHA-256, cut to
  sixteen hexadecimal digits, is the parameter \<open>sha\<close> of the key. The lemmas bound the trust by the
  approvals and show how coarse the key of a shell command is.
\<close>

section \<open>The accumulator\<close>

type_synonym trust_key = "string \<times> string \<times> string"

record trust =
  approved :: "(trust_key, rat \<times> time) dict"
  trust_threshold :: rat
  decay_interval_s :: time
  decay_rate :: rat

definition new_trust :: "rat \<Rightarrow> time \<Rightarrow> rat \<Rightarrow> trust" where
  "new_trust th interval rate =
     \<lparr>approved = [], trust_threshold = th, decay_interval_s = interval, decay_rate = rate\<rparr>"

definition default_trust :: trust where
  "default_trust = new_trust 2 600 (1 / 10)"

text \<open>The interval is positive (the code divides by it). \<open>int()\<close> truncates, and the loop over \<open>range(periods)\<close> runs not at all for a negative number.\<close>

definition decay_periods :: "trust \<Rightarrow> time \<Rightarrow> time \<Rightarrow> int" where
  "decay_periods tr since now =
     (let q = (now - since) / decay_interval_s tr in if q \<ge> 0 then \<lfloor>q\<rfloor> else \<lceil>q\<rceil>)"

definition decayed :: "trust \<Rightarrow> time \<Rightarrow> rat \<times> time \<Rightarrow> rat \<times> time" where
  "decayed tr now e =
     (let (count, since) = e in
      if now - since \<ge> decay_interval_s tr then
        let periods = decay_periods tr since now in
        (count * (1 - decay_rate tr) ^ nat periods, since + of_int periods * decay_interval_s tr)
      else e)"

definition maybe_decay :: "trust_key \<Rightarrow> time \<Rightarrow> trust \<Rightarrow> trust" where
  "maybe_decay k now tr =
     (case dict_get (approved tr) k of
        None \<Rightarrow> tr
      | Some e \<Rightarrow> tr\<lparr>approved := dict_set k (decayed tr now e) (approved tr)\<rparr>)"

definition trust_approve :: "trust_key \<Rightarrow> time \<Rightarrow> trust \<Rightarrow> trust" where
  "trust_approve k now tr =
     (case dict_get (approved tr) k of
        None \<Rightarrow> tr\<lparr>approved := dict_set k (1, now) (approved tr)\<rparr>
      | Some e \<Rightarrow> tr\<lparr>approved := dict_set k (fst (decayed tr now e) + 1, now) (approved tr)\<rparr>)"

definition trust_reject :: "trust_key \<Rightarrow> time \<Rightarrow> trust \<Rightarrow> trust" where
  "trust_reject k now tr =
     (case dict_get (approved tr) k of
        None \<Rightarrow> tr\<lparr>approved := dict_set k (0, now) (approved tr)\<rparr>
      | Some e \<Rightarrow>
          tr\<lparr>approved := dict_set k (max 0 (fst (decayed tr now e) - 1), now) (approved tr)\<rparr>)"

definition trust_score :: "trust_key \<Rightarrow> time \<Rightarrow> trust \<Rightarrow> rat \<times> trust" where
  "trust_score k now tr =
     (case dict_get (approved tr) k of
        None \<Rightarrow> (0, tr)
      | Some e \<Rightarrow> (fst (decayed tr now e), maybe_decay k now tr))"

definition is_trusted :: "trust_key \<Rightarrow> time \<Rightarrow> trust \<Rightarrow> bool \<times> trust" where
  "is_trusted k now tr =
     (case dict_get (approved tr) k of
        None \<Rightarrow> (False, tr)
      | Some e \<Rightarrow> (fst (decayed tr now e) \<ge> trust_threshold tr, maybe_decay k now tr))"

definition trust_clear :: "trust \<Rightarrow> trust" where
  "trust_clear tr = tr\<lparr>approved := []\<rparr>"

definition trusted_count :: "trust \<Rightarrow> nat" where
  "trusted_count tr = length (filter (\<lambda>v. fst v \<ge> trust_threshold tr) (dict_values (approved tr)))"

section \<open>The key of a call\<close>

definition path_value :: "string \<Rightarrow> params \<Rightarrow> string option" where
  "path_value k ps =
     (case dict_get ps k of
        Some (PStr v) \<Rightarrow> if str_strip v \<noteq> [] then Some (str_strip v) else None
      | _ \<Rightarrow> None)"

definition extract_path :: "params \<Rightarrow> string" where
  "extract_path ps =
     (case path_value ''path'' ps of
        Some v \<Rightarrow> v
      | None \<Rightarrow> (case path_value ''file_path'' ps of
           Some v \<Rightarrow> v
         | None \<Rightarrow> (case path_value ''filepath'' ps of Some v \<Rightarrow> v | None \<Rightarrow> [])))"

definition read_tools :: "string list" where
  "read_tools =
     [''read'', ''file_read'', ''read_file'', ''fileview'', ''file_view'', ''grep'',
      ''search_text'', ''glob'', ''find_files'', ''findsymbol'', ''find_symbol'', ''gitstatus'',
      ''git_status'', ''memory_read'', ''memory_list'', ''memory_search'', ''list_resources'',
      ''read_resource'']"

definition write_tools :: "string list" where
  "write_tools =
     [''edit'', ''file_edit'', ''write'', ''file_write'', ''git_add'', ''git_commit'', ''git_push'']"

definition shell_key :: "string \<Rightarrow> string" where
  "shell_key cmd =
     (case str_words (str_strip cmd) of
        [] \<Rightarrow> []
      | [w] \<Rightarrow> w
      | w1 # w2 # _ \<Rightarrow> if starts_with w2 ''-'' then w1 @ ''|'' @ w2 else w1)"

fun after_scheme :: "string \<Rightarrow> string option" where
  "after_scheme [] = None"
| "after_scheme (c # cs) = (if starts_with (c # cs) ''://'' then Some (drop 3 (c # cs)) else after_scheme cs)"

definition url_domain :: "string \<Rightarrow> string" where
  "url_domain url =
     hd (split_on CHR ''?'' (hd (split_on slash (the_default url (after_scheme url)))))"

text \<open>
  The text that is hashed. A shell command or a URL that is not a text raises (\<open>None\<close>); a falsy
  command counts as empty.
\<close>

definition digest_input :: "string \<Rightarrow> params \<Rightarrow> string \<Rightarrow> string option" where
  "digest_input tool ps path =
     (let lower = str_lower tool in
      if lower \<in> set read_tools then Some path
      else if lower \<in> set write_tools then Some (path @ ''|'' @ tool)
      else if lower \<in> {''bash'', ''shell''} then
        (case param_or (param_or (get_param ''command'' ps) (get_param ''cmd'' ps)) (PStr []) of
           PStr cmd \<Rightarrow> Some (shell_key cmd) | _ \<Rightarrow> None)
      else if lower \<in> {''web_fetch'', ''webfetch'', ''web_search'', ''websearch''} then
        (case get_param ''url'' ps of PStr url \<Rightarrow> Some (url_domain url) | _ \<Rightarrow> None)
      else Some path)"

definition compute_trust_key ::
  "(string \<Rightarrow> string) \<Rightarrow> string \<Rightarrow> params \<Rightarrow> trust_key option" where
  "compute_trust_key sha tool ps =
     (let path = extract_path ps in
      case digest_input tool ps path of
        None \<Rightarrow> None
      | Some txt \<Rightarrow> Some (tool, path, if txt = [] then [] else sha txt))"

section \<open>Histories of calls\<close>

datatype trust_call =
    TrustApprove trust_key time
  | TrustReject trust_key time
  | TrustScore trust_key time
  | TrustQuery trust_key time
  | TrustClear

fun trust_step :: "trust \<Rightarrow> trust_call \<Rightarrow> trust" where
  "trust_step tr (TrustApprove k t) = trust_approve k t tr"
| "trust_step tr (TrustReject k t) = trust_reject k t tr"
| "trust_step tr (TrustScore k t) = snd (trust_score k t tr)"
| "trust_step tr (TrustQuery k t) = snd (is_trusted k t tr)"
| "trust_step tr TrustClear = trust_clear tr"

fun approvals_of :: "trust_key \<Rightarrow> trust_call list \<Rightarrow> nat" where
  "approvals_of k [] = 0"
| "approvals_of k (TrustApprove j t # cs) = (if j = k then 1 else 0) + approvals_of k cs"
| "approvals_of k (c # cs) = approvals_of k cs"

definition count_of :: "trust_key \<Rightarrow> trust \<Rightarrow> rat" where
  "count_of k tr = (case dict_get (approved tr) k of None \<Rightarrow> 0 | Some e \<Rightarrow> fst e)"

definition decay_sane :: "trust \<Rightarrow> bool" where
  "decay_sane tr \<longleftrightarrow> 0 \<le> decay_rate tr \<and> decay_rate tr \<le> 1
     \<and> (\<forall>k. 0 \<le> count_of k tr)"

lemma decayed_bounds:
  assumes "0 \<le> decay_rate tr" "decay_rate tr \<le> 1" "0 \<le> fst e"
  shows "0 \<le> fst (decayed tr now e) \<and> fst (decayed tr now e) \<le> fst e"
proof -
  have "0 \<le> (1 - decay_rate tr) ^ n \<and> (1 - decay_rate tr) ^ n \<le> 1" for n
    using assms by (simp add: power_le_one)
  then show ?thesis
    using assms(3) by (cases e) (auto simp: decayed_def Let_def mult_left_le)
qed

lemma step_config [simp]:
  "trust_threshold (trust_step tr c) = trust_threshold tr"
  "decay_interval_s (trust_step tr c) = decay_interval_s tr"
  "decay_rate (trust_step tr c) = decay_rate tr"
  by (cases c; simp add: trust_approve_def trust_reject_def trust_score_def is_trusted_def
      maybe_decay_def trust_clear_def split: option.splits)+

lemma maybe_decay_count:
  "count_of k (maybe_decay j now tr) =
     (if j = k then case dict_get (approved tr) k of None \<Rightarrow> 0 | Some e \<Rightarrow> fst (decayed tr now e)
      else count_of k tr)"
proof (cases "dict_get (approved tr) j")
  case None
  then show ?thesis by (auto simp: maybe_decay_def count_of_def)
next
  case (Some e)
  then show ?thesis by (auto simp: maybe_decay_def count_of_def dict_simps)
qed

lemma query_state [simp]:
  "snd (trust_score k t tr) = maybe_decay k t tr" "snd (is_trusted k t tr) = maybe_decay k t tr"
  by (simp_all add: trust_score_def is_trusted_def maybe_decay_def split: option.splits)

lemma sane_entry:
  assumes "decay_sane tr" "dict_get (approved tr) j = Some e"
  shows "0 \<le> fst (decayed tr now e)" and "fst (decayed tr now e) \<le> fst e"
proof -
  have "0 \<le> count_of j tr" using assms(1) unfolding decay_sane_def by blast
  then have "0 \<le> fst e" using assms(2) by (simp add: count_of_def)
  then show "0 \<le> fst (decayed tr now e)" "fst (decayed tr now e) \<le> fst e"
    using decayed_bounds [of tr e now] assms(1) by (simp_all add: decay_sane_def)
qed

lemma trust_step_count:
  assumes "decay_sane tr"
  shows "0 \<le> count_of k (trust_step tr c)
    \<and> count_of k (trust_step tr c) \<le> count_of k tr + of_nat (approvals_of k [c])"
proof -
  have b: "0 \<le> fst (decayed tr now e) \<and> fst (decayed tr now e) \<le> fst e"
    if "dict_get (approved tr) j = Some e" for now e j
    using sane_entry [OF assms that] by simp
  have p: "0 \<le> count_of k tr" using assms unfolding decay_sane_def by blast
  show ?thesis
  proof (cases c)
    case (TrustApprove j t)
    then show ?thesis using b [of j _ t] p
      by (auto simp: trust_approve_def count_of_def dict_simps split: option.splits)
  next
    case (TrustReject j t)
    then show ?thesis using b [of j _ t] p
      by (fastforce simp: trust_reject_def count_of_def dict_simps max_def split: option.splits if_splits)
  next
    case (TrustScore j t)
    then show ?thesis using b [of k _ t] p
      by (cases "dict_get (approved tr) k") (simp_all add: maybe_decay_count, simp_all add: count_of_def)
  next
    case (TrustQuery j t)
    then show ?thesis using b [of k _ t] p
      by (cases "dict_get (approved tr) k") (simp_all add: maybe_decay_count, simp_all add: count_of_def)
  next
    case TrustClear
    then show ?thesis using p by (simp add: trust_clear_def count_of_def)
  qed
qed

interpretation trust_bounds: op_invariant trust_step decay_sane
proof unfold_locales
  fix tr c
  assume d: "decay_sane tr"
  then show "decay_sane (trust_step tr c)"
    using trust_step_count [OF d] by (simp add: decay_sane_def)
qed

lemma approvals_Cons: "approvals_of k (c # cs) = approvals_of k [c] + approvals_of k cs"
  by (cases c) simp_all

lemma run_count:
  "decay_sane tr \<Longrightarrow>
   count_of k (foldl trust_step tr cs) \<le> count_of k tr + of_nat (approvals_of k cs)"
proof (induction cs arbitrary: tr)
  case (Cons c cs)
  have "count_of k (foldl trust_step (trust_step tr c) cs)
      \<le> count_of k (trust_step tr c) + of_nat (approvals_of k cs)"
    using Cons trust_bounds.step_inv by blast
  also have "\<dots> \<le> count_of k tr + of_nat (approvals_of k [c]) + of_nat (approvals_of k cs)"
    using trust_step_count [OF Cons.prems, of k c] by simp
  also have "\<dots> = count_of k tr + of_nat (approvals_of k (c # cs))"
    by (subst approvals_Cons) simp
  finally show ?case by simp
qed simp

lemma run_config [simp]:
  "trust_threshold (foldl trust_step tr cs) = trust_threshold tr"
  by (induction cs arbitrary: tr) simp_all

text \<open>
  Trust is never invented: whatever approvals, rejections, queries and clears came before, at
  whatever times, a key is trusted only after at least \<open>threshold\<close> approvals of that very key, and
  its count never exceeds them.
\<close>

theorem trust_needs_approvals:
  assumes "0 < th" and "0 \<le> rate" and "rate \<le> 1"
    and "fst (is_trusted k now (foldl trust_step (new_trust th interval rate) cs))"
  shows "th \<le> of_nat (approvals_of k cs)"
proof -
  let ?t0 = "new_trust th interval rate"
  let ?tr = "foldl trust_step ?t0 cs"
  have s0: "decay_sane ?t0" using assms by (simp add: decay_sane_def new_trust_def count_of_def)
  have s: "decay_sane ?tr" using trust_bounds.run_inv [OF s0] .
  obtain e where e: "dict_get (approved ?tr) k = Some e" "th \<le> fst (decayed ?tr now e)"
    using assms(4) by (auto simp: is_trusted_def new_trust_def split: option.splits)
  have "fst (decayed ?tr now e) \<le> fst e"
    by (rule sane_entry [OF s e(1)])
  also have "\<dots> = count_of k ?tr" using e(1) by (simp add: count_of_def)
  also have "\<dots> \<le> count_of k ?t0 + of_nat (approvals_of k cs)" by (rule run_count [OF s0])
  finally show ?thesis using e(2) by (simp add: count_of_def new_trust_def)
qed

lemma trust_needs_approvals_witness:
  "2 \<le> (of_nat (approvals_of (''Read'', ''a'', ''d'')
     [TrustApprove (''Read'', ''a'', ''d'') 1, TrustApprove (''Read'', ''a'', ''d'') 2]) :: rat)"
  by (rule trust_needs_approvals [where th = 2 and rate = "1 / 10" and interval = 600 and now = 3])
    (simp_all add: new_trust_def trust_approve_def decayed_def is_trusted_def)

text \<open>
  The shell key is coarse: any two Bash commands with the same first word, neither of whose
  second words is an option, have the same trust key, so approving a harmless subcommand twice
  makes the accumulator trust every other one of that program, whatever the hash is.
\<close>

theorem shell_trust_ignores_arguments:
  assumes "str_words (str_strip c1) = w # u # us" and "str_words (str_strip c2) = w # v # vs"
    and "\<not> starts_with u ''-''" and "\<not> starts_with v ''-''"
  shows "compute_trust_key sha ''Bash'' [(''command'', PStr c1)]
       = compute_trust_key sha ''Bash'' [(''command'', PStr c2)]
    \<and> fst (is_trusted (the (compute_trust_key sha ''Bash'' [(''command'', PStr c2)])) 2
        (foldl trust_step default_trust
          [TrustApprove (the (compute_trust_key sha ''Bash'' [(''command'', PStr c1)])) 0,
           TrustApprove (the (compute_trust_key sha ''Bash'' [(''command'', PStr c1)])) 1]))"
proof -
  have tools: "''bash'' \<notin> set read_tools" "''bash'' \<notin> set write_tools"
    by (simp_all add: read_tools_def write_tools_def)
  have key: "compute_trust_key sha ''Bash'' [(''command'', PStr c)]
      = Some (''Bash'', [], if shell_key c = [] then [] else sha (shell_key c))" if "c \<noteq> []" for c
    using that tools
    by (simp add: compute_trust_key_def digest_input_def lower_bash extract_path_def path_value_def
        get_param_def param_or_def Let_def)
  have ne: "c1 \<noteq> []" "c2 \<noteq> []" using assms(1,2) by (auto simp: str_strip_def str_words_def)
  have "shell_key c1 = w" "shell_key c2 = w" using assms by (simp_all add: shell_key_def)
  then have "compute_trust_key sha ''Bash'' [(''command'', PStr c1)]
      = compute_trust_key sha ''Bash'' [(''command'', PStr c2)]"
    by (simp add: key ne)
  then show ?thesis
    by (simp add: default_trust_def new_trust_def trust_approve_def decayed_def is_trusted_def)
qed

lemma shell_trust_ignores_arguments_witness:
  "compute_trust_key id ''Bash'' [(''command'', PStr ''git status'')]
     = compute_trust_key id ''Bash'' [(''command'', PStr ''git push origin'')]"
  by (rule shell_trust_ignores_arguments [THEN conjunct1, of _ "''git''" "''status''" "[]" _
        "''push''" "[''origin'']"])
    (simp_all add: str_words_def str_strip_def is_space_def starts_with_def)

end
