(* ===== verification/Posix_Path.thy ===== *)
theory Posix_Path
  imports Permission_Rules
begin

text \<open>
  The functions of Python's \<^verbatim>\<open>posixpath\<close> that the permission pipeline's sandbox and its protected
  paths rely on: \<open>isabs\<close>, \<open>join\<close>, \<open>normpath\<close> and \<open>abspath\<close> (with the working directory as an
  argument). \<open>normcase\<close> is the identity. The lemmas show that a normalised absolute path has no
  component \<open>..\<close>.
\<close>

definition is_abs :: "string \<Rightarrow> bool" where
  "is_abs p \<longleftrightarrow> starts_with p [slash]"

definition join_path :: "string \<Rightarrow> string \<Rightarrow> string" where
  "join_path a b =
     (if is_abs b then b
      else if a = [] \<or> last a = slash then a @ b
      else a @ [slash] @ b)"

definition dotdot :: string where "dotdot = ''..''"

text \<open>The loop of \<open>normpath\<close>: the components kept so far, in reverse.\<close>

fun norm_loop :: "bool \<Rightarrow> string list \<Rightarrow> string list \<Rightarrow> string list" where
  "norm_loop absolute acc [] = rev acc"
| "norm_loop absolute acc (c # cs) =
     (if c = [] \<or> c = ''.'' then norm_loop absolute acc cs
      else if c \<noteq> dotdot \<or> (\<not> absolute \<and> acc = []) \<or> (acc \<noteq> [] \<and> hd acc = dotdot)
      then norm_loop absolute (c # acc) cs
      else if acc \<noteq> [] then norm_loop absolute (tl acc) cs
      else norm_loop absolute acc cs)"

definition initial_slashes :: "string \<Rightarrow> nat" where
  "initial_slashes p =
     (if \<not> starts_with p [slash] then 0
      else if starts_with p [slash, slash] \<and> \<not> starts_with p [slash, slash, slash] then 2 else 1)"

definition norm_components :: "string \<Rightarrow> string list" where
  "norm_components p = norm_loop (initial_slashes p > 0) [] (split_on slash p)"

definition normpath :: "string \<Rightarrow> string" where
  "normpath p =
     (if p = [] then ''.''
      else or_else (replicate (initial_slashes p) slash @ str_join [slash] (norm_components p)) ''.'')"

definition abspath :: "string \<Rightarrow> string \<Rightarrow> string" where
  "abspath cwd p = normpath (if is_abs p then p else join_path cwd p)"

lemma norm_loop_absolute:
  "dotdot \<notin> set acc \<Longrightarrow> dotdot \<notin> set (norm_loop True acc cs)"
proof (induction cs arbitrary: acc)
  case (Cons c cs)
  have "acc \<noteq> [] \<Longrightarrow> hd acc \<noteq> dotdot" using Cons.prems by (cases acc) auto
  moreover have "dotdot \<notin> set (tl acc)" using Cons.prems by (cases acc) auto
  ultimately show ?case using Cons by (auto simp: dotdot_def)
qed simp

lemma absolute_components: "is_abs p \<Longrightarrow> dotdot \<notin> set (norm_components p)"
  by (simp add: norm_components_def initial_slashes_def is_abs_def norm_loop_absolute)

lemma is_abs_join: "is_abs cwd \<Longrightarrow> is_abs (if is_abs p then p else join_path cwd p)"
  by (cases cwd) (auto simp: join_path_def is_abs_def starts_with_def)

end
