(* ===== verification/Permission_Pipeline.thy ===== *)
theory Permission_Pipeline
  imports Permission_Rules Trust Posix_Path Circuit_Breaker "HOL-Library.Monad_Syntax"
    "HOL-Library.Char_ord" "HOL-Library.List_Lexorder"
begin

text \<open>
  \<^verbatim>\<open>hitl/pipeline.py\<close>: the layers that decide whether a tool call may run. A tool, the hook
  dispatcher and the confirm callbacks are the functions the pipeline calls on them; a call of
  \<open>check\<close> is one atomic step on the pipeline's record and returns \<open>None\<close> when a \<open>TypeError\<close> (a rule
  with a pattern, or the sandbox, applied to a value that is not a text) leaves it. The breaker and
  the trust accumulator, which clones of a pipeline share by reference, are fields of the record.
  The lemmas follow an approval back through the layers.
\<close>

section \<open>What a pipeline talks to\<close>

record tool =
  tool_name :: string
  denial_reason :: "params \<Rightarrow> string"
  read_only :: "params \<Rightarrow> bool"
  classify_risk :: "params \<Rightarrow> string option"
  risk_level :: string
  needs_interaction :: bool
  writes_path :: bool
  path_parameter :: string
  tool_permissions :: "string list"

definition risk_of :: "tool \<Rightarrow> params \<Rightarrow> string" where
  "risk_of t ps =
     (case classify_risk t ps of Some r \<Rightarrow> r | None \<Rightarrow> or_else (risk_level t) ''low'')"

datatype prompt_action = ALLOW_ONCE | ALWAYS_ALLOW | PROMPT_DENY

record prompt_request =
  rq_tool :: string
  rq_params :: params
  rq_thought :: string
  rq_agent :: string
  rq_reason :: string
  rq_permissions :: "string list"

record prompt_decision =
  pd_action :: prompt_action
  pd_note :: string
  pd_rule :: "permission_rule option"
  pd_updated :: params
  pd_wait_ms :: rat

datatype hook_control = HC_CONTINUE | HC_APPROVE | HC_BLOCK

record hook_answer =
  ha_control :: hook_control
  ha_reason :: string
  ha_updated :: params

record hook_dispatcher =
  on_pre_tool :: "string \<Rightarrow> params \<Rightarrow> hook_answer"
  on_permission_request :: "prompt_request \<Rightarrow> hook_answer"

record hook_proposal =
  hp_blocked :: bool
  hp_approved :: bool
  hp_reason :: string
  hp_updated :: params

section \<open>State\<close>

datatype permission_decision = P_ALLOW | P_DENY

datatype permission_layer =
    NOT_APPLICABLE | INPUT_VALIDATION | PRE_TOOL_HOOK | RULE | INTERACTIVE | TOOL_CHECK
  | PROMPT_APPROVED

text \<open>
  \<open>RuleDenial\<close> is the text of a denial by rule: the tool, the number of consecutive denials when it
  is mentioned, and whether the session limit is.
\<close>

datatype result_reason =
    Because string
  | RuleDenial string "int option" bool

record permission_result =
  decision :: permission_decision
  layer :: permission_layer
  res_reason :: result_reason
  feedback :: string
  wait_ms :: rat
  updated_params :: params

definition result_of ::
  "permission_decision \<Rightarrow> permission_layer \<Rightarrow> string \<Rightarrow> permission_result" where
  "result_of d l why =
     \<lparr>decision = d, layer = l, res_reason = Because why, feedback = [], wait_ms = 0,
      updated_params = []\<rparr>"

record pipeline_stats =
  ps_total :: nat
  ps_allowed :: nat
  ps_denied :: nat
  ps_prompted :: nat
  ps_hook_decided :: nat
  ps_wait_ms :: rat

definition empty_stats :: pipeline_stats where
  "empty_stats = \<lparr>ps_total = 0, ps_allowed = 0, ps_denied = 0, ps_prompted = 0,
     ps_hook_decided = 0, ps_wait_ms = 0\<rparr>"

definition stats_record :: "permission_result \<Rightarrow> pipeline_stats \<Rightarrow> pipeline_stats" where
  "stats_record r st =
     st\<lparr>ps_total := ps_total st + 1,
        ps_allowed := ps_allowed st + (if decision r = P_ALLOW then 1 else 0),
        ps_denied := ps_denied st + (if decision r = P_ALLOW then 0 else 1),
        ps_prompted := ps_prompted st + (if layer r = INTERACTIVE then 1 else 0),
        ps_hook_decided := ps_hook_decided st + (if layer r = PRE_TOOL_HOOK then 1 else 0),
        ps_wait_ms := ps_wait_ms st + wait_ms r\<rparr>"

record pipeline =
  deny_rules :: "permission_rule list"
  ask_rules :: "permission_rule list"
  allow_rules :: "permission_rule list"
  session_rules :: "permission_rule list"
  dispatcher :: "hook_dispatcher option"
  confirm_callback :: "(prompt_request \<Rightarrow> prompt_decision) option"
  web_confirm_callback :: "(prompt_request \<Rightarrow> prompt_decision) option"
  auto_approval :: bool
  has_settings :: bool
  project_root :: string
  work_dir :: string
  pl_breaker :: "breaker option"
  requesting_agent :: string
  pl_session_id :: string
  permission_mode :: string
  pre_plan_mode :: string
  denial_counters :: "(string, int) dict"
  total_denials :: int
  terminate_session :: bool
  approved_prompts :: "(string \<times> string) list"
  write_allowed :: bool
  trust_acc :: "trust option"
  stats :: pipeline_stats
  saved_rules :: "permission_rule list"

section \<open>Configuration\<close>

definition rule_priority :: "permission_rule \<Rightarrow> nat" where
  "rule_priority r = the_default 1 (source_priority (source r))"

definition sort_rules :: "permission_rule list \<Rightarrow> permission_rule list" where
  "sort_rules rs = sort_key (\<lambda>r. - int (rule_priority r)) rs"

definition sort_rule_lists :: "pipeline \<Rightarrow> pipeline" where
  "sort_rule_lists p =
     p\<lparr>deny_rules := sort_rules (deny_rules p), ask_rules := sort_rules (ask_rules p),
       allow_rules := sort_rules (allow_rules p), session_rules := sort_rules (session_rules p)\<rparr>"

definition add_new :: "permission_rule \<Rightarrow> permission_rule list \<Rightarrow> permission_rule list" where
  "add_new r rs = (if r \<in> set rs then rs else rs @ [r])"

definition add_all_new :: "permission_rule list \<Rightarrow> permission_rule list \<Rightarrow> permission_rule list" where
  "add_all_new new rs = foldl (\<lambda>rs r. add_new r rs) rs new"

definition new_pipeline ::
  "permission_rule list \<Rightarrow> hook_dispatcher option \<Rightarrow> (prompt_request \<Rightarrow> prompt_decision) option
     \<Rightarrow> bool \<Rightarrow> bool \<Rightarrow> string \<Rightarrow> string \<Rightarrow> breaker option
     \<Rightarrow> (prompt_request \<Rightarrow> prompt_decision) option \<Rightarrow> trust option \<Rightarrow> pipeline" where
  "new_pipeline rs disp confirm auto settings base cwd br web tr =
     sort_rule_lists
       \<lparr>deny_rules = filter (\<lambda>r. rule_tier r = DENY) rs,
        ask_rules = filter (\<lambda>r. rule_tier r = ASK) rs,
        allow_rules = filter (\<lambda>r. rule_tier r = ALLOW) rs, session_rules = [],
        dispatcher = disp, confirm_callback = confirm, web_confirm_callback = web,
        auto_approval = auto, has_settings = settings, project_root = base, work_dir = cwd,
        pl_breaker = br, requesting_agent = [], pl_session_id = [], permission_mode = [],
        pre_plan_mode = [], denial_counters = [], total_denials = 0, terminate_session = False,
        approved_prompts = [], write_allowed = True, trust_acc = tr, stats = empty_stats,
        saved_rules = []\<rparr>"

definition add_approved_prompts :: "(string \<times> string) list \<Rightarrow> pipeline \<Rightarrow> pipeline" where
  "add_approved_prompts items p =
     foldl (\<lambda>p it. if length (approved_prompts p) \<ge> 20 then p
                   else p\<lparr>approved_prompts := approved_prompts p @ [it]\<rparr>) p items"

definition write_tool_names :: "string list" where
  "write_tool_names = [''Write'', ''Edit'', ''Bash'', ''git_add'', ''git_commit'', ''git_push'', ''pytest'']"

definition write_deny_rule :: "string \<Rightarrow> permission_rule" where
  "write_deny_rule n =
     \<lparr>raw = n @ '' deny'', rule_tool = str_lower n, pattern = None, rule_tier = DENY,
      source = ''plan_policy''\<rparr>"

definition add_write_deny_rule :: "pipeline \<Rightarrow> pipeline" where
  "add_write_deny_rule p =
     sort_rule_lists
       (p\<lparr>deny_rules := add_all_new (map write_deny_rule write_tool_names) (deny_rules p)\<rparr>)"

record session_config =
  sc_mode :: "string option"
  sc_rules :: "permission_rule list"
  sc_web_confirm :: "(prompt_request \<Rightarrow> prompt_decision) option"
  sc_dispatcher :: "hook_dispatcher option"
  sc_agent :: string
  sc_session_id :: string
  sc_breaker :: "breaker option"
  sc_prompts :: "(string \<times> string) list"
  sc_write_allowed :: bool

definition some_or :: "'a option \<Rightarrow> 'a option \<Rightarrow> 'a option" where
  "some_or new old = (case new of None \<Rightarrow> old | Some x \<Rightarrow> Some x)"

definition configure_session :: "session_config \<Rightarrow> pipeline \<Rightarrow> pipeline" where
  "configure_session c p =
     (let p1 = p\<lparr>deny_rules := add_all_new (filter (\<lambda>r. rule_tier r = DENY) (sc_rules c)) (deny_rules p),
                 ask_rules := add_all_new (filter (\<lambda>r. rule_tier r = ASK) (sc_rules c)) (ask_rules p),
                 allow_rules := add_all_new (filter (\<lambda>r. rule_tier r = ALLOW) (sc_rules c)) (allow_rules p)\<rparr>;
          p2 = sort_rule_lists p1;
          p3 = p2\<lparr>permission_mode := the_default (permission_mode p2) (sc_mode c),
                  web_confirm_callback := some_or (sc_web_confirm c) (web_confirm_callback p2),
                  dispatcher := some_or (sc_dispatcher c) (dispatcher p2),
                  requesting_agent := (if sc_agent c = [] then requesting_agent p2
                                       else str_strip (sc_agent c)),
                  pl_session_id := or_else (sc_session_id c) (pl_session_id p2),
                  pl_breaker := some_or (sc_breaker c) (pl_breaker p2)\<rparr>;
          p4 = add_approved_prompts (sc_prompts c) p3;
          p5 = p4\<lparr>write_allowed := sc_write_allowed c\<rparr>
      in if sc_write_allowed c then p5 else add_write_deny_rule p5)"

definition attach_hook_dispatcher :: "hook_dispatcher option \<Rightarrow> pipeline \<Rightarrow> pipeline" where
  "attach_hook_dispatcher d p = p\<lparr>dispatcher := d\<rparr>"

definition set_circuit_breaker :: "breaker option \<Rightarrow> pipeline \<Rightarrow> pipeline" where
  "set_circuit_breaker b p = p\<lparr>pl_breaker := b\<rparr>"

record tool_control_signal =
  sig_terminate :: bool
  sig_total_denials :: int
  sig_counters :: "(string \<times> int) list"

definition control_signal :: "pipeline \<Rightarrow> tool_control_signal" where
  "control_signal p =
     \<lparr>sig_terminate = terminate_session p, sig_total_denials = total_denials p,
      sig_counters = sort_key fst (denial_counters p)\<rparr>"

definition set_permission_mode :: "string \<Rightarrow> pipeline \<Rightarrow> pipeline" where
  "set_permission_mode m p = p\<lparr>permission_mode := m\<rparr>"

definition save_pre_plan_mode :: "pipeline \<Rightarrow> pipeline" where
  "save_pre_plan_mode p = p\<lparr>pre_plan_mode := permission_mode p\<rparr>"

definition restore_pre_plan_mode :: "pipeline \<Rightarrow> string \<times> pipeline" where
  "restore_pre_plan_mode p =
     (let restored = or_else (pre_plan_mode p) (permission_mode p) in
      (restored, p\<lparr>permission_mode := restored, pre_plan_mode := []\<rparr>))"

record inherited_state =
  in_deny :: "permission_rule list"
  in_allow :: "permission_rule list"
  in_ask :: "permission_rule list"
  in_session :: "permission_rule list"
  in_mode :: string

definition get_inheritable_state :: "pipeline \<Rightarrow> inherited_state" where
  "get_inheritable_state p =
     \<lparr>in_deny = deny_rules p, in_allow = allow_rules p, in_ask = ask_rules p,
      in_session = session_rules p, in_mode = permission_mode p\<rparr>"

definition apply_inherited_state :: "inherited_state \<Rightarrow> string \<Rightarrow> pipeline \<Rightarrow> pipeline" where
  "apply_inherited_state st child_mode p =
     p\<lparr>deny_rules := add_all_new (in_deny st) (deny_rules p),
       allow_rules := add_all_new (in_allow st) (allow_rules p),
       ask_rules := add_all_new (in_ask st) (ask_rules p),
       session_rules := add_all_new (in_session st) (session_rules p),
       permission_mode := child_mode\<rparr>"

definition scoped :: "string \<Rightarrow> pipeline \<Rightarrow> pipeline" where
  "scoped base p = p\<lparr>project_root := abspath (work_dir p) base, stats := empty_stats\<rparr>"

definition for_agent :: "string \<Rightarrow> pipeline \<Rightarrow> pipeline" where
  "for_agent name p = p\<lparr>requesting_agent := str_strip name, stats := empty_stats\<rparr>"

section \<open>Layer 1: input validation\<close>

definition protected_dirs :: "string list" where
  "protected_dirs = [''.git'', ''.forge-agent'', ''.grace'', ''.claude'', ''.vscode'', ''.idea'']"

definition protected_files :: "string list" where
  "protected_files =
     [''.gitconfig'', ''.gitmodules'', ''.bashrc'', ''.bash_profile'', ''.zshrc'', ''.zprofile'',
      ''.profile'', ''.ripgreprc'', ''.mcp.json'', ''.claude.json'', ''settings.json'',
      ''settings.local.json'']"

fun protected_part :: "string list \<Rightarrow> string option" where
  "protected_part [] = None"
| "protected_part (c # cs) =
     (if str_lower c \<in> set protected_dirs then Some (''Protected directory: '' @ c @ ''/'')
      else if str_lower c \<in> set protected_files then Some (''Protected file: '' @ c)
      else protected_part cs)"

definition is_protected_path :: "string \<Rightarrow> params \<Rightarrow> string option" where
  "is_protected_path name ps =
     (if name \<noteq> ''Write'' \<and> name \<noteq> ''Edit'' then None
      else
        let path = param_or (param_or (get_param ''file_path'' ps) (get_param ''path'' ps)) (PStr []) in
        if \<not> param_truth path then None
        else protected_part (split_on slash
               (map (\<lambda>c. if c = CHR 0x5C then slash else c) (normpath (param_text path)))))"

definition layer1_validate :: "tool \<Rightarrow> params \<Rightarrow> permission_result option" where
  "layer1_validate t ps =
     (if denial_reason t ps \<noteq> [] then
        Some (result_of P_DENY INPUT_VALIDATION (denial_reason t ps))
      else case is_protected_path (tool_name t) ps of
        Some c \<Rightarrow> Some (result_of P_DENY INPUT_VALIDATION
                         (''Protected path blocked (bypass-immune): '' @ c))
      | None \<Rightarrow> None)"

section \<open>Layer 2: hooks\<close>

definition layer2_hooks :: "pipeline \<Rightarrow> string \<Rightarrow> params \<Rightarrow> hook_proposal" where
  "layer2_hooks p name ps =
     (case dispatcher p of
        None \<Rightarrow> \<lparr>hp_blocked = False, hp_approved = False, hp_reason = [], hp_updated = []\<rparr>
      | Some d \<Rightarrow>
          (let a = on_pre_tool d name ps in
           case ha_control a of
             HC_BLOCK \<Rightarrow> \<lparr>hp_blocked = True, hp_approved = False,
                          hp_reason = or_else (ha_reason a) ''Blocked by hook'',
                          hp_updated = ha_updated a\<rparr>
           | HC_APPROVE \<Rightarrow> \<lparr>hp_blocked = False, hp_approved = True, hp_reason = ''Hook approved'',
                            hp_updated = ha_updated a\<rparr>
           | HC_CONTINUE \<Rightarrow> \<lparr>hp_blocked = False, hp_approved = False, hp_reason = [],
                             hp_updated = ha_updated a\<rparr>))"

text \<open>\<open>{**a, **b}\<close>.\<close>

definition merge_params :: "params \<Rightarrow> params \<Rightarrow> params" where
  "merge_params a b = foldl (\<lambda>d kv. dict_set (fst kv) (snd kv) d) a b"

section \<open>Layer 3: rules\<close>

fun first_match :: "permission_rule list \<Rightarrow> string \<Rightarrow> params \<Rightarrow> permission_rule option option" where
  "first_match [] name ps = Some None"
| "first_match (r # rs) name ps =
     do { m \<leftarrow> rule_matches r name ps;
          if m then Some (Some r) else first_match rs name ps }"

definition layer3_rules :: "pipeline \<Rightarrow> string \<Rightarrow> params \<Rightarrow> (tier option \<times> string option) option" where
  "layer3_rules p name ps =
     do { d \<leftarrow> first_match (deny_rules p) name ps;
          case d of Some r \<Rightarrow> Some (Some DENY, Some (raw r)) | None \<Rightarrow>
     do { a \<leftarrow> first_match (ask_rules p) name ps;
          case a of Some r \<Rightarrow> Some (Some ASK, Some (raw r)) | None \<Rightarrow>
     do { s \<leftarrow> first_match (session_rules p) name ps;
          case s of Some r \<Rightarrow> Some (Some ALLOW, Some (raw r)) | None \<Rightarrow>
     do { w \<leftarrow> first_match (allow_rules p) name ps;
          case w of Some r \<Rightarrow> Some (Some ALLOW, Some (raw r)) | None \<Rightarrow> Some (None, None) }}}}"

section \<open>Layer 4: permission mode\<close>

definition filesystem_safe_commands :: "string list" where
  "filesystem_safe_commands = [''mkdir'', ''touch'', ''mv'', ''cp'', ''rm'', ''rmdir'', ''sed'']"

definition root_removal_patterns :: "string list" where
  "root_removal_patterns =
     [''rm -rf /'', ''rm -rf ~'', ''rm -r /'', ''rm -r ~'', ''rm -rf /*'', ''rm -rf ~/*'',
      ''find / -delete'', ''find / -exec rm'', ''chmod -R 000 /'', ''chmod -R 777 /'',
      ''chown -R'', ''> /dev/sda'', ''> /dev/hda'', ''> /dev/nvme'', ''mkfs'', ''dd if='',
      '':(){:|:&};:'']"

definition bash_command :: "params \<Rightarrow> string" where
  "bash_command ps = str_strip (param_text (get_param ''command'' ps))"

definition allow_rule_layer :: "string \<Rightarrow> permission_result" where
  "allow_rule_layer why = result_of P_ALLOW RULE why"

definition deny_rule_layer :: "string \<Rightarrow> permission_result" where
  "deny_rule_layer why = result_of P_DENY RULE why"

definition layer4_permission_mode ::
  "pipeline \<Rightarrow> tool \<Rightarrow> params \<Rightarrow> bool \<Rightarrow> permission_result option option" where
  "layer4_permission_mode p t ps force =
     (let mode = permission_mode p; name = tool_name t in
      if mode = [] \<or> mode = ''default'' \<or> mode = ''manual'' then Some None
      else if mode = ''bypassPermissions'' then
        if force then Some None
        else if name = ''Bash'' \<and> ps \<noteq> []
             \<and> list_ex (\<lambda>pat. contains_str (bash_command ps) pat) root_removal_patterns
        then Some None
        else Some (Some (allow_rule_layer ''bypassPermissions mode''))
      else if mode = ''acceptEdits'' then
        if force then Some None
        else if name = ''Write'' \<or> name = ''Edit'' then
          Some (Some (allow_rule_layer (''acceptEdits: '' @ name @ '' auto-approved'')))
        else if name = ''Bash'' \<and> ps \<noteq> [] then
          (case str_words (bash_command ps) of
             [] \<Rightarrow> Some None
           | w # _ \<Rightarrow>
               if w \<in> set filesystem_safe_commands
               then Some (Some (allow_rule_layer (''acceptEdits: '' @ w @ '' auto-approved'')))
               else Some None)
        else Some None
      else if mode = ''plan'' then
        if force then
          Some (Some (deny_rule_layer
            ''plan mode: ask rule requires interaction (blocked in plan mode)''))
        else if \<not> read_only t ps then
          Some (Some (deny_rule_layer (''plan mode: '' @ name @ '' is not read-only'')))
        else Some None
      else if mode = ''dontAsk'' then
        if force then
          Some (Some (deny_rule_layer
            ''dontAsk mode: ask rule requires interaction (blocked in non-interactive mode)''))
        else if read_only t ps then
          Some (Some (allow_rule_layer ''dontAsk: read-only tool auto-approved''))
        else
          do { m \<leftarrow> first_match (allow_rules p @ session_rules p) name ps;
               Some (Some (case m of
                 Some r \<Rightarrow> allow_rule_layer (''dontAsk: allowed by rule '' @ str_quoted (raw r))
               | None \<Rightarrow> deny_rule_layer (''dontAsk mode: '' @ str_quoted name @ '' denied. ''
                   @ ''Add it to permissions.allow in .forge-agent/settings.json to pre-approve.''))) }
      else Some None)"

section \<open>Approved prompts\<close>

definition is_token_char :: "char \<Rightarrow> bool" where
  "is_token_char c = (let n = of_char c :: nat in (97 \<le> n \<and> n \<le> 122) \<or> (48 \<le> n \<and> n \<le> 57))"

fun runs_from :: "string \<Rightarrow> string \<Rightarrow> string list" where
  "runs_from w [] = (if w = [] then [] else [rev w])"
| "runs_from w (c # cs) =
     (if is_token_char c then runs_from (c # w) cs
      else if w = [] then runs_from [] cs else rev w # runs_from [] cs)"

definition tokenize :: "string \<Rightarrow> string list" where
  "tokenize s = remdups (runs_from [] (str_lower s))"

definition prompt_primary_param :: "string \<Rightarrow> string option" where
  "prompt_primary_param name = map_of
     [(''Bash'', ''command''), (''Write'', ''path''), (''Edit'', ''path''), (''Read'', ''path''),
      (''Grep'', ''pattern''), (''Glob'', ''pattern''), (''WebFetch'', ''url''),
      (''WebSearch'', ''query''), (''Skill'', ''skill'')] name"

definition enough_overlap :: "string \<Rightarrow> string \<Rightarrow> bool" where
  "enough_overlap prompt value \<longleftrightarrow> tokenize prompt \<noteq> []
     \<and> 2 * length (filter (\<lambda>w. w \<in> set (tokenize value)) (tokenize prompt)) \<ge> length (tokenize prompt)"

definition prompt_matches :: "string \<Rightarrow> params \<Rightarrow> string \<times> string \<Rightarrow> bool" where
  "prompt_matches name ps entry \<longleftrightarrow>
     fst entry = name \<and> snd entry \<noteq> []
     \<and> ((case prompt_primary_param name of
           Some k \<Rightarrow> (case dict_get ps k of Some v \<Rightarrow> enough_overlap (snd entry) (param_text v)
                                         | None \<Rightarrow> False)
         | None \<Rightarrow> False)
        \<or> list_ex (\<lambda>v. case v of PStr s \<Rightarrow> enough_overlap (snd entry) s | PJson s b \<Rightarrow> False)
            (dict_values ps))"

definition match_approved_prompt :: "pipeline \<Rightarrow> string \<Rightarrow> params \<Rightarrow> string option" where
  "match_approved_prompt p name ps =
     (case filter (prompt_matches name ps) (approved_prompts p) of [] \<Rightarrow> None | e # es \<Rightarrow> Some (snd e))"

section \<open>Layer 5: the path sandbox\<close>

definition inside :: "string \<Rightarrow> string \<Rightarrow> bool" where
  "inside base path \<longleftrightarrow> path = base \<or> starts_with path (base @ [slash])"

definition layer5_check :: "pipeline \<Rightarrow> tool \<Rightarrow> params \<Rightarrow> permission_result option option" where
  "layer5_check p t ps =
     (if project_root p \<noteq> [] \<and> writes_path t \<and> path_parameter t \<noteq> [] then
        (let v = get_param (path_parameter t) ps in
         if \<not> param_truth v then Some None
         else case v of
           PJson s b \<Rightarrow> None
         | PStr path \<Rightarrow>
             (let base = abspath (work_dir p) (project_root p);
                  full = abspath (work_dir p) (if is_abs path then path else join_path base path) in
              if inside base full then Some None
              else Some (Some (result_of P_DENY TOOL_CHECK
                     (''Path sandbox: '' @ str_quoted path @ '' is outside project root'')))))
      else Some None)"

section \<open>Bookkeeping\<close>

definition count_decision :: "time \<Rightarrow> permission_result \<Rightarrow> tool \<Rightarrow> pipeline \<Rightarrow> pipeline" where
  "count_decision now r t p =
     (if decision r = P_ALLOW then
        p\<lparr>denial_counters :=
            (case dict_get (denial_counters p) (tool_name t) of
               Some n \<Rightarrow> if n > 0 then dict_set (tool_name t) 0 (denial_counters p)
                         else denial_counters p
             | None \<Rightarrow> denial_counters p),
          pl_breaker := map_option record_approval (pl_breaker p)\<rparr>
      else
        p\<lparr>total_denials := total_denials p + 1,
          denial_counters :=
            dict_set (tool_name t) (the_default 0 (dict_get (denial_counters p) (tool_name t)) + 1)
              (denial_counters p),
          pl_breaker := map_option (record_denial now) (pl_breaker p)\<rparr>)"

definition apply_tool_check ::
  "time \<Rightarrow> permission_result \<Rightarrow> tool \<Rightarrow> params \<Rightarrow> pipeline \<Rightarrow> (permission_result \<times> pipeline) option"
  where
  "apply_tool_check now r t ps p =
     do { l5 \<leftarrow> (if decision r = P_ALLOW then layer5_check p t ps else Some None);
          let r' = the_default r l5;
          Some (r', count_decision now r' t p) }"

text \<open>\<open>self._stats.record(result)\<close> and the \<open>return\<close> through \<open>_apply_tool_check\<close>.\<close>

definition record_stats :: "permission_result \<Rightarrow> pipeline \<Rightarrow> pipeline" where
  "record_stats r p = p\<lparr>stats := stats_record r (stats p)\<rparr>"

definition finish ::
  "time \<Rightarrow> permission_result \<Rightarrow> tool \<Rightarrow> params \<Rightarrow> pipeline \<Rightarrow> (permission_result \<times> pipeline) option"
  where
  "finish now r t ps p = apply_tool_check now r t ps (record_stats r p)"

section \<open>Layer 6: the callbacks\<close>

definition apply_decision ::
  "prompt_decision \<Rightarrow> string \<Rightarrow> params \<Rightarrow> pipeline \<Rightarrow> (permission_result \<times> pipeline) option" where
  "apply_decision d name ps p =
     (let allowed = (result_of P_ALLOW INTERACTIVE ''always_allow'')
            \<lparr>wait_ms := pd_wait_ms d, updated_params := pd_updated d\<rparr> in
      case pd_action d of
        ALWAYS_ALLOW \<Rightarrow>
          (case (case pd_rule d of Some r \<Rightarrow> Inr r | None \<Rightarrow> infer_permission_pattern name ps) of
             Inl e \<Rightarrow> None
           | Inr r \<Rightarrow>
               Some (allowed, p\<lparr>session_rules := session_rules p @ [r],
                                saved_rules := saved_rules p @ (if has_settings p then [r] else [])\<rparr>))
      | ALLOW_ONCE \<Rightarrow> Some (allowed\<lparr>res_reason := Because ''allow_once''\<rparr>, p)
      | PROMPT_DENY \<Rightarrow>
          Some ((result_of P_DENY INTERACTIVE ''denied_by_user'')
                  \<lparr>feedback := pd_note d, wait_ms := pd_wait_ms d\<rparr>, p))"

definition layer6_callback ::
  "pipeline \<Rightarrow> tool \<Rightarrow> params \<Rightarrow> string \<Rightarrow> bool \<Rightarrow> string \<Rightarrow> (permission_result \<times> pipeline) option" where
  "layer6_callback p t ps thought force why =
     (if \<not> force \<and> auto_approval p then Some (result_of P_ALLOW INTERACTIVE ''auto_approve'', p)
      else
        let rq = \<lparr>rq_tool = tool_name t, rq_params = ps, rq_thought = thought,
                  rq_agent = requesting_agent p, rq_reason = why,
                  rq_permissions = tool_permissions t\<rparr>;
            blocked = (case dispatcher p of
                None \<Rightarrow> None
              | Some d \<Rightarrow>
                  if ha_control (on_permission_request d rq) = HC_BLOCK
                  then Some (or_else (ha_reason (on_permission_request d rq))
                               ''Permission request blocked by hook'')
                  else None)
        in case blocked of
          Some r \<Rightarrow> Some (result_of P_DENY INTERACTIVE r, p)
        | None \<Rightarrow>
            (case web_confirm_callback p of
               Some f \<Rightarrow> apply_decision (f rq) (tool_name t) ps p
             | None \<Rightarrow>
                 (case confirm_callback p of
                    Some f \<Rightarrow> apply_decision (f rq) (tool_name t) ps p
                  | None \<Rightarrow> Some (result_of P_DENY INTERACTIVE
                              ''interactive approval unavailable in headless mode'', p))))"

section \<open>Trust\<close>

definition try_trust_auto_allow ::
  "(string \<Rightarrow> string) \<Rightarrow> time \<Rightarrow> tool \<Rightarrow> params \<Rightarrow> pipeline \<Rightarrow> (bool \<times> pipeline) option" where
  "try_trust_auto_allow sha now t ps p =
     (case trust_acc p of
        None \<Rightarrow> Some (False, p)
      | Some tr \<Rightarrow>
          do { key \<leftarrow> compute_trust_key sha (tool_name t) ps;
               let (trusted, tr1) = is_trusted key now tr;
               let (score, tr2) = trust_score key now tr1;
               Some (trusted \<and> risk_of t ps \<notin> {''high'', ''medium''},
                     p\<lparr>trust_acc := Some tr2\<rparr>) })"

definition record_trust_feedback ::
  "(string \<Rightarrow> string) \<Rightarrow> time \<Rightarrow> tool \<Rightarrow> params \<Rightarrow> permission_result \<Rightarrow> pipeline \<Rightarrow> pipeline option" where
  "record_trust_feedback sha now t ps r p =
     (case trust_acc p of
        None \<Rightarrow> Some p
      | Some tr \<Rightarrow>
          if layer r \<noteq> INTERACTIVE \<or> res_reason r = Because ''auto_approve'' then Some p
          else
            do { key \<leftarrow> compute_trust_key sha (tool_name t) ps;
                 let tr' = (if decision r = P_ALLOW then trust_approve key now tr
                            else trust_reject key now tr);
                 Some (p\<lparr>trust_acc := Some (snd (trust_score key now tr'))\<rparr>) })"

section \<open>The check\<close>

definition mandatory_recheck ::
  "pipeline \<Rightarrow> tool \<Rightarrow> params \<Rightarrow> bool \<Rightarrow> permission_result option option" where
  "mandatory_recheck p t ps force =
     (case layer1_validate t ps of
        Some r \<Rightarrow> Some (Some r)
      | None \<Rightarrow>
          do { (tr, matched) \<leftarrow> layer3_rules p (tool_name t) ps;
               if tr = Some DENY then Some (Some (deny_rule_layer ''updated input denied by rule''))
               else
                 do { m \<leftarrow> layer4_permission_mode p t ps force;
                      case m of
                        Some r \<Rightarrow> if decision r = P_DENY then Some (Some r) else layer5_check p t ps
                      | None \<Rightarrow> layer5_check p t ps } })"

definition check_interactive ::
  "(string \<Rightarrow> string) \<Rightarrow> time \<Rightarrow> tool \<Rightarrow> params \<Rightarrow> params \<Rightarrow> params \<Rightarrow> string \<Rightarrow> bool \<Rightarrow> string
     \<Rightarrow> pipeline \<Rightarrow> (permission_result \<times> pipeline) option" where
  "check_interactive sha now t original hook_upd ps thought force why p =
     do { (r, p1) \<leftarrow> layer6_callback p t ps thought force
                      (or_else why ''No allow rule matched - requires interactive approval'');
          let updates = updated_params r;
          let final_updates = merge_params hook_upd updates;
          let final_params = merge_params original final_updates;
          denial \<leftarrow> (if decision r = P_ALLOW \<and> updates \<noteq> []
                    then mandatory_recheck p1 t final_params force else Some None);
          let r1 = the_default r denial;
          let r2 = (if decision r1 = P_ALLOW then r1\<lparr>updated_params := final_updates\<rparr> else r1);
          p2 \<leftarrow> record_trust_feedback sha now t ps r2 p1;
          finish now r2 t final_params p2 }"

definition check_mode ::
  "(string \<Rightarrow> string) \<Rightarrow> time \<Rightarrow> tool \<Rightarrow> params \<Rightarrow> params \<Rightarrow> params \<Rightarrow> string \<Rightarrow> bool \<Rightarrow> string
     \<Rightarrow> tier option \<Rightarrow> pipeline \<Rightarrow> (permission_result \<times> pipeline) option" where
  "check_mode sha now t original hook_upd ps thought force why tr p =
     do { m \<leftarrow> layer4_permission_mode p t ps force;
          case m of
            Some r \<Rightarrow>
              finish now (if decision r = P_ALLOW then r\<lparr>updated_params := hook_upd\<rparr> else r) t ps p
          | None \<Rightarrow>
              (case (if tool_name t = ''Bash'' then None
                     else match_approved_prompt p (tool_name t) ps) of
                 Some prompt \<Rightarrow>
                   finish now ((result_of P_ALLOW PROMPT_APPROVED (''Approved prompt: '' @ prompt))
                                 \<lparr>updated_params := hook_upd\<rparr>) t ps p
               | None \<Rightarrow>
                   do { a \<leftarrow> (if tr = Some ASK then Some None
                             else first_match (allow_rules p) (tool_name t) ps);
                        case a of
                          Some r \<Rightarrow>
                            finish now ((allow_rule_layer (''allowed by rule: '' @ raw r))
                                          \<lparr>updated_params := hook_upd\<rparr>) t ps p
                        | None \<Rightarrow>
                            check_interactive sha now t original hook_upd ps thought force why p }) }"

definition deny_by_rule ::
  "time \<Rightarrow> tool \<Rightarrow> params \<Rightarrow> pipeline \<Rightarrow> (permission_result \<times> pipeline) option" where
  "deny_by_rule now t ps p =
     (let consecutive = the_default 0 (dict_get (denial_counters p) (tool_name t)) + 1;
          stop_repeat = consecutive \<ge> 3 \<and> web_confirm_callback p \<noteq> None;
          limit = total_denials p + 1 \<ge> 20;
          p1 = (if stop_repeat \<or> limit then p\<lparr>terminate_session := True\<rparr> else p)
      in finish now
           \<lparr>decision = P_DENY, layer = RULE,
            res_reason = RuleDenial (tool_name t) (if consecutive \<ge> 3 then Some consecutive else None) limit,
            feedback = (if stop_repeat \<or> limit then ''CIRCUIT_BREAKER_TERMINATE'' else []),
            wait_ms = 0, updated_params = []\<rparr> t ps p1)"

definition check_policy ::
  "(string \<Rightarrow> string) \<Rightarrow> time \<Rightarrow> tool \<Rightarrow> params \<Rightarrow> params \<Rightarrow> params \<Rightarrow> string \<Rightarrow> bool \<Rightarrow> string
     \<Rightarrow> pipeline \<Rightarrow> (permission_result \<times> pipeline) option" where
  "check_policy sha now t original hook_upd ps thought override override_why p =
     (if total_denials p \<ge> 20 then
        finish now (deny_rule_layer (''Session denial limit (20) reached. ''
          @ ''Tool call blocked. You MUST review and change your approach.'')) t ps p
      else if needs_interaction t \<or> override then
        check_mode sha now t original hook_upd ps thought True
          (or_else override_why ''Tool requires user interaction (bypass-immune)'') None p
      else
        do { (tr, matched) \<leftarrow> layer3_rules p (tool_name t) ps;
             case tr of
               Some DENY \<Rightarrow> deny_by_rule now t ps p
             | Some ASK \<Rightarrow>
                 do { (trusted, p1) \<leftarrow> try_trust_auto_allow sha now t ps p;
                      if trusted then
                        finish now ((allow_rule_layer (''trusted low-risk tool auto-approved (risk=''
                            @ risk_of t ps @ '')''))\<lparr>feedback := ''TRUST_AUTO_ALLOW''\<rparr>) t ps p1
                      else
                        check_mode sha now t original hook_upd ps thought True
                          (case matched of
                             Some m \<Rightarrow> if m = [] then ''Matched ask rule''
                                       else ''Matched ask rule: '' @ m
                           | None \<Rightarrow> ''Matched ask rule'') (Some ASK) p1 }
             | _ \<Rightarrow> check_mode sha now t original hook_upd ps thought False [] tr p })"

definition check ::
  "(string \<Rightarrow> string) \<Rightarrow> time \<Rightarrow> tool \<Rightarrow> params \<Rightarrow> string \<Rightarrow> bool \<Rightarrow> string \<Rightarrow> pipeline
     \<Rightarrow> (permission_result \<times> pipeline) option" where
  "check sha now t ps thought override override_why p =
     (case layer1_validate t ps of
        Some r \<Rightarrow> Some (r, record_stats r p)
      | None \<Rightarrow>
          (let h = layer2_hooks p (tool_name t) ps in
           if hp_blocked h then
             finish now (result_of P_DENY PRE_TOOL_HOOK (or_else (hp_reason h) ''Blocked by hook'')) t ps p
           else
             let ps' = merge_params ps (hp_updated h) in
             case layer1_validate t ps' of
               Some r \<Rightarrow> finish now r t ps' p
             | None \<Rightarrow> check_policy sha now t ps (hp_updated h) ps' thought override override_why p))"

text \<open>The parameters the tool then runs with: the caller's, with the result's updates merged in.\<close>

definition executed :: "params \<Rightarrow> permission_result \<Rightarrow> params" where
  "executed ps r = merge_params ps (updated_params r)"

section \<open>Following an approval back\<close>

lemma merge_nil [simp]: "merge_params a [] = a"
  by (simp add: merge_params_def)

lemma bind_Some: "(x \<bind> f) = Some y \<longleftrightarrow> (\<exists>a. x = Some a \<and> f a = Some y)"
  by (cases x) auto

lemma layer5_cong:
  assumes "project_root p = project_root q" "work_dir p = work_dir q"
  shows "layer5_check p t ps = layer5_check q t ps"
  unfolding layer5_check_def assms by (rule refl)

lemma layer4_cong:
  assumes "permission_mode p = permission_mode q" "allow_rules p = allow_rules q"
    "session_rules p = session_rules q"
  shows "layer4_permission_mode p t ps f = layer4_permission_mode q t ps f"
  unfolding layer4_permission_mode_def assms by (rule refl)

lemma layer5_denies: "layer5_check p t ps = Some (Some r) \<Longrightarrow> decision r = P_DENY"
  by (auto simp: layer5_check_def result_of_def Let_def split: if_splits param.splits)

lemma finish_allow:
  assumes "finish now r t ps p = Some (r', p')" "decision r' = P_ALLOW"
  shows "r' = r \<and> layer5_check p t ps = Some None"
proof -
  have eq: "layer5_check (record_stats r p) t ps = layer5_check p t ps"
    by (rule layer5_cong) (simp_all add: record_stats_def)
  obtain l5 where l5: "(if decision r = P_ALLOW then layer5_check p t ps else Some None) = Some l5"
    "r' = the_default r l5"
    using assms(1) unfolding finish_def apply_tool_check_def eq by (auto simp: bind_Some Let_def)
  show ?thesis
  proof (cases l5)
    case None
    then show ?thesis using l5 assms(2) by (auto split: if_splits)
  next
    case (Some x)
    then have "decision x = P_DENY" using l5(1) layer5_denies by (auto split: if_splits)
    then show ?thesis using l5(2) Some assms(2) by simp
  qed
qed

lemma finish_deny:
  "finish now r t ps p = Some (r', p') \<Longrightarrow> decision r = P_DENY \<Longrightarrow> r' = r"
  by (auto simp: finish_def apply_tool_check_def bind_Some Let_def)

text \<open>What a layer leaves alone: the rules, the mode and the sandbox of the pipeline.\<close>

definition same_policy :: "pipeline \<Rightarrow> pipeline \<Rightarrow> bool" where
  "same_policy p q \<longleftrightarrow> deny_rules q = deny_rules p \<and> ask_rules q = ask_rules p
     \<and> allow_rules q = allow_rules p \<and> permission_mode q = permission_mode p
     \<and> project_root q = project_root p \<and> work_dir q = work_dir p \<and> dispatcher q = dispatcher p
     \<and> trust_acc q = trust_acc p \<and> total_denials q = total_denials p"

lemma same_policy_refl [simp]: "same_policy p p"
  by (simp add: same_policy_def)

lemma apply_decision_policy:
  "apply_decision d name ps p = Some (r, q) \<Longrightarrow> same_policy p q"
  by (auto simp: apply_decision_def same_policy_def Let_def
      split: prompt_action.splits option.splits sum.splits)

lemma layer6_policy:
  "layer6_callback p t ps th force why = Some (r, q) \<Longrightarrow> same_policy p q"
  by (auto simp: layer6_callback_def Let_def
      split: if_splits option.splits dest: apply_decision_policy)

lemma try_trust_policy:
  "try_trust_auto_allow sha now t ps p = Some (b, q) \<Longrightarrow>
   deny_rules q = deny_rules p \<and> permission_mode q = permission_mode p
   \<and> project_root q = project_root p \<and> work_dir q = work_dir p \<and> total_denials q = total_denials p
   \<and> allow_rules q = allow_rules p \<and> (trust_acc p = None \<longrightarrow> q = p \<and> \<not> b)"
  by (auto simp: try_trust_auto_allow_def bind_Some Let_def case_prod_beta split: option.splits)

text \<open>The conditions every approval that went through layers 4 to 6 has met.\<close>

definition cleared :: "pipeline \<Rightarrow> tool \<Rightarrow> params \<Rightarrow> bool" where
  "cleared p t ps \<longleftrightarrow> layer1_validate t ps = None \<and> layer5_check p t ps = Some None
     \<and> (permission_mode p = ''plan'' \<longrightarrow> read_only t ps)"

definition undenied :: "pipeline \<Rightarrow> tool \<Rightarrow> params \<Rightarrow> bool" where
  "undenied p t ps \<longleftrightarrow> first_match (deny_rules p) (tool_name t) ps = Some None"

lemma layer4_plan:
  assumes "layer4_permission_mode p t ps force = Some m" "permission_mode p = ''plan''"
    "m = None \<or> (\<exists>r. m = Some r \<and> decision r = P_ALLOW)"
  shows "read_only t ps \<and> \<not> force"
  using assms by (auto simp: layer4_permission_mode_def deny_rule_layer_def result_of_def
      split: if_splits)

lemma layer3_undenied:
  "layer3_rules p (tool_name t) ps = Some (tr, m) \<Longrightarrow> tr \<noteq> Some DENY \<Longrightarrow> undenied p t ps"
  by (auto simp: layer3_rules_def undenied_def bind_Some split: option.splits)

lemma recheck_clears:
  assumes "mandatory_recheck p t ps force = Some None"
  shows "cleared p t ps \<and> undenied p t ps"
proof -
  have l1: "layer1_validate t ps = None"
    using assms by (auto simp: mandatory_recheck_def split: option.splits)
  then obtain tr mt where l3: "layer3_rules p (tool_name t) ps = Some (tr, mt)"
    and rest: "(if tr = Some DENY then Some (Some (deny_rule_layer ''updated input denied by rule''))
      else layer4_permission_mode p t ps force \<bind> (\<lambda>m. case m of
             Some r \<Rightarrow> if decision r = P_DENY then Some (Some r) else layer5_check p t ps
           | None \<Rightarrow> layer5_check p t ps)) = Some None"
    using assms by (auto simp: mandatory_recheck_def bind_Some)
  then have tr: "tr \<noteq> Some DENY" by auto
  with rest obtain m where l4: "layer4_permission_mode p t ps force = Some m"
    and m: "(case m of Some r \<Rightarrow> if decision r = P_DENY then Some (Some r) else layer5_check p t ps
           | None \<Rightarrow> layer5_check p t ps) = Some None"
    by (auto simp: bind_Some)
  have l5: "m = None \<or> (\<exists>r. m = Some r \<and> decision r = P_ALLOW)" "layer5_check p t ps = Some None"
    using m permission_decision.exhaust by (auto split: option.splits if_splits)
  show ?thesis
    using l1 l5(2) layer3_undenied [OF l3 tr] layer4_plan [OF l4 _ l5(1)] by (simp add: cleared_def)
qed

lemma interactive_clears:
  assumes "check_interactive sha now t orig upd ps th force why p = Some (r, p')"
    "decision r = P_ALLOW" "ps = merge_params orig upd" "layer1_validate t ps = None"
    "permission_mode p = ''plan'' \<longrightarrow> read_only t ps"
  shows "cleared p t (executed orig r) \<and> (undenied p t ps \<longrightarrow> undenied p t (executed orig r))"
proof -
  obtain r0 p1 denial p2 where
    l6: "layer6_callback p t ps th force
           (or_else why ''No allow rule matched - requires interactive approval'') = Some (r0, p1)"
    and den: "(if decision r0 = P_ALLOW \<and> updated_params r0 \<noteq> []
               then mandatory_recheck p1 t (merge_params orig (merge_params upd (updated_params r0))) force
               else Some None) = Some denial"
    and fin: "finish now (if decision (the_default r0 denial) = P_ALLOW
               then (the_default r0 denial)\<lparr>updated_params := merge_params upd (updated_params r0)\<rparr>
               else the_default r0 denial) t
               (merge_params orig (merge_params upd (updated_params r0))) p2 = Some (r, p')"
    and tf: "record_trust_feedback sha now t ps (if decision (the_default r0 denial) = P_ALLOW
               then (the_default r0 denial)\<lparr>updated_params := merge_params upd (updated_params r0)\<rparr>
               else the_default r0 denial) p1 = Some p2"
    using assms(1) by (auto simp: check_interactive_def bind_Some Let_def)
  let ?final = "merge_params orig (merge_params upd (updated_params r0))"
  have p1: "same_policy p p1" using l6 by (rule layer6_policy)
  have p2: "project_root p2 = project_root p1" "work_dir p2 = work_dir p1"
    using tf by (auto simp: record_trust_feedback_def bind_Some split: option.splits if_splits)
  from finish_allow [OF fin assms(2)] have
    r: "r = (if decision (the_default r0 denial) = P_ALLOW
          then (the_default r0 denial)\<lparr>updated_params := merge_params upd (updated_params r0)\<rparr>
          else the_default r0 denial)" and l5: "layer5_check p2 t ?final = Some None"
    by simp_all
  then have ex: "executed orig r = ?final" using assms(2) by (auto simp: executed_def split: if_splits)
  have l5': "layer5_check p t ?final = Some None"
    using l5 p1 p2 layer5_cong [of p2 p t ?final] by (simp add: same_policy_def)
  show ?thesis
  proof (cases "decision r0 = P_ALLOW \<and> updated_params r0 \<noteq> []")
    case True
    have "denial = None"
    proof (rule ccontr)
      assume "denial \<noteq> None"
      then obtain d where d: "denial = Some d" by auto
      have "decision d = P_DENY"
        using True den d
        by (auto simp: mandatory_recheck_def layer1_validate_def result_of_def deny_rule_layer_def
            bind_Some split: option.splits if_splits dest: layer5_denies)
      then show False using r assms(2) d by (auto split: if_splits)
    qed
    then have "cleared p1 t ?final \<and> undenied p1 t ?final"
      using recheck_clears True den by simp
    then show ?thesis using ex l5' p1 by (simp add: cleared_def undenied_def same_policy_def)
  next
    case False
    then have "denial = None" using den by auto
    then have "updated_params r0 = []" using False r assms(2) by (auto split: if_splits)
    then show ?thesis using ex l5' assms(3-5) by (simp add: cleared_def)
  qed
qed

lemma mode_clears:
  assumes "check_mode sha now t orig upd ps th force why tr p = Some (r, p')"
    "decision r = P_ALLOW" "ps = merge_params orig upd" "layer1_validate t ps = None"
  shows "cleared p t (executed orig r) \<and> (undenied p t ps \<longrightarrow> undenied p t (executed orig r))
    \<and> (permission_mode p = ''plan'' \<longrightarrow> \<not> force)"
proof -
  obtain m where l4: "layer4_permission_mode p t ps force = Some m"
    using assms(1) by (auto simp: check_mode_def bind_Some)
  have direct: ?thesis if "finish now r0 t ps p = Some (r, p')"
    "decision r0 = P_ALLOW \<longrightarrow> updated_params r0 = upd"
    "m = None \<or> (\<exists>r. m = Some r \<and> decision r = P_ALLOW)" for r0
  proof -
    from finish_allow [OF that(1) assms(2)] have "r = r0" "layer5_check p t ps = Some None" by auto
    then have "executed orig r = ps" using that(2) assms(2,3) by (simp add: executed_def)
    then show ?thesis
      using layer4_plan [OF l4 _ that(3)] assms(4) \<open>layer5_check p t ps = Some None\<close>
      by (simp add: cleared_def)
  qed
  show ?thesis
  proof (cases m)
    case (Some r0)
    have fin: "finish now (if decision r0 = P_ALLOW then r0\<lparr>updated_params := upd\<rparr> else r0) t ps p
        = Some (r, p')"
      using assms(1) l4 Some by (simp add: check_mode_def)
    have "decision r0 = P_ALLOW"
    proof (rule ccontr)
      assume "decision r0 \<noteq> P_ALLOW"
      then have "decision r0 = P_DENY" by (cases "decision r0") auto
      then show False using finish_deny [OF fin] assms(2) by auto
    qed
    then show ?thesis using direct [OF fin] Some by simp
  next
    case None
    show ?thesis
    proof (cases "if tool_name t = ''Bash'' then None else match_approved_prompt p (tool_name t) ps")
      case (Some prompt)
      then have "finish now ((result_of P_ALLOW PROMPT_APPROVED (''Approved prompt: '' @ prompt))
          \<lparr>updated_params := upd\<rparr>) t ps p = Some (r, p')"
        using assms(1) l4 None by (simp add: check_mode_def)
      then show ?thesis using direct None by simp
    next
      case no_prompt: None
      obtain a where a: "(if tr = Some ASK then Some None else first_match (allow_rules p) (tool_name t) ps)
          = Some a"
        using assms(1) l4 None no_prompt by (auto simp: check_mode_def bind_Some)
      show ?thesis
      proof (cases a)
        case (Some rule)
        then have "finish now ((allow_rule_layer (''allowed by rule: '' @ raw rule))
            \<lparr>updated_params := upd\<rparr>) t ps p = Some (r, p')"
          using assms(1) l4 None no_prompt a by (simp add: check_mode_def)
        then show ?thesis using direct None by simp
      next
        case no_rule: None
        then have "check_interactive sha now t orig upd ps th force why p = Some (r, p')"
          using assms(1) l4 None no_prompt a by (simp add: check_mode_def)
        moreover have plan: "permission_mode p = ''plan'' \<longrightarrow> read_only t ps \<and> \<not> force"
          using layer4_plan [OF l4] None by blast
        ultimately show ?thesis using interactive_clears [OF _ assms(2-4)] by blast
      qed
    qed
  qed
qed

text \<open>
  The two ways to an approval: by layers 4 to 6 on the merged parameters, or by trust, where the
  result carries no updates.
\<close>

definition forced :: "tool \<Rightarrow> bool \<Rightarrow> bool" where
  "forced t override \<longleftrightarrow> needs_interaction t \<or> override"

lemma policy_allow:
  assumes "check_policy sha now t orig upd ps th override why p = Some (r, p')"
    "decision r = P_ALLOW" "ps = merge_params orig upd" "layer1_validate t ps = None"
  shows "total_denials p < 20
    \<and> ((cleared p t (executed orig r) \<and> (forced t override \<or> undenied p t (executed orig r))
          \<and> (permission_mode p = ''plan'' \<longrightarrow> \<not> forced t override))
       \<or> (trust_acc p \<noteq> None \<and> updated_params r = [] \<and> \<not> forced t override
          \<and> layer5_check p t ps = Some None \<and> undenied p t ps))"
proof -
  have lim: "total_denials p < 20"
  proof (rule ccontr)
    assume "\<not> total_denials p < 20"
    then have "finish now (deny_rule_layer (''Session denial limit (20) reached. ''
          @ ''Tool call blocked. You MUST review and change your approach.'')) t ps p = Some (r, p')"
      using assms(1) by (simp add: check_policy_def)
    from finish_deny [OF this] show False
      using assms(2) by (simp add: deny_rule_layer_def result_of_def)
  qed
  show ?thesis
  proof (cases "forced t override")
    case True
    then have "check_mode sha now t orig upd ps th True
        (or_else why ''Tool requires user interaction (bypass-immune)'') None p = Some (r, p')"
      using assms(1) lim by (simp add: check_policy_def forced_def)
    from mode_clears [OF this assms(2-4)] show ?thesis using lim True by blast
  next
    case False
    then obtain tr matched where l3: "layer3_rules p (tool_name t) ps = Some (tr, matched)"
      using assms(1) lim by (auto simp: check_policy_def forced_def bind_Some)
    have direct: ?thesis if "check_mode sha now t orig upd ps th b y z q = Some (r, p')"
      "tr \<noteq> Some DENY" "deny_rules q = deny_rules p" "permission_mode q = permission_mode p"
      "project_root q = project_root p" "work_dir q = work_dir p" for b y z q
    proof -
      have "undenied q t ps" using layer3_undenied [OF l3 that(2)] that(3) by (simp add: undenied_def)
      with mode_clears [OF that(1) assms(2-4)]
      have "cleared q t (executed orig r)" "undenied q t (executed orig r)" by blast+
      then show ?thesis
        using lim False that layer5_cong [OF that(5,6)] by (simp add: cleared_def undenied_def)
    qed
    have body: "(case tr of
         Some DENY \<Rightarrow> deny_by_rule now t ps p
       | Some ASK \<Rightarrow>
           do { (trusted, p1) \<leftarrow> try_trust_auto_allow sha now t ps p;
                if trusted then
                  finish now ((allow_rule_layer (''trusted low-risk tool auto-approved (risk=''
                      @ risk_of t ps @ '')''))\<lparr>feedback := ''TRUST_AUTO_ALLOW''\<rparr>) t ps p1
                else
                  check_mode sha now t orig upd ps th True
                    (case matched of
                       Some m \<Rightarrow> if m = [] then ''Matched ask rule'' else ''Matched ask rule: '' @ m
                     | None \<Rightarrow> ''Matched ask rule'') (Some ASK) p1 }
       | _ \<Rightarrow> check_mode sha now t orig upd ps th False [] tr p) = Some (r, p')"
      using assms(1) lim False l3 by (simp add: check_policy_def forced_def)
    show ?thesis
    proof (cases "tr = Some DENY")
      case True
      then show ?thesis using body assms(2) by (auto simp: deny_by_rule_def Let_def dest: finish_deny)
    next
      case not_deny: False
      show ?thesis
      proof (cases "tr = Some ASK")
        case True
        then obtain trusted p1 where tt: "try_trust_auto_allow sha now t ps p = Some (trusted, p1)"
          using body by (auto simp: bind_Some)
        note pol = try_trust_policy [OF tt]
        show ?thesis
        proof (cases trusted)
          case True
          then have fin: "finish now ((allow_rule_layer (''trusted low-risk tool auto-approved (risk=''
              @ risk_of t ps @ '')''))\<lparr>feedback := ''TRUST_AUTO_ALLOW''\<rparr>) t ps p1 = Some (r, p')"
            using body tt \<open>tr = Some ASK\<close> by simp
          from finish_allow [OF fin assms(2)] have "updated_params r = []"
            "layer5_check p t ps = Some None"
            using layer5_cong [of p1 p] pol by (simp_all add: allow_rule_layer_def result_of_def)
          moreover have "trust_acc p \<noteq> None" using pol True by auto
          ultimately show ?thesis using lim False layer3_undenied [OF l3 not_deny] by blast
        next
          case no_trust: False
          then have cm: "check_mode sha now t orig upd ps th True
              (case matched of
                 Some m \<Rightarrow> if m = [] then ''Matched ask rule'' else ''Matched ask rule: '' @ m
               | None \<Rightarrow> ''Matched ask rule'') (Some ASK) p1 = Some (r, p')"
            using body tt \<open>tr = Some ASK\<close> by simp
          show ?thesis by (rule direct [OF cm not_deny]) (use pol in simp_all)
        qed
      next
        case False
        then have cm: "check_mode sha now t orig upd ps th False [] tr p = Some (r, p')"
          using body not_deny by (auto split: option.splits tier.splits)
        show ?thesis by (rule direct [OF cm not_deny]) simp_all
      qed
    qed
  qed
qed

lemma check_allow:
  assumes "check sha now t ps th override why p = Some (r, p')" "decision r = P_ALLOW"
  shows "layer1_validate t (executed ps r) = None \<and> total_denials p < 20
    \<and> (trust_acc p = None \<or> dispatcher p = None \<longrightarrow>
        (forced t override \<or> undenied p t (executed ps r))
        \<and> layer5_check p t (executed ps r) = Some None)
    \<and> (trust_acc p = None \<longrightarrow> permission_mode p = ''plan'' \<longrightarrow>
        read_only t (executed ps r) \<and> \<not> forced t override)"
proof -
  let ?upd = "hp_updated (layer2_hooks p (tool_name t) ps)"
  let ?ps = "merge_params ps ?upd"
  have l1: "layer1_validate t ps = None"
    using assms by (auto simp: check_def layer1_validate_def result_of_def split: option.splits if_splits)
  have nb: "\<not> hp_blocked (layer2_hooks p (tool_name t) ps)"
  proof
    assume "hp_blocked (layer2_hooks p (tool_name t) ps)"
    then have "finish now (result_of P_DENY PRE_TOOL_HOOK
        (or_else (hp_reason (layer2_hooks p (tool_name t) ps)) ''Blocked by hook'')) t ps p = Some (r, p')"
      using assms(1) l1 by (simp add: check_def Let_def)
    from finish_deny [OF this] show False using assms(2) by (simp add: result_of_def)
  qed
  have l1': "layer1_validate t ?ps = None"
  proof (rule ccontr)
    assume "layer1_validate t ?ps \<noteq> None"
    then obtain x where x: "layer1_validate t ?ps = Some x" by auto
    then have "decision x = P_DENY"
      by (auto simp: layer1_validate_def result_of_def split: option.splits if_splits)
    moreover have fin: "finish now x t ?ps p = Some (r, p')"
      using assms(1) l1 nb x by (simp add: check_def Let_def)
    ultimately show False using finish_deny [OF fin] assms(2) by simp
  qed
  have pol: "check_policy sha now t ps ?upd ?ps th override why p = Some (r, p')"
    using assms(1) l1 nb l1' by (simp add: check_def Let_def)
  have no_hook: "?upd = []" if "dispatcher p = None" using that by (simp add: layer2_hooks_def)
  from policy_allow [OF pol assms(2) refl l1'] show ?thesis
  proof (elim conjE disjE)
    assume "updated_params r = []"
    then have "executed ps r = ps" by (simp add: executed_def)
    moreover assume "trust_acc p \<noteq> None" "layer5_check p t ?ps = Some None" "undenied p t ?ps"
      "total_denials p < 20"
    ultimately show ?thesis using l1 no_hook by auto
  qed (auto simp: cleared_def)
qed

end
