(* ===== verification/Permission_Properties.thy ===== *)
theory Permission_Properties
  imports Permission_Pipeline
begin

text \<open>
  The properties of \<^verbatim>\<open>hitl/pipeline.py\<close>: what an approval guarantees about the parameters that
  then run, the session's denial limit as a latch over histories of checks, the inheritance of
  deny rules, failing closed without anybody to ask, and the orderings of layers that let a call
  through.
\<close>

section \<open>Properties of an approval\<close>

text \<open>
  C3. The safety floor holds for what runs: whatever the hooks and the user change, an approved
  call runs with parameters that the tool's own blacklist accepts and that touch no protected
  path, and no approval is given in a session with twenty counted denials.
\<close>

theorem approved_call_is_validated:
  assumes "check sha now t ps th override why p = Some (r, p')" and "decision r = P_ALLOW"
  shows "denial_reason t (executed ps r) = []
    \<and> is_protected_path (tool_name t) (executed ps r) = None
    \<and> total_denials p < 20"
  using check_allow [OF assms] by (auto simp: layer1_validate_def split: if_splits option.splits)

text \<open>
  C4. Deny rules are absolute but for forced questions: no approval, by a mode, an allow rule, a prompt or the user, is
  given to a call whose final parameters a deny rule matches, provided that the question is not forced and that
  trust and hooks are not used together (the trust branch drops the hooks' updates it checked). A question is
  forced when the tool itself requires interaction, or when the caller passes \<open>force_interactive_override\<close>, as
  \<^verbatim>\<open>core/tool_execution.py\<close> does for a repeated attempt under \<open>APPROVAL\<close>: that branch skips the rules.
\<close>

theorem deny_rules_are_absolute:
  assumes "check sha now t ps th override why p = Some (r, p')" and "decision r = P_ALLOW"
    and "\<not> needs_interaction t" and "\<not> override" and "trust_acc p = None \<or> dispatcher p = None"
    and "rule \<in> set (deny_rules p)"
  shows "rule_matches rule (tool_name t) (executed ps r) = Some False"
proof -
  have none: "first_match rs name qs = Some None \<Longrightarrow> x \<in> set rs \<Longrightarrow> rule_matches x name qs = Some False"
    for rs name qs x
    by (induction rs) (auto simp: bind_Some split: if_splits)
  have "undenied p t (executed ps r)"
    using check_allow [OF assms(1,2)] assms(3-5) by (auto simp: forced_def)
  then show ?thesis using none assms(6) by (simp add: undenied_def)
qed

text \<open>
  Plan mode only reads: without a trust accumulator, every call approved in plan mode is one
  the tool declares read-only on the parameters it then runs with, however the user edited them.
\<close>

theorem plan_mode_only_reads:
  assumes "check sha now t ps th override why p = Some (r, p')" and "decision r = P_ALLOW"
    and "permission_mode p = ''plan''" and "trust_acc p = None"
  shows "read_only t (executed ps r) \<and> \<not> needs_interaction t \<and> \<not> override"
  using check_allow [OF assms(1,2)] assms(3,4) by (simp add: forced_def)

lemma layer5_path:
  assumes "layer5_check p t ps = Some None" "project_root p \<noteq> []" "writes_path t"
    "path_parameter t \<noteq> []" "get_param (path_parameter t) ps = PStr path" "path \<noteq> []"
  shows "inside (abspath (work_dir p) (project_root p))
    (abspath (work_dir p) (if is_abs path then path
       else join_path (abspath (work_dir p) (project_root p)) path))"
  using assms by (auto simp: layer5_check_def Let_def split: if_splits)

text \<open>
  The sandbox confines writes: a write that is approved in a project goes to a path that,
  made absolute and normalised (links aside), is the project's root or below it, and whose
  normal form has no component \<open>..\<close> left.
\<close>

theorem sandbox_confines_writes:
  assumes "check sha now t ps th override why p = Some (r, p')" and "decision r = P_ALLOW"
    and "trust_acc p = None \<or> dispatcher p = None" and "is_abs (work_dir p)"
    and "project_root p \<noteq> []" and "writes_path t" and "path_parameter t \<noteq> []"
    and "get_param (path_parameter t) (executed ps r) = PStr path" and "path \<noteq> []"
  shows "let base = abspath (work_dir p) (project_root p);
             target = (if is_abs path then path else join_path base path);
             full = (if is_abs target then target else join_path (work_dir p) target)
         in inside base (normpath full) \<and> dotdot \<notin> set (norm_components full)"
proof -
  let ?base = "abspath (work_dir p) (project_root p)"
  let ?target = "if is_abs path then path else join_path ?base path"
  have l5: "layer5_check p t (executed ps r) = Some None"
    using check_allow [OF assms(1,2)] assms(3) by blast
  have "inside ?base (abspath (work_dir p) ?target)"
    by (rule layer5_path [OF l5 assms(5-9)])
  moreover have "is_abs (if is_abs ?target then ?target else join_path (work_dir p) ?target)"
    by (rule is_abs_join [OF assms(4)])
  ultimately show ?thesis unfolding Let_def abspath_def using absolute_components by blast
qed

text \<open>
  A child agent cannot relax its parent: after \<open>apply_inherited_state\<close> every deny rule of the
  parent, and every one of its own, still blocks: no call whose final parameters such a rule
  matches is approved by the child, whatever mode and allow rules it has (under the conditions of
  the deny rules themselves).
\<close>

theorem child_inherits_denials:
  assumes "child' = apply_inherited_state (get_inheritable_state parent) mode child"
    and "rule \<in> set (deny_rules parent) \<union> set (deny_rules child)"
    and "check sha now t ps th False why child' = Some (r, p')" and "decision r = P_ALLOW"
    and "\<not> needs_interaction t" and "trust_acc child = None \<or> dispatcher child = None"
  shows "rule_matches rule (tool_name t) (executed ps r) = Some False"
proof -
  have none: "first_match rs name qs = Some None \<Longrightarrow> x \<in> set rs \<Longrightarrow> rule_matches x name qs = Some False"
    for rs name qs x
    by (induction rs) (auto simp: bind_Some split: if_splits)
  have all: "set (add_all_new xs ys) = set xs \<union> set ys" for xs ys
    unfolding add_all_new_def by (induction xs arbitrary: ys) (auto simp: add_new_def)
  have "undenied child' t (executed ps r)"
    using check_allow [OF assms(3,4)] assms(1,5,6)
    by (simp add: forced_def apply_inherited_state_def)
  moreover have "rule \<in> set (deny_rules child')"
    using assms(1,2) by (simp add: apply_inherited_state_def get_inheritable_state_def all)
  ultimately show ?thesis using none by (simp add: undenied_def)
qed

section \<open>Histories of checks\<close>

datatype check_call = Check time tool params string bool string

fun check_result ::
  "(string \<Rightarrow> string) \<Rightarrow> pipeline \<Rightarrow> check_call \<Rightarrow> (permission_result \<times> pipeline) option" where
  "check_result sha p (Check now t ps th override why) = check sha now t ps th override why p"

definition check_step :: "(string \<Rightarrow> string) \<Rightarrow> pipeline \<Rightarrow> check_call \<Rightarrow> pipeline" where
  "check_step sha p c = (case check_result sha p c of None \<Rightarrow> p | Some (r, p') \<Rightarrow> p')"

lemma finish_total:
  "finish now r t ps p = Some (r', p') \<Longrightarrow>
   total_denials p' = total_denials p + (if decision r' = P_ALLOW then 0 else 1)"
  by (auto simp: finish_def apply_tool_check_def bind_Some count_decision_def record_stats_def Let_def)

lemma limit_denies:
  assumes "total_denials p \<ge> 20" "check sha now t ps th override why p = Some (r, p')"
  shows "decision r = P_DENY \<and> total_denials p' \<ge> 20"
proof -
  have "decision r \<noteq> P_ALLOW" using check_allow [OF assms(2)] assms(1) by auto
  moreover have "total_denials p' \<ge> total_denials p"
  proof (cases "layer1_validate t ps")
    case (Some x)
    then show ?thesis using assms(2) by (auto simp: check_def record_stats_def)
  next
    case None
    show ?thesis
      using assms None finish_total
      by (auto simp: check_def check_policy_def Let_def split: if_splits option.splits)
  qed
  ultimately show ?thesis using assms(1) by (cases "decision r") auto
qed

interpretation denial_limit: op_latch "check_step sha" "\<lambda>p :: pipeline. total_denials p \<ge> 20" for sha
proof unfold_locales
  fix p :: pipeline and c
  assume "total_denials p \<ge> 20"
  then show "total_denials (check_step sha p c) \<ge> 20"
    by (cases c) (auto simp: check_step_def split: option.splits dest: limit_denies)
qed

text \<open>
  The denial limit ends the session: once twenty denials have been counted, every later check
  of any tool denies, after any history of further checks, whatever the mode, the rules, the
  hooks and the user say.
\<close>

theorem denial_limit_is_final:
  assumes "total_denials p \<ge> 20"
    and "check sha now t ps th override why (foldl (check_step sha) p cs) = Some (r, p')"
  shows "decision r = P_DENY"
  using limit_denies [OF denial_limit.latch_inv.run_inv [OF assms(1)] assms(2)] by blast

text \<open>
  Without anybody to ask the pipeline fails closed: in the default mode, with no callback, no
  automatic approval, no approved prompt, no trust and no static allow rule that matches, a call
  is denied. Rules of the session, the ones "always allow" adds, make no difference: layer 5 reads
  the static allow rules only.
\<close>

theorem headless_fails_closed:
  assumes "check sha now t ps th override why p = Some (r, p')"
    and "permission_mode p = []" and "dispatcher p = None" and "confirm_callback p = None"
    and "web_confirm_callback p = None" and "\<not> auto_approval p" and "approved_prompts p = []"
    and "trust_acc p = None" and "first_match (allow_rules p) (tool_name t) ps = Some None"
  shows "decision r = P_DENY"
proof -
  have mode: "decision x = P_DENY"
    if "check_mode sha now t ps [] ps th f y tr p = Some (x, q)" for f y tr x q
  proof -
    have l4: "layer4_permission_mode p t ps f = Some None"
      by (simp add: layer4_permission_mode_def assms(2))
    have a: "(if tr = Some ASK then Some None else first_match (allow_rules p) (tool_name t) ps)
        = Some None"
      using assms(9) by simp
    have m: "match_approved_prompt p (tool_name t) ps = None"
      by (simp add: match_approved_prompt_def assms(7))
    have "check_mode sha now t ps [] ps th f y tr p = check_interactive sha now t ps [] ps th f y p"
      unfolding check_mode_def l4 m a by simp
    then have "check_interactive sha now t ps [] ps th f y p = Some (x, q)" using that by simp
    then have "finish now (result_of P_DENY INTERACTIVE
        ''interactive approval unavailable in headless mode'') t ps p = Some (x, q)"
      by (simp add: check_interactive_def layer6_callback_def assms(3-6,8) result_of_def
          record_trust_feedback_def)
    from finish_deny [OF this] show ?thesis by (simp add: result_of_def)
  qed
  have "decision r \<noteq> P_ALLOW"
  proof
    assume allow: "decision r = P_ALLOW"
    have l1: "layer1_validate t ps = None"
      using assms(1) allow by (auto simp: check_def layer1_validate_def result_of_def
          split: option.splits if_splits)
    have lim: "total_denials p < 20" using check_allow [OF assms(1) allow] by blast
    have pol: "check_policy sha now t ps [] ps th override why p = Some (r, p')"
      using assms(1) l1 by (simp add: check_def layer2_hooks_def assms(3))
    show False
    proof (cases "needs_interaction t \<or> override")
      case True
      then show False using pol lim mode allow by (auto simp: check_policy_def)
    next
      case False
      then obtain tr matched where l3: "layer3_rules p (tool_name t) ps = Some (tr, matched)"
        using pol lim by (auto simp: check_policy_def bind_Some)
      have deny: "decision r = P_DENY" if "deny_by_rule now t ps p = Some (r, p')"
        using that by (auto simp: deny_by_rule_def Let_def dest: finish_deny)
      have trust: "try_trust_auto_allow sha now t ps p = Some (False, p)"
        by (simp add: try_trust_auto_allow_def assms(8))
      have "tr = Some DENY \<or> (\<exists>f y. check_mode sha now t ps [] ps th f y tr p = Some (r, p'))"
        using pol lim False l3 trust
        by (cases tr; cases "the tr") (auto simp: check_policy_def)
      moreover have "deny_by_rule now t ps p = Some (r, p')" if "tr = Some DENY"
        using pol lim False l3 that by (simp add: check_policy_def)
      ultimately show False using deny mode allow by auto
    qed
  qed
  then show ?thesis by (cases "decision r") auto
qed

section \<open>Orderings that let a call through\<close>

lemma finish_allows:
  assumes "decision r = P_ALLOW" "layer5_check p t ps = Some None"
  shows "\<exists>p'. finish now r t ps p = Some (r, p')"
proof -
  have "layer5_check (record_stats r p) t ps = Some None"
    using assms(2) layer5_cong [of "record_stats r p" p] by (simp add: record_stats_def)
  then show ?thesis using assms(1) by (simp add: finish_def apply_tool_check_def)
qed

lemma check_without_hooks:
  assumes "layer1_validate t ps = None" "dispatcher p = None" "total_denials p < 20"
  shows "check sha now t ps th override why p = check_policy sha now t ps [] ps th override why p"
  using assms by (simp add: check_def layer2_hooks_def)

text \<open>
  A tool that requires user interaction is checked against no deny and no ask rule, and an
  allow rule that matches approves it in the default mode without any interaction, although the
  code calls such tools bypass-immune: the branch that forces the interaction skips layer 3, and
  layer 5 only looks at the tier of an ask rule.
\<close>

theorem interaction_tool_skips_deny_rules:
  assumes "needs_interaction t" and "layer1_validate t ps = None" and "dispatcher p = None"
    and "total_denials p < 20" and "permission_mode p = []" and "approved_prompts p = []"
    and "first_match (allow_rules p) (tool_name t) ps = Some (Some rule)"
    and "layer5_check p t ps = Some None"
  shows "\<exists>r p'. check sha now t ps th override why p = Some (r, p') \<and> decision r = P_ALLOW"
proof -
  let ?r = "(allow_rule_layer (''allowed by rule: '' @ raw rule))\<lparr>updated_params := []\<rparr>"
  have l4: "layer4_permission_mode p t ps True = Some None"
    by (simp add: layer4_permission_mode_def assms(5))
  have m: "match_approved_prompt p (tool_name t) ps = None"
    by (simp add: match_approved_prompt_def assms(6))
  have "check_mode sha now t ps [] ps th True y None p = finish now ?r t ps p" for y
    unfolding check_mode_def l4 m using assms(7) by simp
  then have "check sha now t ps th override why p = finish now ?r t ps p"
    using assms(1-4) by (simp add: check_without_hooks check_policy_def)
  moreover have "decision ?r = P_ALLOW" by (simp add: allow_rule_layer_def result_of_def)
  ultimately show ?thesis using finish_allows [of ?r p t ps now] assms(8) by auto
qed

text \<open>
  Trust overrides plan mode: a call that an ask rule matches and whose key is trusted is
  approved in plan mode (and in \<open>dontAsk\<close>) even when the tool is not read-only, as long as its risk
  is neither high nor medium: the trust branch returns before layer 4.
\<close>

theorem trust_overrides_plan_mode:
  assumes "\<not> needs_interaction t" and "layer1_validate t ps = None" and "dispatcher p = None"
    and "total_denials p < 20" and "first_match (deny_rules p) (tool_name t) ps = Some None"
    and "first_match (ask_rules p) (tool_name t) ps = Some (Some rule)"
    and "trust_acc p = Some tr" and "compute_trust_key sha (tool_name t) ps = Some key"
    and "fst (is_trusted key now tr)" and "risk_of t ps = ''low''"
    and "layer5_check p t ps = Some None"
  shows "\<exists>r p'. check sha now t ps th False why (p\<lparr>permission_mode := ''plan''\<rparr>) = Some (r, p')
    \<and> decision r = P_ALLOW"
proof -
  let ?p = "p\<lparr>permission_mode := ''plan''\<rparr>"
  let ?r = "(allow_rule_layer (''trusted low-risk tool auto-approved (risk='' @ risk_of t ps @ '')''))
    \<lparr>feedback := ''TRUST_AUTO_ALLOW''\<rparr>"
  obtain q where q: "try_trust_auto_allow sha now t ps ?p = Some (True, q)"
    using assms(7-10) by (simp add: try_trust_auto_allow_def case_prod_beta)
  have l3: "layer3_rules ?p (tool_name t) ps = Some (Some ASK, Some (raw rule))"
    using assms(5,6) by (simp add: layer3_rules_def)
  have "check sha now t ps th False why ?p = finish now ?r t ps q"
    using assms(1-4) l3 q by (simp add: check_without_hooks check_policy_def)
  moreover have "layer5_check q t ps = Some None"
    using try_trust_policy [OF q] assms(11) layer5_cong [of q p] by simp
  moreover have "decision ?r = P_ALLOW" by (simp add: allow_rule_layer_def result_of_def)
  ultimately show ?thesis using finish_allows [of ?r q t ps now] by auto
qed

lemma words_from_spaces: "list_all is_space s \<Longrightarrow> words_from w s = (if w = [] then [] else [rev w])"
  by (induction s arbitrary: w) auto

lemma words_from_trailing: "list_all is_space t \<Longrightarrow> words_from w (s @ t) = words_from w s"
  by (induction s arbitrary: w) (auto simp: words_from_spaces)

lemma words_from_leading: "words_from [] (dropWhile is_space s) = words_from [] s"
  by (induction s) auto

lemma str_words_strip: "str_words (str_strip s) = str_words s"
proof -
  let ?a = "dropWhile is_space s"
  let ?t = "rev (takeWhile is_space (rev ?a))"
  have "str_strip s @ ?t = ?a"
    unfolding str_strip_def by (metis rev_append rev_rev_ident takeWhile_dropWhile_id)
  moreover have "list_all is_space ?t" by (auto simp: list_all_iff dest: set_takeWhileD)
  ultimately have "str_words (str_strip s) = words_from [] ?a"
    unfolding str_words_def by (metis words_from_trailing)
  then show ?thesis by (simp add: words_from_leading str_words_def)
qed

text \<open>
  In \<open>acceptEdits\<close> mode only the first word of a shell command is judged: any Bash command that
  starts with \<open>rm\<close> and a space, whatever it removes and whatever is chained after it, is approved
  without interaction, provided the tool's own blacklist and the rules let it pass; the list of
  removals of the root, which \<open>bypassPermissions\<close> honours, is not consulted.
\<close>

theorem accept_edits_approves_any_rm:
  assumes "tool_name t = ''Bash''" and "\<not> needs_interaction t" and "permission_mode p = ''acceptEdits''"
    and "ps = [(''command'', PStr (''rm '' @ rest))]" and "layer1_validate t ps = None"
    and "dispatcher p = None" and "total_denials p < 20"
    and "first_match (deny_rules p) ''Bash'' ps = Some None"
    and "first_match (ask_rules p) ''Bash'' ps = Some None"
    and "first_match (session_rules p) ''Bash'' ps = Some s"
    and "first_match (allow_rules p) ''Bash'' ps = Some a" and "layer5_check p t ps = Some None"
  shows "\<exists>r p'. check sha now t ps th False why p = Some (r, p') \<and> decision r = P_ALLOW"
proof -
  have "str_words (bash_command ps) = ''rm'' # words_from [] rest"
    by (simp add: bash_command_def assms(4) get_param_def str_words_strip)
      (simp add: str_words_def is_space_def)
  then have l4: "layer4_permission_mode p t ps False
      = Some (Some (allow_rule_layer (''acceptEdits: '' @ ''rm'' @ '' auto-approved'')))"
    using assms(1,3,4)
    by (simp add: layer4_permission_mode_def filesystem_safe_commands_def)
  let ?r = "(allow_rule_layer (''acceptEdits: '' @ ''rm'' @ '' auto-approved''))\<lparr>updated_params := []\<rparr>"
  have ok: "decision ?r = P_ALLOW" by (simp add: allow_rule_layer_def result_of_def)
  have "check_mode sha now t ps [] ps th False y tr p = finish now ?r t ps p" for y tr
    unfolding check_mode_def l4 by (simp add: allow_rule_layer_def result_of_def)
  moreover have "\<exists>tr m. layer3_rules p (tool_name t) ps = Some (tr, m) \<and> tr \<notin> {Some DENY, Some ASK}"
    using assms(1,8-11) by (auto simp: layer3_rules_def split: option.splits)
  ultimately have "check sha now t ps th False why p = finish now ?r t ps p"
    using assms(2,5-7)
    by (auto simp: check_without_hooks check_policy_def split: option.splits tier.splits)
  then show ?thesis using finish_allows [OF ok assms(12)] ok by metis
qed

section \<open>Witnesses\<close>

definition sample_tool :: "string \<Rightarrow> bool \<Rightarrow> tool" where
  "sample_tool n ro =
     \<lparr>tool_name = n, denial_reason = (\<lambda>ps. []), read_only = (\<lambda>ps. ro), classify_risk = (\<lambda>ps. Some ''low''),
      risk_level = ''low'', needs_interaction = False, writes_path = \<not> ro, path_parameter = ''path'',
      tool_permissions = []\<rparr>"

definition sample_rule :: "tier \<Rightarrow> string \<Rightarrow> permission_rule" where
  "sample_rule tr n = \<lparr>raw = n, rule_tool = n, pattern = None, rule_tier = tr, source = ''user''\<rparr>"

definition sample_pipeline :: pipeline where
  "sample_pipeline =
     \<lparr>deny_rules = [sample_rule DENY ''bash''], ask_rules = [], allow_rules = [sample_rule ALLOW ''write'',
        sample_rule ALLOW ''read''],
      session_rules = [], dispatcher = None, confirm_callback = None, web_confirm_callback = None,
      auto_approval = False, has_settings = False, project_root = ''/repo'', work_dir = ''/repo'',
      pl_breaker = None, requesting_agent = [], pl_session_id = [], permission_mode = [],
      pre_plan_mode = [], denial_counters = [], total_denials = 0, terminate_session = False,
      approved_prompts = [], write_allowed = True, trust_acc = None, stats = empty_stats,
      saved_rules = []\<rparr>"

definition write_call :: params where
  "write_call = [(''path'', PStr ''src/a.py'')]"

definition write_result :: permission_result where
  "write_result = (allow_rule_layer (''allowed by rule: '' @ ''write''))\<lparr>updated_params := []\<rparr>"

lemma lower_names: "str_lower ''Write'' = ''write''" "str_lower ''Read'' = ''read''"
  by code_simp+

lemma write_unprotected: "layer1_validate (sample_tool ''Write'' False) write_call = None"
  by code_simp

lemma write_inside: "layer5_check sample_pipeline (sample_tool ''Write'' False) write_call = Some None"
  by code_simp

lemma write_matches:
  "first_match (deny_rules sample_pipeline) ''Write'' write_call = Some None"
  "first_match (ask_rules sample_pipeline) ''Write'' write_call = Some None"
  "first_match (session_rules sample_pipeline) ''Write'' write_call = Some None"
  "first_match (allow_rules sample_pipeline) ''Write'' write_call = Some (Some (sample_rule ALLOW ''write''))"
  by code_simp+

lemma rule_allows:
  assumes "layer1_validate t ps = None" "dispatcher p = None" "total_denials p < 20"
    "\<not> needs_interaction t" "layer3_rules p (tool_name t) ps = Some (Some ALLOW, m)"
    "layer4_permission_mode p t ps False = Some None" "approved_prompts p = []"
    "first_match (allow_rules p) (tool_name t) ps = Some (Some rule)" "layer5_check p t ps = Some None"
  shows "\<exists>p'. check sha now t ps th False why p
    = Some ((allow_rule_layer (''allowed by rule: '' @ raw rule))\<lparr>updated_params := []\<rparr>, p')"
proof -
  let ?r = "(allow_rule_layer (''allowed by rule: '' @ raw rule))\<lparr>updated_params := []\<rparr>"
  have pr: "match_approved_prompt p n ps = None" for n
    by (simp add: match_approved_prompt_def assms(7))
  have "check_mode sha now t ps [] ps th False [] (Some ALLOW) p = finish now ?r t ps p"
    unfolding check_mode_def assms(6) pr using assms(8) by simp
  then have "check sha now t ps th False why p = finish now ?r t ps p"
    using assms(1-5) by (simp add: check_without_hooks check_policy_def)
  moreover have "decision ?r = P_ALLOW" by (simp add: allow_rule_layer_def result_of_def)
  ultimately show ?thesis using finish_allows [of ?r p t ps now] assms(9) by simp
qed

lemma sample_fields [simp]:
  "dispatcher sample_pipeline = None" "total_denials sample_pipeline = 0"
  "approved_prompts sample_pipeline = []" "trust_acc sample_pipeline = None"
  "permission_mode sample_pipeline = []" "confirm_callback sample_pipeline = None"
  "web_confirm_callback sample_pipeline = None" "\<not> auto_approval sample_pipeline"
  "tool_name (sample_tool n ro) = n" "\<not> needs_interaction (sample_tool n ro)"
  by (simp_all add: sample_pipeline_def sample_tool_def)

lemma write_check:
  "\<exists>p'. check id 0 (sample_tool ''Write'' False) write_call [] False [] sample_pipeline
     = Some (write_result, p')"
proof -
  have l3: "layer3_rules sample_pipeline ''Write'' write_call = Some (Some ALLOW, Some ''write'')"
    by (simp add: layer3_rules_def write_matches) (simp add: sample_rule_def)
  have "raw (sample_rule ALLOW ''write'') = ''write''" by (simp add: sample_rule_def)
  then show ?thesis
    using rule_allows [of "sample_tool ''Write'' False" write_call sample_pipeline "Some ''write''"
        "sample_rule ALLOW ''write''" id 0 "[]" "[]"] write_unprotected write_inside write_matches l3
    by (simp add: write_result_def layer4_permission_mode_def)
qed

definition plan_pipeline :: pipeline where
  "plan_pipeline = sample_pipeline\<lparr>permission_mode := ''plan''\<rparr>"

lemma read_facts:
  "layer1_validate (sample_tool ''Read'' True) write_call = None"
  "layer5_check plan_pipeline (sample_tool ''Read'' True) write_call = Some None"
  "layer3_rules plan_pipeline ''Read'' write_call = Some (Some ALLOW, Some ''read'')"
  "layer4_permission_mode plan_pipeline (sample_tool ''Read'' True) write_call False = Some None"
  "first_match (allow_rules plan_pipeline) ''Read'' write_call = Some (Some (sample_rule ALLOW ''read''))"
  by code_simp+

lemma plan_mode_only_reads_witness: "read_only (sample_tool ''Read'' True) write_call"
proof -
  let ?t = "sample_tool ''Read'' True"
  obtain p' where c: "check id 0 ?t write_call [] False [] plan_pipeline
      = Some ((allow_rule_layer (''allowed by rule: '' @ raw (sample_rule ALLOW ''read'')))
          \<lparr>updated_params := []\<rparr>, p')"
    using rule_allows [of ?t write_call plan_pipeline "Some ''read''" "sample_rule ALLOW ''read''" id 0
        "[]" "[]"] read_facts
    by (auto simp: plan_pipeline_def)
  from plan_mode_only_reads [OF c] show ?thesis
    by (simp add: plan_pipeline_def allow_rule_layer_def result_of_def executed_def)
qed

lemma write_executed: "executed write_call write_result = write_call"
  by (simp add: executed_def write_result_def)

lemma write_allowed_result: "decision write_result = P_ALLOW"
  by (simp add: write_result_def allow_rule_layer_def result_of_def)

lemma approved_call_is_validated_witness:
  "is_protected_path ''Write'' write_call = None"
proof -
  obtain p' where "check id 0 (sample_tool ''Write'' False) write_call [] False [] sample_pipeline
     = Some (write_result, p')"
    using write_check by blast
  from approved_call_is_validated [OF this write_allowed_result] show ?thesis
    by (simp add: write_executed sample_tool_def)
qed

lemma deny_rules_are_absolute_witness:
  "rule_matches (sample_rule DENY ''bash'') ''Write'' write_call = Some False"
proof -
  obtain p' where "check id 0 (sample_tool ''Write'' False) write_call [] False [] sample_pipeline
     = Some (write_result, p')"
    using write_check by blast
  from deny_rules_are_absolute [OF this write_allowed_result, of "sample_rule DENY ''bash''"]
  show ?thesis by (simp add: write_executed sample_tool_def sample_pipeline_def)
qed

lemma sandbox_confines_writes_witness:
  "let base = abspath (work_dir sample_pipeline) (project_root sample_pipeline);
       target = (if is_abs ''src/a.py'' then ''src/a.py'' else join_path base ''src/a.py'');
       full = (if is_abs target then target else join_path (work_dir sample_pipeline) target)
   in inside base (normpath full) \<and> dotdot \<notin> set (norm_components full)"
proof -
  obtain p' where "check id 0 (sample_tool ''Write'' False) write_call [] False [] sample_pipeline
     = Some (write_result, p')"
    using write_check by blast
  then show ?thesis
    by (rule sandbox_confines_writes [OF _ write_allowed_result])
      (simp_all add: write_executed sample_tool_def sample_pipeline_def
        is_abs_def starts_with_def slash_def, simp add: write_call_def get_param_def)
qed

lemma child_is_sample:
  "apply_inherited_state (get_inheritable_state sample_pipeline) [] sample_pipeline = sample_pipeline"
  by (simp add: apply_inherited_state_def get_inheritable_state_def sample_pipeline_def
      add_all_new_def add_new_def)

lemma child_inherits_denials_witness:
  "rule_matches (sample_rule DENY ''bash'') ''Write'' write_call = Some False"
proof -
  obtain p' where "check id 0 (sample_tool ''Write'' False) write_call [] False [] sample_pipeline
     = Some (write_result, p')"
    using write_check by blast
  from child_inherits_denials [OF child_is_sample [symmetric] _ this write_allowed_result,
      of "sample_rule DENY ''bash''"]
  show ?thesis by (simp add: write_executed) (simp add: sample_pipeline_def)
qed

definition limit_pipeline :: pipeline where
  "limit_pipeline = sample_pipeline\<lparr>total_denials := 20\<rparr>"

lemma limit_check:
  assumes "layer1_validate t ps = None" "dispatcher p = None" "total_denials p \<ge> 20"
  shows "\<exists>r p'. check sha now t ps th override why p = Some (r, p') \<and> dispatcher p' = None"
  using assms
  by (simp add: check_def layer2_hooks_def check_policy_def finish_def apply_tool_check_def
      deny_rule_layer_def result_of_def count_decision_def record_stats_def Let_def)

lemma denial_limit_is_final_witness:
  "\<exists>r p'. check id 5 (sample_tool ''Write'' False) write_call [] False []
      (foldl (check_step id) limit_pipeline
        [Check 4 (sample_tool ''Write'' False) write_call [] False []]) = Some (r, p')
    \<and> decision r = P_DENY"
proof -
  let ?t = "sample_tool ''Write'' False"
  let ?p = "foldl (check_step id) limit_pipeline [Check 4 ?t write_call [] False []]"
  have l: "total_denials limit_pipeline \<ge> 20" "dispatcher limit_pipeline = None"
    by (simp_all add: limit_pipeline_def)
  have t: "total_denials ?p \<ge> 20" by (rule denial_limit.latch_inv.run_inv [OF l(1)])
  have "dispatcher ?p = None"
    using limit_check [OF write_unprotected l(2,1), of id 4 "[]" False "[]"]
    by (auto simp: check_step_def)
  from limit_check [OF write_unprotected this t, of id 5 "[]" False "[]"]
  obtain r p' where c: "check id 5 ?t write_call [] False [] ?p = Some (r, p')" by blast
  have "decision r = P_DENY" by (rule denial_limit_is_final [OF l(1) c])
  with c show ?thesis by blast
qed

text \<open>A session rule for the very call, and still a denial.\<close>

definition always_allowed_pipeline :: pipeline where
  "always_allowed_pipeline = sample_pipeline\<lparr>allow_rules := [], session_rules := [sample_rule ALLOW ''write'']\<rparr>"

lemma headless_fails_closed_witness:
  "\<exists>r p'. check id 0 (sample_tool ''Write'' False) write_call [] False [] always_allowed_pipeline
     = Some (r, p') \<and> decision r = P_DENY"
proof -
  let ?t = "sample_tool ''Write'' False" and ?p = always_allowed_pipeline
  have l3: "layer3_rules ?p ''Write'' write_call = Some (Some ALLOW, Some ''write'')" by code_simp
  have l4: "layer4_permission_mode ?p ?t write_call False = Some None"
    by (simp add: layer4_permission_mode_def always_allowed_pipeline_def)
  have m: "match_approved_prompt ?p n write_call = None" for n
    by (simp add: match_approved_prompt_def always_allowed_pipeline_def)
  have a: "first_match (allow_rules ?p) n write_call = Some None" for n
    by (simp add: always_allowed_pipeline_def)
  have "\<exists>r p'. check_mode id 0 ?t write_call [] write_call [] False [] (Some ALLOW) ?p = Some (r, p')"
    unfolding check_mode_def l4 m using a
    by (auto simp: check_interactive_def layer6_callback_def always_allowed_pipeline_def
        record_trust_feedback_def result_of_def finish_def apply_tool_check_def Let_def)
  then obtain r p' where c: "check id 0 ?t write_call [] False [] ?p = Some (r, p')"
    using l3 by (auto simp: check_without_hooks write_unprotected check_policy_def
        always_allowed_pipeline_def)
  have "decision r = P_DENY"
    by (rule headless_fails_closed [OF c]) (simp_all add: always_allowed_pipeline_def)
  with c show ?thesis by blast
qed

lemma interaction_tool_skips_deny_rules_witness:
  "\<exists>r p'. check id 0 ((sample_tool ''Write'' False)\<lparr>needs_interaction := True\<rparr>) write_call [] False []
      (sample_pipeline\<lparr>deny_rules := [sample_rule DENY ''write'']\<rparr>) = Some (r, p')
    \<and> decision r = P_ALLOW"
proof (rule interaction_tool_skips_deny_rules)
  show "layer1_validate ((sample_tool ''Write'' False)\<lparr>needs_interaction := True\<rparr>) write_call = None"
    by code_simp
  show "layer5_check (sample_pipeline\<lparr>deny_rules := [sample_rule DENY ''write'']\<rparr>)
      ((sample_tool ''Write'' False)\<lparr>needs_interaction := True\<rparr>) write_call = Some None"
    by code_simp
  show "first_match (allow_rules (sample_pipeline\<lparr>deny_rules := [sample_rule DENY ''write'']\<rparr>))
      (tool_name ((sample_tool ''Write'' False)\<lparr>needs_interaction := True\<rparr>)) write_call
      = Some (Some (sample_rule ALLOW ''write''))"
    by code_simp
qed simp_all

definition trusting_pipeline :: pipeline where
  "trusting_pipeline = sample_pipeline
     \<lparr>ask_rules := [sample_rule ASK ''write''],
      trust_acc := Some (default_trust\<lparr>approved := [((''Write'', ''src/a.py'', ''src/a.py|Write''), (2, 0))]\<rparr>)\<rparr>"

lemma trust_overrides_plan_mode_witness:
  "\<exists>r p'. check id 1 (sample_tool ''Write'' False) write_call [] False []
      (trusting_pipeline\<lparr>permission_mode := ''plan''\<rparr>) = Some (r, p') \<and> decision r = P_ALLOW"
proof (rule trust_overrides_plan_mode)
  let ?t = "sample_tool ''Write'' False"
  show "layer1_validate ?t write_call = None" by (rule write_unprotected)
  show "first_match (deny_rules trusting_pipeline) (tool_name ?t) write_call = Some None" by code_simp
  show "first_match (ask_rules trusting_pipeline) (tool_name ?t) write_call
      = Some (Some (sample_rule ASK ''write''))"
    by code_simp
  show "trust_acc trusting_pipeline
      = Some (default_trust\<lparr>approved := [((''Write'', ''src/a.py'', ''src/a.py|Write''), (2, 0))]\<rparr>)"
    by (simp add: trusting_pipeline_def)
  show "compute_trust_key id (tool_name ?t) write_call
      = Some (''Write'', ''src/a.py'', ''src/a.py|Write'')"
    by code_simp
  show "fst (is_trusted (''Write'', ''src/a.py'', ''src/a.py|Write'') 1
      (default_trust\<lparr>approved := [((''Write'', ''src/a.py'', ''src/a.py|Write''), (2, 0))]\<rparr>))"
    by (simp add: is_trusted_def default_trust_def new_trust_def decayed_def)
  show "risk_of ?t write_call = ''low''" by (simp add: risk_of_def sample_tool_def)
  show "layer5_check trusting_pipeline ?t write_call = Some None" by code_simp
qed (simp_all add: trusting_pipeline_def)

lemma accept_edits_approves_any_rm_witness:
  "\<exists>r p'. check id 0 (sample_tool ''Bash'' True) [(''command'', PStr (''rm '' @ ''-rf / ; make''))] [] False []
      (sample_pipeline\<lparr>permission_mode := ''acceptEdits'', deny_rules := []\<rparr>) = Some (r, p')
    \<and> decision r = P_ALLOW"
proof (rule accept_edits_approves_any_rm)
  let ?ps = "[(''command'', PStr (''rm '' @ ''-rf / ; make''))]"
  let ?p = "sample_pipeline\<lparr>permission_mode := ''acceptEdits'', deny_rules := []\<rparr>"
  show "layer1_validate (sample_tool ''Bash'' True) ?ps = None" by code_simp
  show "first_match (deny_rules ?p) ''Bash'' ?ps = Some None" by code_simp
  show "first_match (ask_rules ?p) ''Bash'' ?ps = Some None" by code_simp
  show "first_match (session_rules ?p) ''Bash'' ?ps = Some None" by code_simp
  show "first_match (allow_rules ?p) ''Bash'' ?ps = Some None" by code_simp
  show "layer5_check ?p (sample_tool ''Bash'' True) ?ps = Some None" by code_simp
qed simp_all

end
