(* ===== verification/Hook_Registry.thy ===== *)
theory Hook_Registry
  imports Grace_Prelude "HOL-Library.Product_Lexorder"
begin

text \<open>
  \<^verbatim>\<open>hook_core/events.py\<close>, \<^verbatim>\<open>policies.py\<close>, \<^verbatim>\<open>matcher.py\<close> and \<^verbatim>\<open>registry.py\<close>: the lifecycle events, the
  policy of each, the selectors of tools, and the registry whose snapshots the dispatcher reads.
  A handler is the type parameter \<open>'h\<close>. A regular expression of a selector is matched by the
  parameter \<open>fullmatch\<close>. The lemmas give the order of the hooks, their selection and which
  failing hooks block.
\<close>

section \<open>Events and policies\<close>

datatype hook_event =
    PRE_TOOL_USE | POST_TOOL_USE | POST_TOOL_USE_FAILURE | POST_TOOL_BATCH | PERMISSION_REQUEST
  | PERMISSION_DENIED | USER_PROMPT_SUBMIT | STOP | STOP_FAILURE | SESSION_START | SESSION_END
  | SUBAGENT_START | SUBAGENT_STOP | PRE_COMPACT | POST_COMPACT | NOTIFICATION

definition event_names :: "(string \<times> hook_event) list" where
  "event_names =
     [(''PreToolUse'', PRE_TOOL_USE), (''PostToolUse'', POST_TOOL_USE),
      (''PostToolUseFailure'', POST_TOOL_USE_FAILURE), (''PostToolBatch'', POST_TOOL_BATCH),
      (''PermissionRequest'', PERMISSION_REQUEST), (''PermissionDenied'', PERMISSION_DENIED),
      (''UserPromptSubmit'', USER_PROMPT_SUBMIT), (''Stop'', STOP), (''StopFailure'', STOP_FAILURE),
      (''SessionStart'', SESSION_START), (''SessionEnd'', SESSION_END),
      (''SubagentStart'', SUBAGENT_START), (''SubagentStop'', SUBAGENT_STOP),
      (''PreCompact'', PRE_COMPACT), (''PostCompact'', POST_COMPACT), (''Notification'', NOTIFICATION)]"

definition blockable_events :: "hook_event list" where
  "blockable_events =
     [PRE_TOOL_USE, PERMISSION_REQUEST, USER_PROMPT_SUBMIT, STOP, SUBAGENT_STOP, PRE_COMPACT,
      POST_TOOL_BATCH]"

datatype scheduling = AWAITED | BACKGROUND
datatype decision_authority = DA_BLOCKABLE | DA_OBSERVE
datatype data_authority = TRANSFORM | DATA_OBSERVE
datatype failure_policy = FAIL_CLOSED | FAIL_OPEN | FAIL_TURN | EVENT_DEFAULT

record hook_policy =
  scheduling :: scheduling
  decision_authority :: decision_authority
  data_authority :: data_authority
  failure_policy :: failure_policy
  timeout_s :: time

definition observing :: hook_policy where
  "observing = \<lparr>scheduling = AWAITED, decision_authority = DA_OBSERVE,
     data_authority = DATA_OBSERVE, failure_policy = FAIL_OPEN, timeout_s = 30\<rparr>"

definition blocking :: hook_policy where
  "blocking = observing\<lparr>decision_authority := DA_BLOCKABLE\<rparr>"

fun policy_of :: "hook_event \<Rightarrow> hook_policy" where
  "policy_of PRE_TOOL_USE = blocking\<lparr>data_authority := TRANSFORM, failure_policy := FAIL_CLOSED\<rparr>"
| "policy_of POST_TOOL_USE = observing\<lparr>data_authority := TRANSFORM\<rparr>"
| "policy_of POST_TOOL_USE_FAILURE = observing"
| "policy_of POST_TOOL_BATCH = blocking"
| "policy_of PERMISSION_REQUEST = blocking"
| "policy_of PERMISSION_DENIED = observing"
| "policy_of USER_PROMPT_SUBMIT = blocking"
| "policy_of STOP = blocking\<lparr>timeout_s := 5\<rparr>"
| "policy_of STOP_FAILURE = observing"
| "policy_of SESSION_START = observing\<lparr>data_authority := TRANSFORM\<rparr>"
| "policy_of SESSION_END = observing"
| "policy_of SUBAGENT_START = observing"
| "policy_of SUBAGENT_STOP = blocking"
| "policy_of PRE_COMPACT = blocking"
| "policy_of POST_COMPACT = observing"
| "policy_of NOTIFICATION = observing"

datatype policy_error = NoPolicyDefined string

definition policy_for :: "string \<Rightarrow> policy_error + hook_policy" where
  "policy_for name =
     (case map_of event_names name of None \<Rightarrow> Inl (NoPolicyDefined name) | Some e \<Rightarrow> Inr (policy_of e))"

definition resolve_failure :: "failure_policy \<Rightarrow> bool \<Rightarrow> bool" where
  "resolve_failure fp is_blockable =
     (if fp = FAIL_CLOSED then True
      else if fp = EVENT_DEFAULT then is_blockable
      else if fp = FAIL_TURN then is_blockable
      else False)"

section \<open>Matchers\<close>

datatype pattern_kind = EXACT | PREFIX | REGEX | ALL_NAMES

record matcher_pattern =
  kind :: pattern_kind
  mp_value :: string

fun pattern_matches :: "(string \<Rightarrow> string \<Rightarrow> bool) \<Rightarrow> matcher_pattern \<Rightarrow> string \<Rightarrow> bool" where
  "pattern_matches fullmatch mp name =
     (case kind mp of
        ALL_NAMES \<Rightarrow> True
      | EXACT \<Rightarrow> name = mp_value mp
      | PREFIX \<Rightarrow> starts_with name (mp_value mp)
      | REGEX \<Rightarrow> fullmatch (mp_value mp) name)"

definition part_matches :: "string \<Rightarrow> string \<Rightarrow> bool" where
  "part_matches part name \<longleftrightarrow>
     (if part = [] then False
      else if ends_with part ''*'' then starts_with name (butlast part)
      else part = name)"

definition matcher_matches :: "string \<Rightarrow> string \<Rightarrow> bool" where
  "matcher_matches pat name \<longleftrightarrow>
     pat = [] \<or> pat = ''*''
     \<or> list_ex (\<lambda>part. part_matches (str_strip part) name) (split_on CHR ''|'' pat)"

datatype matcher_error =
    PatternMetacharacter string char
  | DangerousConstruct string string
  | InvalidRegex string

fun first_metachar :: "string \<Rightarrow> string \<Rightarrow> char option" where
  "first_metachar [] cand = None"
| "first_metachar (ch # chs) cand = (if ch \<in> set cand then Some ch else first_metachar chs cand)"

definition metachars :: string where
  "metachars = ''.^$+?{}[]()'' @ [CHR 0x5C]"

fun validate_parts :: "string list \<Rightarrow> matcher_error option" where
  "validate_parts [] = None"
| "validate_parts (p # ps) =
     (let part = str_strip p in
      if part = [] \<or> part = ''*'' then validate_parts ps
      else case first_metachar metachars (if ends_with part ''*'' then butlast part else part) of
        Some ch \<Rightarrow> Some (PatternMetacharacter part ch)
      | None \<Rightarrow> validate_parts ps)"

definition validate_pipe_pattern :: "string \<Rightarrow> matcher_error option" where
  "validate_pipe_pattern pat =
     (if pat = [] \<or> pat = ''*'' then None else validate_parts (split_on CHR ''|'' pat))"

definition dangerous_constructs :: "string list" where
  "dangerous_constructs = [''(.+)+'', ''(.+)*'', ''(.*)+'', ''(.*)*'', ''(.+){'', ''(.*){'']"

definition validate_regex_safety :: "string \<Rightarrow> matcher_error option" where
  "validate_regex_safety pat =
     (case filter (contains_str pat) dangerous_constructs of
        [] \<Rightarrow> None | d # ds \<Rightarrow> Some (DangerousConstruct pat d))"

record hook_selector =
  matchers :: "string list"
  regex_matchers :: "matcher_pattern list"

definition all_tools :: hook_selector where
  "all_tools = \<lparr>matchers = [], regex_matchers = []\<rparr>"

fun check_patterns :: "string list \<Rightarrow> matcher_error option" where
  "check_patterns [] = None"
| "check_patterns (p # ps) =
     (case validate_pipe_pattern p of Some e \<Rightarrow> Some e | None \<Rightarrow> check_patterns ps)"

definition selector_matching :: "string list \<Rightarrow> matcher_error + hook_selector" where
  "selector_matching pats =
     (case check_patterns pats of
        Some e \<Rightarrow> Inl e | None \<Rightarrow> Inr \<lparr>matchers = pats, regex_matchers = []\<rparr>)"

fun selector_regex_loop :: "(string \<Rightarrow> bool) \<Rightarrow> string list \<Rightarrow> matcher_error + matcher_pattern list" where
  "selector_regex_loop compiles [] = Inr []"
| "selector_regex_loop compiles (p # ps) =
     (case validate_regex_safety p of
        Some e \<Rightarrow> Inl e
      | None \<Rightarrow>
          if \<not> compiles p then Inl (InvalidRegex p)
          else case selector_regex_loop compiles ps of
            Inl e \<Rightarrow> Inl e | Inr ms \<Rightarrow> Inr (\<lparr>kind = REGEX, mp_value = p\<rparr> # ms))"

definition selector_regex :: "(string \<Rightarrow> bool) \<Rightarrow> string list \<Rightarrow> matcher_error + hook_selector" where
  "selector_regex compiles pats =
     (case selector_regex_loop compiles pats of
        Inl e \<Rightarrow> Inl e | Inr ms \<Rightarrow> Inr \<lparr>matchers = [], regex_matchers = ms\<rparr>)"

definition selects :: "(string \<Rightarrow> string \<Rightarrow> bool) \<Rightarrow> hook_selector \<Rightarrow> string \<Rightarrow> bool" where
  "selects fullmatch s name \<longleftrightarrow>
     (matchers s = [] \<and> regex_matchers s = [])
     \<or> list_ex (\<lambda>m. matcher_matches m name) (matchers s)
     \<or> list_ex (\<lambda>r. pattern_matches fullmatch r name) (regex_matchers s)"

section \<open>The registry\<close>

datatype decision_class =
    PreToolUseDecision | PostToolUseDecision | PostToolUseFailureDecision | ObserveDecision
  | UserPromptSubmitDecision | StopDecision | SessionStartDecision | PreCompactDecision
  | PermissionRequestDecision

definition event_decision_map :: "(string \<times> decision_class) list" where
  "event_decision_map =
     [(''PreToolUse'', PreToolUseDecision), (''PostToolUse'', PostToolUseDecision),
      (''PostToolUseFailure'', PostToolUseFailureDecision), (''PostToolBatch'', ObserveDecision),
      (''UserPromptSubmit'', UserPromptSubmitDecision), (''Stop'', StopDecision),
      (''StopFailure'', ObserveDecision), (''SessionStart'', SessionStartDecision),
      (''SessionEnd'', ObserveDecision), (''SubagentStart'', ObserveDecision),
      (''SubagentStop'', ObserveDecision), (''PreCompact'', PreCompactDecision),
      (''PostCompact'', ObserveDecision), (''PermissionRequest'', PermissionRequestDecision),
      (''PermissionDenied'', ObserveDecision), (''Notification'', ObserveDecision)]"

record 'h registration =
  reg_name :: string
  reg_event :: string
  handler :: 'h
  selector :: hook_selector
  priority :: int
  allowed_decision_class :: decision_class
  sequence :: nat

record 'h hook_registry =
  hooks :: "(string, 'h registration) dict"
  revision :: nat
  last_sequence :: nat

definition empty_registry :: "'h hook_registry" where
  "empty_registry = \<lparr>hooks = [], revision = 0, last_sequence = 0\<rparr>"

datatype registry_error =
    InvalidEventType string
  | HookAlreadyRegistered string string
  | HookNotFound string

definition register_hook ::
  "string \<Rightarrow> string \<Rightarrow> 'h \<Rightarrow> hook_selector option \<Rightarrow> int \<Rightarrow> 'h hook_registry
     \<Rightarrow> registry_error + 'h hook_registry" where
  "register_hook name ev h sel prio reg =
     (case map_of event_decision_map ev of
        None \<Rightarrow> Inl (InvalidEventType ev)
      | Some cls \<Rightarrow> (case dict_get (hooks reg) name of
        Some old \<Rightarrow> Inl (HookAlreadyRegistered name (reg_event old))
      | None \<Rightarrow>
          let r = \<lparr>reg_name = name, reg_event = ev, handler = h,
                   selector = (case sel of
                       None \<Rightarrow> all_tools
                     | Some s \<Rightarrow> if matchers s = [] \<and> regex_matchers s = [] then all_tools else s),
                   priority = prio, allowed_decision_class = cls, sequence = last_sequence reg + 1\<rparr>
          in Inr (reg\<lparr>hooks := dict_set name r (hooks reg), revision := revision reg + 1,
                      last_sequence := last_sequence reg + 1\<rparr>)))"

definition unregister_hook :: "string \<Rightarrow> 'h hook_registry \<Rightarrow> registry_error + 'h hook_registry" where
  "unregister_hook name reg =
     (if dict_get (hooks reg) name = None then Inl (HookNotFound name)
      else Inr (reg\<lparr>hooks := dict_del name (hooks reg), revision := revision reg + 1\<rparr>))"

definition snapshot :: "'h hook_registry \<Rightarrow> nat \<times> 'h registration list" where
  "snapshot reg = (revision reg, dict_values (hooks reg))"

definition get_hooks ::
  "(string \<Rightarrow> string \<Rightarrow> bool) \<Rightarrow> (nat \<times> 'h registration list) option \<Rightarrow> string \<Rightarrow> string
     \<Rightarrow> 'h hook_registry \<Rightarrow> 'h registration list" where
  "get_hooks fullmatch snap ev tool reg =
     (let hs = (case snap of Some s \<Rightarrow> snd s | None \<Rightarrow> snd (snapshot reg)) in
      sort_key (\<lambda>h. (priority h, sequence h)) (filter (\<lambda>h. reg_event h = ev
        \<and> (tool = [] \<or> selects fullmatch (selector h) tool)) hs))"

section \<open>Histories\<close>

datatype 'h registry_call =
    Register string string 'h "hook_selector option" int
  | Unregister string

fun registry_result :: "'h hook_registry \<Rightarrow> 'h registry_call \<Rightarrow> registry_error + 'h hook_registry" where
  "registry_result reg (Register n ev h sel p) = register_hook n ev h sel p reg"
| "registry_result reg (Unregister n) = unregister_hook n reg"

definition registry_step :: "'h hook_registry \<Rightarrow> 'h registry_call \<Rightarrow> 'h hook_registry" where
  "registry_step reg c = (case registry_result reg c of Inl e \<Rightarrow> reg | Inr reg' \<Rightarrow> reg')"

definition registry_inv :: "'h hook_registry \<Rightarrow> bool" where
  "registry_inv reg \<longleftrightarrow> is_dict (hooks reg) \<and> distinct (map sequence (dict_values (hooks reg)))
     \<and> (\<forall>(n, r) \<in> set (hooks reg). reg_name r = n \<and> sequence r \<le> last_sequence reg
          \<and> map_of event_decision_map (reg_event r) = Some (allowed_decision_class r))"

lemma register_inv:
  assumes "registry_inv reg" "register_hook n ev h sel p reg = Inr reg'"
  shows "registry_inv reg'"
proof -
  have new: "dict_get (hooks reg) n = None"
    using assms(2) by (auto simp: register_hook_def split: option.splits)
  obtain cls where ev: "map_of event_decision_map ev = Some cls"
    using assms(2) by (auto simp: register_hook_def split: option.splits)
  obtain s where reg': "reg' = reg\<lparr>hooks := dict_set n \<lparr>reg_name = n, reg_event = ev, handler = h,
      selector = s, priority = p, allowed_decision_class = cls, sequence = last_sequence reg + 1\<rparr>
      (hooks reg), revision := revision reg + 1, last_sequence := last_sequence reg + 1\<rparr>"
    using assms(2) ev new by (auto simp: register_hook_def Let_def)
  have fresh: "n \<notin> fst ` set (hooks reg)" using new by (simp add: map_of_eq_None_iff)
  have "last_sequence reg + 1 \<notin> set (map sequence (dict_values (hooks reg)))"
    using assms(1) by (fastforce simp: registry_inv_def dict_values_def)
  then show ?thesis
    using assms(1) ev fresh
    by (auto simp: registry_inv_def reg' dict_set_fresh is_dict_def dict_values_def)
qed

lemma unregister_inv:
  assumes "registry_inv reg" "unregister_hook n reg = Inr reg'"
  shows "registry_inv reg'"
proof -
  have reg': "reg' = reg\<lparr>hooks := dict_del n (hooks reg), revision := revision reg + 1\<rparr>"
    using assms(2) by (simp add: unregister_hook_def split: if_splits)
  have "set (dict_del n (hooks reg)) \<subseteq> set (hooks reg)" by (auto simp: AList.delete_eq)
  moreover have "distinct (map sequence (dict_values (dict_del n (hooks reg))))"
    using assms(1) distinct_map_filter [of "sequence \<circ> snd" "hooks reg"]
    by (simp add: registry_inv_def dict_values_def AList.delete_eq)
  ultimately show ?thesis using assms(1) by (auto simp: registry_inv_def reg')
qed

interpretation registry: op_invariant registry_step registry_inv
  by unfold_locales (auto simp: registry_step_def split: sum.splits registry_call.splits
      intro: register_inv unregister_inv elim!: registry_result.elims)

section \<open>The order of the hooks\<close>

definition before :: "'h registration \<Rightarrow> 'h registration \<Rightarrow> bool" where
  "before a b \<longleftrightarrow> (priority a, sequence a) < (priority b, sequence b)"

lemma sort_key_strict:
  fixes f :: "'a \<Rightarrow> 'b::linorder"
  assumes "distinct (map f xs)"
  shows "sorted_wrt (\<lambda>a b. f a < f b) (sort_key f xs)"
proof -
  have "distinct (map f (sort_key f xs))" using assms by (simp add: distinct_map)
  then have "sorted_wrt (<) (map f (sort_key f xs))" by (simp add: strict_sorted_iff)
  then show ?thesis by (simp add: sorted_wrt_map)
qed

definition registry_after :: "'h registry_call list \<Rightarrow> 'h hook_registry" where
  "registry_after cs = foldl registry_step empty_registry cs"

lemma reachable_registry: "registry_inv (registry_after cs)"
  unfolding registry_after_def by (rule registry.run_inv) (simp add: registry_inv_def empty_registry_def dict_values_def)

lemma distinct_key_pairs:
  assumes "distinct (map sequence hs)"
  shows "distinct (map (\<lambda>h. (priority h, sequence h)) (filter P hs))"
proof -
  have "distinct (map sequence (filter P hs))" using assms by (rule distinct_map_filter)
  then show ?thesis by (auto simp: distinct_map inj_on_def)
qed

text \<open>
  Whatever was registered and unregistered before, the hooks an event gets are exactly the
  registrations of that event whose selector takes the tool, each once, in strictly increasing
  order of priority and then of registration: the order of the hooks of an event is determined
  by the history alone.
\<close>

theorem hooks_are_totally_ordered:
  "sorted_wrt before (get_hooks fm None ev tool (registry_after cs))
    \<and> set (get_hooks fm None ev tool (registry_after cs))
        = {h. h \<in> set (dict_values (hooks (registry_after cs))) \<and> reg_event h = ev
             \<and> (tool = [] \<or> selects fm (selector h) tool)}"
proof -
  have "distinct (map sequence (dict_values (hooks (registry_after cs))))"
    using reachable_registry [of cs] by (simp add: registry_inv_def)
  note keys = distinct_key_pairs [OF this, of "\<lambda>h. reg_event h = ev \<and> (tool = [] \<or> selects fm (selector h) tool)"]
  show ?thesis
    using sort_key_strict [OF keys, folded before_def]
    by (simp add: get_hooks_def snapshot_def)
qed

end
