(* ===== verification/Json_Values.thy ===== *)
theory Json_Values
  imports Grace_Prelude "HOL-Library.Char_ord" "HOL-Library.List_Lexorder"
begin

text \<open>
  \<^verbatim>\<open>core/json_values.py\<close>: the frozen JSON values that cross the boundaries of the core. \<open>freeze_json\<close>
  accepts a Python value or raises, \<open>thaw_json\<close> gives a fresh mutable one back. A Python value
  is a tree (a circular one is not representable); a float is finite, NaN or infinite. The
  lemmas show that a frozen value obeys the declared bounds and that freezing undoes thawing.
\<close>

section \<open>Values\<close>

text \<open>The frozen values: a tuple is \<open>J_ARRAY\<close>, a \<open>FrozenJsonObject\<close> is \<open>J_OBJECT\<close> with its items.\<close>

datatype json =
    J_NULL
  | J_BOOL bool
  | J_INT int
  | J_FLOAT rat
  | J_STR string
  | J_ARRAY "json list"
  | J_OBJECT "(string \<times> json) list"

datatype py_float = FINITE rat | NAN | INFINITE

datatype py_key = K_STR string | K_OTHER string

datatype py_value =
    PY_NONE
  | PY_BOOL bool
  | PY_INT int
  | PY_FLOAT py_float
  | PY_STR string
  | PY_BYTES
  | PY_DICT "(py_key \<times> py_value) list"
  | PY_FROZEN "(string \<times> py_value) list"
  | PY_LIST "py_value list"
  | PY_TUPLE "py_value list"
  | PY_SET
  | PY_DATETIME
  | PY_CALLABLE
  | PY_OTHER

datatype json_error =
    DepthExceeded nat
  | NotFinite
  | StringTooLong nat
  | NotJson
  | TooManyKeys nat
  | KeyNotString string
  | DuplicateKey

definition max_depth :: nat where "max_depth = 32"
definition max_keys :: nat where "max_keys = 256"
definition max_string_bytes :: nat where "max_string_bytes = 1048576"

definition utf8_length :: "string \<Rightarrow> nat" where
  "utf8_length s = sum_list (map (\<lambda>c. if of_char c < (128::nat) then 1 else 2) s)"

section \<open>Freezing and thawing\<close>

text \<open>The constructor of \<open>FrozenJsonObject\<close>: it sorts, then checks the number and the keys.\<close>

definition frozen_object :: "(string \<times> json) list \<Rightarrow> json_error + json" where
  "frozen_object kvs =
     (let items = sort_key fst kvs in
      if length items > max_keys then Inl (TooManyKeys (length items))
      else if \<not> distinct (map fst items) then Inl DuplicateKey
      else Inr (J_OBJECT items))"

fun freeze_json :: "nat \<Rightarrow> py_value \<Rightarrow> json_error + json"
  and freeze_items :: "nat \<Rightarrow> py_value list \<Rightarrow> json_error + json list"
  and freeze_pairs :: "nat \<Rightarrow> (py_key \<times> py_value) list \<Rightarrow> json_error + (string \<times> json) list"
  and freeze_frozen :: "nat \<Rightarrow> (string \<times> py_value) list \<Rightarrow> json_error + (string \<times> json) list" where
  "freeze_json d v =
     (if d > max_depth then Inl (DepthExceeded d)
      else (case v of
        PY_NONE \<Rightarrow> Inr J_NULL
      | PY_BOOL b \<Rightarrow> Inr (J_BOOL b)
      | PY_INT i \<Rightarrow> Inr (J_INT i)
      | PY_FLOAT NAN \<Rightarrow> Inl NotFinite
      | PY_FLOAT INFINITE \<Rightarrow> Inl NotFinite
      | PY_FLOAT (FINITE x) \<Rightarrow> Inr (J_FLOAT x)
      | PY_STR s \<Rightarrow>
          if utf8_length s > max_string_bytes then Inl (StringTooLong (utf8_length s)) else Inr (J_STR s)
      | PY_BYTES \<Rightarrow> Inl NotJson
      | PY_DICT kvs \<Rightarrow>
          if length kvs > max_keys then Inl (TooManyKeys (length kvs))
          else (case freeze_pairs (d + 1) kvs of Inl e \<Rightarrow> Inl e | Inr ps \<Rightarrow> frozen_object (sort_key fst ps))
      | PY_FROZEN kvs \<Rightarrow>
          (case freeze_frozen (d + 1) kvs of Inl e \<Rightarrow> Inl e | Inr ps \<Rightarrow> frozen_object ps)
      | PY_LIST xs \<Rightarrow> (case freeze_items (d + 1) xs of Inl e \<Rightarrow> Inl e | Inr js \<Rightarrow> Inr (J_ARRAY js))
      | PY_TUPLE xs \<Rightarrow> (case freeze_items (d + 1) xs of Inl e \<Rightarrow> Inl e | Inr js \<Rightarrow> Inr (J_ARRAY js))
      | PY_SET \<Rightarrow> Inl NotJson
      | PY_DATETIME \<Rightarrow> Inl NotJson
      | PY_CALLABLE \<Rightarrow> Inl NotJson
      | PY_OTHER \<Rightarrow> Inl NotJson))"
| "freeze_items d [] = Inr []"
| "freeze_items d (x # xs) =
     (case freeze_json d x of
        Inl e \<Rightarrow> Inl e
      | Inr j \<Rightarrow> (case freeze_items d xs of Inl e \<Rightarrow> Inl e | Inr js \<Rightarrow> Inr (j # js)))"
| "freeze_pairs d [] = Inr []"
| "freeze_pairs d ((k, x) # xs) =
     (case k of
        K_OTHER t \<Rightarrow> Inl (KeyNotString t)
      | K_STR s \<Rightarrow>
          (case freeze_json d x of
             Inl e \<Rightarrow> Inl e
           | Inr j \<Rightarrow> (case freeze_pairs d xs of Inl e \<Rightarrow> Inl e | Inr js \<Rightarrow> Inr ((s, j) # js))))"
| "freeze_frozen d [] = Inr []"
| "freeze_frozen d ((k, x) # xs) =
     (case freeze_json d x of
        Inl e \<Rightarrow> Inl e
      | Inr j \<Rightarrow> (case freeze_frozen d xs of Inl e \<Rightarrow> Inl e | Inr js \<Rightarrow> Inr ((k, j) # js)))"

fun thaw_json :: "json \<Rightarrow> py_value" where
  "thaw_json J_NULL = PY_NONE"
| "thaw_json (J_BOOL b) = PY_BOOL b"
| "thaw_json (J_INT i) = PY_INT i"
| "thaw_json (J_FLOAT x) = PY_FLOAT (FINITE x)"
| "thaw_json (J_STR s) = PY_STR s"
| "thaw_json (J_ARRAY js) = PY_LIST (map thaw_json js)"
| "thaw_json (J_OBJECT kvs) = PY_DICT (map (\<lambda>(k, j). (K_STR k, thaw_json j)) kvs)"

text \<open>\<open>bool(value)\<close> of a JSON value.\<close>

fun truthy :: "json \<Rightarrow> bool" where
  "truthy J_NULL = False"
| "truthy (J_BOOL b) = b"
| "truthy (J_INT i) = (i \<noteq> 0)"
| "truthy (J_FLOAT x) = (x \<noteq> 0)"
| "truthy (J_STR s) = (s \<noteq> [])"
| "truthy (J_ARRAY xs) = (xs \<noteq> [])"
| "truthy (J_OBJECT kvs) = (kvs \<noteq> [])"

section \<open>What a frozen value obeys\<close>

fun frozen_ok :: "nat \<Rightarrow> json \<Rightarrow> bool" where
  "frozen_ok d j \<longleftrightarrow> d \<le> max_depth \<and>
     (case j of
        J_STR s \<Rightarrow> utf8_length s \<le> max_string_bytes
      | J_ARRAY js \<Rightarrow> list_all (frozen_ok (d + 1)) js
      | J_OBJECT kvs \<Rightarrow> length kvs \<le> max_keys \<and> sorted (map fst kvs) \<and> distinct (map fst kvs)
          \<and> list_all (\<lambda>(k, x). frozen_ok (d + 1) x) kvs
      | _ \<Rightarrow> True)"

declare freeze_json.simps [simp del] frozen_ok.simps [simp del]

lemma frozen_object_ok:
  assumes "frozen_object kvs = Inr j" "list_all (\<lambda>(k, x). frozen_ok (Suc d) x) kvs" "d \<le> max_depth"
  shows "frozen_ok d j"
proof -
  have "j = J_OBJECT (sort_key fst kvs)" "length kvs \<le> max_keys" "distinct (map fst (sort_key fst kvs))"
    using assms(1) by (auto simp: frozen_object_def Let_def split: if_splits)
  then show ?thesis
    using assms(2,3) by (subst frozen_ok.simps) (simp add: list_all_iff)
qed

lemma frozen_object_sorted:
  assumes "length kvs \<le> max_keys" "sorted (map fst kvs)" "distinct (map fst kvs)"
  shows "frozen_object kvs = Inr (J_OBJECT kvs)"
proof -
  have "sort_key fst kvs = kvs"
    using assms(2) by (simp add: sorted_sort_id sort_key_id_if_sorted)
  then show ?thesis using assms by (simp add: frozen_object_def)
qed

lemma frozen_bounds:
  "freeze_json d v = Inr j \<Longrightarrow> frozen_ok d j"
  "freeze_items d vs = Inr js \<Longrightarrow> list_all (frozen_ok d) js"
  "freeze_pairs d kvs = Inr ps \<Longrightarrow> list_all (\<lambda>(k, x). frozen_ok d x) ps"
  "freeze_frozen d fvs = Inr ps \<Longrightarrow> list_all (\<lambda>(k, x). frozen_ok d x) ps"
proof (induction d v and d vs and d kvs and d fvs arbitrary: j and js and ps and ps
    rule: freeze_json_freeze_items_freeze_pairs_freeze_frozen.induct)
  case (1 d v)
  have d: "d \<le> max_depth" using "1.prems" by (simp add: freeze_json.simps split: if_splits)
  show ?case
  proof (cases v)
    case (PY_DICT kvs)
    then obtain ps where ps: "freeze_pairs (d + 1) kvs = Inr ps" "frozen_object (sort_key fst ps) = Inr j"
        "length kvs \<le> max_keys"
      using "1.prems" d by (auto simp: freeze_json.simps split: if_splits sum.splits)
    then have "list_all (\<lambda>(k, x). frozen_ok (Suc d) x) ps" using "1.IH" d PY_DICT by simp
    then have "list_all (\<lambda>(k, x). frozen_ok (Suc d) x) (sort_key fst ps)" by (simp add: list_all_iff)
    then show ?thesis using ps(2) d by (intro frozen_object_ok)
  next
    case (PY_FROZEN kvs)
    then obtain ps where ps: "freeze_frozen (d + 1) kvs = Inr ps" "frozen_object ps = Inr j"
      using "1.prems" d by (auto simp: freeze_json.simps split: sum.splits)
    then have "list_all (\<lambda>(k, x). frozen_ok (Suc d) x) ps" using "1.IH" d PY_FROZEN by simp
    then show ?thesis using ps(2) d by (intro frozen_object_ok)
  next
    case (PY_LIST xs)
    then obtain js where js: "freeze_items (d + 1) xs = Inr js" "j = J_ARRAY js"
      using "1.prems" d by (auto simp: freeze_json.simps split: sum.splits)
    then have "list_all (frozen_ok (Suc d)) js" using "1.IH" d PY_LIST by simp
    then show ?thesis using d js(2) by (subst frozen_ok.simps) simp
  next
    case (PY_TUPLE xs)
    then obtain js where js: "freeze_items (d + 1) xs = Inr js" "j = J_ARRAY js"
      using "1.prems" d by (auto simp: freeze_json.simps split: sum.splits)
    then have "list_all (frozen_ok (Suc d)) js" using "1.IH" d PY_TUPLE by simp
    then show ?thesis using d js(2) by (subst frozen_ok.simps) simp
  qed (use "1.prems" d in \<open>auto simp: freeze_json.simps frozen_ok.simps split: if_splits py_float.splits\<close>)
qed (auto split: sum.splits py_key.splits)

lemma thaw_items:
  "(\<And>x. x \<in> set js \<Longrightarrow> freeze_json d (thaw_json x) = Inr x) \<Longrightarrow> freeze_items d (map thaw_json js) = Inr js"
  by (induction js) auto

lemma thaw_pairs:
  "(\<And>k x. (k, x) \<in> set kvs \<Longrightarrow> freeze_json d (thaw_json x) = Inr x)
     \<Longrightarrow> freeze_pairs d (map (\<lambda>(k, j). (K_STR k, thaw_json j)) kvs) = Inr kvs"
proof (induction kvs)
  case (Cons kx kvs)
  obtain k x where kx: "kx = (k, x)" by force
  have "freeze_json d (thaw_json x) = Inr x" using Cons.prems [of k x] kx by simp
  moreover have "freeze_pairs d (map (\<lambda>(k, j). (K_STR k, thaw_json j)) kvs) = Inr kvs"
    using Cons.prems by (intro Cons.IH) auto
  ultimately show ?case by (simp add: kx)
qed simp

lemma freeze_thaw: "frozen_ok d j \<Longrightarrow> freeze_json d (thaw_json j) = Inr j"
proof (induction j arbitrary: d rule: thaw_json.induct)
  case (6 js)
  then have "freeze_items (Suc d) (map thaw_json js) = Inr js"
    by (intro thaw_items) (simp add: frozen_ok.simps list_all_iff)
  then show ?case using 6 by (simp add: freeze_json.simps frozen_ok.simps)
next
  case (7 kvs)
  then have "freeze_pairs (Suc d) (map (\<lambda>(k, j). (K_STR k, thaw_json j)) kvs) = Inr kvs"
    by (intro thaw_pairs) (force simp: frozen_ok.simps list_all_iff)
  then show ?case
    using 7 by (simp add: freeze_json.simps frozen_ok.simps frozen_object_sorted sort_key_id_if_sorted)
qed (auto simp: freeze_json.simps frozen_ok.simps)

text \<open>
  The frozen values are exactly the canonical ones: whatever \<open>freeze_json\<close> returns has at most
  32 levels, at most 256 keys an object, in increasing order and distinct, and strings of at most
  one mebibyte; and every such value comes back unchanged when its thawed copy is frozen again.
\<close>

theorem frozen_values_are_canonical:
  "((\<exists>v. freeze_json 0 v = Inr j) \<longleftrightarrow> frozen_ok 0 j)
    \<and> (freeze_json 0 (thaw_json j) = Inr j \<longleftrightarrow> frozen_ok 0 j)"
  using frozen_bounds(1) freeze_thaw by blast

end
