(* ===== verification/Hook_Dispatch.thy ===== *)
theory Hook_Dispatch
  imports Hook_Registry Json_Values
begin

text \<open>
  \<^verbatim>\<open>hook_core/decisions.py\<close>, \<^verbatim>\<open>executor.py\<close> and \<^verbatim>\<open>dispatcher.py\<close>: one hook is run by its handler, its
  outcome becomes an execution, and the dispatcher folds the executions of an event into one
  result. A handler that is a function is a function of the input; a command goes to the
  parameter \<open>runner\<close> (the subprocess), whose standard output is blank, no JSON, or the JSON value
  the interpreter's parser reads; \<open>shlex_split\<close> is the standard library's. Messages are
  constructors that carry what the text is built from. The lemmas say what blocks an event,
  how permissions combine and what the dispatcher does with hooks that fail.
\<close>

section \<open>Decisions\<close>

text \<open>
  A function may return, instead of a member of this enumeration, one of the enumeration of the same name in
  \<^verbatim>\<open>hitl/pipeline.py\<close>: another object with the same text, which \<open>==\<close> and \<open>index\<close> do not tell from the first.
\<close>

datatype permission_choice = DENY | DEFER | ASK | ALLOW | HITL_DENY | HITL_ALLOW

fun as_text :: "permission_choice \<Rightarrow> permission_choice" where
  "as_text HITL_DENY = DENY"
| "as_text HITL_ALLOW = ALLOW"
| "as_text p = p"

definition precedence :: "permission_choice list" where
  "precedence = [DENY, DEFER, ASK, ALLOW]"

datatype stop_verdict = CONTINUE | BLOCK

type_synonym frozen_object = "(string \<times> json) list"

text \<open>
  \<open>reason\<close> and \<open>additional_context\<close> may come from a command's JSON unchecked, so they are JSON
  values. \<open>OtherDecision\<close> is any other object a function returns.
\<close>

datatype hook_decision =
    PreToolUse permission_choice "frozen_object option" json
  | PostToolUse string "string option" string
  | PostToolUseFailure string string
  | UserPromptSubmit bool json "frozen_object option"
  | Stop stop_verdict json
  | SessionStart json
  | PreCompact bool json
  | OtherDecision

section \<open>Running one hook\<close>

datatype stdout = BLANK | NOT_JSON | JSON json

record process_result =
  returncode :: int
  stdout :: stdout
  proc_timed_out :: bool
  proc_ms :: time

datatype outcome = RETURNS "hook_decision option" | RAISES string

datatype 'i hook_handler =
    FUNCTION "'i \<Rightarrow> outcome \<times> time"
  | COROUTINE "'i \<Rightarrow> outcome \<times> time"
  | COMMAND "string list"
  | LEGACY_COMMAND string
  | UNSUPPORTED string

datatype exec_error =
    NoError
  | HandlerRaised string
  | HookTimeout
  | CommandTimeout
  | ExitTwo
  | InvalidJson
  | UnrecognizedJson json
  | ExitCode int
  | UnsupportedHandler string
  | AsyncTimeout
  | CrashedWith string

record hook_execution =
  hook_name :: string
  exec_decision :: "hook_decision option"
  duration_ms :: time
  exec_error :: exec_error
  timed_out :: bool

text \<open>The exceptions that leave \<open>execute_hook\<close> and the merging.\<close>

datatype crash = ATTRIBUTE_ERROR | TYPE_ERROR | VALUE_ERROR

fun crash_name :: "crash \<Rightarrow> string" where
  "crash_name ATTRIBUTE_ERROR = ''AttributeError''"
| "crash_name TYPE_ERROR = ''TypeError''"
| "crash_name VALUE_ERROR = ''ValueError''"

definition decided :: "string \<Rightarrow> hook_decision option \<Rightarrow> time \<Rightarrow> hook_execution" where
  "decided name d ms = \<lparr>hook_name = name, exec_decision = d, duration_ms = ms, exec_error = NoError,
     timed_out = False\<rparr>"

definition failed :: "string \<Rightarrow> exec_error \<Rightarrow> time \<Rightarrow> bool \<Rightarrow> hook_execution" where
  "failed name e ms late = \<lparr>hook_name = name, exec_decision = None, duration_ms = ms, exec_error = e,
     timed_out = late\<rparr>"

definition execute_callable ::
  "string \<Rightarrow> outcome \<times> time \<Rightarrow> hook_policy \<Rightarrow> hook_execution" where
  "execute_callable name call policy =
     (case call of
        (RAISES e, ms) \<Rightarrow> failed name (HandlerRaised e) ms False
      | (RETURNS d, ms) \<Rightarrow>
          if ms / 1000 > timeout_s policy then failed name HookTimeout ms True else decided name d ms)"

text \<open>\<open>key in value\<close> and \<open>value.get(key, default)\<close> of a parsed value.\<close>

fun json_contains :: "string \<Rightarrow> json \<Rightarrow> crash + bool" where
  "json_contains k (J_OBJECT kvs) = Inr (map_of kvs k \<noteq> None)"
| "json_contains k (J_ARRAY xs) = Inr (J_STR k \<in> set xs)"
| "json_contains k (J_STR s) = Inr (contains_str s k)"
| "json_contains k _ = Inl TYPE_ERROR"

fun permission_value :: "json \<Rightarrow> permission_choice" where
  "permission_value (J_STR s) =
     (if s = ''deny'' then DENY else if s = ''defer'' then DEFER
      else if s = ''ask'' then ASK else ALLOW)"
| "permission_value _ = ALLOW"

definition parse_decision :: "json \<Rightarrow> crash + hook_decision option" where
  "parse_decision parsed =
     (case parsed of
        J_OBJECT kvs \<Rightarrow>
          (let hso = the_default parsed (map_of kvs ''hookSpecificOutput'') in
           (case json_contains ''permissionDecision'' hso of
              Inl e \<Rightarrow> Inl e
            | Inr True \<Rightarrow>
                (case hso of
                   J_OBJECT hs \<Rightarrow>
                     Inr (Some (PreToolUse (permission_value (the (map_of hs ''permissionDecision''))) None
                       (the_default (J_STR []) (map_of hs ''permissionDecisionReason''))))
                 | _ \<Rightarrow> Inl TYPE_ERROR)
            | Inr False \<Rightarrow>
                if map_of kvs ''decision'' = Some (J_STR ''block'') then
                  (case the_default (J_STR []) (map_of kvs ''hook_event_name'') of
                     J_STR ev \<Rightarrow>
                       if contains_str (str_lower ev) ''stop_hook''
                       then Inr (Some (Stop BLOCK (the_default (J_STR []) (map_of kvs ''reason''))))
                       else Inl TYPE_ERROR
                   | _ \<Rightarrow> Inl ATTRIBUTE_ERROR)
                else (case map_of kvs ''additionalContext'' of
                   Some c \<Rightarrow> Inr (Some (SessionStart c))
                 | None \<Rightarrow> Inr None)))
      | _ \<Rightarrow> Inl ATTRIBUTE_ERROR)"

definition execute_process :: "string \<Rightarrow> process_result \<Rightarrow> crash + hook_execution" where
  "execute_process name res =
     (if proc_timed_out res then Inr (failed name CommandTimeout (proc_ms res) True)
      else if returncode res = 2 then Inr (failed name ExitTwo (proc_ms res) False)
      else if returncode res = 0 \<and> stdout res \<noteq> BLANK then
        (case stdout res of
           JSON j \<Rightarrow>
             (case parse_decision j of
                Inl e \<Rightarrow> Inl e
              | Inr (Some d) \<Rightarrow> Inr (decided name (Some d) (proc_ms res))
              | Inr None \<Rightarrow> Inr (failed name (UnrecognizedJson j) (proc_ms res) False))
         | _ \<Rightarrow> Inr (failed name InvalidJson (proc_ms res) False))
      else Inr (failed name (ExitCode (returncode res)) (proc_ms res) False))"

record 'i hook_env =
  runner :: "string list \<Rightarrow> 'i \<Rightarrow> time \<Rightarrow> process_result"
  shlex_split :: "string \<Rightarrow> string list option"
  fullmatch :: "string \<Rightarrow> string \<Rightarrow> bool"
  stop_hook_active :: "'i \<Rightarrow> bool"

text \<open>The constructor of \<open>HookCommand\<close> refuses an empty command.\<close>

definition hook_command :: "string list \<Rightarrow> crash + string list" where
  "hook_command argv =
     (case argv of [] \<Rightarrow> Inl VALUE_ERROR | a # as \<Rightarrow> if str_strip a = [] then Inl VALUE_ERROR else Inr argv)"

definition execute_legacy_command ::
  "'i hook_env \<Rightarrow> string \<Rightarrow> string \<Rightarrow> 'i \<Rightarrow> hook_policy \<Rightarrow> crash + hook_execution" where
  "execute_legacy_command env name cmd inp policy =
     (case hook_command (case shlex_split env cmd of Some argv \<Rightarrow> argv | None \<Rightarrow> [cmd]) of
        Inl e \<Rightarrow> Inl e
      | Inr argv \<Rightarrow> execute_process name (runner env argv inp (timeout_s policy)))"

definition execute_hook ::
  "'i hook_env \<Rightarrow> string \<Rightarrow> 'i hook_handler \<Rightarrow> 'i \<Rightarrow> hook_policy \<Rightarrow> crash + hook_execution" where
  "execute_hook env name h inp policy =
     (case h of
        COMMAND argv \<Rightarrow> execute_process name (runner env argv inp (timeout_s policy))
      | FUNCTION f \<Rightarrow> Inr (execute_callable name (f inp) policy)
      | COROUTINE f \<Rightarrow> Inr (execute_callable name (RETURNS (Some OtherDecision), 0) policy)
      | LEGACY_COMMAND cmd \<Rightarrow> execute_legacy_command env name cmd inp policy
      | UNSUPPORTED t \<Rightarrow> Inr (failed name (UnsupportedHandler t) 0 False))"

definition execute_hook_async ::
  "'i hook_env \<Rightarrow> string \<Rightarrow> 'i hook_handler \<Rightarrow> 'i \<Rightarrow> hook_policy \<Rightarrow> hook_execution" where
  "execute_hook_async env name h inp policy =
     (case h of
        COROUTINE f \<Rightarrow> execute_callable name (f inp) policy
      | FUNCTION f \<Rightarrow> execute_callable name (f inp) policy
      | _ \<Rightarrow> (case execute_hook env name h inp policy of
                Inr x \<Rightarrow> x
              | Inl e \<Rightarrow> failed name (CrashedWith (crash_name e)) 0 False))"

section \<open>Folding the executions\<close>

datatype block_note =
    NoReason
  | Reason json
  | HookFailed string exec_error
  | HookDenied string
  | HookBlockedStop string
  | HookBlockedPrompt string
  | HookBlockedCompaction string
  | BlockedByHook

datatype hook_warning = FailureWarning string exec_error | TransformConflict string string

record dispatch_result =
  results :: "hook_execution list"
  total_duration_ms :: time
  blocked :: bool
  block_reason :: block_note
  permission :: "permission_choice option"
  updated_input :: "frozen_object option"
  additional_context :: string
  replace_output :: "string option"
  warnings :: "hook_warning list"

definition empty_result :: dispatch_result where
  "empty_result = \<lparr>results = [], total_duration_ms = 0, blocked = False, block_reason = NoReason,
     permission = None, updated_input = None, additional_context = [], replace_output = None,
     warnings = []\<rparr>"

definition merged_decision :: "dispatch_result \<Rightarrow> hook_decision option" where
  "merged_decision r =
     (case filter (\<lambda>x. exec_decision x \<noteq> None) (results r) of
        [] \<Rightarrow> None | x # xs \<Rightarrow> exec_decision (last (x # xs)))"

definition index_of :: "permission_choice \<Rightarrow> nat" where
  "index_of p = length (takeWhile (\<lambda>q. q \<noteq> as_text p) precedence)"

fun merge_permission :: "permission_choice option \<Rightarrow> permission_choice \<Rightarrow> permission_choice option" where
  "merge_permission None p = Some p"
| "merge_permission (Some c) p =
     (if as_text p = DEFER then Some c
      else if as_text c = DEFER then Some p
      else if index_of c \<le> index_of p then Some c else Some p)"

text \<open>Python compares numbers across their types.\<close>

fun json_number :: "json \<Rightarrow> json" where
  "json_number (J_BOOL b) = J_FLOAT (if b then 1 else 0)"
| "json_number (J_INT i) = J_FLOAT (of_int i)"
| "json_number (J_ARRAY xs) = J_ARRAY (map json_number xs)"
| "json_number (J_OBJECT kvs) = J_OBJECT (map (\<lambda>(k, x). (k, json_number x)) kvs)"
| "json_number j = j"

definition json_equal :: "json \<Rightarrow> json \<Rightarrow> bool" where
  "json_equal a b \<longleftrightarrow> json_number a = json_number b"

definition frozen_union :: "frozen_object \<Rightarrow> frozen_object \<Rightarrow> crash + frozen_object" where
  "frozen_union cur new =
     (case freeze_json 0 (PY_DICT (map (\<lambda>(k, j). (K_STR k, thaw_json j))
             (foldl (\<lambda>d (k, j). dict_set k j d) cur new))) of
        Inr (J_OBJECT kvs) \<Rightarrow> Inr kvs
      | _ \<Rightarrow> Inl VALUE_ERROR)"

definition conflict_warnings :: "string \<Rightarrow> frozen_object \<Rightarrow> frozen_object \<Rightarrow> hook_warning list" where
  "conflict_warnings name cur new =
     map (\<lambda>(k, j). TransformConflict k name)
       (filter (\<lambda>(k, j). case map_of cur k of None \<Rightarrow> False | Some x \<Rightarrow> \<not> json_equal x (the (map_of new k))) new)"

definition merge_transform ::
  "dispatch_result \<Rightarrow> frozen_object option \<Rightarrow> crash + dispatch_result" where
  "merge_transform r upd =
     (case upd of
        None \<Rightarrow> Inr r
      | Some new \<Rightarrow>
          (case updated_input r of
             None \<Rightarrow> Inr (r\<lparr>updated_input := Some new\<rparr>)
           | Some cur \<Rightarrow>
               (let name = (if results r = [] then ''?'' else hook_name (last (results r))) in
                case frozen_union cur new of
                  Inl e \<Rightarrow> Inl e
                | Inr m \<Rightarrow> Inr (r\<lparr>updated_input := Some m,
                    warnings := warnings r @ conflict_warnings name cur new\<rparr>))))"

definition merge_updated_input ::
  "frozen_object option \<Rightarrow> frozen_object \<Rightarrow> crash + frozen_object" where
  "merge_updated_input cur new = (case cur of None \<Rightarrow> Inr new | Some c \<Rightarrow> frozen_union c new)"

definition add_context :: "string \<Rightarrow> dispatch_result \<Rightarrow> dispatch_result" where
  "add_context c r =
     (if c = [] then r
      else r\<lparr>additional_context := additional_context r
               @ (if additional_context r = [] then [] else [CHR 0x0A]) @ c\<rparr>)"

definition post_tool_feedback :: "string \<Rightarrow> string \<Rightarrow> string option \<Rightarrow> dispatch_result \<Rightarrow> dispatch_result" where
  "post_tool_feedback verdict ctx out r =
     (let r1 = (if verdict = ''block'' \<and> block_reason r = NoReason
                then r\<lparr>block_reason := BlockedByHook\<rparr> else r);
          r2 = add_context ctx r1
      in case out of None \<Rightarrow> r2 | Some s \<Rightarrow> r2\<lparr>replace_output := Some s\<rparr>)"

definition block_with :: "json \<Rightarrow> block_note \<Rightarrow> dispatch_result \<Rightarrow> dispatch_result" where
  "block_with why note r =
     r\<lparr>blocked := True, block_reason := (if truthy why then Reason why else note)\<rparr>"

text \<open>
  \<open>process_execution\<close> returns the mutated result with whether it is returned early.
\<close>

definition process_execution ::
  "string \<Rightarrow> string \<Rightarrow> hook_execution \<Rightarrow> dispatch_result \<Rightarrow> hook_policy \<Rightarrow> bool
     \<Rightarrow> crash + (bool \<times> dispatch_result)" where
  "process_execution ev name x r policy is_blockable =
     (case exec_decision x of
        None \<Rightarrow>
          if resolve_failure (failure_policy policy) is_blockable
          then Inr (True, r\<lparr>blocked := True, block_reason := HookFailed name (exec_error x)\<rparr>)
          else Inr (False, r\<lparr>warnings := warnings r @ [FailureWarning name (exec_error x)]\<rparr>)
      | Some (PreToolUse p u why) \<Rightarrow>
          if ev \<noteq> ''PreToolUse'' then Inr (False, r)
          else if as_text p = DENY then
            Inr (True, (block_with why (HookDenied name) r)\<lparr>permission := Some DENY\<rparr>)
          else
            (let r1 = (if as_text p = ALLOW then r\<lparr>permission := Some ALLOW\<rparr> else r) in
             Inr (False, if truthy why \<and> block_reason r1 = NoReason
                         then r1\<lparr>block_reason := Reason why\<rparr> else r1))
      | Some (Stop v why) \<Rightarrow>
          if ev = ''Stop'' \<and> v = BLOCK then Inr (True, block_with why (HookBlockedStop name) r)
          else Inr (False, r)
      | Some (PostToolUse ctx out verdict) \<Rightarrow>
          if ev = ''PostToolUse'' \<or> ev = ''PostToolUseFailure''
          then Inr (False, post_tool_feedback verdict ctx out r) else Inr (False, r)
      | Some (PostToolUseFailure ctx verdict) \<Rightarrow>
          if ev = ''PostToolUse'' \<or> ev = ''PostToolUseFailure''
          then Inr (False, post_tool_feedback verdict ctx None r) else Inr (False, r)
      | Some (UserPromptSubmit b why u) \<Rightarrow>
          if ev \<noteq> ''UserPromptSubmit'' then Inr (False, r)
          else if b then Inr (True, block_with why (HookBlockedPrompt name) r)
          else (case u of
                  None \<Rightarrow> Inr (False, r)
                | Some new \<Rightarrow>
                    (case merge_updated_input (updated_input r) new of
                       Inl e \<Rightarrow> Inl e
                     | Inr m \<Rightarrow> Inr (False, r\<lparr>updated_input := Some m\<rparr>)))
      | Some (SessionStart c) \<Rightarrow>
          if ev = ''SessionStart'' \<and> truthy c
          then (case c of J_STR s \<Rightarrow> Inr (False, add_context s r) | _ \<Rightarrow> Inl TYPE_ERROR)
          else Inr (False, r)
      | Some (PreCompact b why) \<Rightarrow>
          if ev = ''PreCompact'' \<and> b then Inr (True, block_with why (HookBlockedCompaction name) r)
          else Inr (False, r)
      | Some OtherDecision \<Rightarrow> Inr (False, r))"

text \<open>The body that both dispatch loops share, from \<open>results.append\<close> to the merges.\<close>

definition absorb ::
  "string \<Rightarrow> string \<Rightarrow> hook_execution \<Rightarrow> hook_policy \<Rightarrow> bool
     \<Rightarrow> permission_choice option \<Rightarrow> dispatch_result
     \<Rightarrow> crash + (bool \<times> permission_choice option \<times> dispatch_result)" where
  "absorb ev name x policy is_blockable perm r =
     (case process_execution ev name x (r\<lparr>results := results r @ [x]\<rparr>) policy is_blockable of
        Inl e \<Rightarrow> Inl e
      | Inr (True, r1) \<Rightarrow> Inr (True, perm, r1)
      | Inr (False, r1) \<Rightarrow>
          (case exec_decision x of
             Some (PreToolUse p u why) \<Rightarrow>
               if ev = ''PreToolUse'' then
                 (case merge_transform r1 u of
                    Inl e \<Rightarrow> Inl e | Inr r2 \<Rightarrow> Inr (False, merge_permission perm p, r2))
               else Inr (False, perm, r1)
           | _ \<Rightarrow> Inr (False, perm, r1)))"

section \<open>Dispatch\<close>

datatype dispatch_failure = UnknownEvent string | DeadlineExceeded | Crashed crash

definition total_deadline_s :: time where "total_deadline_s = 30"

definition is_blockable_event :: "string \<Rightarrow> bool" where
  "is_blockable_event ev = (case map_of event_names ev of None \<Rightarrow> False | Some e \<Rightarrow> e \<in> set blockable_events)"

text \<open>\<open>clock i\<close> is the time elapsed when hook \<open>i\<close> is reached, in seconds.\<close>

fun dispatch_loop ::
  "'i hook_env \<Rightarrow> string \<Rightarrow> 'i \<Rightarrow> hook_policy \<Rightarrow> (nat \<Rightarrow> time) \<Rightarrow> nat
     \<Rightarrow> 'i hook_handler registration list \<Rightarrow> permission_choice option \<Rightarrow> dispatch_result
     \<Rightarrow> dispatch_failure + (bool \<times> permission_choice option \<times> dispatch_result)" where
  "dispatch_loop env ev inp policy clock i [] perm r = Inr (False, perm, r)"
| "dispatch_loop env ev inp policy clock i (h # hs) perm r =
     (if clock i > total_deadline_s then Inl DeadlineExceeded
      else if ev = ''Stop'' \<and> stop_hook_active env inp
      then dispatch_loop env ev inp policy clock (i + 1) hs perm r
      else (case execute_hook env (reg_name h) (handler h) inp policy of
        Inl e \<Rightarrow> Inl (Crashed e)
      | Inr x \<Rightarrow>
          (case absorb ev (reg_name h) x policy (is_blockable_event ev) perm r of
             Inl e \<Rightarrow> Inl (Crashed e)
           | Inr (True, perm', r') \<Rightarrow> Inr (True, perm', r')
           | Inr (False, perm', r') \<Rightarrow> dispatch_loop env ev inp policy clock (i + 1) hs perm' r')))"

definition conclude :: "string \<Rightarrow> time \<Rightarrow> permission_choice option \<Rightarrow> dispatch_result \<Rightarrow> dispatch_result" where
  "conclude ev elapsed perm r =
     (let r1 = r\<lparr>total_duration_ms := elapsed * 1000\<rparr> in
      if ev = ''PreToolUse'' then r1\<lparr>permission := Some (the_default ALLOW perm)\<rparr> else r1)"

definition dispatch ::
  "'i hook_env \<Rightarrow> 'i hook_handler hook_registry
     \<Rightarrow> (nat \<times> 'i hook_handler registration list) option \<Rightarrow> (nat \<Rightarrow> time)
     \<Rightarrow> string \<Rightarrow> 'i \<Rightarrow> string \<Rightarrow> dispatch_failure + dispatch_result" where
  "dispatch env reg snap clock ev inp tool =
     (case policy_for ev of
        Inl e \<Rightarrow> Inl (UnknownEvent ev)
      | Inr policy \<Rightarrow>
          (let hs = get_hooks (fullmatch env) snap ev tool reg in
           case dispatch_loop env ev inp policy clock 0 hs None empty_result of
             Inl e \<Rightarrow> Inl e
           | Inr (True, perm, r) \<Rightarrow> Inr r
           | Inr (False, perm, r) \<Rightarrow> Inr (conclude ev (clock (length hs)) perm r)))"

text \<open>
  The concurrent form: \<open>late\<close> says of which hooks the deadline passes before they return; the
  order in which the others return is not visible, as their executions are kept by name and read
  in the order of the registry.
\<close>

definition run_hook ::
  "'i hook_env \<Rightarrow> (string \<Rightarrow> bool) \<Rightarrow> string \<Rightarrow> 'i \<Rightarrow> hook_policy \<Rightarrow> 'i hook_handler registration
     \<Rightarrow> (string, hook_execution) dict \<Rightarrow> (string, hook_execution) dict" where
  "run_hook env late ev inp policy h exs =
     (if ev = ''Stop'' \<and> stop_hook_active env inp then exs
      else dict_set (reg_name h)
        (if late (reg_name h) then failed (reg_name h) AsyncTimeout 0 True
         else execute_hook_async env (reg_name h) (handler h) inp policy) exs)"

fun gather_loop ::
  "(string, hook_execution) dict \<Rightarrow> string \<Rightarrow> hook_policy \<Rightarrow> 'h registration list
     \<Rightarrow> permission_choice option \<Rightarrow> dispatch_result
     \<Rightarrow> crash + (bool \<times> permission_choice option \<times> dispatch_result)" where
  "gather_loop exs ev policy [] perm r = Inr (False, perm, r)"
| "gather_loop exs ev policy (h # hs) perm r =
     (case dict_get exs (reg_name h) of
        None \<Rightarrow> gather_loop exs ev policy hs perm r
      | Some x \<Rightarrow>
          (case absorb ev (reg_name h) x policy (is_blockable_event ev) perm r of
             Inl e \<Rightarrow> Inl e
           | Inr (True, perm', r') \<Rightarrow> Inr (True, perm', r')
           | Inr (False, perm', r') \<Rightarrow> gather_loop exs ev policy hs perm' r'))"

definition dispatch_async ::
  "'i hook_env \<Rightarrow> 'i hook_handler hook_registry
     \<Rightarrow> (nat \<times> 'i hook_handler registration list) option \<Rightarrow> (string \<Rightarrow> bool) \<Rightarrow> time
     \<Rightarrow> string \<Rightarrow> 'i \<Rightarrow> string \<Rightarrow> dispatch_failure + dispatch_result" where
  "dispatch_async env reg snap late elapsed ev inp tool =
     (case policy_for ev of
        Inl e \<Rightarrow> Inl (UnknownEvent ev)
      | Inr policy \<Rightarrow>
          (let hs = get_hooks (fullmatch env) snap ev tool reg in
           if hs = [] then Inr empty_result
           else case gather_loop (fold (run_hook env late ev inp policy) hs []) ev policy hs None empty_result of
             Inl e \<Rightarrow> Inl (Crashed e)
           | Inr (True, perm, r) \<Rightarrow> Inr (r\<lparr>total_duration_ms := elapsed * 1000\<rparr>)
           | Inr (False, perm, r) \<Rightarrow> Inr (conclude ev elapsed perm r)))"

section \<open>What blocks an event\<close>

definition blocks :: "string \<Rightarrow> hook_execution \<Rightarrow> bool" where
  "blocks ev x =
     (case exec_decision x of
        None \<Rightarrow> ev = ''PreToolUse''
      | Some (PreToolUse p u why) \<Rightarrow> ev = ''PreToolUse'' \<and> as_text p = DENY
      | Some (Stop v why) \<Rightarrow> ev = ''Stop'' \<and> v = BLOCK
      | Some (UserPromptSubmit b why u) \<Rightarrow> ev = ''UserPromptSubmit'' \<and> b
      | Some (PreCompact b why) \<Rightarrow> ev = ''PreCompact'' \<and> b
      | _ \<Rightarrow> False)"

lemma policy_for_cases:
  assumes "policy_for ev = Inr policy"
  obtains e where "map_of event_names ev = Some e" "policy = policy_of e"
  using assms by (auto simp: policy_for_def split: option.splits)

lemma fail_closed_iff: "failure_policy (policy_of e) = FAIL_CLOSED \<longleftrightarrow> e = PRE_TOOL_USE"
  by (cases e) (simp_all add: blocking_def observing_def)

lemma fail_open_iff: "failure_policy (policy_of e) = FAIL_OPEN \<longleftrightarrow> e \<noteq> PRE_TOOL_USE"
  by (cases e) (simp_all add: blocking_def observing_def)

lemma pre_tool_name: "map_of event_names ev = Some PRE_TOOL_USE \<Longrightarrow> ev = ''PreToolUse''"
  by (auto simp: event_names_def split: if_splits)

lemma pre_tool_event: "map_of event_names ''PreToolUse'' = Some PRE_TOOL_USE"
  by (simp add: event_names_def)

lemma failure_blocks_iff:
  assumes "policy_for ev = Inr policy"
  shows "resolve_failure (failure_policy policy) b \<longleftrightarrow> ev = ''PreToolUse''"
proof -
  obtain e where e: "map_of event_names ev = Some e" "policy = policy_of e"
    using assms by (rule policy_for_cases)
  have "e = PRE_TOOL_USE \<longleftrightarrow> ev = ''PreToolUse''"
    using e(1) pre_tool_name [of ev] pre_tool_event by auto
  then show ?thesis
    unfolding resolve_failure_def e(2)
    using fail_closed_iff [of e] fail_open_iff [of e] by (cases "e = PRE_TOOL_USE") simp_all
qed

lemma add_context_keeps [simp]:
  "results (add_context c r) = results r" "blocked (add_context c r) = blocked r"
  "permission (add_context c r) = permission r"
  by (simp_all add: add_context_def)

lemma feedback_keeps [simp]:
  "results (post_tool_feedback v c out r) = results r"
  "blocked (post_tool_feedback v c out r) = blocked r"
  "permission (post_tool_feedback v c out r) = permission r"
  by (simp_all add: post_tool_feedback_def Let_def split: option.splits)

lemma process_effect:
  assumes "process_execution ev name x r policy b = Inr (early, r')" "policy_for ev = Inr policy"
  shows "results r' = results r \<and> early = blocks ev x \<and> blocked r' = (blocked r \<or> early)"
proof (cases "exec_decision x")
  case None
  then show ?thesis
    using assms(1) failure_blocks_iff [OF assms(2), of b]
    by (auto simp: process_execution_def blocks_def split: if_splits)
next
  case (Some d)
  note defs = process_execution_def blocks_def block_with_def Some
  show ?thesis
  proof (cases d)
    case (SessionStart c)
    then show ?thesis
      using assms(1) by (cases c) (auto simp: defs split: if_splits)
  next
    case (UserPromptSubmit c why u)
    then show ?thesis
      using assms(1) by (cases u) (auto simp: defs split: if_splits sum.splits)
  qed (use assms(1) in \<open>auto simp: defs Let_def split: if_splits\<close>)
qed

lemma transform_keeps:
  "merge_transform r u = Inr r' \<Longrightarrow> results r' = results r \<and> blocked r' = blocked r"
  by (auto simp: merge_transform_def Let_def split: option.splits sum.splits)

lemma absorb_effect:
  assumes "absorb ev name x policy b perm r = Inr (early, perm', r')" "policy_for ev = Inr policy"
  shows "results r' = results r @ [x] \<and> early = blocks ev x \<and> blocked r' = (blocked r \<or> early)"
proof -
  obtain early1 r1 where p:
    "process_execution ev name x (r\<lparr>results := results r @ [x]\<rparr>) policy b = Inr (early1, r1)"
    using assms(1) by (auto simp: absorb_def split: sum.splits)
  note eff = process_effect [OF p assms(2)]
  show ?thesis
    using assms(1) p eff
    by (auto simp: absorb_def split: bool.splits option.splits hook_decision.splits if_splits sum.splits
        dest!: transform_keeps)
qed

text \<open>The executions of a loop: none blocks but, when it returned early, the last.\<close>

definition settled :: "string \<Rightarrow> bool \<Rightarrow> dispatch_result \<Rightarrow> bool" where
  "settled ev early r \<longleftrightarrow> blocked r = early
     \<and> (if early
        then \<exists>ys x. results r = ys @ [x] \<and> blocks ev x \<and> filter (blocks ev) ys = []
        else filter (blocks ev) (results r) = [])"

lemma absorb_settled:
  assumes "absorb ev name x policy b perm r = Inr (early, perm', r')" "policy_for ev = Inr policy"
    "settled ev False r"
  shows "settled ev early r'"
  using absorb_effect [OF assms(1,2)] assms(3) by (auto simp: settled_def)

lemma dispatch_loop_settled:
  assumes "policy_for ev = Inr policy"
  shows "dispatch_loop env ev inp policy clock i hs perm r = Inr (early, perm', r')
    \<Longrightarrow> settled ev False r \<Longrightarrow> settled ev early r'"
  by (induction hs arbitrary: i perm r)
    (auto split: if_splits sum.splits bool.splits dest: absorb_settled [OF _ assms])

lemma gather_loop_settled:
  assumes "policy_for ev = Inr policy"
  shows "gather_loop exs ev policy hs perm r = Inr (early, perm', r')
    \<Longrightarrow> settled ev False r \<Longrightarrow> settled ev early r'"
  by (induction hs arbitrary: perm r)
    (auto split: option.splits sum.splits bool.splits dest: absorb_settled [OF _ assms])

lemma settled_empty [simp]: "settled ev False empty_result"
  by (simp add: settled_def empty_result_def)

lemma settled_self: "settled ev early r \<Longrightarrow> settled ev (blocked r) r"
  by (simp add: settled_def)

lemma blocked_conclude [simp]: "blocked (conclude ev t perm r) = blocked r"
  by (simp add: conclude_def Let_def)

lemma blocked_empty [simp]: "\<not> blocked empty_result"
  by (simp add: empty_result_def)

lemma settled_time [simp]: "settled ev early (r\<lparr>total_duration_ms := t\<rparr>) = settled ev early r"
  by (simp add: settled_def)

lemma settled_conclude [simp]: "settled ev early (conclude ev t perm r) = settled ev early r"
  by (simp add: settled_def conclude_def Let_def)

lemma dispatch_settled:
  assumes "dispatch env reg snap clock ev inp tool = Inr r"
  shows "settled ev (blocked r) r"
proof -
  obtain policy where policy: "policy_for ev = Inr policy"
    using assms by (auto simp: dispatch_def split: sum.splits)
  show ?thesis
    using assms policy
    by (auto simp: dispatch_def Let_def split: sum.splits bool.splits
        dest!: settled_self [OF dispatch_loop_settled [OF policy _ settled_empty]])
qed

lemma dispatch_async_settled:
  assumes "dispatch_async env reg snap late t ev inp tool = Inr r"
  shows "settled ev (blocked r) r"
proof -
  obtain policy where policy: "policy_for ev = Inr policy"
    using assms by (auto simp: dispatch_async_def split: sum.splits)
  show ?thesis
    using assms policy settled_empty
    by (auto simp: dispatch_async_def Let_def split: sum.splits bool.splits if_splits
        dest!: settled_self [OF gather_loop_settled [OF policy _ settled_empty]])
qed

text \<open>
  C32. Both dispatchers: an event is blocked exactly when one of the executions they kept blocks it,
  and then that one is the last they kept. An execution blocks when it denies a tool call, blocks
  a stop, a prompt or a compaction, or, for \<open>PreToolUse\<close> alone, when it has no decision: a hook
  that fails, times out or prints nothing stops a tool call and no other event.
\<close>

theorem dispatch_blocks_iff:
  assumes "dispatch env reg snap clock ev inp tool = Inr r
    \<or> dispatch_async env reg snap late t ev inp tool = Inr r"
  shows "(blocked r \<longleftrightarrow> list_ex (blocks ev) (results r))
    \<and> filter (blocks ev) (butlast (results r)) = []"
proof -
  have "settled ev (blocked r) r" using assms by (elim disjE) (rule dispatch_settled dispatch_async_settled, assumption)+
  then show ?thesis
    by (cases "blocked r")
      (auto simp: settled_def filter_empty_conv list_ex_iff dest: in_set_butlastD)
qed

section \<open>How permissions combine\<close>

definition choice_of :: "hook_execution \<Rightarrow> permission_choice option" where
  "choice_of x = (case exec_decision x of Some (PreToolUse p u why) \<Rightarrow> Some p | _ \<Rightarrow> None)"

text \<open>The choices as texts.\<close>

definition choices :: "dispatch_result \<Rightarrow> permission_choice set" where
  "choices r = {as_text p | p. Some p \<in> choice_of ` set (results r)}"

definition combined :: "permission_choice set \<Rightarrow> permission_choice option" where
  "combined ps =
     (if ASK \<in> ps then Some ASK else if ALLOW \<in> ps then Some ALLOW
      else if DEFER \<in> ps then Some DEFER else None)"

lemma merge_combined:
  assumes "as_text p \<noteq> DENY" "map_option as_text perm = combined ps"
  shows "map_option as_text (merge_permission perm p) = combined (insert (as_text p) ps)"
proof (cases perm)
  case None
  then show ?thesis using assms by (cases p) (auto simp: combined_def split: if_splits)
next
  case (Some c)
  have "as_text c = ASK \<or> as_text c = ALLOW \<or> as_text c = DEFER" using assms(2) Some by (auto simp: combined_def split: if_splits)
  then show ?thesis
    using assms Some by (cases p) (auto simp: combined_def index_of_def precedence_def split: if_splits)
qed

lemma absorb_combines:
  assumes "absorb ''PreToolUse'' name x policy b perm r = Inr (False, perm', r')"
    "policy_for ''PreToolUse'' = Inr policy" "map_option as_text perm = combined (choices r)"
  shows "map_option as_text perm' = combined (choices r')"
proof -
  have eff: "results r' = results r @ [x]" "\<not> blocks ''PreToolUse'' x"
    using absorb_effect [OF assms(1,2)] by auto
  have split: "choices r' = choices r \<union> {as_text p | p. choice_of x = Some p}"
    using eff(1) by (auto simp: choices_def image_iff)
  show ?thesis
  proof (cases "choice_of x")
    case None
    then have "perm' = perm"
      using assms(1) by (auto simp: absorb_def choice_of_def split: sum.splits bool.splits option.splits hook_decision.splits)
    then show ?thesis using assms(3) split None by simp
  next
    case (Some p)
    then obtain u why where d: "exec_decision x = Some (PreToolUse p u why)"
      by (auto simp: choice_of_def split: option.splits hook_decision.splits)
    then have "as_text p \<noteq> DENY" using eff(2) by (simp add: blocks_def)
    moreover have "perm' = merge_permission perm p"
      using assms(1) d by (auto simp: absorb_def split: sum.splits bool.splits)
    ultimately show ?thesis using merge_combined [OF _ assms(3)] split Some by simp
  qed
qed

lemma dispatch_loop_combines:
  assumes "policy_for ''PreToolUse'' = Inr policy"
  shows "dispatch_loop env ''PreToolUse'' inp policy clock i hs perm r = Inr (False, perm', r')
    \<Longrightarrow> map_option as_text perm = combined (choices r) \<Longrightarrow> map_option as_text perm' = combined (choices r')"
proof (induction hs arbitrary: i perm r)
  case (Cons h hs)
  then obtain x perm1 r1 where step:
    "absorb ''PreToolUse'' (reg_name h) x policy (is_blockable_event ''PreToolUse'') perm r = Inr (False, perm1, r1)"
    "dispatch_loop env ''PreToolUse'' inp policy clock (i + 1) hs perm1 r1 = Inr (False, perm', r')"
    by (auto split: if_splits sum.splits bool.splits)
  then show ?case using Cons.IH absorb_combines [OF step(1) assms Cons.prems(2)] by blast
qed simp

lemma choices_conclude [simp]: "choices (conclude ev t perm r) = choices r"
  by (simp add: choices_def conclude_def Let_def)

text \<open>
  When no hook blocks a tool call, the text of the permission of the call is ASK if some hook asks, else
  ALLOW if some hook allows, else DEFER if some hook defers, else ALLOW: the order of the hooks
  does not matter, and deferring gives way to every other choice, although the declared
  precedence puts it right after a denial.
\<close>

theorem permissions_combine:
  assumes "dispatch env reg snap clock ''PreToolUse'' inp tool = Inr r" "\<not> blocked r"
  shows "map_option as_text (permission r) = Some (if ASK \<in> choices r then ASK else if ALLOW \<in> choices r then ALLOW
    else if DEFER \<in> choices r then DEFER else ALLOW)"
proof -
  obtain policy where policy: "policy_for ''PreToolUse'' = Inr policy"
    using assms(1) by (auto simp: dispatch_def split: sum.splits)
  let ?hs = "get_hooks (fullmatch env) snap ''PreToolUse'' tool reg"
  obtain early perm r1 where loop:
    "dispatch_loop env ''PreToolUse'' inp policy clock 0 ?hs None empty_result = Inr (early, perm, r1)"
    using assms(1) policy by (auto simp: dispatch_def Let_def split: sum.splits)
  have "\<not> early"
    using dispatch_loop_settled [OF policy loop settled_empty] assms policy loop
    by (auto simp: dispatch_def settled_def)
  then have r: "r = conclude ''PreToolUse'' (clock (length ?hs)) perm r1"
    and full: "dispatch_loop env ''PreToolUse'' inp policy clock 0 ?hs None empty_result = Inr (False, perm, r1)"
    using assms(1) policy loop by (auto simp: dispatch_def Let_def)
  have "map_option as_text None = combined (choices empty_result)"
    by (simp add: combined_def choices_def empty_result_def)
  then have "map_option as_text perm = combined (choices r1)" by (rule dispatch_loop_combines [OF policy full])
  moreover have "choices r = choices r1" "permission r = Some (the_default ALLOW perm)"
    using r by (simp_all add: conclude_def Let_def choices_def)
  ultimately show ?thesis by (cases perm) (auto simp: combined_def split: if_splits)
qed

text \<open>
  Which member the permission is, where it decides over the gate behind: it is one a hook returned, and only a
  function can return the other enumeration's.
\<close>

lemma merge_member: "merge_permission perm p = Some q \<Longrightarrow> perm = Some q \<or> p = q"
  by (cases perm) (auto split: if_splits)

lemma absorb_member:
  assumes "absorb ev name x policy b perm r = Inr (early, perm', r')" "perm' = Some p"
  shows "perm = Some p \<or> choice_of x = Some p"
  using assms merge_member [of perm _ p]
  by (fastforce simp: absorb_def choice_of_def split: sum.splits bool.splits option.splits hook_decision.splits if_splits)

lemma dispatch_loop_member:
  assumes "policy_for ev = Inr policy"
  shows "dispatch_loop env ev inp policy clock i hs perm r = Inr (early, Some p, r')
    \<Longrightarrow> perm = Some p \<or> (\<exists>h\<in>set hs. \<exists>x. execute_hook env (reg_name h) (handler h) inp policy = Inr x
          \<and> choice_of x = Some p)"
proof (induction hs arbitrary: i perm r)
  case (Cons h hs)
  show ?case
  proof (cases "ev = ''Stop'' \<and> stop_hook_active env inp")
    case True
    then show ?thesis using Cons by (auto split: if_splits)
  next
    case False
    then obtain x early1 perm1 r1 where x: "execute_hook env (reg_name h) (handler h) inp policy = Inr x"
      "absorb ev (reg_name h) x policy (is_blockable_event ev) perm r = Inr (early1, perm1, r1)"
      using Cons.prems by (auto split: if_splits sum.splits)
    have "perm1 = Some p \<or> (\<exists>h\<in>set hs. \<exists>x. execute_hook env (reg_name h) (handler h) inp policy = Inr x \<and> choice_of x = Some p)"
      using Cons x False by (cases early1) (auto split: if_splits)
    then show ?thesis using x absorb_member [OF x(2)] by auto
  qed
qed simp

text \<open>A function that answers a call with the member of the other enumeration that allows.\<close>

definition answers_hitl_allow :: "'i \<Rightarrow> 'i hook_handler \<Rightarrow> bool" where
  "answers_hitl_allow inp h =
     (case h of
        FUNCTION f \<Rightarrow> (case fst (f inp) of RETURNS (Some (PreToolUse p u why)) \<Rightarrow> p = HITL_ALLOW | _ \<Rightarrow> False)
      | _ \<Rightarrow> False)"

lemma permission_value_own: "permission_value j \<noteq> HITL_ALLOW"
  by (cases j rule: permission_value.cases) auto

lemma process_own: "execute_process name res = Inr x \<Longrightarrow> choice_of x \<noteq> Some HITL_ALLOW"
  by (auto simp: execute_process_def parse_decision_def choice_of_def failed_def decided_def Let_def permission_value_own
      split: if_splits stdout.splits sum.splits option.splits json.splits bool.splits)

lemma only_functions_override:
  assumes "execute_hook env name h inp policy = Inr x" "choice_of x = Some HITL_ALLOW"
  shows "answers_hitl_allow inp h"
proof (cases h)
  case (FUNCTION f)
  then show ?thesis
    using assms by (auto simp: execute_hook_def execute_callable_def answers_hitl_allow_def choice_of_def failed_def decided_def
        split: prod.splits outcome.splits if_splits option.splits hook_decision.splits)
next
  case (COROUTINE f)
  then show ?thesis
    using assms by (auto simp: execute_hook_def execute_callable_def choice_of_def failed_def decided_def split: if_splits)
next
  case (LEGACY_COMMAND cmd)
  then show ?thesis
    using assms process_own by (fastforce simp: execute_hook_def execute_legacy_command_def split: sum.splits)
qed (use assms process_own in \<open>auto simp: execute_hook_def choice_of_def failed_def\<close>)

definition some_hook_overrides :: "'i hook_handler hook_registry \<Rightarrow> 'i \<Rightarrow> bool" where
  "some_hook_overrides reg inp = list_ex (answers_hitl_allow inp \<circ> handler) (dict_values (hooks reg))"

lemma override_has_hook:
  assumes "dispatch env reg None clock ''PreToolUse'' inp tool = Inr r" "\<not> blocked r" "permission r = Some HITL_ALLOW"
  shows "some_hook_overrides reg inp"
proof -
  let ?ev = "''PreToolUse''"
  obtain policy where policy: "policy_for ?ev = Inr policy"
    using assms(1) by (auto simp: dispatch_def split: sum.splits)
  let ?hs = "get_hooks (fullmatch env) None ?ev tool reg"
  obtain early perm r1 where loop: "dispatch_loop env ?ev inp policy clock 0 ?hs None empty_result = Inr (early, perm, r1)"
    using assms(1) policy by (auto simp: dispatch_def Let_def split: sum.splits)
  have notearly: "\<not> early"
    using dispatch_loop_settled [OF policy loop settled_empty] assms policy loop
    by (auto simp: dispatch_def settled_def)
  then have r: "r = conclude ?ev (clock (length ?hs)) perm r1"
    using assms(1) policy loop by (auto simp: dispatch_def Let_def)
  then have "perm = Some HITL_ALLOW" using assms(3) by (cases perm) (auto simp: conclude_def Let_def)
  then obtain h x where h: "h \<in> set ?hs" "execute_hook env (reg_name h) (handler h) inp policy = Inr x"
      "choice_of x = Some HITL_ALLOW"
    using dispatch_loop_member [OF policy loop [unfolded \<open>perm = Some HITL_ALLOW\<close>]] by auto
  then have "h \<in> set (dict_values (hooks reg))" by (auto simp: get_hooks_def snapshot_def Let_def)
  then show ?thesis using only_functions_override [OF h(2,3)] by (auto simp: some_hook_overrides_def list_ex_iff)
qed

section \<open>The two dispatchers\<close>

definition is_coroutine :: "'i hook_handler \<Rightarrow> bool" where
  "is_coroutine h = (case h of COROUTINE f \<Rightarrow> True | _ \<Rightarrow> False)"

definition on_time :: "string \<Rightarrow> bool" where
  "on_time name = False"

lemma execute_agree:
  assumes "execute_hook env name h inp policy = Inr x" "\<not> is_coroutine h"
  shows "execute_hook_async env name h inp policy = x"
  using assms by (cases h) (auto simp: execute_hook_def execute_hook_async_def is_coroutine_def)

lemma run_hook_other:
  "reg_name h \<noteq> n \<Longrightarrow> dict_get (run_hook env late ev inp policy h exs) n = dict_get exs n"
  by (simp add: run_hook_def dict_get_set)

lemma run_hooks_other:
  "n \<notin> reg_name ` set hs \<Longrightarrow> dict_get (fold (run_hook env late ev inp policy) hs exs) n = dict_get exs n"
  by (induction hs arbitrary: exs) (auto simp: run_hook_other)

lemma run_hook_keys:
  "fst ` set (run_hook env late ev inp policy h exs) \<subseteq> insert (reg_name h) (fst ` set exs)"
  by (simp add: run_hook_def dom_update subset_insertI)

definition run_result ::
  "'i hook_env \<Rightarrow> string \<Rightarrow> 'i \<Rightarrow> hook_policy \<Rightarrow> 'i hook_handler registration \<Rightarrow> hook_execution option" where
  "run_result env ev inp policy h =
     (if ev = ''Stop'' \<and> stop_hook_active env inp then None
      else Some (execute_hook_async env (reg_name h) (handler h) inp policy))"

lemma run_hooks_get:
  assumes "distinct (map reg_name hs)" "h \<in> set hs" "reg_name ` set hs \<inter> fst ` set exs = {}"
  shows "dict_get (fold (run_hook env on_time ev inp policy) hs exs) (reg_name h)
    = run_result env ev inp policy h"
  using assms
proof (induction hs arbitrary: exs)
  case (Cons a hs)
  let ?exs = "run_hook env on_time ev inp policy a exs"
  show ?case
  proof (cases "h = a")
    case True
    have "dict_get exs (reg_name a) = None"
      using Cons.prems(3) by (auto simp: map_of_eq_None_iff)
    then have "dict_get ?exs (reg_name a) = run_result env ev inp policy a"
      by (auto simp: run_hook_def run_result_def on_time_def dict_get_set)
    then show ?thesis
      using True Cons.prems(1) by (simp add: run_hooks_other)
  next
    case False
    have "reg_name ` set hs \<inter> fst ` set ?exs = {}"
    proof -
      have "reg_name ` set hs \<inter> insert (reg_name a) (fst ` set exs) = {}"
        using Cons.prems(1,3) by auto
      then show ?thesis
        using run_hook_keys [of env on_time ev inp policy a exs] by blast
    qed
    then show ?thesis using Cons False by simp
  qed
qed simp

lemma loops_agree:
  assumes "dispatch_loop env ev inp policy clock i hs perm r = Inr out"
    "list_all (\<lambda>h. dict_get exs (reg_name h) = run_result env ev inp policy h \<and> \<not> is_coroutine (handler h)) hs"
  shows "gather_loop exs ev policy hs perm r = Inr out"
  using assms
  by (induction hs arbitrary: i perm r)
    (auto simp: run_result_def execute_agree split: if_splits sum.splits bool.splits)

lemma get_hooks_names:
  "distinct (map reg_name (get_hooks fm None ev tool (registry_after cs)))"
proof -
  let ?kvs = "hooks (registry_after cs)"
  have inv: "distinct (map fst ?kvs)" "\<forall>(n, r) \<in> set ?kvs. reg_name r = n"
    using reachable_registry [of cs] by (auto simp: registry_inv_def is_dict_def)
  have "map reg_name (dict_values ?kvs) = map fst ?kvs"
    unfolding dict_values_def using inv(2) by (auto simp: split_def)
  then have "distinct (map reg_name (dict_values ?kvs))" using inv(1) by simp
  then show ?thesis
    by (auto simp: get_hooks_def snapshot_def Let_def distinct_map inj_on_def)
qed

definition same_result :: "dispatch_result \<Rightarrow> dispatch_result \<Rightarrow> bool" where
  "same_result a b \<longleftrightarrow> a\<lparr>total_duration_ms := 0\<rparr> = b\<lparr>total_duration_ms := 0\<rparr>"

lemma conclude_same: "same_result (conclude ev t perm r) (conclude ev t' perm r)"
  by (simp add: same_result_def conclude_def Let_def)

text \<open>
  The concurrent dispatcher refines the serial one: after any history of registrations, when
  some hook matches, none is a coroutine and the serial dispatcher returns, the concurrent one
  returns the same result, durations apart, whatever the order in which the hooks end, unless one
  of them is late.
\<close>

theorem async_dispatch_refines_sync:
  assumes "dispatch env (registry_after cs) None clock ev inp tool = Inr r"
    "get_hooks (fullmatch env) None ev tool (registry_after cs) \<noteq> []"
    "list_all (\<lambda>h. \<not> is_coroutine (handler h)) (get_hooks (fullmatch env) None ev tool (registry_after cs))"
  shows "\<exists>r'. dispatch_async env (registry_after cs) None on_time t ev inp tool = Inr r'
    \<and> same_result r r'"
proof -
  let ?hs = "get_hooks (fullmatch env) None ev tool (registry_after cs)"
  obtain policy where policy: "policy_for ev = Inr policy"
    using assms(1) by (auto simp: dispatch_def split: sum.splits)
  obtain early perm r1 where loop:
    "dispatch_loop env ev inp policy clock 0 ?hs None empty_result = Inr (early, perm, r1)"
    using assms(1) policy by (auto simp: dispatch_def Let_def split: sum.splits)
  let ?exs = "fold (run_hook env on_time ev inp policy) ?hs []"
  have "\<forall>h \<in> set ?hs. dict_get ?exs (reg_name h) = run_result env ev inp policy h"
    by (intro ballI run_hooks_get get_hooks_names) auto
  then have "gather_loop ?exs ev policy ?hs None empty_result = Inr (early, perm, r1)"
    using assms(3) by (intro loops_agree [OF loop]) (simp add: list_all_iff)
  then show ?thesis
    using assms(1,2) policy loop
    by (cases early) (auto simp: dispatch_def dispatch_async_def Let_def same_result_def conclude_def)
qed

section \<open>Verdicts of commands\<close>

lemma lifecycle_names_plain:
  "list_all (\<lambda>(n, e). \<not> contains_str (str_lower n) ''stop_hook'') event_names"
  by code_simp

text \<open>
  A command that prints the documented verdict \<open>{"decision": "block"}\<close> for any of the sixteen
  events makes the parser raise: it asks for \<open>stop_hook\<close> in the name of the event, which no event
  has, and otherwise builds a decision with a field it does not have. No command can block a stop.
\<close>

theorem block_verdict_raises:
  assumes "map_of kvs ''decision'' = Some (J_STR ''block'')"
    "map_of kvs ''hook_event_name'' = Some (J_STR ev)" "policy_for ev = Inr policy"
    "map_of kvs ''hookSpecificOutput'' = None" "map_of kvs ''permissionDecision'' = None"
    "\<not> proc_timed_out res" "returncode res = 0" "stdout res = JSON (J_OBJECT kvs)"
  shows "execute_process name res = Inl TYPE_ERROR"
proof -
  obtain e where "map_of event_names ev = Some e" using assms(3) by (rule policy_for_cases)
  then have "\<not> contains_str (str_lower ev) ''stop_hook''"
    using lifecycle_names_plain by (auto simp: list_all_iff dest!: map_of_SomeD)
  then have "parse_decision (J_OBJECT kvs) = Inl TYPE_ERROR"
    using assms(1,2,4,5) by (simp add: parse_decision_def)
  then show ?thesis using assms(6-8) by (simp add: execute_process_def)
qed

section \<open>Concrete runs\<close>

definition silent :: process_result where
  "silent = \<lparr>returncode = 0, stdout = BLANK, proc_timed_out = False, proc_ms = 0\<rparr>"

definition plain_env :: "unit hook_env" where
  "plain_env = \<lparr>runner = (\<lambda>argv inp t. silent), shlex_split = (\<lambda>s. None),
     fullmatch = (\<lambda>p s. False), stop_hook_active = (\<lambda>inp. False)\<rparr>"

definition says :: "permission_choice \<Rightarrow> unit hook_handler" where
  "says p = FUNCTION (\<lambda>inp. (RETURNS (Some (PreToolUse p None (J_STR []))), 0))"

definition audit_hook :: "unit hook_handler registry_call list" where
  "audit_hook = [Register ''audit'' ''PreToolUse'' (COMMAND [''true'']) None 100]"

definition two_hooks :: "unit hook_handler registry_call list" where
  "two_hooks = [Register ''late'' ''PreToolUse'' (says ASK) None 20,
     Register ''early'' ''PreToolUse'' (says DEFER) None 10]"

lemma audit_run:
  "dispatch plain_env (registry_after audit_hook) None (\<lambda>i. 0) ''PreToolUse'' () ''Bash''
    = Inr (empty_result\<lparr>results := [failed ''audit'' (ExitCode 0) 0 False], blocked := True,
        block_reason := HookFailed ''audit'' (ExitCode 0)\<rparr>)"
  by code_simp

lemma two_run:
  "dispatch plain_env (registry_after two_hooks) None (\<lambda>i. 0) ''PreToolUse'' () ''Bash''
    = Inr (empty_result\<lparr>results := [decided ''early'' (Some (PreToolUse DEFER None (J_STR []))) 0,
        decided ''late'' (Some (PreToolUse ASK None (J_STR []))) 0], permission := Some ASK\<rparr>)"
  by code_simp

theorem dispatch_blocks_iff_witness:
  "\<exists>r. dispatch plain_env (registry_after audit_hook) None (\<lambda>i. 0) ''PreToolUse'' () ''Bash'' = Inr r
    \<and> blocked r \<and> list_ex (blocks ''PreToolUse'') (results r)"
  using dispatch_blocks_iff [OF disjI1, OF audit_run] audit_run by auto

theorem permissions_combine_witness:
  "\<exists>r. dispatch plain_env (registry_after two_hooks) None (\<lambda>i. 0) ''PreToolUse'' () ''Bash'' = Inr r
    \<and> choices r = {ASK, DEFER} \<and> permission r = Some ASK"
  using permissions_combine [OF two_run] two_run
  by (auto simp: choices_def choice_of_def decided_def empty_result_def intro: exI [of _ DEFER] exI [of _ ASK])

lemma two_agree:
  "get_hooks (fullmatch plain_env) None ''PreToolUse'' ''Bash'' (registry_after two_hooks) \<noteq> []
   \<and> list_all (\<lambda>h. \<not> is_coroutine (handler h))
      (get_hooks (fullmatch plain_env) None ''PreToolUse'' ''Bash'' (registry_after two_hooks))"
  by code_simp

theorem async_dispatch_refines_sync_witness:
  "\<exists>r r'. dispatch plain_env (registry_after two_hooks) None (\<lambda>i. 0) ''PreToolUse'' () ''Bash'' = Inr r
    \<and> dispatch_async plain_env (registry_after two_hooks) None on_time 1 ''PreToolUse'' () ''Bash'' = Inr r'
    \<and> same_result r r' \<and> permission r = Some ASK"
  using async_dispatch_refines_sync [OF two_run, of 1] two_agree two_run by auto

definition block_verdict :: "(string \<times> json) list" where
  "block_verdict = [(''decision'', J_STR ''block''), (''hook_event_name'', J_STR ''Stop''),
     (''reason'', J_STR ''tests fail'')]"

lemma stop_policy: "policy_for ''Stop'' = Inr (policy_of STOP)"
  by code_simp

theorem block_verdict_raises_witness:
  "execute_process ''gate'' (silent\<lparr>stdout := JSON (J_OBJECT block_verdict)\<rparr>) = Inl TYPE_ERROR"
  by (rule block_verdict_raises [of _ "''Stop''" "policy_of STOP"])
    (simp_all add: block_verdict_def silent_def stop_policy)

end
