(* ===== verification/Conversation.thy ===== *)
theory Conversation
  imports Json_Values
begin

text \<open>
  \<^verbatim>\<open>runtime_core/native_message.py\<close>, \<^verbatim>\<open>model_actions.py\<close>, \<^verbatim>\<open>conversation_state.py\<close>,
  \<^verbatim>\<open>message_validator.py\<close> and the outcomes of \<^verbatim>\<open>ports.py\<close>: the messages of a run, the state that
  pairs every \<open>tool_use\<close> with its \<open>tool_result\<close>, and the check made before a request. A dataclass
  field holds a value of its declared type. The lemmas show that the index of open tool uses is
  the one the messages determine, that draining closes it, and what survives the wire format.
\<close>

section \<open>Messages\<close>

type_synonym json_object = "(string \<times> json) list"

text \<open>A text block is its text and its cache control.\<close>

type_synonym text_block = "string \<times> json_object option"

datatype result_content = RC_TEXT string | RC_BLOCKS "text_block list"

datatype content_block =
    TEXT text_block
  | TOOL_USE string string json_object
  | TOOL_RESULT string result_content bool

datatype role = USER | ASSISTANT | SYSTEM

record native_message =
  msg_role :: role
  content :: "content_block list"

definition text_message :: "role \<Rightarrow> string \<Rightarrow> native_message" where
  "text_message r s = \<lparr>msg_role = r, content = [TEXT (s, None)]\<rparr>"

definition assistant_with_tools :: "string \<Rightarrow> content_block list \<Rightarrow> native_message" where
  "assistant_with_tools s uses =
     \<lparr>msg_role = ASSISTANT, content = (if s = [] then [] else [TEXT (s, None)]) @ uses\<rparr>"

definition result_message :: "content_block \<Rightarrow> native_message" where
  "result_message b = \<lparr>msg_role = USER, content = [b]\<rparr>"

fun is_tool_use :: "content_block \<Rightarrow> bool" where
  "is_tool_use (TOOL_USE i n x) = True"
| "is_tool_use _ = False"

fun is_tool_result :: "content_block \<Rightarrow> bool" where
  "is_tool_result (TOOL_RESULT i c e) = True"
| "is_tool_result _ = False"

definition has_tool_uses :: "native_message \<Rightarrow> bool" where
  "has_tool_uses m = list_ex is_tool_use (content m)"

definition has_tool_results :: "native_message \<Rightarrow> bool" where
  "has_tool_results m = list_ex is_tool_result (content m)"

fun block_text :: "content_block \<Rightarrow> string list" where
  "block_text (TEXT (s, c)) = [s]"
| "block_text _ = []"

definition message_text :: "native_message \<Rightarrow> string" where
  "message_text m = str_join [CHR 0x0A] (concat (map block_text (content m)))"

section \<open>The wire format\<close>

fun role_name :: "role \<Rightarrow> string" where
  "role_name USER = ''user''"
| "role_name ASSISTANT = ''assistant''"
| "role_name SYSTEM = ''system''"

fun text_api :: "text_block \<Rightarrow> json" where
  "text_api (s, c) = J_OBJECT ([(''type'', J_STR ''text''), (''text'', J_STR s)]
     @ (case c of None \<Rightarrow> [] | Some d \<Rightarrow> [(''cache_control'', J_OBJECT d)]))"

fun content_api :: "result_content \<Rightarrow> json" where
  "content_api (RC_TEXT s) = J_STR s"
| "content_api (RC_BLOCKS bs) = J_ARRAY (map text_api bs)"

fun block_api :: "content_block \<Rightarrow> json" where
  "block_api (TEXT t) = text_api t"
| "block_api (TOOL_USE i n x) = J_OBJECT [(''type'', J_STR ''tool_use''), (''id'', J_STR i),
     (''name'', J_STR n), (''input'', J_OBJECT x)]"
| "block_api (TOOL_RESULT i c e) = J_OBJECT ([(''type'', J_STR ''tool_result''),
     (''tool_use_id'', J_STR i), (''content'', content_api c)]
     @ (if e then [(''is_error'', J_BOOL True)] else []))"

definition to_api_dict :: "native_message \<Rightarrow> json" where
  "to_api_dict m =
     J_OBJECT [(''role'', J_STR (role_name (msg_role m))),
       (''content'',
         case content m of
           [] \<Rightarrow> J_STR []
         | [TEXT (s, c)] \<Rightarrow> J_STR s
         | bs \<Rightarrow> J_ARRAY (map block_api bs))]"

text \<open>\<open>None\<close> is a field whose value is not of its declared type, which the code stores unchecked.\<close>

fun as_str :: "json \<Rightarrow> string option" where
  "as_str (J_STR s) = Some s"
| "as_str _ = None"

fun as_object :: "json \<Rightarrow> json_object option" where
  "as_object (J_OBJECT d) = Some d"
| "as_object _ = None"

definition field :: "json_object \<Rightarrow> string \<Rightarrow> json \<Rightarrow> json" where
  "field d k dflt = the_default dflt (map_of d k)"

fun parse_role :: "string \<Rightarrow> role option" where
  "parse_role s = (if s = ''user'' then Some USER else if s = ''assistant'' then Some ASSISTANT
     else if s = ''system'' then Some SYSTEM else None)"

fun those_of :: "'a option list \<Rightarrow> 'a list option" where
  "those_of [] = Some []"
| "those_of (x # xs) =
     (case x of None \<Rightarrow> None | Some a \<Rightarrow> (case those_of xs of None \<Rightarrow> None | Some as \<Rightarrow> Some (a # as)))"

definition cache_field :: "json_object \<Rightarrow> json_object option option" where
  "cache_field d =
     (case map_of d ''cache_control'' of
        None \<Rightarrow> Some None
      | Some J_NULL \<Rightarrow> Some None
      | Some j \<Rightarrow> (case as_object j of None \<Rightarrow> None | Some c \<Rightarrow> Some (Some c)))"

fun sub_text :: "json \<Rightarrow> string option list" where
  "sub_text (J_OBJECT d) =
     (if map_of d ''type'' = Some (J_STR ''text'') then [as_str (field d ''text'' (J_STR []))] else [])"
| "sub_text _ = []"

fun sub_content :: "json \<Rightarrow> result_content option" where
  "sub_content (J_STR s) = Some (RC_TEXT s)"
| "sub_content (J_ARRAY js) =
     (case those_of (concat (map sub_text js)) of
        None \<Rightarrow> None
      | Some [] \<Rightarrow> Some (RC_TEXT [])
      | Some ss \<Rightarrow> Some (RC_BLOCKS (map (\<lambda>s. (s, None)) ss)))"
| "sub_content _ = None"

fun parse_block :: "json \<Rightarrow> content_block option list" where
  "parse_block (J_OBJECT d) =
     (if field d ''type'' (J_STR []) = J_STR ''text'' then
        [case (as_str (field d ''text'' (J_STR [])), cache_field d) of
           (Some s, Some c) \<Rightarrow> Some (TEXT (s, c)) | _ \<Rightarrow> None]
      else if field d ''type'' (J_STR []) = J_STR ''tool_use'' then
        [case (as_str (field d ''id'' (J_STR [])), as_str (field d ''name'' (J_STR [])),
               as_object (field d ''input'' (J_OBJECT []))) of
           (Some i, Some n, Some x) \<Rightarrow> Some (TOOL_USE i n x) | _ \<Rightarrow> None]
      else if field d ''type'' (J_STR []) = J_STR ''tool_result'' then
        [case (as_str (field d ''tool_use_id'' (J_STR [])), sub_content (field d ''content'' (J_STR []))) of
           (Some i, Some c) \<Rightarrow> Some (TOOL_RESULT i c (truthy (field d ''is_error'' (J_BOOL False))))
         | _ \<Rightarrow> None]
      else [])"
| "parse_block _ = []"

definition from_api_dict :: "json_object \<Rightarrow> native_message option" where
  "from_api_dict d =
     (case as_str (field d ''role'' (J_STR ''user'')) of
        None \<Rightarrow> None
      | Some rn \<Rightarrow>
          (case parse_role rn of
             None \<Rightarrow> None
           | Some r \<Rightarrow>
               (case field d ''content'' (J_STR []) of
                  J_STR s \<Rightarrow> Some (text_message r s)
                | J_ARRAY js \<Rightarrow>
                    (case those_of (concat (map parse_block js)) of
                       None \<Rightarrow> None | Some bs \<Rightarrow> Some \<lparr>msg_role = r, content = bs\<rparr>)
                | _ \<Rightarrow> Some \<lparr>msg_role = r, content = []\<rparr>)))"

definition to_api_format :: "native_message list \<Rightarrow> json list" where
  "to_api_format ms = map to_api_dict (filter (\<lambda>m. msg_role m \<noteq> SYSTEM) ms)"

section \<open>Actions of the model and outcomes of tools\<close>

record token_usage =
  input_tokens :: int
  output_tokens :: int
  cache_read_tokens :: int
  cache_write_tokens :: int

record tool_call =
  call_id :: string
  call_name :: string
  call_params :: json_object
  call_usage :: "token_usage option"

datatype model_action =
    AssistantText string string "token_usage option"
  | ToolCall tool_call
  | ToolCallBatch "tool_call list" "token_usage option"
  | ModelStop string string "token_usage option"
  | ModelRefusal string "token_usage option"
  | ModelFailure string bool "token_usage option"

fun action_usage :: "model_action \<Rightarrow> token_usage option" where
  "action_usage (AssistantText s r u) = u"
| "action_usage (ToolCall c) = call_usage c"
| "action_usage (ToolCallBatch cs u) = u"
| "action_usage (ModelStop r s u) = u"
| "action_usage (ModelRefusal r u) = u"
| "action_usage (ModelFailure e b u) = u"

datatype tool_error_type =
    TOOL_TIMEOUT | PERMISSION_REFUSED | NETWORK_ERROR | VALIDATION_ERROR | TOOL_NOT_FOUND
  | EXECUTION_ERROR | RESOURCE_EXHAUSTED | TOOL_CANCELLED

datatype tool_outcome =
    ToolSuccess string string rat
  | ToolFailure string string tool_error_type rat
  | ToolDenied string string
  | OtherOutcome string

fun tool_retryable :: "tool_error_type \<Rightarrow> bool" where
  "tool_retryable PERMISSION_REFUSED = False"
| "tool_retryable TOOL_NOT_FOUND = False"
| "tool_retryable TOOL_CANCELLED = False"
| "tool_retryable _ = True"

section \<open>The state of a conversation\<close>

record conversation_state =
  messages :: "native_message list"
  pending :: "(string, content_block) dict"
  transition :: string

definition new_state :: conversation_state where
  "new_state = \<lparr>messages = [], pending = [], transition = []\<rparr>"

definition push :: "native_message \<Rightarrow> conversation_state \<Rightarrow> conversation_state" where
  "push m s = s\<lparr>messages := messages s @ [m]\<rparr>"

definition add_user_message :: "string \<Rightarrow> conversation_state \<Rightarrow> conversation_state" where
  "add_user_message txt s = push (text_message USER txt) s"

definition add_system_message :: "string \<Rightarrow> conversation_state \<Rightarrow> conversation_state" where
  "add_system_message txt s = push (text_message SYSTEM txt) s"

definition use_block :: "tool_call \<Rightarrow> content_block" where
  "use_block c = TOOL_USE (call_id c) (call_name c) (call_params c)"

definition add_tool_uses :: "tool_call list \<Rightarrow> conversation_state \<Rightarrow> conversation_state" where
  "add_tool_uses cs s =
     push (assistant_with_tools [] (map use_block cs))
       (s\<lparr>pending := fold (\<lambda>c. dict_set (call_id c) (use_block c)) cs (pending s)\<rparr>)"

fun add_assistant_message :: "model_action \<Rightarrow> conversation_state \<Rightarrow> conversation_state" where
  "add_assistant_message (AssistantText txt r u) s = push (text_message ASSISTANT txt) s"
| "add_assistant_message (ModelStop r txt u) s = push (text_message ASSISTANT (or_else txt r)) s"
| "add_assistant_message (ToolCall c) s = add_tool_uses [c] s"
| "add_assistant_message (ToolCallBatch cs u) s = add_tool_uses cs s"
| "add_assistant_message (ModelRefusal r u) s =
     push (text_message ASSISTANT (or_else r ''Model refused to respond'')) s"
| "add_assistant_message (ModelFailure e retry u) s =
     (if retry then s else push (text_message ASSISTANT (''Model error: '' @ e)) s)"

fun result_block :: "string \<Rightarrow> tool_outcome \<Rightarrow> content_block" where
  "result_block i (ToolSuccess n out ms) = TOOL_RESULT i (RC_TEXT out) False"
| "result_block i (ToolFailure n e ty ms) = TOOL_RESULT i (RC_TEXT (or_else e ''Tool execution failed'')) True"
| "result_block i (ToolDenied n r) =
     TOOL_RESULT i (RC_TEXT (''Tool denied: '' @ or_else r ''Tool call denied'')) True"
| "result_block i (OtherOutcome ty) = TOOL_RESULT i (RC_TEXT (''Unknown tool outcome: '' @ ty)) True"

definition add_tool_result :: "tool_outcome \<Rightarrow> tool_call \<Rightarrow> conversation_state \<Rightarrow> conversation_state" where
  "add_tool_result out c s =
     (push (result_message (result_block (call_id c) out)) s)\<lparr>pending := dict_del (call_id c) (pending s)\<rparr>"

fun index_block :: "content_block \<Rightarrow> (string, content_block) dict \<Rightarrow> (string, content_block) dict" where
  "index_block (TOOL_USE i n x) d = (if i \<noteq> [] then dict_set i (TOOL_USE i n x) d else d)"
| "index_block (TOOL_RESULT i c e) d = (if i \<noteq> [] then dict_del i d else d)"
| "index_block (TEXT t) d = d"

definition add_raw_message :: "native_message \<Rightarrow> conversation_state \<Rightarrow> conversation_state" where
  "add_raw_message m s = (push m s)\<lparr>pending := fold index_block (content m) (pending s)\<rparr>"

definition rebuild_from :: "native_message list \<Rightarrow> conversation_state" where
  "rebuild_from ms = fold add_raw_message ms new_state"

definition interrupted :: "string \<Rightarrow> native_message" where
  "interrupted i = result_message
     (TOOL_RESULT i (RC_TEXT ''Tool execution interrupted (no result received)'') True)"

definition drain_one :: "string \<Rightarrow> conversation_state \<Rightarrow> conversation_state" where
  "drain_one i s = (push (interrupted i) s)\<lparr>pending := dict_del i (pending s)\<rparr>"

definition drain_pending_as_errors :: "conversation_state \<Rightarrow> conversation_state" where
  "drain_pending_as_errors s = fold drain_one (dict_keys (pending s)) s"

definition record_transition :: "string \<Rightarrow> conversation_state \<Rightarrow> conversation_state" where
  "record_transition why s = s\<lparr>transition := why\<rparr>"

definition last_message :: "conversation_state \<Rightarrow> native_message option" where
  "last_message s = (if messages s = [] then None else Some (last (messages s)))"

definition has_pending_tool_uses :: "conversation_state \<Rightarrow> bool" where
  "has_pending_tool_uses s \<longleftrightarrow> length (pending s) > 0"

section \<open>The check before a request\<close>

datatype violation =
    EmptyConversation
  | SystemNotFirst nat
  | SystemToolUse nat
  | ConsecutiveAssistant nat
  | EmptyContent nat role
  | EmptyResultArray nat string
  | ToolUseOutsideAssistant nat string string
  | ToolUseWithoutId nat string
  | ToolUseWithoutName nat string

datatype advice =
    ConsecutiveUser nat
  | EmptyResultText nat string
  | UnmatchedToolUses "string list"
  | TooMuchText nat

record validation =
  errors :: "violation list"
  advices :: "advice list"

definition valid :: "validation \<Rightarrow> bool" where
  "valid v \<longleftrightarrow> errors v = []"

fun system_position :: "nat \<Rightarrow> bool \<Rightarrow> native_message list \<Rightarrow> violation list" where
  "system_position i seen [] = []"
| "system_position i seen (m # ms) =
     (if msg_role m = SYSTEM
      then (if seen then [SystemNotFirst i] else []) @ (if has_tool_uses m then [SystemToolUse i] else [])
             @ system_position (i + 1) seen ms
      else system_position (i + 1) True ms)"

datatype effective_role = AS_TOOL_RESULT | AS_ROLE role

definition effective_role_of :: "native_message \<Rightarrow> effective_role" where
  "effective_role_of m =
     (if has_tool_results m \<and> \<not> has_tool_uses m then AS_TOOL_RESULT
      else if has_tool_uses m then AS_ROLE ASSISTANT else AS_ROLE (msg_role m))"

fun alternating_roles ::
  "nat \<Rightarrow> effective_role option \<Rightarrow> native_message list \<Rightarrow> violation list \<times> advice list" where
  "alternating_roles i prev [] = ([], [])"
| "alternating_roles i prev (m # ms) =
     (if msg_role m = SYSTEM then alternating_roles (i + 1) prev ms
      else
        (let r = effective_role_of m;
             (es, ws) = alternating_roles (i + 1) (Some r) ms
         in ((if prev = Some r \<and> r = AS_ROLE ASSISTANT then [ConsecutiveAssistant i] else []) @ es,
             (if prev = Some r \<and> r = AS_ROLE USER then [ConsecutiveUser i] else []) @ ws)))"

fun block_errors :: "role \<Rightarrow> nat \<Rightarrow> content_block \<Rightarrow> violation list \<times> advice list" where
  "block_errors r i (TEXT t) = ([], [])"
| "block_errors r i (TOOL_RESULT u c e) =
     (case c of
        RC_BLOCKS bs \<Rightarrow> (if bs = [] then [EmptyResultArray i u] else [], [])
      | RC_TEXT s \<Rightarrow> ([], if str_strip s = [] then [EmptyResultText i u] else []))"
| "block_errors r i (TOOL_USE u n x) =
     ((if r \<noteq> ASSISTANT then [ToolUseOutsideAssistant i u n] else [])
        @ (if u = [] then [ToolUseWithoutId i n] else [])
        @ (if n = [] then [ToolUseWithoutName i u] else []), [])"

definition message_blocks :: "nat \<Rightarrow> native_message \<Rightarrow> violation list \<times> advice list" where
  "message_blocks i m =
     (if content m = [] then ([EmptyContent i (msg_role m)], [])
      else (concat (map (fst \<circ> block_errors (msg_role m) i) (content m)),
            concat (map (snd \<circ> block_errors (msg_role m) i) (content m))))"

fun use_id :: "content_block \<Rightarrow> string list" where
  "use_id (TOOL_USE i n x) = (if i = [] then [] else [i])"
| "use_id _ = []"

fun result_id :: "content_block \<Rightarrow> string list" where
  "result_id (TOOL_RESULT i c e) = (if i = [] then [] else [i])"
| "result_id _ = []"

definition blocks_of :: "native_message list \<Rightarrow> content_block list" where
  "blocks_of ms = concat (map content ms)"

definition unmatched_ids :: "native_message list \<Rightarrow> string list" where
  "unmatched_ids ms =
     sort (remdups (filter (\<lambda>i. i \<notin> set (concat (map result_id (blocks_of ms))))
       (concat (map use_id (blocks_of ms)))))"

definition tool_pairing :: "native_message list \<Rightarrow> advice list" where
  "tool_pairing ms = (if unmatched_ids ms = [] then [] else [UnmatchedToolUses (unmatched_ids ms)])"

fun text_chars :: "content_block \<Rightarrow> nat" where
  "text_chars (TEXT (s, c)) = length s"
| "text_chars (TOOL_RESULT i (RC_TEXT s) e) = length s"
| "text_chars _ = 0"

definition content_sizes :: "native_message list \<Rightarrow> advice list" where
  "content_sizes ms =
     (let n = sum_list (map text_chars (blocks_of ms)) in if n > 1000000 then [TooMuchText n] else [])"

definition validate_messages :: "native_message list \<Rightarrow> validation" where
  "validate_messages ms =
     (if ms = [] then \<lparr>errors = [EmptyConversation], advices = []\<rparr>
      else
        (let (es2, ws2) = alternating_roles 0 None ms;
             per = map (\<lambda>(i, m). message_blocks i m) (zip [0..<length ms] ms)
         in \<lparr>errors = system_position 0 False ms @ es2 @ concat (map fst per),
              advices = ws2 @ concat (map snd per) @ tool_pairing ms @ content_sizes ms\<rparr>))"

section \<open>The index of open tool uses\<close>

definition index_of :: "native_message list \<Rightarrow> (string, content_block) dict" where
  "index_of ms = fold index_block (blocks_of ms) []"

definition indexed :: "conversation_state \<Rightarrow> bool" where
  "indexed s \<longleftrightarrow> pending s = index_of (messages s) \<and> [] \<notin> fst ` set (pending s)"

lemma index_of_snoc: "index_of (ms @ [m]) = fold index_block (content m) (index_of ms)"
  by (simp add: index_of_def blocks_of_def)

lemma index_block_keys: "[] \<notin> fst ` set d \<Longrightarrow> [] \<notin> fst ` set (index_block b d)"
  by (cases b) (auto simp: dom_update AList.delete_eq)

lemma index_blocks_keys: "[] \<notin> fst ` set d \<Longrightarrow> [] \<notin> fst ` set (fold index_block bs d)"
  by (induction bs arbitrary: d) (auto simp: index_block_keys)

lemma delete_missing: "k \<notin> fst ` set d \<Longrightarrow> dict_del k d = d"
  by (force simp: AList.delete_eq filter_id_conv)

lemma index_use_blocks:
  "list_all (\<lambda>c. call_id c \<noteq> []) cs \<Longrightarrow>
   fold index_block (map use_block cs) d = fold (\<lambda>c. dict_set (call_id c) (use_block c)) cs d"
  by (induction cs arbitrary: d) (auto simp: use_block_def)

lemma result_block_id: "\<exists>c e. result_block i out = TOOL_RESULT i c e"
  by (cases out) auto

lemma index_text [simp]: "fold index_block (content (text_message r s)) d = d"
  by (simp add: text_message_def)

lemma indexed_push:
  assumes "indexed s"
  shows "indexed ((push m s)\<lparr>pending := fold index_block (content m) (pending s)\<rparr>)"
proof -
  have "[] \<notin> fst ` set (fold index_block (content m) (pending s))"
    using assms unfolding indexed_def by (intro index_blocks_keys) blast
  moreover have "pending s = index_of (messages s)" using assms by (simp add: indexed_def)
  ultimately show ?thesis by (simp add: indexed_def push_def index_of_snoc)
qed

lemma push_text: "push (text_message r t) s
    = (push (text_message r t) s)\<lparr>pending := fold index_block (content (text_message r t)) (pending s)\<rparr>"
  by (simp add: push_def)

lemma indexed_text: "indexed s \<Longrightarrow> indexed (push (text_message r t) s)"
  by (subst push_text) (rule indexed_push)

lemma indexed_uses:
  assumes "indexed s" "list_all (\<lambda>c. call_id c \<noteq> []) cs"
  shows "indexed (add_tool_uses cs s)"
proof -
  have "add_tool_uses cs s = (push (assistant_with_tools [] (map use_block cs)) s)
    \<lparr>pending := fold index_block (content (assistant_with_tools [] (map use_block cs))) (pending s)\<rparr>"
    using assms(2) by (simp add: add_tool_uses_def assistant_with_tools_def index_use_blocks push_def)
  then show ?thesis using indexed_push [OF assms(1)] by simp
qed

lemma indexed_delete:
  assumes "indexed s"
  shows "indexed ((push (result_message (TOOL_RESULT i c e)) s)\<lparr>pending := dict_del i (pending s)\<rparr>)"
proof -
  have "dict_del i (pending s) = fold index_block [TOOL_RESULT i c e] (pending s)"
    using assms by (auto simp: indexed_def delete_missing)
  then show ?thesis
    using indexed_push [OF assms, of "result_message (TOOL_RESULT i c e)"] by (simp add: result_message_def)
qed

lemma indexed_result:
  assumes "indexed s"
  shows "indexed (add_tool_result out c s)"
proof -
  obtain x e where "result_block (call_id c) out = TOOL_RESULT (call_id c) x e"
    using result_block_id by blast
  then show ?thesis
    using indexed_delete [OF assms, of "call_id c" x e] by (simp add: add_tool_result_def)
qed

lemma indexed_drain_one: "indexed s \<Longrightarrow> indexed (drain_one i s)"
  unfolding drain_one_def interrupted_def by (rule indexed_delete)

lemma indexed_drain_all: "indexed s \<Longrightarrow> indexed (fold drain_one ids s)"
  by (induction ids arbitrary: s) (auto intro: indexed_drain_one)

lemma indexed_new [simp]: "indexed new_state"
  by (simp add: indexed_def new_state_def index_of_def blocks_of_def)

section \<open>Histories of a conversation\<close>

datatype conv_call =
    AddUser string
  | AddSystem string
  | AddAssistant model_action
  | AddToolResult tool_outcome tool_call
  | AddRaw native_message
  | Drain
  | Transition string

fun conv_step :: "conversation_state \<Rightarrow> conv_call \<Rightarrow> conversation_state" where
  "conv_step s (AddUser t) = add_user_message t s"
| "conv_step s (AddSystem t) = add_system_message t s"
| "conv_step s (AddAssistant a) = add_assistant_message a s"
| "conv_step s (AddToolResult out c) = add_tool_result out c s"
| "conv_step s (AddRaw m) = add_raw_message m s"
| "conv_step s Drain = drain_pending_as_errors s"
| "conv_step s (Transition t) = record_transition t s"

fun action_calls :: "model_action \<Rightarrow> tool_call list" where
  "action_calls (ToolCall c) = [c]"
| "action_calls (ToolCallBatch cs u) = cs"
| "action_calls _ = []"

fun ids_given :: "conv_call \<Rightarrow> bool" where
  "ids_given (AddAssistant a) = list_all (\<lambda>c. call_id c \<noteq> []) (action_calls a)"
| "ids_given _ = True"

definition conv_step_ok :: "conversation_state \<Rightarrow> conv_call \<Rightarrow> conversation_state" where
  "conv_step_ok s x = (if ids_given x then conv_step s x else s)"

lemma indexed_assistant:
  "indexed s \<Longrightarrow> list_all (\<lambda>c. call_id c \<noteq> []) (action_calls a) \<Longrightarrow> indexed (add_assistant_message a s)"
  by (cases a) (auto intro: indexed_text indexed_uses)

lemma indexed_transition [simp]: "indexed (record_transition t s) = indexed s"
  by (simp add: indexed_def record_transition_def)

lemma indexed_step: "indexed s \<Longrightarrow> ids_given x \<Longrightarrow> indexed (conv_step s x)"
  by (cases x) (auto simp: add_user_message_def add_system_message_def add_raw_message_def
      drain_pending_as_errors_def intro: indexed_text indexed_assistant indexed_result indexed_push
      indexed_drain_all)

interpretation conversation: op_invariant conv_step_ok indexed
  by unfold_locales (simp add: conv_step_ok_def indexed_step)

lemma run_ids_given:
  "list_all ids_given xs \<Longrightarrow> foldl conv_step s xs = foldl conv_step_ok s xs"
  by (induction xs arbitrary: s) (simp_all add: conv_step_ok_def)

lemma reachable_indexed:
  "list_all ids_given xs \<Longrightarrow> indexed (foldl conv_step new_state xs)"
  using conversation.run_inv [OF indexed_new] by (simp add: run_ids_given)

lemma rebuild_raw:
  "fold add_raw_message ms s
    = s\<lparr>messages := messages s @ ms, pending := fold index_block (blocks_of ms) (pending s)\<rparr>"
  by (induction ms arbitrary: s) (simp_all add: add_raw_message_def push_def blocks_of_def)

lemma rebuild_from_eq: "rebuild_from ms = \<lparr>messages = ms, pending = index_of ms, transition = []\<rparr>"
  by (simp add: rebuild_from_def rebuild_raw new_state_def index_of_def)

text \<open>
  Crash recovery: after any sequence of additions in which every tool use has an identifier,
  rebuilding a state from the messages alone gives back the messages and the open tool uses, in
  the same order; only the reason of the last transition is lost.
\<close>

theorem rebuild_restores_state:
  assumes "list_all ids_given xs" "s = foldl conv_step new_state xs"
  shows "rebuild_from (messages s) = s\<lparr>transition := []\<rparr>"
  using reachable_indexed [OF assms(1)] assms(2) by (simp add: rebuild_from_eq indexed_def)

section \<open>Pairing\<close>

lemma open_use_stays:
  assumes "i \<noteq> []" "i \<notin> set (concat (map result_id bs))"
    "i \<in> fst ` set d \<or> i \<in> set (concat (map use_id bs))"
  shows "i \<in> fst ` set (fold index_block bs d)"
  using assms
proof (induction bs arbitrary: d)
  case (Cons b bs)
  have "i \<in> fst ` set (index_block b d) \<or> i \<in> set (concat (map use_id bs))"
    using Cons.prems by (cases b) (force simp: dom_update AList.delete_eq split: if_splits)+
  then show ?case using Cons.IH Cons.prems(1,2) by simp
qed simp

lemma use_id_nonempty: "i \<in> set (use_id b) \<Longrightarrow> i \<noteq> []"
  by (cases b) (auto split: if_splits)

lemma use_ids_nonempty: "i \<in> set (concat (map use_id bs)) \<Longrightarrow> i \<noteq> []"
  using use_id_nonempty by fastforce

lemma closed_pairs:
  assumes "index_of ms = []"
  shows "unmatched_ids ms = []"
proof -
  have "i \<in> set (concat (map result_id (blocks_of ms)))"
    if use: "i \<in> set (concat (map use_id (blocks_of ms)))" for i
  proof (rule ccontr)
    assume "i \<notin> set (concat (map result_id (blocks_of ms)))"
    then have "i \<in> fst ` set (fold index_block (blocks_of ms) [])"
      using use use_ids_nonempty [OF use] by (intro open_use_stays) auto
    then show False using assms by (simp add: index_of_def)
  qed
  then have "filter (\<lambda>i. i \<notin> set (concat (map result_id (blocks_of ms))))
      (concat (map use_id (blocks_of ms))) = []"
    by (simp add: filter_empty_conv)
  then show ?thesis unfolding unmatched_ids_def by (simp only: remdups.simps sort_key_simps)
qed

lemma drain_all_pending: "pending (fold drain_one ids s) = fold dict_del ids (pending s)"
  by (induction ids arbitrary: s) (simp_all add: drain_one_def push_def)

lemma delete_others: "fst ` set (fold dict_del ids d) = fst ` set d - set ids"
  by (induction ids arbitrary: d) (auto simp: AList.delete_eq)

lemma drained: "pending (drain_pending_as_errors s) = []"
proof -
  have "fst ` set (pending (drain_pending_as_errors s)) = {}"
    by (simp add: drain_pending_as_errors_def drain_all_pending delete_others dict_keys_def)
  then show ?thesis by simp
qed

lemma indexed_drain: "indexed s \<Longrightarrow> indexed (drain_pending_as_errors s)"
  unfolding drain_pending_as_errors_def by (rule indexed_drain_all)

text \<open>
  C34. Draining completes the protocol: after any sequence of additions in which every tool use has
  an identifier, draining leaves no open tool use, and the check before a request then finds
  every tool use of the conversation paired with a result.
\<close>

theorem drain_completes_pairing:
  assumes "list_all ids_given xs" "s = drain_pending_as_errors (foldl conv_step new_state xs)"
  shows "pending s = [] \<and> tool_pairing (messages s) = [] \<and> rebuild_from (messages s) = s\<lparr>transition := []\<rparr>"
proof -
  have "indexed s" using indexed_drain [OF reachable_indexed [OF assms(1)]] assms(2) by simp
  moreover have "pending s = []" using assms(2) by (simp add: drained)
  ultimately show ?thesis
    using closed_pairs [of "messages s"] by (simp add: indexed_def tool_pairing_def rebuild_from_eq)
qed

section \<open>The wire format and back\<close>

fun wire_block :: "content_block \<Rightarrow> content_block" where
  "wire_block (TOOL_RESULT i (RC_BLOCKS bs) e) =
     TOOL_RESULT i (if bs = [] then RC_TEXT [] else RC_BLOCKS (map (\<lambda>(s, c). (s, None)) bs)) e"
| "wire_block b = b"

fun wire_ok :: "content_block list \<Rightarrow> bool" where
  "wire_ok [] = False"
| "wire_ok [TEXT (s, c)] = (c = None)"
| "wire_ok bs = list_all (\<lambda>b. wire_block b = b) bs"

lemma parse_text: "sub_text (text_api (s, c)) = [Some s]"
  by (simp add: field_def)

lemma those_map_Some: "those_of (map Some xs) = Some xs"
  by (induction xs) auto

lemma sub_texts: "those_of (concat (map sub_text (map text_api bs))) = Some (map fst bs)"
proof -
  have "concat (map sub_text (map text_api bs)) = map Some (map fst bs)"
    by (induction bs) (auto simp: parse_text simp del: text_api.simps sub_text.simps)
  then show ?thesis by (simp only: those_map_Some)
qed

lemma sub_content_api:
  "sub_content (content_api (RC_BLOCKS bs))
     = Some (if bs = [] then RC_TEXT [] else RC_BLOCKS (map (\<lambda>(s, c). (s, None)) bs))"
  using sub_texts [of bs] by (cases bs) (auto simp: case_prod_unfold)

lemma parse_block_api: "parse_block (block_api b) = [Some (wire_block b)]"
proof (cases b)
  case (TEXT t)
  then show ?thesis by (cases t) (auto simp: field_def cache_field_def split: option.splits)
next
  case (TOOL_USE i n x)
  then show ?thesis by (simp add: field_def)
next
  case (TOOL_RESULT i c e)
  then show ?thesis
    using sub_content_api by (cases c) (auto simp: field_def simp del: content_api.simps(2))
qed

lemma parse_blocks: "those_of (concat (map parse_block (map block_api bs))) = Some (map wire_block bs)"
proof -
  have "concat (map parse_block (map block_api bs)) = map Some (map wire_block bs)"
    by (induction bs) (auto simp: parse_block_api simp del: block_api.simps parse_block.simps)
  then show ?thesis by (simp only: those_map_Some)
qed

lemma map_same: "map f xs = xs \<longleftrightarrow> list_all (\<lambda>x. f x = x) xs"
  by (induction xs) auto

lemma role_name_roundtrip [simp]: "parse_role (role_name r) = Some r"
  by (cases r) auto

declare parse_role.simps [simp del]

definition sent_as_text :: "content_block list \<Rightarrow> bool" where
  "sent_as_text bs \<longleftrightarrow> bs = [] \<or> (\<exists>t. bs = [TEXT t])"

lemma blocks_sent:
  assumes "\<not> sent_as_text bs"
  shows "to_api_dict \<lparr>msg_role = r, content = bs\<rparr>
    = J_OBJECT [(''role'', J_STR (role_name r)), (''content'', J_ARRAY (map block_api bs))]"
  using assms
  by (cases bs) (auto simp: to_api_dict_def sent_as_text_def split: content_block.splits list.splits)

lemma blocks_ok: "\<not> sent_as_text bs \<Longrightarrow> wire_ok bs \<longleftrightarrow> map wire_block bs = bs"
  by (cases bs rule: wire_ok.cases) (auto simp: sent_as_text_def map_same)

text \<open>
  The wire format: reading back what a message is sent as gives the message exactly when it is
  not empty, is not a single text with cache control (which is sent as a bare text), and none of
  its tool results is an empty list or has cache control inside.
\<close>

theorem wire_roundtrip:
  "\<exists>d. to_api_dict m = J_OBJECT d \<and> (from_api_dict d = Some m \<longleftrightarrow> wire_ok (content m))"
proof -
  obtain r bs where m: "m = \<lparr>msg_role = r, content = bs\<rparr>" by (cases m)
  show ?thesis
  proof (cases "sent_as_text bs")
    case True
    then show ?thesis
      by (auto simp: sent_as_text_def m to_api_dict_def from_api_dict_def field_def text_message_def)
  next
    case False
    then show ?thesis
      using parse_blocks [of bs]
      by (simp add: m blocks_sent blocks_ok from_api_dict_def field_def)
  qed
qed

section \<open>Concrete conversations\<close>

definition read_call :: tool_call where
  "read_call = \<lparr>call_id = ''t1'', call_name = ''Read'',
     call_params = [(''path'', J_STR ''a.py'')], call_usage = None\<rparr>"

definition shell_call :: tool_call where
  "shell_call = \<lparr>call_id = ''t2'', call_name = ''Bash'',
     call_params = [(''command'', J_STR ''ls'')], call_usage = None\<rparr>"

definition interrupted_run :: "conv_call list" where
  "interrupted_run = [AddSystem ''be brief'', AddUser ''list the files'',
     AddAssistant (ToolCallBatch [read_call, shell_call] None),
     AddToolResult (ToolSuccess ''Read'' ''x = 1'' 3) read_call, Transition ''tool_use'']"

lemma interrupted_ids: "list_all ids_given interrupted_run"
  by code_simp

theorem rebuild_restores_state_witness:
  "rebuild_from (messages (foldl conv_step new_state interrupted_run))
     = (foldl conv_step new_state interrupted_run)\<lparr>transition := []\<rparr>
   \<and> dict_keys (pending (foldl conv_step new_state interrupted_run)) = [''t2'']"
proof -
  have "dict_keys (pending (foldl conv_step new_state interrupted_run)) = [''t2'']" by code_simp
  then show ?thesis using rebuild_restores_state [OF interrupted_ids refl] by simp
qed

theorem drain_completes_pairing_witness:
  "unmatched_ids (messages (foldl conv_step new_state interrupted_run)) = [''t2'']
   \<and> tool_pairing (messages (drain_pending_as_errors (foldl conv_step new_state interrupted_run))) = []"
proof -
  have "unmatched_ids (messages (foldl conv_step new_state interrupted_run)) = [''t2'']" by code_simp
  then show ?thesis using drain_completes_pairing [OF interrupted_ids refl] by simp
qed

end
