(* ===== verification/Context_Budget.thy ===== *)
theory Context_Budget
  imports Conversation
begin

text \<open>
  \<^verbatim>\<open>runtime_core/context_budget.py\<close>: the estimate of a conversation's tokens and the two strategies
  that shorten it before a request. The text of a tool's input is \<open>show_input\<close>, the interpreter's
  \<open>str\<close> of a dict, and the decimal form of a number is \<open>show_nat\<close>. The lemmas show what the
  shortening keeps.
\<close>

section \<open>Estimates\<close>

definition estimate_tokens :: "string \<Rightarrow> nat" where
  "estimate_tokens s = (if s = [] then 0 else max 1 (length s div 3 + 1))"

fun block_tokens :: "(json_object \<Rightarrow> string) \<Rightarrow> content_block \<Rightarrow> nat" where
  "block_tokens show_input (TEXT (s, c)) = estimate_tokens s"
| "block_tokens show_input (TOOL_USE i n x) = estimate_tokens n + estimate_tokens (show_input x)"
| "block_tokens show_input (TOOL_RESULT i (RC_TEXT s) e) = estimate_tokens s"
| "block_tokens show_input (TOOL_RESULT i (RC_BLOCKS bs) e) =
     sum_list (map (\<lambda>(s, c). estimate_tokens s) bs)"

definition message_tokens :: "(json_object \<Rightarrow> string) \<Rightarrow> native_message \<Rightarrow> nat" where
  "message_tokens show_input m = 4 + sum_list (map (block_tokens show_input) (content m))"

definition conversation_tokens :: "(json_object \<Rightarrow> string) \<Rightarrow> native_message list \<Rightarrow> nat" where
  "conversation_tokens show_input ms = sum_list (map (message_tokens show_input) ms)"

section \<open>Shortening\<close>

record budget_limits =
  max_tokens :: nat
  tool_result_max_chars :: nat
  first_message_preserved :: bool

definition default_limits :: budget_limits where
  "default_limits = \<lparr>max_tokens = 180000, tool_result_max_chars = 2000, first_message_preserved = True\<rparr>"

record budget_report =
  original_tokens :: nat
  trimmed_tokens :: int
  messages_trimmed :: int
  tool_results_trimmed :: nat
  within_budget :: bool

fun digits :: "nat \<Rightarrow> string" where
  "digits n = (if n < 10 then [char_of (48 + n)] else digits (n div 10) @ [char_of (48 + n mod 10)])"

declare digits.simps [simp del]

definition truncated :: "nat \<Rightarrow> string \<Rightarrow> string" where
  "truncated n s = take n s @ [CHR 0x0A] @ ''... [truncated '' @ digits (length s - n) @ '' chars]''"

fun too_long :: "nat \<Rightarrow> content_block \<Rightarrow> bool" where
  "too_long n (TOOL_RESULT i (RC_TEXT s) e) = (length s > n)"
| "too_long n b = False"

fun trim_block :: "nat \<Rightarrow> content_block \<Rightarrow> content_block" where
  "trim_block n (TOOL_RESULT i (RC_TEXT s) e) =
     TOOL_RESULT i (RC_TEXT (if length s > n then truncated n s else s)) e"
| "trim_block n b = b"

definition trim_tool_results :: "nat \<Rightarrow> native_message list \<Rightarrow> native_message list" where
  "trim_tool_results n ms = map (\<lambda>m. m\<lparr>content := map (trim_block n) (content m)\<rparr>) ms"

definition summary_prefix :: string where
  "summary_prefix = ''[Earlier conversation summarized''"

definition summary_message :: "nat \<Rightarrow> native_message" where
  "summary_message n = text_message USER
     (summary_prefix @ '': '' @ digits n @ '' messages compressed to stay within context budget]'')"

definition is_tool_message :: "native_message \<Rightarrow> bool" where
  "is_tool_message m \<longleftrightarrow> has_tool_uses m \<or> has_tool_results m"

definition has_summary :: "native_message list \<Rightarrow> bool" where
  "has_summary ms = list_ex (\<lambda>m. starts_with (message_text m) summary_prefix) ms"

text \<open>
  The loop over the middle: \<open>n\<close> is its length, the accumulator what is kept so far and the count
  of the report.
\<close>

fun compact_loop ::
  "nat \<Rightarrow> native_message list \<Rightarrow> native_message list \<times> int \<Rightarrow> native_message list \<times> int" where
  "compact_loop n [] acc = acc"
| "compact_loop n (m # ms) (kept, count) =
     (if is_tool_message m then compact_loop n ms (kept @ [m], count)
      else if \<not> has_summary kept then
        compact_loop n ms (kept @ [summary_message n], count + (int n - int (length kept + 1)))
      else compact_loop n ms (kept, count))"

definition compact_early_messages ::
  "budget_limits \<Rightarrow> native_message list \<Rightarrow> native_message list \<times> int" where
  "compact_early_messages lims ms =
     (let keep_first = (if first_message_preserved lims then 1 else 0) in
      if length ms \<le> 25 then (ms, 0)
      else if keep_first + 20 \<ge> length ms then (ms, 0)
      else
        (let middle = take (length ms - 20 - keep_first) (drop keep_first ms);
             (kept, count) = compact_loop (length middle) middle ([], 0)
         in (take keep_first ms @ kept @ drop (length ms - 20) ms, count)))"

definition ensure_budget ::
  "(json_object \<Rightarrow> string) \<Rightarrow> budget_limits \<Rightarrow> native_message list
     \<Rightarrow> native_message list \<times> budget_report" where
  "ensure_budget show_input lims ms =
     (let total = conversation_tokens show_input ms in
      if total \<le> max_tokens lims then
        (ms, \<lparr>original_tokens = total, trimmed_tokens = 0, messages_trimmed = 0,
              tool_results_trimmed = 0, within_budget = True\<rparr>)
      else
        (let n = tool_result_max_chars lims;
             trimmed = trim_tool_results n ms;
             (conv, count) = (if conversation_tokens show_input trimmed > max_tokens lims
                              then compact_early_messages lims trimmed else (trimmed, 0));
             final = conversation_tokens show_input conv
         in (conv, \<lparr>original_tokens = total, trimmed_tokens = int total - int final,
               messages_trimmed = count,
               tool_results_trimmed = length (filter (too_long n) (blocks_of ms)),
               within_budget = (final \<le> max_tokens lims)\<rparr>)))"

section \<open>What the shortening keeps\<close>

fun protocol_event :: "content_block \<Rightarrow> (bool \<times> string) list" where
  "protocol_event (TOOL_USE i n x) = [(True, i)]"
| "protocol_event (TOOL_RESULT i c e) = [(False, i)]"
| "protocol_event (TEXT t) = []"

definition protocol_events :: "native_message list \<Rightarrow> (bool \<times> string) list" where
  "protocol_events ms = concat (map protocol_event (blocks_of ms))"

lemma events_Nil [simp]: "protocol_events [] = []"
  by (simp add: protocol_events_def blocks_of_def)

lemma events_append [simp]: "protocol_events (xs @ ys) = protocol_events xs @ protocol_events ys"
  by (simp add: protocol_events_def blocks_of_def)

lemma events_Cons: "protocol_events (m # ms) = protocol_events [m] @ protocol_events ms"
  by (simp add: protocol_events_def blocks_of_def)

lemma trim_event: "protocol_event (trim_block n b) = protocol_event b"
  by (cases "(n, b)" rule: trim_block.cases) auto

lemma events_trim [simp]: "protocol_events (trim_tool_results n ms) = protocol_events ms"
  by (induction ms)
    (simp_all add: protocol_events_def blocks_of_def trim_tool_results_def comp_def trim_event)

lemma no_event: "\<not> is_tool_use b \<Longrightarrow> \<not> is_tool_result b \<Longrightarrow> protocol_event b = []"
  by (cases b) auto

lemma events_plain: "\<not> is_tool_message m \<Longrightarrow> protocol_events [m] = []"
  by (simp add: is_tool_message_def has_tool_uses_def has_tool_results_def protocol_events_def
      blocks_of_def list_ex_iff no_event)

lemma events_summary [simp]: "protocol_events [summary_message n] = []"
  by (simp add: summary_message_def text_message_def protocol_events_def blocks_of_def)

lemma compact_events:
  "protocol_events (fst (compact_loop n ms (kept, c))) = protocol_events kept @ protocol_events ms"
proof (induction ms arbitrary: kept c)
  case (Cons m ms)
  have "protocol_events (m # ms) = protocol_events [m] @ protocol_events ms" by (rule events_Cons)
  then show ?case using Cons events_plain [of m] by simp
qed simp

lemma compact_early_events [simp]:
  "protocol_events (fst (compact_early_messages lims ms)) = protocol_events ms"
proof -
  define k where "k = (if first_message_preserved lims then 1 else 0 :: nat)"
  let ?middle = "take (length ms - 20 - k) (drop k ms)"
  show ?thesis
  proof (cases "length ms \<le> 25 \<or> k + 20 \<ge> length ms")
    case True
    then show ?thesis by (auto simp: compact_early_messages_def k_def)
  next
    case False
    have parts: "take k ms @ ?middle @ drop (length ms - 20) ms = ms"
    proof -
      have "take k ms @ ?middle = take (length ms - 20) ms"
        using False take_add [of k "length ms - 20 - k" ms] by simp
      then show ?thesis by (metis append.assoc append_take_drop_id)
    qed
    have "fst (compact_early_messages lims ms)
        = take k ms @ fst (compact_loop (length ?middle) ?middle ([], 0)) @ drop (length ms - 20) ms"
      using False by (auto simp: compact_early_messages_def k_def Let_def split: prod.splits)
    then have "protocol_events (fst (compact_early_messages lims ms))
        = protocol_events (take k ms @ ?middle @ drop (length ms - 20) ms)"
      by (simp add: compact_events)
    then show ?thesis unfolding parts .
  qed
qed

lemma compact_suffix: "suffix (drop (length ms - 20) ms) (fst (compact_early_messages lims ms))"
proof -
  have "ms = take (length ms - 20) ms @ drop (length ms - 20) ms" by simp
  then have "suffix (drop (length ms - 20) ms) ms" unfolding suffix_def by blast
  then show ?thesis
    by (auto simp: compact_early_messages_def Let_def suffix_def split: prod.splits)
qed

lemma budget_events: "protocol_events (fst (ensure_budget f lims ms)) = protocol_events ms"
proof -
  have "protocol_events x = protocol_events ms"
    if "compact_early_messages lims (trim_tool_results n ms) = (x, k)" for x n k
    using compact_early_events [of lims "trim_tool_results n ms"] that by simp
  then show ?thesis by (auto simp: ensure_budget_def Let_def split: prod.splits)
qed

text \<open>
  Shortening a conversation never touches the protocol: the tool uses and the tool results it
  contains stay, with their identifiers and in their order, so that what was paired stays paired;
  the last twenty messages stay, with their long results cut. A conversation that fits is not
  changed, and the report says truly whether the result fits.
\<close>

theorem budget_keeps_protocol:
  "protocol_events (fst (ensure_budget show_input lims ms)) = protocol_events ms
    \<and> (if conversation_tokens show_input ms \<le> max_tokens lims
        then fst (ensure_budget show_input lims ms) = ms
        else suffix (drop (length ms - 20) (trim_tool_results (tool_result_max_chars lims) ms))
               (fst (ensure_budget show_input lims ms)))
    \<and> within_budget (snd (ensure_budget show_input lims ms))
        = (conversation_tokens show_input (fst (ensure_budget show_input lims ms)) \<le> max_tokens lims)"
proof -
  let ?t = "trim_tool_results (tool_result_max_chars lims) ms"
  have len: "length ?t = length ms" by (simp add: trim_tool_results_def)
  have "protocol_events x = protocol_events ms \<and> suffix (drop (length ms - 20) ?t) x"
    if "compact_early_messages lims ?t = (x, n)" for x n
    using compact_early_events [of lims ?t] compact_suffix [of ?t lims] that by (simp add: len)
  then show ?thesis
    using suffix_drop [of "length ms - 20" ?t]
    by (auto simp: ensure_budget_def Let_def len split: prod.splits)
qed

end
