(* ===== verification/Tool_Scheduler.thy ===== *)
theory Tool_Scheduler
  imports Conversation
begin

text \<open>
  \<^verbatim>\<open>runtime_core/tool_scheduler.py\<close>: the declared safety of tools and the batches a model's calls are
  grouped into. The lemmas say what a batch may hold.
\<close>

record tool_metadata =
  meta_name :: string
  meta_read_only :: bool
  concurrency_safe :: bool
  resource_key :: string
  retry_max :: nat

type_synonym tool_table = "(string, tool_metadata) dict"

definition default_metadata :: "string \<Rightarrow> tool_metadata" where
  "default_metadata n = \<lparr>meta_name = n, meta_read_only = False, concurrency_safe = False,
     resource_key = [], retry_max = 0\<rparr>"

definition register_metadata :: "tool_metadata \<Rightarrow> tool_table \<Rightarrow> tool_table" where
  "register_metadata m t = dict_set (meta_name m) m t"

definition register_batch :: "tool_metadata list \<Rightarrow> tool_table \<Rightarrow> tool_table" where
  "register_batch ms t = fold register_metadata ms t"

definition metadata_of :: "tool_table \<Rightarrow> tool_call \<Rightarrow> tool_metadata" where
  "metadata_of t c = the_default (default_metadata (call_name c)) (dict_get t (call_name c))"

text \<open>The batches are kept in reverse, each with its calls in reverse; \<open>used\<close> are the keys in use.\<close>

fun schedule_loop ::
  "tool_table \<Rightarrow> tool_call list \<Rightarrow> tool_call list list \<Rightarrow> string list \<Rightarrow> tool_call list list" where
  "schedule_loop t [] batches used = batches"
| "schedule_loop t (c # cs) batches used =
     (let m = metadata_of t c;
          key = resource_key m;
          can_parallel = (concurrency_safe m \<and> \<not> (key \<noteq> [] \<and> key \<in> set used))
      in if can_parallel then
           schedule_loop t cs
             (case batches of [] \<Rightarrow> [[c]] | b # bs \<Rightarrow> (c # b) # bs)
             (if key \<noteq> [] then key # used else used)
         else schedule_loop t cs ([c] # batches) (if key \<noteq> [] then [key] else []))"

definition schedule :: "tool_table \<Rightarrow> tool_call list \<Rightarrow> tool_call list list" where
  "schedule t cs = rev (map rev (schedule_loop t cs [] []))"

text \<open>Executing a batch: each call's result or exception, in the order of the batch.\<close>

datatype 'r batch_result = Executed tool_call 'r | Raised tool_call string | NotStarted tool_call

definition execute_batch ::
  "(tool_call \<Rightarrow> bool) \<Rightarrow> (tool_call \<Rightarrow> string + 'r) \<Rightarrow> tool_call list \<Rightarrow> 'r batch_result list" where
  "execute_batch is_cancelled executor batch =
     map (\<lambda>c. if is_cancelled c then NotStarted c
              else case executor c of Inl e \<Rightarrow> Raised c e | Inr r \<Rightarrow> Executed c r) batch"

section \<open>What a batch holds\<close>

definition keys_of :: "tool_table \<Rightarrow> tool_call list \<Rightarrow> string list" where
  "keys_of t cs = filter (\<lambda>k. k \<noteq> []) (map (\<lambda>c. resource_key (metadata_of t c)) cs)"

text \<open>In a batch no resource is used twice, and every call but the first is declared safe.\<close>

definition batch_ok :: "tool_table \<Rightarrow> tool_call list \<Rightarrow> bool" where
  "batch_ok t b \<longleftrightarrow> b \<noteq> [] \<and> distinct (keys_of t b)
     \<and> filter (\<lambda>c. \<not> concurrency_safe (metadata_of t c)) (tl b) = []"

definition sched_inv :: "tool_table \<Rightarrow> tool_call list list \<Rightarrow> string list \<Rightarrow> bool" where
  "sched_inv t batches used \<longleftrightarrow> filter (\<lambda>b. \<not> batch_ok t (rev b)) batches = []
     \<and> (case batches of [] \<Rightarrow> used = [] | b # bs \<Rightarrow> set (keys_of t b) = set used)"

lemma keys_snoc: "keys_of t (cs @ [c]) = keys_of t cs @ keys_of t [c]"
  by (simp add: keys_of_def)

lemma set_keys_rev [simp]: "set (keys_of t (rev b)) = set (keys_of t b)"
  by (auto simp: keys_of_def)

lemma batch_ok_single: "batch_ok t [c]"
  by (simp add: batch_ok_def keys_of_def)

lemma batch_ok_snoc:
  assumes "batch_ok t b" "concurrency_safe (metadata_of t c)"
    "resource_key (metadata_of t c) \<noteq> [] \<Longrightarrow> resource_key (metadata_of t c) \<notin> set (keys_of t b)"
  shows "batch_ok t (b @ [c])"
  using assms by (cases b) (auto simp: batch_ok_def keys_snoc, auto simp: keys_of_def)

lemma schedule_loop_inv:
  "sched_inv t batches used \<Longrightarrow> filter (\<lambda>b. \<not> batch_ok t (rev b)) (schedule_loop t cs batches used) = []"
proof (induction cs arbitrary: batches used)
  case Nil
  then show ?case by (simp add: sched_inv_def)
next
  case (Cons c cs)
  define m where "m = metadata_of t c"
  show ?case
  proof (cases "concurrency_safe m \<and> \<not> (resource_key m \<noteq> [] \<and> resource_key m \<in> set used)")
    case True
    have "sched_inv t (case batches of [] \<Rightarrow> [[c]] | b # bs \<Rightarrow> (c # b) # bs)
        (if resource_key m \<noteq> [] then resource_key m # used else used)"
    proof (cases batches)
      case Nil
      then show ?thesis
        using Cons.prems batch_ok_single by (auto simp: sched_inv_def m_def keys_of_def)
    next
      case (Cons b bs)
      have "batch_ok t (rev b @ [c])"
        using True Cons.prems Cons by (intro batch_ok_snoc) (auto simp: sched_inv_def m_def split: if_splits)
      then show ?thesis
        using Cons.prems Cons by (auto simp: sched_inv_def m_def keys_of_def split: if_splits)
    qed
    note step = Cons.IH [OF this]
    show ?thesis using step True by (auto simp: m_def Let_def)
  next
    case False
    have "sched_inv t ([c] # batches) (if resource_key m \<noteq> [] then [resource_key m] else [])"
      using Cons.prems batch_ok_single by (auto simp: sched_inv_def m_def keys_of_def)
    note step = Cons.IH [OF this]
    show ?thesis using step False by (auto simp: m_def Let_def)
  qed
qed

lemma schedule_loop_concat:
  "concat (rev (map rev (schedule_loop t cs batches used))) = concat (rev (map rev batches)) @ cs"
proof (induction cs arbitrary: batches used)
  case (Cons c cs)
  then show ?case by (cases batches) (auto simp: Let_def)
qed simp

text \<open>
  The batches keep every call, in the model's order, and within a batch no resource is used
  twice. But only the calls after the first of a batch are required to be safe to run
  concurrently: a call, be it a write, shares its batch with the next one as soon as that one is
  safe and has another resource.
\<close>

theorem schedule_batches:
  "concat (schedule t cs) = cs \<and> filter (\<lambda>b. \<not> batch_ok t b) (schedule t cs) = []
    \<and> schedule t [w, c] =
        (if \<not> concurrency_safe (metadata_of t c) then [[w], [c]]
         else if resource_key (metadata_of t c) \<noteq> []
             \<and> resource_key (metadata_of t c) = resource_key (metadata_of t w) then [[w], [c]]
         else [[w, c]])"
proof -
  have "filter (\<lambda>b. \<not> batch_ok t (rev b)) (schedule_loop t cs [] []) = []"
    by (rule schedule_loop_inv) (simp add: sched_inv_def)
  then have "filter (\<lambda>b. \<not> batch_ok t b) (schedule t cs) = []"
    by (auto simp: schedule_def filter_empty_conv)
  then show ?thesis
    by (auto simp: schedule_def schedule_loop_concat Let_def)
qed

end
