(* ===== verification/Step_Loop.thy ===== *)
theory Step_Loop
  imports Context_Budget Tool_Scheduler
begin

text \<open>
  \<^verbatim>\<open>runtime_core/native_step_loop.py\<close> and the outcomes of \<^verbatim>\<open>outcome.py\<close>: the loop of the native
  runtime. The model, the tools, the gate of a call and the cancellation flag are functions of the
  turn; the loop recurses on the turns that are left, so that it ends by construction as the
  \<open>for\<close> does. The calls that run concurrently are listed in the order their results are read.
  What the loop yields and stores are lists of its state.
\<close>

section \<open>Outcomes\<close>

datatype loop_status = RUN_COMPLETED | RUN_FAILED | RUN_CANCELLED | RUN_BLOCKED | RUN_GAVE_UP

record tool_evidence =
  ev_tool :: string
  ev_success :: bool
  ev_use_id :: string

record runtime_outcome =
  out_status :: loop_status
  steps_taken :: nat
  tokens_used :: int
  out_input_tokens :: int
  out_output_tokens :: int
  summary :: string
  out_error :: string
  out_blocked_by :: string
  evidence :: "tool_evidence list option"

definition outcome_of :: "loop_status \<Rightarrow> nat \<Rightarrow> int \<Rightarrow> runtime_outcome" where
  "outcome_of s n tok = \<lparr>out_status = s, steps_taken = n, tokens_used = tok, out_input_tokens = 0,
     out_output_tokens = 0, summary = [], out_error = [], out_blocked_by = [], evidence = None\<rparr>"

definition completed :: "nat \<Rightarrow> int \<Rightarrow> string \<Rightarrow> runtime_outcome" where
  "completed n tok s = (outcome_of RUN_COMPLETED n tok)\<lparr>summary := s\<rparr>"

definition failed_run :: "string \<Rightarrow> nat \<Rightarrow> int \<Rightarrow> runtime_outcome" where
  "failed_run e n tok = (outcome_of RUN_FAILED n tok)\<lparr>out_error := e\<rparr>"

definition blocked_run :: "string \<Rightarrow> string \<Rightarrow> nat \<Rightarrow> int \<Rightarrow> runtime_outcome" where
  "blocked_run by_what detail n tok = (outcome_of RUN_BLOCKED n tok)
     \<lparr>summary := ''blocked by '' @ by_what, out_error := detail, out_blocked_by := by_what\<rparr>"

definition is_terminal_outcome :: "runtime_outcome \<Rightarrow> bool" where
  "is_terminal_outcome x \<longleftrightarrow> out_status x \<in> {RUN_COMPLETED, RUN_FAILED, RUN_CANCELLED}"

section \<open>The world of a run\<close>

datatype stream_event = TEXT_DELTA string | STREAM_TOOL tool_call | FINISH | STREAM_ERROR

text \<open>
  What a request gives: a stream, with the exception that ends it if one does, an action, or an
  exception.
\<close>

datatype reply = STREAM "stream_event list" "string option" | ACTION model_action | RAISES_ERROR string

datatype gate_answer =
    GATE_RAISES
  | GATE_DENIES string
  | GATE_ALLOWS "json_object option"

record 'g loop_env =
  model_reply :: "nat \<Rightarrow> native_message list \<Rightarrow> reply"
  cancelled_at :: "nat \<Rightarrow> bool"
  cancelled_before :: "nat \<Rightarrow> tool_call \<Rightarrow> bool"
  cancelled_after :: "nat \<Rightarrow> tool_call \<Rightarrow> bool"
  pre_gate :: "nat \<Rightarrow> tool_call \<Rightarrow> 'g \<Rightarrow> gate_answer \<times> 'g"
  run_tool :: "nat \<Rightarrow> tool_call \<Rightarrow> json_object \<Rightarrow> string + tool_outcome"
  post_context :: "nat \<Rightarrow> tool_call \<Rightarrow> tool_outcome \<Rightarrow> string"
  tool_table :: tool_table
  show_input :: "json_object \<Rightarrow> string"
  limits :: budget_limits
  has_store :: bool

datatype loop_event =
    TextDelta string
  | ToolDone tool_call "tool_outcome option"
  | Ended runtime_outcome

record 'g loop_state =
  conv :: conversation_state
  stored :: "(nat \<times> native_message option) list"
  yielded :: "loop_event list"
  requests :: "native_message list list"
  gate_state :: 'g
  tokens_in :: int
  tokens_out :: int
  evidences :: "tool_evidence list"
  steps :: nat

section \<open>Reading a reply\<close>

fun read_stream :: "stream_event list \<Rightarrow> string list \<times> tool_call list \<times> bool" where
  "read_stream [] = ([], [], False)"
| "read_stream (e # es) =
     (case e of
        FINISH \<Rightarrow> ([], [], True)
      | TEXT_DELTA s \<Rightarrow> (let (ts, us, f) = read_stream es in (s # ts, us, f))
      | STREAM_TOOL c \<Rightarrow> (let (ts, us, f) = read_stream es in (ts, c # us, f))
      | STREAM_ERROR \<Rightarrow> read_stream es)"

definition stream_action :: "string list \<Rightarrow> tool_call list \<Rightarrow> model_action" where
  "stream_action ts us =
     (case us of
        [] \<Rightarrow> AssistantText (concat ts) ''end_turn'' None
      | [c] \<Rightarrow> ToolCall c
      | cs \<Rightarrow> ToolCallBatch cs None)"

text \<open>The text yielded meanwhile, and the action or the exception.\<close>

definition read_reply :: "reply \<Rightarrow> string list \<times> (string + model_action)" where
  "read_reply r =
     (case r of
        RAISES_ERROR e \<Rightarrow> ([], Inl e)
      | ACTION a \<Rightarrow> ([], Inr a)
      | STREAM es err \<Rightarrow>
          (let (ts, us, finished) = read_stream es in
           case err of
             Some e \<Rightarrow> (ts, if finished then Inr (stream_action ts us) else Inl e)
           | None \<Rightarrow> (ts, Inr (stream_action ts us))))"

section \<open>Tool calls\<close>

record tool_result =
  tr_call :: tool_call
  tr_outcome :: "tool_outcome option"
  tr_allowed :: bool
  tr_reason :: string
  tr_context :: string

definition refused :: "tool_call \<Rightarrow> string \<Rightarrow> tool_result" where
  "refused c why = \<lparr>tr_call = c, tr_outcome = None, tr_allowed = False, tr_reason = why, tr_context = []\<rparr>"

fun is_success :: "tool_outcome option \<Rightarrow> bool" where
  "is_success (Some (ToolSuccess n out ms)) = True"
| "is_success x = False"

definition evidence_of :: "tool_result \<Rightarrow> tool_evidence" where
  "evidence_of r = \<lparr>ev_tool = call_name (tr_call r), ev_success = (tr_allowed r \<and> is_success (tr_outcome r)),
     ev_use_id = call_id (tr_call r)\<rparr>"

definition chosen_params :: "json_object option \<Rightarrow> json_object \<Rightarrow> json_object" where
  "chosen_params u ps = (case u of Some (x # xs) \<Rightarrow> x # xs | _ \<Rightarrow> ps)"

definition executed_outcome :: "'g loop_env \<Rightarrow> nat \<Rightarrow> tool_call \<Rightarrow> json_object option \<Rightarrow> tool_outcome" where
  "executed_outcome env turn c u =
     (case run_tool env turn c (chosen_params u (call_params c)) of
        Inl e \<Rightarrow> ToolFailure (call_name c) e EXECUTION_ERROR 0
      | Inr x \<Rightarrow> x)"

definition tool_one :: "'g loop_env \<Rightarrow> nat \<Rightarrow> tool_call \<Rightarrow> 'g \<Rightarrow> tool_result \<times> 'g" where
  "tool_one env turn c g =
     (if cancelled_before env turn c then (refused c ''cancelled'', g)
      else (case pre_gate env turn c g of
        (GATE_RAISES, g') \<Rightarrow> (refused c ''hook error'', g')
      | (GATE_DENIES why, g') \<Rightarrow> (refused c (or_else why ''denied''), g')
      | (GATE_ALLOWS u, g') \<Rightarrow>
          if cancelled_after env turn c then (refused c ''cancelled'', g')
          else
            (let out = executed_outcome env turn c u
             in (\<lparr>tr_call = c, tr_outcome = Some out, tr_allowed = True, tr_reason = [],
                  tr_context = post_context env turn c out\<rparr>, g'))))"

fun tool_each :: "'g loop_env \<Rightarrow> nat \<Rightarrow> tool_call list \<Rightarrow> 'g \<Rightarrow> tool_result list \<times> 'g" where
  "tool_each env turn [] g = ([], g)"
| "tool_each env turn (c # cs) g =
     (let (r, g1) = tool_one env turn c g; (rs, g2) = tool_each env turn cs g1 in (r # rs, g2))"

definition runs_parallel :: "tool_table \<Rightarrow> tool_call \<Rightarrow> bool" where
  "runs_parallel t c =
     (case dict_get t (call_name c) of None \<Rightarrow> False | Some m \<Rightarrow> meta_read_only m \<and> concurrency_safe m)"

definition tool_calls :: "'g loop_env \<Rightarrow> nat \<Rightarrow> tool_call list \<Rightarrow> 'g \<Rightarrow> tool_result list \<times> 'g" where
  "tool_calls env turn cs g =
     tool_each env turn
       (filter (runs_parallel (tool_table env)) cs @ filter (\<lambda>c. \<not> runs_parallel (tool_table env) c) cs) g"

definition result_outcome :: "tool_result \<Rightarrow> tool_outcome" where
  "result_outcome r =
     (case tr_outcome r of
        Some out \<Rightarrow> out
      | None \<Rightarrow> ToolFailure (call_name (tr_call r)) (or_else (tr_reason r) ''unknown'') EXECUTION_ERROR 0)"

section \<open>The loop\<close>

definition store_last :: "'g loop_env \<Rightarrow> nat \<Rightarrow> 'g loop_state \<Rightarrow> 'g loop_state" where
  "store_last env turn s =
     (if has_store env
      then s\<lparr>stored := stored s @ [(turn, last_message (conv s))]\<rparr>
      else s)"

definition record_result :: "'g loop_env \<Rightarrow> nat \<Rightarrow> tool_result \<Rightarrow> 'g loop_state \<Rightarrow> 'g loop_state" where
  "record_result env turn r s =
     (let s1 = s\<lparr>evidences := evidences s @ [evidence_of r],
                 conv := add_tool_result (result_outcome r) (tr_call r) (conv s)\<rparr>;
          s2 = store_last env turn s1
      in s2\<lparr>yielded := yielded s2 @ [ToolDone (tr_call r) (tr_outcome r)]\<rparr>)"

definition finalize :: "'g loop_state \<Rightarrow> runtime_outcome \<Rightarrow> runtime_outcome" where
  "finalize s x = x\<lparr>out_input_tokens := tokens_in s, out_output_tokens := tokens_out s,
     evidence := (if evidences s = [] then evidence x else Some (evidences s))\<rparr>"

definition total_tokens :: "'g loop_state \<Rightarrow> int" where
  "total_tokens s = tokens_in s + tokens_out s"

definition finish_run :: "runtime_outcome \<Rightarrow> 'g loop_state \<Rightarrow> runtime_outcome \<times> 'g loop_state" where
  "finish_run x s = (x, s\<lparr>yielded := yielded s @ [Ended x]\<rparr>)"

definition count_usage :: "model_action \<Rightarrow> 'g loop_state \<Rightarrow> 'g loop_state" where
  "count_usage a s =
     (case action_usage a of
        None \<Rightarrow> s
      | Some u \<Rightarrow> s\<lparr>tokens_in := tokens_in s + input_tokens u, tokens_out := tokens_out s + output_tokens u\<rparr>)"

definition begin_turn :: "'g loop_env \<Rightarrow> 'g loop_state \<Rightarrow> 'g loop_state" where
  "begin_turn env s =
     (let c = record_transition ''step'' (conv s) in
      s\<lparr>conv := c, steps := steps s + 1,
        requests := requests s @ [fst (ensure_budget (show_input env) (limits env) (messages c))]\<rparr>)"

definition take_action :: "'g loop_env \<Rightarrow> nat \<Rightarrow> model_action \<Rightarrow> 'g loop_state \<Rightarrow> 'g loop_state" where
  "take_action env turn a s =
     (let s1 = count_usage a s in
      store_last env turn (s1\<lparr>conv := add_assistant_message a (conv s1)\<rparr>))"

definition run_calls :: "'g loop_env \<Rightarrow> nat \<Rightarrow> tool_call list \<Rightarrow> 'g loop_state \<Rightarrow> 'g loop_state" where
  "run_calls env turn cs s =
     (let (rs, g) = tool_calls env turn cs (gate_state s);
          s1 = fold (record_result env turn) rs (s\<lparr>gate_state := g\<rparr>)
      in s1\<lparr>conv := record_transition ''tool_use'' (conv s1)\<rparr>)"

definition retry_turn :: "'g loop_state \<Rightarrow> 'g loop_state" where
  "retry_turn s = s\<lparr>conv := record_transition ''error_retry'' (conv s)\<rparr>"

text \<open>One turn: the loop is left with an outcome, or goes on from a later state.\<close>

datatype 'g turn_end = Leave "runtime_outcome \<times> 'g loop_state" | Continue "'g loop_state"

definition act_on :: "'g loop_env \<Rightarrow> nat \<Rightarrow> model_action \<Rightarrow> 'g loop_state \<Rightarrow> 'g turn_end" where
  "act_on env turn a s =
     (case a of
        ToolCall c \<Rightarrow> Continue (run_calls env turn [c] s)
      | ToolCallBatch cs u \<Rightarrow> Continue (run_calls env turn cs s)
      | AssistantText txt r u \<Rightarrow>
          Leave (finish_run (finalize s (completed (steps s) (total_tokens s) (take 500 txt))) s)
      | ModelFailure e retry u \<Rightarrow>
          if retry then Continue (retry_turn s)
          else Leave (finish_run (finalize s (failed_run e (steps s) (total_tokens s))) s)
      | ModelRefusal why u \<Rightarrow>
          Leave (finish_run (finalize s (blocked_run ''model_refusal'' why (steps s) (total_tokens s))) s)
      | ModelStop r txt u \<Rightarrow>
          Leave (finish_run (finalize s (completed (steps s) (total_tokens s) (or_else txt r))) s))"

definition requested :: "'g loop_env \<Rightarrow> nat \<Rightarrow> 'g loop_state \<Rightarrow> 'g loop_state \<times> (string + model_action)" where
  "requested env turn s =
     (let s1 = begin_turn env s; (texts, act) = read_reply (model_reply env turn (last (requests s1)))
      in (s1\<lparr>yielded := yielded s1 @ map TextDelta texts\<rparr>, act))"

definition one_turn :: "'g loop_env \<Rightarrow> nat \<Rightarrow> 'g loop_state \<Rightarrow> 'g turn_end" where
  "one_turn env turn s =
     (if cancelled_at env turn then
        (let s1 = s\<lparr>conv := drain_pending_as_errors (conv s)\<rparr> in
         Leave (finish_run (finalize s1 (outcome_of RUN_CANCELLED (steps s1) (total_tokens s1))) s1))
      else (case requested env turn s of
        (s2, Inl e) \<Rightarrow> Leave (finish_run (failed_run (''LLM invoke failed: '' @ e) (steps s2) (total_tokens s2)) s2)
      | (s2, Inr a) \<Rightarrow> act_on env turn a (take_action env turn a s2)))"

fun run_loop :: "'g loop_env \<Rightarrow> nat \<Rightarrow> nat \<Rightarrow> 'g loop_state \<Rightarrow> runtime_outcome \<times> 'g loop_state" where
  "run_loop env turn 0 s =
     finish_run (finalize s (blocked_run ''max_steps'' (''max_steps='' @ digits turn) (steps s) (total_tokens s))) s"
| "run_loop env turn (Suc n) s =
     (case one_turn env turn s of Leave x \<Rightarrow> x | Continue s' \<Rightarrow> run_loop env (turn + 1) n s')"

text \<open>The state a run starts from: what the store holds, then the messages of the request.\<close>

fun add_given :: "role \<times> string \<Rightarrow> conversation_state \<Rightarrow> conversation_state" where
  "add_given (r, txt) c =
     (if r = USER \<and> txt \<noteq> [] then add_user_message txt c
      else if r = SYSTEM \<and> txt \<noteq> [] then add_system_message txt c else c)"

definition initial_state :: "'g \<Rightarrow> native_message list \<Rightarrow> (role \<times> string) list \<Rightarrow> 'g loop_state" where
  "initial_state g saved given =
     \<lparr>conv = fold add_given given (rebuild_from saved), stored = [], yielded = [], requests = [],
      gate_state = g, tokens_in = 0, tokens_out = 0, evidences = [], steps = 0\<rparr>"

definition run ::
  "'g loop_env \<Rightarrow> nat \<Rightarrow> 'g \<Rightarrow> native_message list \<Rightarrow> (role \<times> string) list
     \<Rightarrow> runtime_outcome \<times> 'g loop_state" where
  "run env max_steps g saved given = run_loop env 0 max_steps (initial_state g saved given)"

section \<open>Every run ends\<close>

fun is_end :: "loop_event \<Rightarrow> bool" where
  "is_end (Ended x) = True"
| "is_end e = False"

text \<open>
  What every part of a turn keeps: the counters of steps and requests grow together, and nothing
  but the end yields an outcome.
\<close>

definition in_progress :: "'g loop_state \<Rightarrow> bool" where
  "in_progress s \<longleftrightarrow> filter is_end (yielded s) = [] \<and> length (requests s) = steps s"

lemma store_last_frame [simp]:
  "yielded (store_last env t s) = yielded s" "requests (store_last env t s) = requests s"
  "steps (store_last env t s) = steps s" "conv (store_last env t s) = conv s"
  "gate_state (store_last env t s) = gate_state s"
  by (simp_all add: store_last_def)

lemma count_usage_frame [simp]:
  "yielded (count_usage a s) = yielded s" "requests (count_usage a s) = requests s"
  "steps (count_usage a s) = steps s" "conv (count_usage a s) = conv s"
  "stored (count_usage a s) = stored s" "gate_state (count_usage a s) = gate_state s"
  by (auto simp: count_usage_def split: option.splits)

lemma record_result_frame [simp]:
  "requests (record_result env t r s) = requests s" "steps (record_result env t r s) = steps s"
  "conv (record_result env t r s) = add_tool_result (result_outcome r) (tr_call r) (conv s)"
  "yielded (record_result env t r s) = yielded s @ [ToolDone (tr_call r) (tr_outcome r)]"
  by (simp_all add: record_result_def Let_def)

lemma record_results_progress:
  "in_progress s \<Longrightarrow> in_progress (fold (record_result env t) rs s)
     \<and> steps (fold (record_result env t) rs s) = steps s
     \<and> requests (fold (record_result env t) rs s) = requests s"
  by (induction rs arbitrary: s) (simp_all add: in_progress_def)

lemma run_calls_progress:
  assumes "in_progress s"
  shows "in_progress (run_calls env t cs s) \<and> steps (run_calls env t cs s) = steps s
    \<and> requests (run_calls env t cs s) = requests s"
proof -
  obtain rs g where rs: "tool_calls env t cs (gate_state s) = (rs, g)" by force
  have "in_progress (s\<lparr>gate_state := g\<rparr>)" using assms by (simp add: in_progress_def)
  from record_results_progress [OF this, of env t rs] assms show ?thesis
    by (simp add: run_calls_def rs in_progress_def Let_def)
qed

lemma take_action_progress:
  "in_progress s \<Longrightarrow> in_progress (take_action env t a s) \<and> steps (take_action env t a s) = steps s
     \<and> requests (take_action env t a s) = requests s"
  by (simp add: take_action_def in_progress_def)

lemma begin_turn_progress:
  "in_progress s \<Longrightarrow> in_progress (begin_turn env s) \<and> steps (begin_turn env s) = steps s + 1"
  by (simp add: begin_turn_def in_progress_def Let_def)

lemma retry_progress:
  "in_progress s \<Longrightarrow> in_progress (retry_turn s) \<and> steps (retry_turn s) = steps s"
  by (simp add: retry_turn_def in_progress_def)

lemma texts_progress:
  "in_progress s \<Longrightarrow> in_progress (s\<lparr>yielded := yielded s @ map TextDelta ts\<rparr>)"
  by (simp add: in_progress_def filter_empty_conv)

definition ended_well :: "nat \<Rightarrow> runtime_outcome \<times> 'g loop_state \<Rightarrow> bool" where
  "ended_well bound res \<longleftrightarrow> filter is_end (yielded (snd res)) = [Ended (fst res)]
     \<and> last (yielded (snd res)) = Ended (fst res)
     \<and> steps_taken (fst res) = length (requests (snd res)) \<and> steps_taken (fst res) \<le> bound"

lemma finish_ends:
  "in_progress s \<Longrightarrow> steps_taken x = steps s \<Longrightarrow> steps s \<le> bound \<Longrightarrow> ended_well bound (finish_run x s)"
  by (simp add: finish_run_def ended_well_def in_progress_def)

lemma outcome_steps [simp]:
  "steps_taken (finalize s x) = steps_taken x" "steps_taken (outcome_of st n tok) = n"
  "steps_taken (completed n tok txt) = n" "steps_taken (failed_run e n tok) = n"
  "steps_taken (blocked_run b d n tok) = n"
  by (simp_all add: finalize_def outcome_of_def completed_def failed_run_def blocked_run_def)

lemma requested_progress:
  assumes "in_progress s" "requested env t s = (s2, act)"
  shows "in_progress s2 \<and> steps s2 = steps s + 1"
proof -
  have "in_progress (begin_turn env s)" "steps (begin_turn env s) = steps s + 1"
    using begin_turn_progress [OF assms(1)] by auto
  then show ?thesis
    using assms(2) by (auto simp: requested_def Let_def in_progress_def filter_empty_conv split: prod.splits)
qed

text \<open>The rule the properties of the loop share: an invariant of the turns, and what it gives at the end.\<close>

lemma run_loop_rule:
  assumes turn: "\<And>t s s'. I s \<Longrightarrow> one_turn env t s = Continue s' \<Longrightarrow> I s'"
    and leave: "\<And>t s x. I s \<Longrightarrow> one_turn env t s = Leave x \<Longrightarrow> Q x"
    and max: "\<And>t s. I s \<Longrightarrow> Q (run_loop env t 0 s)"
    and start: "I s"
  shows "Q (run_loop env t n s)"
  using start
proof (induction n arbitrary: t s)
  case 0
  then show ?case by (rule max)
next
  case (Suc n)
  show ?case
  proof (cases "one_turn env t s")
    case (Leave x)
    then show ?thesis using leave Suc.prems by simp
  next
    case (Continue s')
    then show ?thesis using Suc.IH [OF turn [OF Suc.prems Continue]] by simp
  qed
qed

lemma act_on_progress:
  assumes "in_progress s"
  shows "(act_on env t a s = Continue s' \<longrightarrow> in_progress s' \<and> steps s' = steps s)
    \<and> (act_on env t a s = Leave x \<longrightarrow> ended_well (steps s) x)"
  using assms run_calls_progress [of s] retry_progress [of s] finish_ends [of s _ "steps s"]
  by (cases a) (auto simp: act_on_def)

lemma one_turn_progress:
  assumes "in_progress s"
  shows "(one_turn env t s = Continue s' \<longrightarrow> in_progress s' \<and> steps s' = steps s + 1)
    \<and> (one_turn env t s = Leave x \<longrightarrow> ended_well (steps s + 1) x)"
proof (cases "cancelled_at env t")
  case True
  have "in_progress (s\<lparr>conv := c\<rparr>)" for c using assms by (simp add: in_progress_def)
  then show ?thesis
    using True finish_ends [of "s\<lparr>conv := drain_pending_as_errors (conv s)\<rparr>" _ "steps s + 1"]
    by (auto simp: one_turn_def Let_def)
next
  case False
  obtain s2 act where r: "requested env t s = (s2, act)" by force
  note p = requested_progress [OF assms r]
  show ?thesis
  proof (cases act)
    case (Inl e)
    then show ?thesis using False r p finish_ends [of s2 _ "steps s + 1"] by (auto simp: one_turn_def)
  next
    case (Inr a)
    have "in_progress (take_action env t a s2)" "steps (take_action env t a s2) = steps s + 1"
      using take_action_progress [of s2 env t a] p by auto
    then show ?thesis
      using False r Inr act_on_progress [of "take_action env t a s2" env t a s' x] by (auto simp: one_turn_def)
  qed
qed

lemma run_loop_ends:
  "in_progress s \<Longrightarrow> steps s + n \<le> bound \<Longrightarrow> ended_well bound (run_loop env t n s)"
proof (induction n arbitrary: t s)
  case 0
  then show ?case by (simp add: finish_ends)
next
  case (Suc n)
  show ?case
  proof (cases "one_turn env t s")
    case (Leave x)
    then have "ended_well (steps s + 1) x" using one_turn_progress Suc.prems(1) by blast
    then show ?thesis using Leave Suc.prems(2) by (simp add: ended_well_def)
  next
    case (Continue s')
    then have "in_progress s'" "steps s' = steps s + 1" using one_turn_progress Suc.prems(1) by blast+
    then show ?thesis using Suc.IH Suc.prems(2) Continue by simp
  qed
qed

lemma initial_progress: "in_progress (initial_state g saved given)"
  by (simp add: in_progress_def initial_state_def)

text \<open>
  C7. Every run ends: whatever the model, the tools, the gate and the user do, a run yields exactly
  one outcome, as the last thing it yields; the steps it reports are the requests it made, and they
  are at most the bound of the run.
\<close>

theorem run_ends_once:
  "filter is_end (yielded (snd (run env bound g saved given))) = [Ended (fst (run env bound g saved given))]
    \<and> last (yielded (snd (run env bound g saved given))) = Ended (fst (run env bound g saved given))
    \<and> steps_taken (fst (run env bound g saved given)) = length (requests (snd (run env bound g saved given)))
    \<and> steps_taken (fst (run env bound g saved given)) \<le> bound"
  using run_loop_ends [OF initial_progress [of g saved given], where n = bound and bound = bound and env = env and t = 0]
  by (simp add: run_def ended_well_def initial_state_def)

section \<open>The conversation of a run\<close>

lemma use_event: "use_id b = filter (\<lambda>i. i \<noteq> []) (map snd (filter fst (protocol_event b)))"
  by (cases b) auto

lemma result_event: "result_id b = filter (\<lambda>i. i \<noteq> []) (map snd (filter (Not \<circ> fst) (protocol_event b)))"
  by (cases b) auto

lemma unmatched_of_events:
  assumes "protocol_events xs = protocol_events ys"
  shows "unmatched_ids xs = unmatched_ids ys"
proof -
  have uses: "concat (map use_id (blocks_of ms))
      = filter (\<lambda>i. i \<noteq> []) (map snd (filter fst (protocol_events ms)))" for ms
    by (simp add: use_event [abs_def] protocol_events_def filter_concat map_concat comp_def)
  have results: "concat (map result_id (blocks_of ms))
      = filter (\<lambda>i. i \<noteq> []) (map snd (filter (Not \<circ> fst) (protocol_events ms)))" for ms
    by (simp add: result_event [abs_def] protocol_events_def filter_concat map_concat comp_def)
  show ?thesis by (simp add: unmatched_ids_def uses results assms)
qed

lemma budget_unmatched: "unmatched_ids (fst (ensure_budget f lims ms)) = unmatched_ids ms"
  by (rule unmatched_of_events) (rule budget_events)

text \<open>Between two turns no tool use is open, and no request went out with one.\<close>

definition paired :: "'g loop_state \<Rightarrow> bool" where
  "paired s \<longleftrightarrow> indexed (conv s) \<and> pending (conv s) = [] \<and> filter (\<lambda>r. unmatched_ids r \<noteq> []) (requests s) = []"

lemma paired_unmatched: "paired s \<Longrightarrow> unmatched_ids (messages (conv s)) = []"
  by (rule closed_pairs) (metis indexed_def paired_def)

lemma results_conv:
  "conv (fold (record_result env t) rs s)
    = fold (\<lambda>r. add_tool_result (result_outcome r) (tr_call r)) rs (conv s)"
  by (induction rs arbitrary: s) simp_all

lemma results_pending:
  "pending (fold (\<lambda>r. add_tool_result (f r) (tr_call r)) rs c) = fold (\<lambda>r. dict_del (call_id (tr_call r))) rs (pending c)"
  by (induction rs arbitrary: c) (simp_all add: add_tool_result_def)

lemma results_indexed:
  "indexed c \<Longrightarrow> indexed (fold (\<lambda>r. add_tool_result (f r) (tr_call r)) rs c)"
  by (induction rs arbitrary: c) (auto intro: indexed_result)

lemma each_calls: "map tr_call (fst (tool_each env t cs g)) = cs"
proof (induction cs arbitrary: g)
  case (Cons c cs)
  have "tr_call (fst (tool_one env t c g)) = c"
    by (auto simp: tool_one_def refused_def Let_def split: prod.splits gate_answer.splits)
  then show ?case using Cons [of "snd (tool_one env t c g)"] by (auto split: prod.splits)
qed simp

lemma answered_calls: "set (map tr_call (fst (tool_calls env t cs g))) = set cs"
  by (auto simp: tool_calls_def each_calls)

lemma run_calls_conv:
  "conv (run_calls env t cs s) = record_transition ''tool_use''
     (fold (\<lambda>r. add_tool_result (result_outcome r) (tr_call r)) (fst (tool_calls env t cs (gate_state s))) (conv s))"
  by (simp add: run_calls_def Let_def results_conv split: prod.splits)

lemma deleted_keys:
  "fst ` set (fold (\<lambda>r. dict_del (call_id (tr_call r))) rs d) = fst ` set d - call_id ` set (map tr_call rs)"
  by (induction rs arbitrary: d) (auto simp: AList.delete_eq)

lemma run_calls_closes:
  assumes "fst ` set (pending (conv s)) \<subseteq> call_id ` set cs"
  shows "pending (conv (run_calls env t cs s)) = []"
proof -
  have "fst ` set (pending (conv (run_calls env t cs s))) = {}"
    using assms
    by (simp add: run_calls_conv record_transition_def results_pending deleted_keys answered_calls del: set_map)
  then show ?thesis by simp
qed

lemma opened_keys:
  "fst ` set (fold (\<lambda>c. dict_set (call_id c) (use_block c)) cs d) = fst ` set d \<union> call_id ` set cs"
  by (induction cs arbitrary: d) (auto simp: dom_update)

lemma action_opens: "fst ` set (pending (add_assistant_message a c)) = fst ` set (pending c) \<union> call_id ` set (action_calls a)"
  by (cases a) (auto simp: push_def add_tool_uses_def opened_keys dom_update)

text \<open>
  What the properties assume of the model: every tool use it asks for has an identifier.
\<close>

definition ids_of_reply :: "reply \<Rightarrow> bool" where
  "ids_of_reply r =
     (case snd (read_reply r) of Inl e \<Rightarrow> True | Inr a \<Rightarrow> list_all (\<lambda>c. call_id c \<noteq> []) (action_calls a))"

lemma act_on_shape:
  "act_on env t a s = Continue s' \<Longrightarrow> s' = run_calls env t (action_calls a) s \<or> (s' = retry_turn s \<and> action_calls a = [])"
  "act_on env t a s = Leave x \<Longrightarrow> action_calls a = [] \<and> conv (snd x) = conv s \<and> requests (snd x) = requests s
     \<and> stored (snd x) = stored s"
  by (cases a; auto simp: act_on_def finish_run_def split: if_splits)+

lemma requested_shape:
  assumes "requested env t s = (s2, act)"
  shows "conv s2 = record_transition ''step'' (conv s)" "stored s2 = stored s"
    "requests s2 = requests s @ [fst (ensure_budget (show_input env) (limits env) (messages (conv s)))]"
    "gate_state s2 = gate_state s"
    "act = snd (read_reply (model_reply env t (last (requests s2))))"
  using assms by (auto simp: requested_def begin_turn_def Let_def record_transition_def split: prod.splits)

lemma run_calls_requests [simp]: "requests (run_calls env t cs s) = requests s"
proof -
  have "requests (fold (record_result env t) rs s) = requests s" for rs and s :: "'a loop_state"
    by (induction rs arbitrary: s) simp_all
  then show ?thesis by (simp add: run_calls_def Let_def split: prod.splits)
qed

lemma requested_paired:
  assumes "paired s" "requested env t s = (s2, act)"
  shows "paired s2"
proof -
  have "indexed (conv s2)" "pending (conv s2) = pending (conv s)"
    using assms(1) by (auto simp: requested_shape(1) [OF assms(2)] paired_def record_transition_def indexed_def)
  then show ?thesis
    using assms(1) paired_unmatched [OF assms(1)]
    by (simp add: paired_def budget_unmatched requested_shape(3) [OF assms(2)])
qed

lemma action_taken:
  assumes "paired s2" "list_all (\<lambda>c. call_id c \<noteq> []) (action_calls a)"
  shows "indexed (conv (take_action env t a s2))"
    "fst ` set (pending (conv (take_action env t a s2))) = call_id ` set (action_calls a)"
    "requests (take_action env t a s2) = requests s2"
  using assms indexed_assistant [of "conv s2" a]
  by (simp_all add: take_action_def paired_def action_opens)

lemma calls_paired:
  assumes "indexed (conv s)" "fst ` set (pending (conv s)) \<subseteq> call_id ` set cs"
    "filter (\<lambda>r. unmatched_ids r \<noteq> []) (requests s) = []"
  shows "paired (run_calls env t cs s)"
proof -
  have "indexed (conv (run_calls env t cs s))" using assms(1) by (simp add: run_calls_conv results_indexed)
  then show ?thesis using assms(3) run_calls_closes [OF assms(2)] by (simp add: paired_def)
qed

lemma turn_paired:
  assumes ids: "\<And>t ms. ids_of_reply (model_reply env t ms)" and "paired s"
  shows "(one_turn env t s = Continue s' \<longrightarrow> paired s') \<and> (one_turn env t s = Leave x \<longrightarrow> paired (snd x))"
proof (cases "cancelled_at env t")
  case True
  have "drain_pending_as_errors (conv s) = conv s"
    using assms(2) by (simp add: paired_def drain_pending_as_errors_def dict_keys_def)
  then show ?thesis using True assms(2) by (auto simp: one_turn_def finish_run_def paired_def)
next
  case False
  obtain s2 act where r: "requested env t s = (s2, act)" by force
  have p: "paired s2" using requested_paired [OF assms(2) r] .
  show ?thesis
  proof (cases act)
    case (Inl e)
    then show ?thesis using False r p by (auto simp: one_turn_def finish_run_def paired_def)
  next
    case (Inr a)
    have given: "list_all (\<lambda>c. call_id c \<noteq> []) (action_calls a)"
      using ids [of t "last (requests s2)"] unfolding ids_of_reply_def requested_shape(5) [OF r, symmetric] Inr
      by simp
    let ?s = "take_action env t a s2"
    note taken = action_taken [OF p given, of env t]
    have sent: "filter (\<lambda>r. unmatched_ids r \<noteq> []) (requests ?s) = []" using taken(3) p by (simp add: paired_def)
    have step: "one_turn env t s = act_on env t a ?s" using False r Inr by (simp add: one_turn_def)
    have "paired (run_calls env t (action_calls a) ?s)" using calls_paired [OF taken(1) _ sent] taken(2) by simp
    moreover have "paired ?s" if "action_calls a = []" using that taken sent by (simp add: paired_def)
    ultimately show ?thesis
      unfolding step using act_on_shape(1) [of env t a ?s s'] act_on_shape(2) [of env t a ?s x]
      by (auto simp: paired_def retry_turn_def record_transition_def indexed_def)
  qed
qed

lemma given_paired: "indexed c \<Longrightarrow> pending c = [] \<Longrightarrow> indexed (fold add_given given c) \<and> pending (fold add_given given c) = []"
proof (induction given arbitrary: c)
  case (Cons g given)
  have "indexed (add_given g c) \<and> pending (add_given g c) = []"
    using Cons.prems by (cases g) (auto simp: add_user_message_def add_system_message_def push_def indexed_text [unfolded push_def])
  then show ?case using Cons.IH by simp
qed simp

lemma initial_paired:
  assumes "pending (rebuild_from saved) = []"
  shows "paired (initial_state g saved given)"
proof -
  have "indexed (rebuild_from saved)" using assms by (simp add: rebuild_from_eq indexed_def)
  then show ?thesis using given_paired assms by (simp add: paired_def initial_state_def)
qed

text \<open>
  C2. The protocol holds in every run: when what was recovered has no open tool use, and the model
  names the tool uses it asks for, every request of the run pairs each tool use with a result,
  after any shortening, whatever the gate, the tools and the user do; and the conversation the run
  ends with is paired again, so that the next run may start from it.
\<close>

theorem requests_are_paired:
  assumes "\<And>t ms. ids_of_reply (model_reply env t ms)" and "pending (rebuild_from saved) = []"
    and "(x, s) = run env bound g saved given"
  shows "filter (\<lambda>ms. tool_pairing ms \<noteq> []) (requests s) = [] \<and> tool_pairing (messages (conv s)) = []
    \<and> pending (rebuild_from (messages (conv s))) = []"
proof -
  have "paired (snd (run_loop env 0 bound (initial_state g saved given)))"
  proof (rule run_loop_rule [where I = paired and Q = "\<lambda>res. paired (snd res)"])
    show "paired (initial_state g saved given)" by (rule initial_paired [OF assms(2)])
    show "paired (snd (run_loop env t 0 s))" if "paired s" for t s
      using that by (simp add: finish_run_def paired_def)
    show "paired s'" if "paired s" "one_turn env t s = Continue s'" for t s s'
      using turn_paired [OF assms(1) that(1)] that(2) by blast
    show "paired (snd y)" if "paired s" "one_turn env t s = Leave y" for t s y
      using turn_paired [OF assms(1) that(1)] that(2) by blast
  qed
  then have "paired s" using assms(3) by (metis run_def snd_conv)
  then show ?thesis
    using paired_unmatched [of s] by (auto simp: paired_def tool_pairing_def rebuild_from_eq indexed_def filter_empty_conv)
qed

section \<open>The stored log\<close>

text \<open>
  The messages a run adds are the ones it stores, as long as no failure is retried; a cancelled run
  adds the results of its open tool uses without storing them.
\<close>

definition definitive :: "reply \<Rightarrow> bool" where
  "definitive r = (case snd (read_reply r) of Inr (ModelFailure e True u) \<Rightarrow> False | _ \<Rightarrow> True)"

definition mirrors :: "native_message list \<Rightarrow> 'g loop_state \<Rightarrow> bool" where
  "mirrors base s \<longleftrightarrow> map Some (messages (conv s)) = map Some base @ map snd (stored s)"

lemma mirrors_push:
  "mirrors base s \<Longrightarrow> has_store env \<Longrightarrow> messages c = messages (conv s) @ [m] \<Longrightarrow>
   mirrors base (store_last env t (s\<lparr>conv := c\<rparr>))"
  by (simp add: mirrors_def store_last_def last_message_def)

lemma mirrors_results:
  "mirrors base s \<Longrightarrow> has_store env \<Longrightarrow> mirrors base (fold (record_result env t) rs s)"
proof (induction rs arbitrary: s)
  case (Cons r rs)
  let ?s1 = "s\<lparr>evidences := evidences s @ [evidence_of r]\<rparr>"
  have "mirrors base ?s1" using Cons.prems(1) by (simp add: mirrors_def)
  from mirrors_push [OF this Cons.prems(2), of "add_tool_result (result_outcome r) (tr_call r) (conv s)" _ t]
  have "mirrors base (record_result env t r s)"
    by (simp add: record_result_def Let_def add_tool_result_def push_def mirrors_def)
  then show ?case using Cons.IH Cons.prems(2) by simp
qed simp

lemma mirrors_action:
  assumes "mirrors base s" "has_store env" "\<And>e u. a \<noteq> ModelFailure e True u"
  shows "mirrors base (take_action env t a s)"
proof -
  have "\<exists>m. messages (add_assistant_message a c) = messages c @ [m]" for c
    using assms(3) by (cases a) (auto simp: push_def add_tool_uses_def)
  moreover have "mirrors base (count_usage a s)" using assms(1) by (simp add: mirrors_def)
  ultimately show ?thesis using mirrors_push assms(2) unfolding take_action_def Let_def by (metis count_usage_frame(4))
qed

lemma mirrors_turn:
  assumes "mirrors base s" "has_store env" "\<not> cancelled_at env t" "\<And>ms. definitive (model_reply env t ms)"
  shows "(one_turn env t s = Continue s' \<longrightarrow> mirrors base s') \<and> (one_turn env t s = Leave x \<longrightarrow> mirrors base (snd x))"
proof -
  obtain s2 act where r: "requested env t s = (s2, act)" by force
  have s2: "mirrors base s2" using assms(1) requested_shape(1,2) [OF r] by (simp add: mirrors_def record_transition_def)
  show ?thesis
  proof (cases act)
    case (Inl e)
    then show ?thesis using r s2 assms(3) by (auto simp: one_turn_def finish_run_def mirrors_def)
  next
    case (Inr a)
    have final: "a \<noteq> ModelFailure e True u" for e u
      using assms(4) [of "last (requests s2)"] unfolding definitive_def requested_shape(5) [OF r, symmetric] Inr by auto
    let ?s = "take_action env t a s2"
    have taken: "mirrors base ?s" using mirrors_action [OF s2 assms(2) final] .
    have "mirrors base (run_calls env t cs ?s)" for cs
      using mirrors_results [of base "?s\<lparr>gate_state := g\<rparr>" env t for g] taken assms(2)
      by (auto simp: run_calls_def Let_def mirrors_def record_transition_def split: prod.splits)
    then show ?thesis
      using r Inr taken final assms(3)
      by (cases a) (auto simp: one_turn_def act_on_def finish_run_def mirrors_def)
  qed
qed

text \<open>
  C35. The store mirrors the conversation: in a run that is not cancelled and meets no failure to be
  retried, the conversation it ends with is the one it started from followed by exactly the
  messages it stored, in the order it stored them, however the run ends.
\<close>

theorem store_mirrors_conversation:
  assumes "has_store env" and "\<And>t. \<not> cancelled_at env t" and "\<And>t ms. definitive (model_reply env t ms)"
    and "(x, s) = run env bound g saved given"
  shows "map Some (messages (conv s))
    = map Some (messages (conv (initial_state g saved given))) @ map snd (stored s)"
proof -
  let ?I = "mirrors (messages (conv (initial_state g saved given)))"
  have "?I (snd (run_loop env 0 bound (initial_state g saved given)))"
  proof (rule run_loop_rule [where I = ?I and Q = "\<lambda>res. ?I (snd res)"])
    show "?I (initial_state g saved given)" by (simp add: mirrors_def initial_state_def)
    show "?I (snd (run_loop env t 0 s))" if "?I s" for t s
      using that by (simp add: finish_run_def mirrors_def)
  qed (use mirrors_turn assms(1-3) in blast)+
  then show ?thesis using assms(4) by (metis mirrors_def run_def snd_conv)
qed

text \<open>
  A retried failure breaks the mirror: the conversation gains no message from it, and the store
  is given the previous message once more.
\<close>

theorem retried_failure_stores_twice:
  assumes "has_store env" "\<not> cancelled_at env t" "snd (requested env t s) = Inr (ModelFailure e True u)"
  shows "\<exists>s'. one_turn env t s = Continue s' \<and> messages (conv s') = messages (conv s)
    \<and> stored s' = stored s @ [(t, last_message (conv s))]"
proof -
  obtain s2 where r: "requested env t s = (s2, Inr (ModelFailure e True u))"
    using assms(3) by (metis prod.collapse)
  note shape = requested_shape(1,2) [OF r]
  show ?thesis
    using assms(1,2) r shape
    by (simp add: one_turn_def act_on_def take_action_def retry_turn_def store_last_def record_transition_def
        last_message_def)
qed

section \<open>The contract of a gate\<close>

text \<open>
  What a gate promises about the calls it allows, from an invariant of its state, holds for every
  tool that runs: the loop runs no tool the gate did not allow in that very state.
\<close>

lemma yielded_results:
  "yielded (fold (record_result env t) rs s) = yielded s @ map (\<lambda>r. ToolDone (tr_call r) (tr_outcome r)) rs"
  by (induction rs arbitrary: s) simp_all

lemma gate_state_results [simp]: "gate_state (fold (record_result env t) rs s) = gate_state s"
  by (induction rs arbitrary: s) (simp_all add: record_result_def Let_def)

lemma run_calls_shape:
  "yielded (run_calls env t cs s)
     = yielded s @ map (\<lambda>r. ToolDone (tr_call r) (tr_outcome r)) (fst (tool_calls env t cs (gate_state s)))"
  "gate_state (run_calls env t cs s) = snd (tool_calls env t cs (gate_state s))"
  by (auto simp: run_calls_def Let_def yielded_results split: prod.splits)

locale gate_contract =
  fixes env :: "'g loop_env"
    and inv :: "'g \<Rightarrow> bool"
    and approved :: "tool_call \<Rightarrow> json_object option \<Rightarrow> bool"
  assumes gate_keeps: "inv g \<Longrightarrow> inv (snd (pre_gate env t c g))"
    and gate_approves: "inv g \<Longrightarrow> fst (pre_gate env t c g) = GATE_ALLOWS u \<Longrightarrow> approved c u"
begin

definition sound_result :: "tool_call \<Rightarrow> tool_outcome option \<Rightarrow> bool" where
  "sound_result c x \<longleftrightarrow> x = None \<or> (\<exists>t u. approved c u \<and> x = Some (executed_outcome env t c u))"

definition sound_state :: "'g loop_state \<Rightarrow> bool" where
  "sound_state s \<longleftrightarrow> inv (gate_state s) \<and> (\<forall>c x. ToolDone c x \<in> set (yielded s) \<longrightarrow> sound_result c x)"

lemma sound_one:
  assumes "inv g"
  shows "inv (snd (tool_one env t c g)) \<and> sound_result (tr_call (fst (tool_one env t c g))) (tr_outcome (fst (tool_one env t c g)))"
proof -
  obtain a h where r: "pre_gate env t c g = (a, h)" by force
  then have "inv h" "\<And>u. a = GATE_ALLOWS u \<Longrightarrow> approved c u"
    using gate_keeps [OF assms, of t c] gate_approves [OF assms, of t c] by auto
  then show ?thesis using assms r by (cases a) (auto simp: tool_one_def refused_def sound_result_def Let_def)
qed

lemma sound_each:
  "inv g \<Longrightarrow> inv (snd (tool_each env t cs g))
     \<and> (\<forall>r \<in> set (fst (tool_each env t cs g)). sound_result (tr_call r) (tr_outcome r))"
proof (induction cs arbitrary: g)
  case (Cons c cs)
  have next_inv: "inv (snd (tool_one env t c g))" using sound_one [OF Cons.prems] by blast
  show ?case using sound_one [OF Cons.prems, of t c] Cons.IH [OF next_inv]
    by (auto split: prod.splits)
qed simp

lemma sound_calls:
  assumes "sound_state s"
  shows "sound_state (run_calls env t cs s)"
  using assms sound_each [of "gate_state s" t]
  by (auto simp: sound_state_def run_calls_shape tool_calls_def)

lemma sound_act:
  assumes "sound_state s"
  shows "(act_on env t a s = Continue s' \<longrightarrow> sound_state s') \<and> (act_on env t a s = Leave x \<longrightarrow> sound_state (snd x))"
  using assms sound_calls [OF assms]
  by (cases a) (auto simp: act_on_def finish_run_def sound_state_def retry_turn_def)

lemma sound_turn:
  assumes "sound_state s"
  shows "(one_turn env t s = Continue s' \<longrightarrow> sound_state s') \<and> (one_turn env t s = Leave x \<longrightarrow> sound_state (snd x))"
proof -
  have req: "sound_state s2" if "requested env t s = (s2, act)" for s2 act
    using assms that by (auto simp: requested_def begin_turn_def sound_state_def Let_def split: prod.splits)
  have take: "sound_state (take_action env t a s2)" if "sound_state s2" for a s2
    using that by (simp add: take_action_def sound_state_def)
  show ?thesis
  proof (cases "cancelled_at env t")
    case True
    then show ?thesis using assms by (auto simp: one_turn_def finish_run_def sound_state_def Let_def)
  next
    case False
    obtain s2 act where r: "requested env t s = (s2, act)" by force
    show ?thesis
      using False r req [OF r] sound_act [OF take [OF req [OF r]]]
      by (cases act) (auto simp: one_turn_def finish_run_def sound_state_def)
  qed
qed

lemma run_sound:
  assumes "inv g"
  shows "sound_state (snd (run env bound g saved given))"
  unfolding run_def
proof (rule run_loop_rule [where I = sound_state and Q = "\<lambda>res. sound_state (snd res)"])
  show "sound_state (initial_state g saved given)" using assms by (simp add: sound_state_def initial_state_def)
  show "sound_state (snd (run_loop env t 0 s))" if "sound_state s" for t s
    using that by (simp add: finish_run_def sound_state_def)
qed (use sound_turn in blast)+

lemma executed_was_approved:
  assumes "inv g" "ToolDone c (Some out) \<in> set (yielded (snd (run env bound g saved given)))"
  shows "\<exists>t u. approved c u \<and> out = executed_outcome env t c u"
  using run_sound [OF assms(1)] assms(2) by (fastforce simp: sound_state_def sound_result_def)

end

section \<open>Concrete runs\<close>

definition sample_call :: tool_call where
  "sample_call = \<lparr>call_id = ''t1'', call_name = ''Bash'', call_params = [(''command'', J_STR ''ls'')], call_usage = None\<rparr>"

definition sample_env :: "unit loop_env" where
  "sample_env = \<lparr>model_reply = (\<lambda>t ms. if t = 0 then STREAM [TEXT_DELTA ''Looking'', STREAM_TOOL sample_call, FINISH] None
                                 else ACTION (AssistantText ''Two files'' ''end_turn'' None)),
     cancelled_at = (\<lambda>t. False), cancelled_before = (\<lambda>t c. False), cancelled_after = (\<lambda>t c. False),
     pre_gate = (\<lambda>t c g. (GATE_ALLOWS None, g)), run_tool = (\<lambda>t c ps. Inr (ToolSuccess (call_name c) ''a b'' 1)),
     post_context = (\<lambda>t c x. []), tool_table = [], show_input = (\<lambda>x. ''{}''),
     limits = \<lparr>max_tokens = 90, tool_result_max_chars = 50, first_message_preserved = True\<rparr>, has_store = True\<rparr>"

lemma sample_replies: "ids_of_reply (model_reply sample_env t ms)" "definitive (model_reply sample_env t ms)"
  by (auto simp: sample_env_def ids_of_reply_def definitive_def read_reply_def stream_action_def sample_call_def)

lemma sample_run_result:
  "out_status (fst (run sample_env 5 () [] [(USER, ''list'')])) = RUN_COMPLETED"
  "length (requests (snd (run sample_env 5 () [] [(USER, ''list'')]))) = 2"
  "length (stored (snd (run sample_env 5 () [] [(USER, ''list'')]))) = 3"
  by code_simp+

theorem requests_are_paired_witness:
  "\<exists>x s. (x, s) = run sample_env 5 () [] [(USER, ''list'')] \<and> out_status x = RUN_COMPLETED
    \<and> length (requests s) = 2 \<and> filter (\<lambda>ms. tool_pairing ms \<noteq> []) (requests s) = []"
proof -
  obtain x s where r: "(x, s) = run sample_env 5 () [] [(USER, ''list'')]" by (metis prod.collapse)
  have "pending (rebuild_from []) = []" by (simp add: rebuild_from_def new_state_def)
  from requests_are_paired [OF sample_replies(1) this r] show ?thesis
    using sample_run_result unfolding r [symmetric] fst_conv snd_conv using r by blast
qed

theorem store_mirrors_conversation_witness:
  "\<exists>x s. (x, s) = run sample_env 5 () [] [(USER, ''list'')] \<and> length (stored s) = 3
    \<and> map Some (messages (conv s)) = Some (text_message USER ''list'') # map snd (stored s)"
proof -
  obtain x s where r: "(x, s) = run sample_env 5 () [] [(USER, ''list'')]" by (metis prod.collapse)
  have world: "has_store sample_env" "\<not> cancelled_at sample_env t" for t by (simp_all add: sample_env_def)
  have "messages (conv (initial_state () [] [(USER, ''list'')])) = [text_message USER ''list'']" by code_simp
  then show ?thesis
    using store_mirrors_conversation [OF world sample_replies(2) r] sample_run_result(3)
    unfolding r [symmetric] snd_conv using r by force
qed

definition overloaded_env :: "unit loop_env" where
  "overloaded_env = sample_env\<lparr>model_reply := (\<lambda>t ms. ACTION (ModelFailure ''overloaded'' True None))\<rparr>"

theorem retried_failure_stores_twice_witness:
  "\<exists>s'. one_turn overloaded_env 0 (initial_state () [] [(USER, ''list'')]) = Continue s'
    \<and> messages (conv s') = [text_message USER ''list''] \<and> stored s' = [(0, Some (text_message USER ''list''))]"
proof -
  have world: "has_store overloaded_env" "\<not> cancelled_at overloaded_env 0"
    by (simp_all add: overloaded_env_def sample_env_def)
  have "snd (requested overloaded_env 0 (initial_state () [] [(USER, ''list'')])) = Inr (ModelFailure ''overloaded'' True None)"
    by (simp add: requested_def overloaded_env_def sample_env_def read_reply_def Let_def)
  from retried_failure_stores_twice [OF world this] show ?thesis
    by (simp add: initial_state_def rebuild_from_def new_state_def add_user_message_def push_def last_message_def)
qed

end
