(* ===== verification/Tool_Gate.thy ===== *)
theory Tool_Gate
  imports Hook_Dispatch Permission_Pipeline
begin

text \<open>
  \<^verbatim>\<open>composition/runtime_composition.py\<close>, the class \<open>_RealHooks\<close>: the gate every tool call of the
  native runtime goes through, hooks first, then the permission pipeline of the call's session.
  The tool registry is \<open>find_tool\<close>, the text of a value that is not a string is \<open>show_json\<close>.
  \<open>None\<close> is an exception that leaves the gate. The lemmas compose what the dispatcher and the
  pipeline promise.
\<close>

section \<open>State\<close>

text \<open>
  The input of a hook before a tool call; after the call, the output and whether it succeeded are
  there too.
\<close>

record tool_input =
  in_tool :: string
  in_params :: "(string \<times> json) list"
  in_session :: string
  in_use_id :: string
  in_cwd :: string
  in_result :: "(string \<times> bool) option"

datatype gate_reason = NoGateReason | ByHook block_note | ByPermission permission_result

record gate_result =
  gate_allowed :: bool
  gate_reason :: gate_reason
  gate_updated :: "(string \<times> json) list option"
  gate_context :: string

record hook_gate =
  gate_registry :: "tool_input hook_handler hook_registry"
  base_permission :: "pipeline option"
  session_confirm_callbacks :: "(string, prompt_request \<Rightarrow> prompt_decision) dict"
  session_pipelines :: "(string, pipeline) dict"

record gate_env =
  hook_world :: "tool_input hook_env"
  find_tool :: "string \<Rightarrow> tool option"
  show_json :: "json \<Rightarrow> string"
  sha256 :: "string \<Rightarrow> string"

section \<open>Sessions\<close>

definition register_session_confirm ::
  "string \<Rightarrow> (prompt_request \<Rightarrow> prompt_decision) \<Rightarrow> hook_gate \<Rightarrow> hook_gate" where
  "register_session_confirm sid cb g =
     g\<lparr>session_confirm_callbacks := dict_set sid cb (session_confirm_callbacks g),
       session_pipelines := dict_del sid (session_pipelines g)\<rparr>"

definition fresh_pipeline :: "pipeline \<Rightarrow> (prompt_request \<Rightarrow> prompt_decision) option \<Rightarrow> pipeline" where
  "fresh_pipeline base cb =
     set_permission_mode (permission_mode base)
       (new_pipeline (deny_rules base @ ask_rules base @ allow_rules base) None None
          (auto_approval base) False (project_root base) (work_dir base) None cb None)"

text \<open>
  The pipeline of a session, and how it is stored back once \<open>check\<close> has changed it: Python shares
  the object, so the cached one or the base changes in place.
\<close>

definition pipeline_for :: "string \<Rightarrow> hook_gate \<Rightarrow> pipeline option" where
  "pipeline_for sid g =
     (case base_permission g of
        None \<Rightarrow> None
      | Some base \<Rightarrow>
          if sid = [] then Some base
          else (case dict_get (session_pipelines g) sid of
                  Some p \<Rightarrow> Some p
                | None \<Rightarrow> Some (fresh_pipeline base (dict_get (session_confirm_callbacks g) sid))))"

definition store_pipeline :: "string \<Rightarrow> pipeline \<Rightarrow> hook_gate \<Rightarrow> hook_gate" where
  "store_pipeline sid p g =
     (if sid = [] then g\<lparr>base_permission := Some p\<rparr>
      else g\<lparr>session_pipelines := dict_set sid p (session_pipelines g)\<rparr>)"

section \<open>The gate\<close>

fun to_param :: "(json \<Rightarrow> string) \<Rightarrow> json \<Rightarrow> param" where
  "to_param shw (J_STR s) = PStr s"
| "to_param shw j = PJson (shw j) (truthy j)"

definition thawed :: "(json \<Rightarrow> string) \<Rightarrow> (string \<times> json) list \<Rightarrow> params" where
  "thawed shw kvs = map (\<lambda>(k, j). (k, to_param shw j)) kvs"

definition permission_gate ::
  "gate_env \<Rightarrow> time \<Rightarrow> tool_input \<Rightarrow> hook_gate \<Rightarrow> (gate_result option \<times> hook_gate) option" where
  "permission_gate env now inp g =
     (case find_tool env (in_tool inp) of
        None \<Rightarrow> Some (None, g)
      | Some t \<Rightarrow>
          (case pipeline_for (in_session inp) g of
             None \<Rightarrow> Some (None, g)
           | Some p \<Rightarrow>
               (case check (sha256 env) now t (thawed (show_json env) (in_params inp)) [] False [] p of
                  None \<Rightarrow> None
                | Some (r, p') \<Rightarrow>
                    let g' = store_pipeline (in_session inp) p' g in
                    if decision r = P_DENY then
                      Some (Some \<lparr>gate_allowed = False, gate_reason = ByPermission r,
                                  gate_updated = None, gate_context = []\<rparr>, g')
                    else Some (None, g'))))"

definition of_dispatch :: "bool \<Rightarrow> dispatch_result \<Rightarrow> gate_result" where
  "of_dispatch ok r = \<lparr>gate_allowed = ok, gate_reason = ByHook (block_reason r),
     gate_updated = updated_input r, gate_context = additional_context r\<rparr>"

text \<open>
  \<open>check\<close> compares the hooks' permission with \<open>PermissionDecision.ALLOW\<close> of \<^verbatim>\<open>hitl/pipeline.py\<close> by identity:
  no member of the hooks' own enumeration is that object.
\<close>

definition same_member :: "permission_choice option \<Rightarrow> permission_decision \<Rightarrow> bool" where
  "same_member a b = (case a of Some HITL_ALLOW \<Rightarrow> b = P_ALLOW | Some HITL_DENY \<Rightarrow> b = P_DENY | _ \<Rightarrow> False)"

definition gate_check ::
  "gate_env \<Rightarrow> (nat \<Rightarrow> time) \<Rightarrow> time \<Rightarrow> string \<Rightarrow> tool_input \<Rightarrow> hook_gate
     \<Rightarrow> (gate_result \<times> hook_gate) option" where
  "gate_check env clock now ev inp g =
     (case dispatch (hook_world env) (gate_registry g) None clock ev inp (in_tool inp) of
        Inl e \<Rightarrow> None
      | Inr r \<Rightarrow>
          if ev \<noteq> ''PreToolUse'' then Some (of_dispatch (\<not> blocked r) r, g)
          else if blocked r then Some (of_dispatch False r, g)
          else if same_member (permission r) P_ALLOW then Some (of_dispatch True r, g)
          else if base_permission g = None then Some (of_dispatch True r, g)
          else
            (case permission_gate env now inp g of
               None \<Rightarrow> None
             | Some (Some denied, g') \<Rightarrow> Some (denied, g')
             | Some (None, g') \<Rightarrow> Some (of_dispatch True r, g')))"

text \<open>What the step loop does with an exception, and the parameters it then runs the tool with.\<close>

definition gate_failure :: gate_result where
  "gate_failure = \<lparr>gate_allowed = False, gate_reason = NoGateReason, gate_updated = None, gate_context = []\<rparr>"

definition gate_or_deny :: "(gate_result \<times> hook_gate) option \<Rightarrow> hook_gate \<Rightarrow> gate_result \<times> hook_gate" where
  "gate_or_deny res g = (case res of None \<Rightarrow> (gate_failure, g) | Some x \<Rightarrow> x)"

definition final_params :: "gate_result \<Rightarrow> tool_input \<Rightarrow> (string \<times> json) list" where
  "final_params res inp =
     (case gate_updated res of Some (kv # kvs) \<Rightarrow> kv # kvs | _ \<Rightarrow> in_params inp)"

section \<open>What an allowed call went through\<close>

lemma same_allow [simp]: "same_member a P_ALLOW \<longleftrightarrow> a = Some HITL_ALLOW"
  by (cases a) (auto simp: same_member_def split: permission_choice.splits)

lemma dispatch_passes:
  assumes "dispatch env reg snap clock ev inp tool = Inr r" "\<not> blocked r"
  shows "filter (blocks ev) (results r) = []"
  using dispatch_settled [OF assms(1)] assms(2) by (simp add: settled_def)

lemma gate_allowed_cases:
  assumes "gate_check env clock now ''PreToolUse'' inp g = Some (res, g')" "gate_allowed res"
  obtains r where "dispatch (hook_world env) (gate_registry g) None clock ''PreToolUse'' inp (in_tool inp) = Inr r"
    "\<not> blocked r" "res = of_dispatch True r"
    "permission r = Some HITL_ALLOW \<and> g' = g \<or> permission r \<noteq> Some HITL_ALLOW \<and>
       (base_permission g = None \<or> permission_gate env now inp g = Some (None, g'))"
proof -
  obtain r where r: "dispatch (hook_world env) (gate_registry g) None clock ''PreToolUse'' inp (in_tool inp) = Inr r"
    using assms(1) by (auto simp: gate_check_def split: sum.splits)
  have denied: "\<not> gate_allowed d" if "permission_gate env now inp g = Some (Some d, h)" for d h
    using that by (auto simp: permission_gate_def Let_def split: option.splits if_splits)
  have nb: "\<not> blocked r"
    using assms r by (auto simp: gate_check_def of_dispatch_def)
  show thesis
  proof (cases "base_permission g = None \<or> permission r = Some HITL_ALLOW")
    case True
    then show ?thesis using that assms(1) r nb by (auto simp: gate_check_def split: if_splits)
  next
    case False
    then show ?thesis
      using that assms r nb denied by (auto simp: gate_check_def split: option.splits)
  qed
qed

lemma decision_cases: "decision r \<noteq> P_DENY \<longleftrightarrow> decision r = P_ALLOW"
  by (cases "decision r") auto

lemma permission_passes:
  assumes "permission_gate env now inp g = Some (None, g')" "find_tool env (in_tool inp) = Some t"
    "pipeline_for (in_session inp) g = Some p"
  shows "\<exists>r p'. check (sha256 env) now t (thawed (show_json env) (in_params inp)) [] False [] p = Some (r, p')
    \<and> decision r = P_ALLOW"
  using assms by (auto simp: permission_gate_def Let_def decision_cases split: option.splits if_splits)

text \<open>
  C17. The gate composes hooks and permissions: a call it allows was blocked by no hook it
  dispatched, and when its tool is known and the session has a pipeline, then either the pipeline approved the
  parameters the model gave, or the permission of the hooks is the member \<open>ALLOW\<close> of \<^verbatim>\<open>hitl/pipeline.py\<close>, which
  a function registered as a hook returned for this call: then the pipeline was not asked at all. What the hooks
  made of the parameters is passed on beside it.
\<close>

theorem gate_allows_only_approved:
  assumes "gate_check env clock now ''PreToolUse'' inp g = Some (res, g')" "gate_allowed res"
    and "find_tool env (in_tool inp) = Some t" "pipeline_for (in_session inp) g = Some p"
  shows "\<exists>r. dispatch (hook_world env) (gate_registry g) None clock ''PreToolUse'' inp (in_tool inp) = Inr r
    \<and> filter (blocks ''PreToolUse'') (results r) = [] \<and> gate_updated res = updated_input r
    \<and> (if permission r = Some HITL_ALLOW then g' = g \<and> some_hook_overrides (gate_registry g) inp
       else \<exists>pr p'. check (sha256 env) now t (thawed (show_json env) (in_params inp)) [] False [] p = Some (pr, p')
         \<and> decision pr = P_ALLOW)"
proof -
  obtain r where r: "dispatch (hook_world env) (gate_registry g) None clock ''PreToolUse'' inp (in_tool inp) = Inr r"
      "\<not> blocked r" "res = of_dispatch True r"
      "permission r = Some HITL_ALLOW \<and> g' = g \<or> permission r \<noteq> Some HITL_ALLOW \<and>
       (base_permission g = None \<or> permission_gate env now inp g = Some (None, g'))"
    using gate_allowed_cases [OF assms(1,2)] by blast
  have "base_permission g \<noteq> None" using assms(4) by (auto simp: pipeline_for_def split: option.splits)
  then show ?thesis
    using permission_passes [OF _ assms(3,4)] dispatch_passes [OF r(1,2)] override_has_hook [OF r(1,2)] r
    by (auto simp: of_dispatch_def)
qed

section \<open>Deny rules at the gate\<close>

lemma policy_original_undenied:
  assumes "check_policy sha now t orig upd ps th False why p = Some (r, p')" "decision r = P_ALLOW"
    "\<not> needs_interaction t"
  shows "undenied p t ps"
proof -
  have lim: "\<not> total_denials p \<ge> 20"
    using assms(1,2) by (auto simp: check_policy_def dest!: finish_deny simp: deny_rule_layer_def result_of_def)
  obtain tr m where l3: "layer3_rules p (tool_name t) ps = Some (tr, m)"
    using assms(1,3) lim by (auto simp: check_policy_def bind_Some)
  have "tr \<noteq> Some DENY"
  proof
    assume "tr = Some DENY"
    then have "deny_by_rule now t ps p = Some (r, p')"
      using assms(1,3) lim l3 by (simp add: check_policy_def)
    then obtain x q where "finish now x t ps q = Some (r, p')" "decision x = P_DENY"
      by (fastforce simp: deny_by_rule_def Let_def)
    then show False using finish_deny assms(2) by fastforce
  qed
  then show ?thesis using layer3_undenied l3 by blast
qed

lemma unhooked_original_undenied:
  assumes "check sha now t ps th False why p = Some (r, p')" "decision r = P_ALLOW"
    "\<not> needs_interaction t" "dispatcher p = None"
  shows "undenied p t ps"
proof -
  have "layer1_validate t ps = None"
    using assms(1,2) by (auto simp: check_def layer1_validate_def result_of_def split: option.splits if_splits)
  moreover have h: "layer2_hooks p (tool_name t) ps = \<lparr>hp_blocked = False, hp_approved = False, hp_reason = [], hp_updated = []\<rparr>"
    using assms(4) by (simp add: layer2_hooks_def)
  ultimately have "check_policy sha now t ps [] ps th False why p = Some (r, p')"
    using assms(1) by (simp add: check_def)
  then show ?thesis using policy_original_undenied assms(2,3) by blast
qed

lemma fresh_fields:
  "dispatcher (fresh_pipeline base cb) = None" "trust_acc (fresh_pipeline base cb) = None"
  "permission_mode (fresh_pipeline base cb) = permission_mode base"
  "set (deny_rules (fresh_pipeline base cb))
     = {r. r \<in> set (deny_rules base @ ask_rules base @ allow_rules base) \<and> rule_tier r = DENY}"
  by (auto simp: fresh_pipeline_def set_permission_mode_def new_pipeline_def sort_rule_lists_def sort_rules_def)

lemma first_match_all:
  "first_match rs name qs = Some None \<Longrightarrow> x \<in> set rs \<Longrightarrow> rule_matches x name qs = Some False"
  by (induction rs) (auto simp: bind_Some split: if_splits)

text \<open>
  A deny rule of the configuration holds in every session: when a session has no pipeline yet,
  the gate allows no call of a tool (that does not itself require interaction) whose parameters
  the rule matches, as long as the hooks leave the parameters alone and no function among them overrides the rules.
\<close>

theorem gate_enforces_deny_rules:
  assumes "gate_check env clock now ''PreToolUse'' inp g = Some (res, g')" "gate_allowed res"
    and "find_tool env (in_tool inp) = Some t" "\<not> needs_interaction t"
    and "base_permission g = Some base" "in_session inp \<noteq> []"
    and "dict_get (session_pipelines g) (in_session inp) = None"
    and "rule \<in> set (deny_rules base)" "rule_tier rule = DENY" "gate_updated res = None"
    and "\<not> some_hook_overrides (gate_registry g) inp"
  shows "rule_matches rule (tool_name t) (thawed (show_json env) (final_params res inp)) = Some False"
proof -
  let ?p = "fresh_pipeline base (dict_get (session_confirm_callbacks g) (in_session inp))"
  have p: "pipeline_for (in_session inp) g = Some ?p"
    using assms(5-7) by (simp add: pipeline_for_def)
  obtain pr p' where "check (sha256 env) now t (thawed (show_json env) (in_params inp)) [] False [] ?p = Some (pr, p')"
      "decision pr = P_ALLOW"
    using gate_allowed_cases [OF assms(1,2)] override_has_hook assms(11) permission_passes [OF _ assms(3) p] assms(5)
    by (metis option.distinct(1))
  then have "undenied ?p t (thawed (show_json env) (in_params inp))"
    using unhooked_original_undenied assms(4) fresh_fields(1) by blast
  then show ?thesis
    using first_match_all assms(8-10) by (auto simp: undenied_def fresh_fields(4) final_params_def)
qed

definition verdict :: "gate_result option option \<Rightarrow> bool option" where
  "verdict x = map_option (\<lambda>d. case d of None \<Rightarrow> True | Some res \<Rightarrow> gate_allowed res) x"

lemma gate_verdict:
  assumes "dispatch (hook_world env) (gate_registry g) None clock ''PreToolUse'' inp (in_tool inp) = Inr r" "\<not> blocked r" "permission r \<noteq> Some HITL_ALLOW"
  shows "map_option (gate_allowed \<circ> fst) (gate_check env clock now ''PreToolUse'' inp g)
    = (if base_permission g = None then Some True else verdict (map_option fst (permission_gate env now inp g)))"
  using assms
  by (auto simp: gate_check_def of_dispatch_def verdict_def split: option.splits)

lemma permission_gate_registry:
  "map_option fst (permission_gate env now inp (g\<lparr>gate_registry := reg\<rparr>)) = map_option fst (permission_gate env now inp g)"
proof -
  have "pipeline_for sid (g\<lparr>gate_registry := reg\<rparr>) = pipeline_for sid g" for sid
    by (auto simp: pipeline_for_def split: option.splits)
  then show ?thesis by (auto simp: permission_gate_def Let_def split: option.splits)
qed

text \<open>
  The pipeline never sees what the hooks made of the parameters: whatever two sets of hooks
  answer, as long as neither blocks the call or overrides the rules, the gate decides alike, and the call then runs with
  the rewritten parameters. A deny rule that matches them is not consulted.
\<close>

theorem rewritten_input_is_unchecked:
  assumes "dispatch (hook_world env) reg1 None clock ''PreToolUse'' inp (in_tool inp) = Inr r1" "\<not> blocked r1" "permission r1 \<noteq> Some HITL_ALLOW"
    and "dispatch (hook_world env) reg2 None clock ''PreToolUse'' inp (in_tool inp) = Inr r2" "\<not> blocked r2" "permission r2 \<noteq> Some HITL_ALLOW"
  shows "map_option (gate_allowed \<circ> fst) (gate_check env clock now ''PreToolUse'' inp (g\<lparr>gate_registry := reg1\<rparr>))
    = map_option (gate_allowed \<circ> fst) (gate_check env clock now ''PreToolUse'' inp (g\<lparr>gate_registry := reg2\<rparr>))"
  using assms by (simp add: gate_verdict permission_gate_registry)

section \<open>Concrete gates\<close>

definition shell_tool :: tool where
  "shell_tool =
     \<lparr>tool_name = ''Bash'', denial_reason = (\<lambda>ps. []), read_only = (\<lambda>ps. False),
      classify_risk = (\<lambda>ps. Some ''low''), risk_level = ''low'', needs_interaction = False,
      writes_path = False, path_parameter = [], tool_permissions = []\<rparr>"

definition shell_rule :: "tier \<Rightarrow> string option \<Rightarrow> permission_rule" where
  "shell_rule tr pat = \<lparr>raw = ''Bash'', rule_tool = ''bash'', pattern = pat, rule_tier = tr, source = ''user''\<rparr>"

definition no_rm :: permission_rule where
  "no_rm = shell_rule DENY (Some ''rm *'')"

definition gate_base :: pipeline where
  "gate_base = new_pipeline [no_rm, shell_rule ALLOW None] None None False False ''/repo'' ''/repo'' None None None"

definition gate_world :: gate_env where
  "gate_world = \<lparr>hook_world = \<lparr>runner = (\<lambda>argv inp t. silent), shlex_split = (\<lambda>s. None),
        fullmatch = (\<lambda>p s. False), stop_hook_active = (\<lambda>inp. False)\<rparr>,
     find_tool = (\<lambda>n. if n = ''Bash'' then Some shell_tool else None), show_json = (\<lambda>j. []), sha256 = id\<rparr>"

definition hooks_answer :: "(string \<times> json) list option \<Rightarrow> tool_input hook_handler hook_registry" where
  "hooks_answer u = registry_after [Register ''rewrite'' ''PreToolUse''
     (FUNCTION (\<lambda>inp. (RETURNS (Some (PreToolUse permission_choice.ALLOW u (J_STR []))), 0))) None 100]"

text \<open>As the repository's own test has it: a function that returns the other enumeration's member.\<close>

definition hitl_allow :: "tool_input hook_handler hook_registry" where
  "hitl_allow = registry_after [Register ''allow-hook'' ''PreToolUse''
     (FUNCTION (\<lambda>inp. (RETURNS (Some (PreToolUse HITL_ALLOW None (J_STR ''allow''))), 0))) None 100]"

definition sample_gate :: "(string \<times> json) list option \<Rightarrow> hook_gate" where
  "sample_gate u = \<lparr>gate_registry = hooks_answer u, base_permission = Some gate_base,
     session_confirm_callbacks = [], session_pipelines = []\<rparr>"

definition ls_input :: tool_input where
  "ls_input = \<lparr>in_tool = ''Bash'', in_params = [(''command'', J_STR ''ls'')], in_session = ''s1'',
     in_use_id = ''t1'', in_cwd = ''/repo'', in_result = None\<rparr>"

definition rm_params :: "(string \<times> json) list" where
  "rm_params = [(''command'', J_STR ''rm -rf src'')]"

lemma plain_run:
  "dispatch (hook_world gate_world) (hooks_answer None) None (\<lambda>i. 0) ''PreToolUse'' ls_input ''Bash''
    = Inr (empty_result\<lparr>results := [decided ''rewrite'' (Some (PreToolUse permission_choice.ALLOW None (J_STR []))) 0],
        permission := Some permission_choice.ALLOW\<rparr>)"
  by code_simp

lemma rewrite_run:
  "dispatch (hook_world gate_world) (hooks_answer (Some rm_params)) None (\<lambda>i. 0) ''PreToolUse'' ls_input ''Bash''
    = Inr (empty_result\<lparr>results := [decided ''rewrite'' (Some (PreToolUse permission_choice.ALLOW (Some rm_params) (J_STR []))) 0],
        permission := Some permission_choice.ALLOW, updated_input := Some rm_params\<rparr>)"
  by code_simp

lemma gate_plain:
  "map_option (\<lambda>(r, g). (gate_allowed r, gate_updated r))
     (gate_check gate_world (\<lambda>i. 0) 0 ''PreToolUse'' ls_input (sample_gate None)) = Some (True, None)"
  by code_simp

lemma own_allow_is_asked: "\<not> some_hook_overrides (hooks_answer u) ls_input"
  by (cases u) code_simp+

lemma gate_facts:
  "find_tool gate_world (in_tool ls_input) = Some shell_tool" "\<not> needs_interaction shell_tool"
  "base_permission (sample_gate u) = Some gate_base" "in_session ls_input = ''s1''"
  "session_pipelines (sample_gate u) = []" "in_tool ls_input = ''Bash''"
  "pipeline_for (in_session ls_input) (sample_gate None) = Some (fresh_pipeline gate_base None)"
  by (simp_all add: gate_world_def ls_input_def shell_tool_def sample_gate_def pipeline_for_def)

lemma no_rm_denies: "no_rm \<in> set (deny_rules gate_base)" "rule_tier no_rm = DENY"
  by (simp_all add: gate_base_def new_pipeline_def sort_rule_lists_def sort_rules_def no_rm_def shell_rule_def)

theorem gate_allows_only_approved_witness:
  "\<exists>res g' pr p'. gate_check gate_world (\<lambda>i. 0) 0 ''PreToolUse'' ls_input (sample_gate None) = Some (res, g')
    \<and> gate_allowed res
    \<and> check id 0 shell_tool (thawed (show_json gate_world) (in_params ls_input)) [] False []
        (fresh_pipeline gate_base None) = Some (pr, p')
    \<and> decision pr = P_ALLOW"
proof -
  obtain res g' where g: "gate_check gate_world (\<lambda>i. 0) 0 ''PreToolUse'' ls_input (sample_gate None) = Some (res, g')"
      "gate_allowed res" using gate_plain by auto
  have "sha256 gate_world = id" by (simp add: gate_world_def)
  then show ?thesis
    using gate_allows_only_approved [OF g gate_facts(1,7)] own_allow_is_asked g
    by (auto simp: sample_gate_def split: if_splits)
qed

theorem gate_enforces_deny_rules_witness:
  "\<exists>res g'. gate_check gate_world (\<lambda>i. 0) 0 ''PreToolUse'' ls_input (sample_gate None) = Some (res, g')
    \<and> gate_allowed res
    \<and> rule_matches no_rm ''Bash'' (thawed (show_json gate_world) (final_params res ls_input)) = Some False"
proof -
  obtain res g' where g: "gate_check gate_world (\<lambda>i. 0) 0 ''PreToolUse'' ls_input (sample_gate None) = Some (res, g')"
      "gate_allowed res" "gate_updated res = None" using gate_plain by auto
  have "rule_matches no_rm (tool_name shell_tool) (thawed (show_json gate_world) (final_params res ls_input)) = Some False"
    by (rule gate_enforces_deny_rules [OF g(1,2) gate_facts(1,2,3) _ _ no_rm_denies g(3)])
      (simp_all add: gate_facts, simp add: sample_gate_def own_allow_is_asked)
  then show ?thesis using g by (auto simp: shell_tool_def)
qed

theorem rewritten_input_is_unchecked_witness:
  "map_option (gate_allowed \<circ> fst) (gate_check gate_world (\<lambda>i. 0) 0 ''PreToolUse'' ls_input
       ((sample_gate None)\<lparr>gate_registry := hooks_answer None\<rparr>))
     = map_option (gate_allowed \<circ> fst) (gate_check gate_world (\<lambda>i. 0) 0 ''PreToolUse'' ls_input
       ((sample_gate None)\<lparr>gate_registry := hooks_answer (Some rm_params)\<rparr>))
   \<and> rule_matches no_rm ''Bash'' (thawed (show_json gate_world) rm_params) = Some True"
proof -
  have "rule_matches no_rm ''Bash'' (thawed (show_json gate_world) rm_params) = Some True" by code_simp
  moreover have "map_option (gate_allowed \<circ> fst) (gate_check gate_world (\<lambda>i. 0) 0 ''PreToolUse'' ls_input
       ((sample_gate None)\<lparr>gate_registry := hooks_answer None\<rparr>))
     = map_option (gate_allowed \<circ> fst) (gate_check gate_world (\<lambda>i. 0) 0 ''PreToolUse'' ls_input
       ((sample_gate None)\<lparr>gate_registry := hooks_answer (Some rm_params)\<rparr>))"
    by (rule rewritten_input_is_unchecked [OF plain_run [folded gate_facts(6)] _ _ rewrite_run [folded gate_facts(6)]])
      (simp_all add: empty_result_def)
  ultimately show ?thesis by blast
qed

text \<open>
  Such a function lets through what a deny rule of the configuration matches, as the comment of \<open>check\<close> says of any
  hook that allows; the same answer with the hooks' own member leaves the rule in force.
\<close>

definition rm_input :: tool_input where
  "rm_input = ls_input\<lparr>in_params := rm_params\<rparr>"

theorem only_foreign_allow_supersedes_rules:
  "map_option (gate_allowed \<circ> fst) (gate_check gate_world (\<lambda>i. 0) 0 ''PreToolUse'' rm_input
       ((sample_gate None)\<lparr>gate_registry := hitl_allow\<rparr>)) = Some True
   \<and> map_option (gate_allowed \<circ> fst) (gate_check gate_world (\<lambda>i. 0) 0 ''PreToolUse'' rm_input (sample_gate None)) = Some False
   \<and> rule_matches no_rm ''Bash'' (thawed (show_json gate_world) (in_params rm_input)) = Some True"
  by code_simp

end
