(* ===== verification/Guarded_Run.thy ===== *)
theory Guarded_Run
  imports Step_Loop Tool_Gate
begin

text \<open>
  The step loop run behind the gate of \<^verbatim>\<open>composition/runtime_composition.py\<close>: what the gate's
  hooks and permission pipelines promise of one call, the invariant of a session carries through
  every turn, so that it holds for every tool a run executes.
\<close>

section \<open>The gate as a port of the loop\<close>

definition call_input :: "string \<Rightarrow> string \<Rightarrow> tool_call \<Rightarrow> tool_input" where
  "call_input sid cwd c = \<lparr>in_tool = call_name c, in_params = call_params c, in_session = sid,
     in_use_id = call_id c, in_cwd = cwd, in_result = None\<rparr>"

definition gate_answer_of :: "(gate_reason \<Rightarrow> string) \<Rightarrow> gate_result \<Rightarrow> gate_answer" where
  "gate_answer_of shw res =
     (if gate_allowed res then GATE_ALLOWS (gate_updated res) else GATE_DENIES (shw (gate_reason res)))"

definition session_gate ::
  "gate_env \<Rightarrow> (nat \<Rightarrow> tool_call \<Rightarrow> nat \<Rightarrow> time) \<Rightarrow> (nat \<Rightarrow> tool_call \<Rightarrow> time) \<Rightarrow> (gate_reason \<Rightarrow> string)
     \<Rightarrow> string \<Rightarrow> string \<Rightarrow> nat \<Rightarrow> tool_call \<Rightarrow> hook_gate \<Rightarrow> gate_answer \<times> hook_gate" where
  "session_gate genv clock now shw sid cwd turn c g =
     (case gate_check genv (clock turn c) (now turn c) ''PreToolUse'' (call_input sid cwd c) g of
        None \<Rightarrow> (GATE_RAISES, g)
      | Some (res, g') \<Rightarrow> (gate_answer_of shw res, g'))"

section \<open>What a check leaves alone\<close>

definition same_denials :: "pipeline \<Rightarrow> pipeline \<Rightarrow> bool" where
  "same_denials p q \<longleftrightarrow> deny_rules q = deny_rules p \<and> dispatcher q = dispatcher p"

definition keeps :: "pipeline \<Rightarrow> ('r \<times> pipeline) option \<Rightarrow> bool" where
  "keeps p x \<longleftrightarrow> (\<forall>r q. x = Some (r, q) \<longrightarrow> same_denials p q)"

lemma same_denials_refl [simp]: "same_denials p p"
  by (simp add: same_denials_def)

lemma same_denials_trans: "same_denials p q \<Longrightarrow> same_denials q r \<Longrightarrow> same_denials p r"
  by (simp add: same_denials_def)

lemma keeps_None [simp]: "keeps p None"
  by (simp add: keeps_def)

lemma keeps_Some [simp]: "keeps p (Some (r, q)) = same_denials p q"
  by (auto simp: keeps_def)

lemma keeps_from: "same_denials p q \<Longrightarrow> keeps q x \<Longrightarrow> keeps p x"
  using same_denials_trans by (auto simp: keeps_def)

lemma keeps_bind:
  assumes "\<And>a. x = Some a \<Longrightarrow> keeps p (f a)"
  shows "keeps p (x \<bind> f)"
  using assms by (cases x) auto

lemma keeps_then:
  assumes "keeps p x" "\<And>r q. keeps q (f (r, q))"
  shows "keeps p (x \<bind> f)"
proof (rule keeps_bind)
  fix a assume "x = Some a"
  then show "keeps p (f a)"
    using assms keeps_from [of p "snd a" "f a"] by (cases a) (auto simp: keeps_def)
qed

lemma count_denials: "same_denials p (count_decision now r t (record_stats x p))"
  by (simp add: same_denials_def count_decision_def record_stats_def)

lemma keeps_finish: "keeps p (finish now r t ps p)"
  unfolding finish_def apply_tool_check_def Let_def
  by (rule keeps_bind) (simp add: count_denials)

lemma keeps_trust: "keeps p (try_trust_auto_allow sha now t ps p)"
  by (auto simp: keeps_def try_trust_auto_allow_def bind_Some Let_def same_denials_def
      case_prod_beta split: option.splits)

lemma feedback_denials:
  assumes "record_trust_feedback sha now t ps r p = Some q"
  shows "same_denials p q"
proof -
  have "\<exists>x. q = p\<lparr>trust_acc := x\<rparr>"
  proof (cases "trust_acc p = None \<or> layer r \<noteq> INTERACTIVE \<or> res_reason r = Because ''auto_approve''")
    case True
    then have "q = p" using assms by (auto simp: record_trust_feedback_def split: option.splits)
    then have "q = p\<lparr>trust_acc := trust_acc p\<rparr>" by simp
    then show ?thesis by blast
  next
    case False
    then show ?thesis using assms unfolding record_trust_feedback_def Let_def
      by (auto simp only: bind_Some option.case option.inject if_False simp_thms split: option.split_asm)
  qed
  then show ?thesis by (auto simp: same_denials_def)
qed

lemma keeps_layer6: "keeps p (layer6_callback p t ps th force why)"
  using layer6_policy by (fastforce simp: keeps_def same_policy_def same_denials_def)

lemma keeps_interactive: "keeps p (check_interactive sha now t orig upd ps th force why p)"
  unfolding check_interactive_def Let_def
  apply (rule keeps_then [OF keeps_layer6])
  apply (unfold prod.case)
  apply (rule keeps_bind)
  apply (rule keeps_bind)
  apply (drule feedback_denials)
  apply (erule keeps_from)
  apply (rule keeps_finish)
  done

lemma keeps_mode: "keeps p (check_mode sha now t orig upd ps th force why tr p)"
  unfolding check_mode_def
  by (rule keeps_bind) (auto intro!: keeps_bind keeps_finish keeps_interactive split: option.splits)

lemma keeps_rule_denial: "keeps p (deny_by_rule now t ps p)"
proof -
  have "same_denials p (if b then p\<lparr>terminate_session := True\<rparr> else p)" for b
    by (simp add: same_denials_def)
  then show ?thesis unfolding deny_by_rule_def Let_def by (rule keeps_from) (rule keeps_finish)
qed

lemma keeps_policy: "keeps p (check_policy sha now t orig upd ps th over why p)"
proof -
  have ask: "keeps p (do { (trusted, p1) \<leftarrow> try_trust_auto_allow sha now t ps p;
        if trusted then finish now x t ps p1 else check_mode sha now t orig upd ps th True w tr p1 })" for x w tr
    by (rule keeps_then [OF keeps_trust]) (simp add: keeps_finish keeps_mode)
  show ?thesis
    unfolding check_policy_def
    by (auto intro!: keeps_finish keeps_mode keeps_bind keeps_rule_denial ask split: option.split tier.split)
qed

lemma check_denials: "check sha now t ps th over why p = Some (r, q) \<Longrightarrow> same_denials p q"
proof -
  have "keeps p (check sha now t ps th over why p)"
    unfolding check_def Let_def
    by (auto intro!: keeps_finish keeps_policy simp: record_stats_def same_denials_def split: option.splits)
  then show "check sha now t ps th over why p = Some (r, q) \<Longrightarrow> same_denials p q" by (simp add: keeps_def)
qed

section \<open>Deny rules in a run\<close>

text \<open>
  A rule guards a session: the configuration has it, and so has the session's pipeline once there
  is one.
\<close>

definition guarded :: "permission_rule \<Rightarrow> string \<Rightarrow> hook_gate \<Rightarrow> bool" where
  "guarded rule sid g \<longleftrightarrow>
     (case base_permission g of None \<Rightarrow> False | Some base \<Rightarrow> rule \<in> set (deny_rules base))
     \<and> (case dict_get (session_pipelines g) sid of
          None \<Rightarrow> True
        | Some p \<Rightarrow> rule \<in> set (deny_rules p) \<and> dispatcher p = None)"

lemma guarded_pipeline:
  assumes "guarded rule sid g" "sid \<noteq> []" "rule_tier rule = DENY"
  obtains p where "pipeline_for sid g = Some p" "rule \<in> set (deny_rules p)" "dispatcher p = None"
  using assms by (auto simp: guarded_def pipeline_for_def fresh_fields split: option.splits)

lemma gate_steps:
  assumes "gate_check genv clock now ev inp g = Some (res, g')"
  shows "g' = g \<or> (\<exists>x. permission_gate genv now inp g = Some (x, g'))"
  using assms
  by (auto simp: gate_check_def split: sum.splits option.splits if_splits)

lemma permission_gate_guarded:
  assumes "guarded rule sid g" "sid \<noteq> []" "rule_tier rule = DENY" "in_session inp = sid"
    "permission_gate genv now inp g = Some (x, g')"
  shows "guarded rule sid g'"
proof -
  obtain p where p: "pipeline_for sid g = Some p" "rule \<in> set (deny_rules p)" "dispatcher p = None"
    using guarded_pipeline assms(1-3) by blast
  have kept: "guarded rule sid (store_pipeline sid q g)"
    if "check (sha256 genv) now t (thawed (show_json genv) (in_params inp)) [] False [] p = Some (r, q)" for t r q
    using assms(1,2) p(2,3) check_denials [OF that]
    by (auto simp: guarded_def store_pipeline_def same_denials_def dict_simps)
  show ?thesis
    using assms(1,4,5) p(1)
    by (auto simp: permission_gate_def Let_def dest: kept split: option.splits if_splits)
qed

lemma session_gate_guarded:
  assumes "guarded rule sid g" "sid \<noteq> []" "rule_tier rule = DENY"
  shows "guarded rule sid (snd (session_gate genv clock now shw sid cwd turn c g))"
proof (cases "gate_check genv (clock turn c) (now turn c) ''PreToolUse'' (call_input sid cwd c) g")
  case (Some a)
  obtain res g' where a: "a = (res, g')" by force
  have "guarded rule sid g'"
    using gate_steps [OF Some [unfolded a]] permission_gate_guarded [OF assms, of "call_input sid cwd c"] assms(1)
    by (auto simp: call_input_def)
  then show ?thesis using Some a by (simp add: session_gate_def)
qed (use assms in \<open>simp add: session_gate_def\<close>)

lemma permission_gate_keeps_registry:
  "permission_gate genv now inp g = Some (x, g') \<Longrightarrow> gate_registry g' = gate_registry g"
  by (auto simp: permission_gate_def store_pipeline_def Let_def split: option.splits if_splits)

lemma session_gate_registry:
  "gate_registry (snd (session_gate genv clock now shw sid cwd turn c g)) = gate_registry g"
  using gate_steps [of genv "clock turn c" "now turn c" "''PreToolUse''" "call_input sid cwd c" g]
  by (auto simp: session_gate_def dest: permission_gate_keeps_registry split: option.splits)

text \<open>What the gate promises of a call it allows, for a rule that guards the session.\<close>

definition rule_spares :: "gate_env \<Rightarrow> permission_rule \<Rightarrow> tool_call \<Rightarrow> bool" where
  "rule_spares genv rule c =
     (case find_tool genv (call_name c) of
        None \<Rightarrow> True
      | Some t \<Rightarrow> needs_interaction t
          \<or> rule_matches rule (tool_name t) (thawed (show_json genv) (call_params c)) = Some False)"

lemma session_gate_spares:
  assumes "guarded rule sid g" "sid \<noteq> []" "rule_tier rule = DENY"
    "fst (session_gate genv clock now shw sid cwd turn c g) = GATE_ALLOWS u"
    "\<not> some_hook_overrides (gate_registry g) (call_input sid cwd c)"
  shows "rule_spares genv rule c"
proof (cases "find_tool genv (call_name c)")
  case (Some t)
  obtain p where p: "pipeline_for sid g = Some p" "rule \<in> set (deny_rules p)" "dispatcher p = None"
    using guarded_pipeline assms(1-3) by blast
  obtain res g' where res: "gate_check genv (clock turn c) (now turn c) ''PreToolUse'' (call_input sid cwd c) g
      = Some (res, g')" "gate_allowed res"
    using assms(4) by (auto simp: session_gate_def gate_answer_of_def split: option.splits if_splits)
  have "base_permission g \<noteq> None" using assms(1) by (auto simp: guarded_def split: option.splits)
  then have "permission_gate genv (now turn c) (call_input sid cwd c) g = Some (None, g')"
    using gate_allowed_cases [OF res] override_has_hook assms(5) by metis
  then obtain r q where "check (sha256 genv) (now turn c) t (thawed (show_json genv) (call_params c)) [] False [] p
      = Some (r, q)" "decision r = P_ALLOW"
    using permission_passes [of genv "now turn c" "call_input sid cwd c" g g' t p] Some p(1)
    by (auto simp: call_input_def)
  then show ?thesis
    using unhooked_original_undenied p first_match_all Some by (fastforce simp: rule_spares_def undenied_def)
qed (simp add: rule_spares_def)

text \<open>
  The contract of the loop on this gate, whose hooks a run does not change. A rule that is not one that denies,
  or a session without a name, is given no promise.
\<close>

definition guarded_env ::
  "gate_env \<Rightarrow> (nat \<Rightarrow> tool_call \<Rightarrow> nat \<Rightarrow> time) \<Rightarrow> (nat \<Rightarrow> tool_call \<Rightarrow> time) \<Rightarrow> (gate_reason \<Rightarrow> string)
     \<Rightarrow> string \<Rightarrow> string \<Rightarrow> hook_gate loop_env \<Rightarrow> hook_gate loop_env" where
  "guarded_env genv clock now shw sid cwd env = env\<lparr>pre_gate := session_gate genv clock now shw sid cwd\<rparr>"

interpretation guarded_run: gate_contract "guarded_env genv clock now shw sid cwd env"
    "\<lambda>g. guarded rule sid g \<and> sid \<noteq> [] \<and> rule_tier rule = DENY \<and> gate_registry g = reg"
    "\<lambda>c u. rule_spares genv rule c \<or> some_hook_overrides reg (call_input sid cwd c)"
  for genv clock now shw sid cwd env rule reg
  by unfold_locales
    (auto simp: guarded_env_def session_gate_guarded session_gate_registry dest: session_gate_spares)

text \<open>
  C1. A deny rule holds from the configuration to the tool: in a run whose gate is the session's
  permission gate, when a tool that the gate's registry resolves (and that does not itself require interaction) was
  executed, no deny rule of the configuration matches the parameters the model gave it, whatever the model asks
  for, in any turn, with any callbacks, modes and earlier approvals. The one exception is a function registered as
  a hook that answers this very call with the member \<open>ALLOW\<close> of \<^verbatim>\<open>hitl/pipeline.py\<close>, which supersedes the rules.
  A tool the registry does not resolve is not checked, and the rules do not see what hooks make of the parameters.
\<close>

theorem denied_calls_never_run:
  assumes "guarded rule sid g" "sid \<noteq> []" "rule_tier rule = DENY"
    and "ToolDone c (Some out) \<in> set (yielded (snd (run (guarded_env genv clock now shw sid cwd env) bound g saved given)))"
    and "find_tool genv (call_name c) = Some t" "\<not> needs_interaction t"
    and "\<not> some_hook_overrides (gate_registry g) (call_input sid cwd c)"
  shows "rule_matches rule (tool_name t) (thawed (show_json genv) (call_params c)) = Some False"
  using guarded_run.executed_was_approved [OF _ assms(4), of rule "gate_registry g"] assms(1-3,5-7)
  by (auto simp: rule_spares_def)

section \<open>A concrete session\<close>

definition shell_env :: "hook_gate loop_env" where
  "shell_env = \<lparr>model_reply = (\<lambda>t ms. if t = 0 then ACTION (ToolCall sample_call)
                                 else ACTION (AssistantText ''Two files'' ''end_turn'' None)),
     cancelled_at = (\<lambda>t. False), cancelled_before = (\<lambda>t c. False), cancelled_after = (\<lambda>t c. False),
     pre_gate = (\<lambda>t c g. (GATE_RAISES, g)), run_tool = (\<lambda>t c ps. Inr (ToolSuccess (call_name c) ''a b'' 1)),
     post_context = (\<lambda>t c x. []), tool_table = [], show_input = (\<lambda>x. ''{}''),
     limits = \<lparr>max_tokens = 90, tool_result_max_chars = 50, first_message_preserved = True\<rparr>, has_store = True\<rparr>"

lemma shell_run:
  "ToolDone sample_call (Some (ToolSuccess ''Bash'' ''a b'' 1))
     \<in> set (yielded (snd (run (guarded_env gate_world (\<lambda>t c i. 0) (\<lambda>t c. 0) (\<lambda>r. []) ''s1'' ''/repo'' shell_env)
              3 (sample_gate None) [] [(USER, ''list'')])))"
  by code_simp

theorem denied_calls_never_run_witness:
  "ToolDone sample_call (Some (ToolSuccess ''Bash'' ''a b'' 1))
     \<in> set (yielded (snd (run (guarded_env gate_world (\<lambda>t c i. 0) (\<lambda>t c. 0) (\<lambda>r. []) ''s1'' ''/repo'' shell_env)
              3 (sample_gate None) [] [(USER, ''list'')])))
   \<and> rule_matches no_rm ''Bash'' (thawed (show_json gate_world) (call_params sample_call)) = Some False"
proof -
  have guard: "guarded no_rm ''s1'' (sample_gate None)"
    using no_rm_denies by (simp add: guarded_def sample_gate_def)
  have tool: "find_tool gate_world (call_name sample_call) = Some shell_tool"
    by (simp add: gate_world_def sample_call_def)
  have hook: "\<not> some_hook_overrides (gate_registry (sample_gate None)) (call_input ''s1'' ''/repo'' sample_call)"
    by code_simp
  from denied_calls_never_run [OF guard _ no_rm_denies(2) shell_run tool _ hook] show ?thesis
    using shell_run by (simp add: shell_tool_def)
qed

end
