(* ===== verification/Message_Store.thy ===== *)
theory Message_Store
  imports Conversation "HOL-Library.Multiset"
begin

text \<open>
  \<^verbatim>\<open>runtime_core/conversation_store.py\<close> and \<^verbatim>\<open>write_behind_buffer.py\<close>: the table of messages a
  conversation is recovered from, and the buffer that delays the writes to it. The table is the
  list of its rows; a JSON column is the value its text denotes, and the time of a row, which nothing
  reads, is left out. An insertion that raises is a parameter of the operation that flushes.
\<close>

section \<open>Rows\<close>

text \<open>A column without text, a text that is not JSON, or the value of the text.\<close>

datatype json_column = NO_JSON | BAD_JSON | JSON json

record msg_row =
  row_id :: nat
  row_session :: string
  row_role :: string
  row_content :: string
  row_json :: json_column
  row_tool_call :: string
  row_tool_name :: string
  row_is_error :: bool
  row_event :: "nat option"
  row_run :: string
  row_block_type :: string
  row_parent :: "nat option"
  row_turn :: nat

record message_table =
  tbl_rows :: "msg_row list"
  tbl_next :: nat

record conv_store =
  st_session :: string
  st_run :: string
  event_seq :: nat

definition open_store :: "string \<Rightarrow> string \<Rightarrow> conv_store" where
  "open_store sid rid = \<lparr>st_session = sid, st_run = rid, event_seq = 0\<rparr>"

definition content_json :: "native_message \<Rightarrow> json" where
  "content_json m = J_ARRAY (map block_api (content m))"

fun infer_block_type :: "content_block list \<Rightarrow> string" where
  "infer_block_type [] = ''text''"
| "infer_block_type (TOOL_USE i n x # bs) = ''tool_use''"
| "infer_block_type (TOOL_RESULT i c e # bs) = ''tool_result''"
| "infer_block_type (TEXT t # bs) = infer_block_type bs"

fun is_error_result :: "content_block \<Rightarrow> bool" where
  "is_error_result (TOOL_RESULT i c e) = e"
| "is_error_result _ = False"

definition extract_is_error :: "native_message \<Rightarrow> bool" where
  "extract_is_error m = list_ex is_error_result (content m)"

fun first_result_id :: "content_block list \<Rightarrow> string" where
  "first_result_id [] = []"
| "first_result_id (TOOL_RESULT i c e # bs) = i"
| "first_result_id (b # bs) = first_result_id bs"

fun use_name :: "content_block \<Rightarrow> string list" where
  "use_name (TOOL_USE i n x) = [n]"
| "use_name _ = []"

definition extract_tool_name :: "native_message \<Rightarrow> string" where
  "extract_tool_name m = str_join [CHR 0x2C] (concat (map use_name (content m)))"

section \<open>Writing\<close>

record entry =
  en_message :: native_message
  en_turn :: nat
  en_parent :: "nat option"

definition new_row :: "conv_store \<Rightarrow> nat \<Rightarrow> nat \<Rightarrow> entry \<Rightarrow> msg_row" where
  "new_row st i ev e = (let m = en_message e in
     \<lparr>row_id = i, row_session = st_session st, row_role = role_name (msg_role m), row_content = message_text m,
      row_json = JSON (content_json m), row_tool_call = first_result_id (content m),
      row_tool_name = extract_tool_name m, row_is_error = extract_is_error m, row_event = Some ev,
      row_run = st_run st, row_block_type = infer_block_type (content m), row_parent = en_parent e,
      row_turn = en_turn e\<rparr>)"

text \<open>The sequence number is taken before the insertion, which may raise.\<close>

definition next_event :: "conv_store \<Rightarrow> conv_store" where
  "next_event st = st\<lparr>event_seq := event_seq st + 1\<rparr>"

definition append_message :: "entry \<Rightarrow> conv_store \<times> message_table \<Rightarrow> conv_store \<times> message_table" where
  "append_message e = (\<lambda>(st, tbl).
     (let st' = next_event st in
      (st', tbl\<lparr>tbl_rows := tbl_rows tbl @ [new_row st' (tbl_next tbl) (event_seq st') e],
                tbl_next := tbl_next tbl + 1\<rparr>)))"

definition result_entry :: "string \<Rightarrow> string \<Rightarrow> bool \<Rightarrow> nat \<Rightarrow> nat option \<Rightarrow> entry" where
  "result_entry i txt err turn parent =
     \<lparr>en_message = result_message (TOOL_RESULT i (RC_TEXT txt) err), en_turn = turn, en_parent = parent\<rparr>"

section \<open>Reading\<close>

text \<open>
  \<open>None\<close> is an exception: a row without a JSON column is read by a column the query does not
  select.
\<close>

definition read_row :: "msg_row \<Rightarrow> native_message option" where
  "read_row r =
     (case row_json r of
        NO_JSON \<Rightarrow> None
      | BAD_JSON \<Rightarrow> Some \<lparr>msg_role = USER, content = []\<rparr>
      | JSON (J_ARRAY js) \<Rightarrow>
          from_api_dict [(''role'', J_STR (row_role r)), (''content'', J_ARRAY js)]
      | JSON j \<Rightarrow> Some \<lparr>msg_role = USER, content = []\<rparr>)"

fun event_rank :: "nat option \<Rightarrow> nat" where
  "event_rank None = 0"
| "event_rank (Some e) = e + 1"

text \<open>\<open>ORDER BY event_id, id\<close>: a null comes first, and equal events are in the order of the rows.\<close>

definition session_rows :: "string \<Rightarrow> message_table \<Rightarrow> msg_row list" where
  "session_rows sid tbl = filter (\<lambda>r. row_session r = sid) (tbl_rows tbl)"

definition in_order :: "msg_row list \<Rightarrow> msg_row list" where
  "in_order rs = sort_key (event_rank \<circ> row_event) (sort_key row_id rs)"

definition rebuild_conversation :: "string \<Rightarrow> message_table \<Rightarrow> native_message list option" where
  "rebuild_conversation sid tbl = those_of (map read_row (in_order (session_rows sid tbl)))"

definition messages_since :: "string \<Rightarrow> nat \<Rightarrow> message_table \<Rightarrow> native_message list option" where
  "messages_since sid n tbl =
     those_of (map read_row (in_order
       (filter (\<lambda>r. case row_event r of None \<Rightarrow> False | Some e \<Rightarrow> e > n) (session_rows sid tbl))))"

definition last_event_id :: "string \<Rightarrow> message_table \<Rightarrow> nat" where
  "last_event_id sid tbl = fold max (map (\<lambda>r. the_default 0 (row_event r)) (session_rows sid tbl)) 0"

section \<open>The write-behind buffer\<close>

record buffered =
  inner :: conv_store
  batch_size :: nat
  flush_interval :: time
  buffer :: "entry list"
  last_flush :: time
  flushed_count :: nat
  buffered_total :: nat
  buf_closed :: bool

definition open_buffer :: "string \<Rightarrow> string \<Rightarrow> nat \<Rightarrow> time \<Rightarrow> time \<Rightarrow> buffered" where
  "open_buffer sid rid n interval now =
     \<lparr>inner = open_store sid rid, batch_size = n, flush_interval = interval, buffer = [], last_flush = now,
      flushed_count = 0, buffered_total = 0, buf_closed = False\<rparr>"

definition append_all :: "entry list \<Rightarrow> conv_store \<times> message_table \<Rightarrow> conv_store \<times> message_table" where
  "append_all es x = fold append_message es x"

definition hit :: "nat option \<Rightarrow> nat \<Rightarrow> nat option" where
  "hit fault n = (case fault of None \<Rightarrow> None | Some k \<Rightarrow> if k < n then Some k else None)"

text \<open>
  \<open>_flush_locked\<close>: the entries are inserted one by one; an insertion that raises, the one numbered
  \<open>fault\<close>, leaves the entries before it in the table and all of them in the buffer.
\<close>

definition flush_locked ::
  "time \<Rightarrow> nat option \<Rightarrow> buffered \<times> message_table \<Rightarrow> bool \<times> buffered \<times> message_table" where
  "flush_locked now fault = (\<lambda>(b, tbl).
     if buffer b = [] then (True, b, tbl)
     else
       (case hit fault (length (buffer b)) of
          Some k \<Rightarrow>
            (let (st, tbl') = append_all (take k (buffer b)) (inner b, tbl)
             in (False, b\<lparr>inner := next_event st\<rparr>, tbl'))
        | None \<Rightarrow>
            (let (st, tbl') = append_all (buffer b) (inner b, tbl)
             in (True, b\<lparr>inner := st, flushed_count := flushed_count b + length (buffer b),
                        buffer := [], last_flush := now\<rparr>, tbl'))))"

text \<open>The calls on a buffer; the time is the one the clock shows, the fault the insertion that raises.\<close>

datatype buffer_call =
    B_APPEND entry time "nat option"
  | B_FLUSH time "nat option"
  | B_TIMER time "nat option"
  | B_CLOSE time "nat option"

definition estimated_id :: "buffered \<Rightarrow> nat" where
  "estimated_id b = flushed_count b + length (buffer b) + 1"

fun buffer_step :: "buffered \<times> message_table \<Rightarrow> buffer_call \<Rightarrow> buffered \<times> message_table" where
  "buffer_step (b, tbl) (B_APPEND e now fault) =
     (let b1 = b\<lparr>buffer := buffer b @ [e], buffered_total := buffered_total b + 1\<rparr> in
      if length (buffer b1) \<ge> batch_size b1 then snd (flush_locked now fault (b1, tbl)) else (b1, tbl))"
| "buffer_step (b, tbl) (B_FLUSH now fault) = snd (flush_locked now fault (b, tbl))"
| "buffer_step (b, tbl) (B_TIMER now fault) =
     (if \<not> buf_closed b \<and> buffer b \<noteq> [] \<and> now - last_flush b \<ge> flush_interval b
      then snd (flush_locked now fault (b, tbl)) else (b, tbl))"
| "buffer_step (b, tbl) (B_CLOSE now fault) = snd (flush_locked now fault (b\<lparr>buf_closed := True\<rparr>, tbl))"

section \<open>Recovery\<close>

definition as_stored :: "native_message \<Rightarrow> native_message" where
  "as_stored m = m\<lparr>content := map wire_block (content m)\<rparr>"

lemma read_new_row: "read_row (new_row st i ev e) = Some (as_stored (en_message e))"
  using parse_blocks [of "content (en_message e)"]
  by (simp add: read_row_def new_row_def content_json_def from_api_dict_def field_def as_stored_def Let_def)

fun rows_for :: "conv_store \<Rightarrow> nat \<Rightarrow> nat \<Rightarrow> entry list \<Rightarrow> msg_row list" where
  "rows_for st i ev [] = []"
| "rows_for st i ev (e # es) = new_row st i (ev + 1) e # rows_for st (i + 1) (ev + 1) es"

lemma new_row_cong: "st_session st = st_session st' \<Longrightarrow> st_run st = st_run st' \<Longrightarrow> new_row st i ev e = new_row st' i ev e"
  by (simp add: new_row_def)

lemma rows_for_cong: "st_session st = st_session st' \<Longrightarrow> st_run st = st_run st' \<Longrightarrow> rows_for st i ev es = rows_for st' i ev es"
  by (induction es arbitrary: i ev) (auto intro: new_row_cong)

lemma append_all_rows:
  "append_all es (st, tbl)
    = (st\<lparr>event_seq := event_seq st + length es\<rparr>,
       tbl\<lparr>tbl_rows := tbl_rows tbl @ rows_for st (tbl_next tbl) (event_seq st) es,
           tbl_next := tbl_next tbl + length es\<rparr>)"
proof (induction es arbitrary: st tbl)
  case (Cons e es)
  let ?st = "next_event st"
  have "rows_for ?st i ev es = rows_for st i ev es" "new_row ?st i ev e = new_row st i ev e" for i ev
    by (rule rows_for_cong new_row_cong; simp add: next_event_def)+
  then show ?case
    using Cons.IH by (simp add: append_all_def append_message_def Let_def next_event_def)
qed (simp add: append_all_def)

lemma rows_for_session [simp]: "r \<in> set (rows_for st i ev es) \<Longrightarrow> row_session r = st_session st"
  by (induction es arbitrary: i ev) (auto simp: new_row_def Let_def)

lemma rows_for_messages: "map read_row (rows_for st i ev es) = map (Some \<circ> as_stored \<circ> en_message) es"
  by (induction es arbitrary: i ev) (auto simp: read_new_row)

lemma rows_for_ids: "map row_id (rows_for st i ev es) = [i..<i + length es]"
proof (induction es arbitrary: i ev)
  case (Cons e es)
  then show ?case by (simp add: new_row_def Let_def upt_conv_Cons del: upt_Suc)
qed simp

lemma rows_for_ranks: "map (event_rank \<circ> row_event) (rows_for st i ev es) = [ev + 2..<ev + 2 + length es]"
proof (induction es arbitrary: i ev)
  case (Cons e es)
  then show ?case by (simp add: new_row_def Let_def upt_conv_Cons del: upt_Suc)
qed simp

lemma rows_for_length [simp]: "length (rows_for st i ev es) = length es"
  by (induction es arbitrary: i ev) auto

section \<open>Two stores of one session\<close>

lemma splice_set: "set (splice xs ys) = set xs \<union> set ys"
  by (induction xs ys rule: splice.induct) auto

lemma ranked_from:
  assumes "map f xs = [n..<n + length xs]"
  shows "sorted (map f xs) \<and> (\<forall>z \<in> set xs. n \<le> f z)"
proof -
  have "f ` set xs = {n..<n + length xs}" using arg_cong [OF assms, of set] by simp
  then show ?thesis using assms by auto
qed

lemma splice_ranks:
  assumes "map f xs = [n..<n + length xs]" "map f ys = [n..<n + length ys]"
  shows "sorted (map f (splice xs ys))
    \<and> filter (\<lambda>z. f z = k) (splice xs ys) = filter (\<lambda>z. f z = k) (xs @ ys)"
  using assms
proof (induction xs ys arbitrary: n rule: list_induct2')
  case (4 x xs y ys)
  have tails: "map f xs = [Suc n..<Suc n + length xs]" "map f ys = [Suc n..<Suc n + length ys]" "f x = n" "f y = n"
    using 4(2,3) by (simp_all add: upt_conv_Cons del: upt_Suc)
  note IH = 4(1) [OF tails(1,2)]
  have above: "Suc n \<le> f z" if "z \<in> set xs \<union> set ys" for z
    using ranked_from [OF tails(1)] ranked_from [OF tails(2)] that by blast
  then have "filter (\<lambda>z. f z = n) xs = []" "filter (\<lambda>z. f z = n) ys = []"
    by (force simp: filter_empty_conv)+
  moreover have "\<forall>z \<in> set (splice xs ys). n \<le> f z" using above by (force simp: splice_set)
  ultimately show ?case using IH tails(3,4) by auto
qed (simp_all only: splice.simps append_Nil append_Nil2 ranked_from list.map filter.simps sorted0 sorted_upt simp_thms)

lemma sort_interleaves:
  assumes "map f xs = [n..<n + length xs]" "map f ys = [n..<n + length ys]"
  shows "sort_key f (xs @ ys) = splice xs ys"
proof (rule properties_for_sort_key)
  show "mset (splice xs ys) = mset (xs @ ys)"
    using mset_shuffles [OF splice_in_shuffles] by simp
  show "filter (\<lambda>x. f k = f x) (splice xs ys) = filter (\<lambda>x. f k = f x) (xs @ ys)" for k
  proof -
    have "(\<lambda>x. f k = f x) = (\<lambda>x. f x = f k)" by auto
    then show ?thesis using splice_ranks [OF assms] by simp
  qed
  show "sorted (map f (splice xs ys))" using splice_ranks [OF assms] by simp
qed

lemma sort_same: "sorted (map f xs) \<Longrightarrow> sort_key f xs = xs"
  by (rule sort_key_id_if_sorted)

lemma map_splice: "map f (splice xs ys) = splice (map f xs) (map f ys)"
  by (induction xs ys rule: splice.induct) auto

lemma two_stores:
  assumes "session_rows sid tbl = []"
    and "(st1, tbl1) = append_all es1 (open_store sid rid1, tbl)"
    and "(st2, tbl2) = append_all es2 (open_store sid rid2, tbl1)"
  shows "in_order (session_rows sid tbl2)
      = splice (rows_for (open_store sid rid1) (tbl_next tbl) 0 es1)
          (rows_for (open_store sid rid2) (tbl_next tbl + length es1) 0 es2)"
    "rebuild_conversation sid tbl2
    = Some (splice (map (as_stored \<circ> en_message) es1) (map (as_stored \<circ> en_message) es2))"
proof -
  let ?xs = "rows_for (open_store sid rid1) (tbl_next tbl) 0 es1"
  let ?ys = "rows_for (open_store sid rid2) (tbl_next tbl + length es1) 0 es2"
  have "tbl_rows tbl2 = tbl_rows tbl @ ?xs @ ?ys"
    using assms(2,3) by (simp add: append_all_rows open_store_def)
  then have rows: "session_rows sid tbl2 = ?xs @ ?ys"
    using assms(1) by (simp add: session_rows_def open_store_def filter_id_conv)
  have "map row_id (?xs @ ?ys) = [tbl_next tbl..<tbl_next tbl + length (es1 @ es2)]"
    using upt_add_eq_append [of "tbl_next tbl" "tbl_next tbl + length es1" "length es2"]
    by (simp add: rows_for_ids add.assoc)
  then have "sorted (map row_id (?xs @ ?ys))" by (metis sorted_upt)
  moreover have ranks: "map (event_rank \<circ> row_event) (rows_for st i 0 es) = [2..<2 + length (rows_for st i 0 es)]"
    for st i es
    using rows_for_ranks [of st i 0 es] by (simp only: add_0 rows_for_length)
  ultimately have ord: "in_order (?xs @ ?ys) = splice ?xs ?ys"
    using sort_interleaves [OF ranks ranks] by (simp only: in_order_def sort_same)
  then show "in_order (session_rows sid tbl2) = splice ?xs ?ys" by (simp only: rows)
  from ord have "rebuild_conversation sid tbl2
      = those_of (splice (map (Some \<circ> as_stored \<circ> en_message) es1) (map (Some \<circ> as_stored \<circ> en_message) es2))"
    by (simp add: rebuild_conversation_def rows map_splice rows_for_messages)
  also have "\<dots> = those_of (map Some (splice (map (as_stored \<circ> en_message) es1) (map (as_stored \<circ> en_message) es2)))"
    by (simp add: map_splice comp_assoc)
  finally show "rebuild_conversation sid tbl2
      = Some (splice (map (as_stored \<circ> en_message) es1) (map (as_stored \<circ> en_message) es2))"
    by (simp only: those_map_Some)
qed

text \<open>
  Recovery mixes the runs of a session: a second store for the session numbers its events from
  one again, so that what is read back is not the messages of the first run followed by those of the
  second, but the two interleaved, message by message.
\<close>

theorem resumed_store_interleaves:
  assumes "session_rows sid tbl = []"
    and "(st1, tbl1) = append_all es1 (open_store sid rid1, tbl)"
    and "(st2, tbl2) = append_all es2 (open_store sid rid2, tbl1)"
  shows "rebuild_conversation sid tbl2
    = Some (splice (map (as_stored \<circ> en_message) es1) (map (as_stored \<circ> en_message) es2))"
  by (rule two_stores(2) [OF assms])

lemma later_rows:
  "filter (\<lambda>r. case row_event r of None \<Rightarrow> False | Some e \<Rightarrow> e > n) (rows_for st i ev es)
    = drop (n - ev) (rows_for st i ev es)"
proof (induction es arbitrary: i ev)
  case (Cons e es)
  show ?case
  proof (cases "n \<le> ev")
    case True
    then show ?thesis using Cons.IH [of "i + 1" "ev + 1"] by (simp add: new_row_def Let_def)
  next
    case False
    then have "n - ev = Suc (n - (ev + 1))" by simp
    then show ?thesis using Cons.IH [of "i + 1" "ev + 1"] False by (simp add: new_row_def Let_def)
  qed
qed simp

lemma highest_row:
  "fold max (map (\<lambda>r. the_default 0 (row_event r)) (rows_for st i ev es)) ev = ev + length es"
proof (induction es arbitrary: i ev)
  case (Cons e es)
  then show ?case by (simp add: new_row_def Let_def)
qed simp

lemma one_store:
  assumes "session_rows sid tbl = []" "(st, tbl') = append_all es (open_store sid rid, tbl)"
  shows "session_rows sid tbl' = rows_for (open_store sid rid) (tbl_next tbl) 0 es"
  using assms by (simp add: append_all_rows session_rows_def open_store_def filter_id_conv)

lemma later_in_order: "in_order (drop n (rows_for st i ev es)) = drop n (rows_for st i ev es)"
proof -
  have "sorted (map row_id (drop n (rows_for st i ev es)))"
    "sorted (map (event_rank \<circ> row_event) (drop n (rows_for st i ev es)))"
    by (simp_all only: drop_map [symmetric] rows_for_ids rows_for_ranks drop_upt sorted_upt)
  then show ?thesis by (simp add: in_order_def sort_same)
qed

text \<open>
  C36. One store recovers its conversation: the messages appended to a session that had none are
  read back, all of them and in order, whatever else the table holds, up to two changes of their form: the
  cache control inside tool results is lost, and an empty list of blocks is read back as the empty text
  (\<open>Conversation.wire_block\<close>). The last event is their number, and the messages since an event are the
  later ones.
\<close>

theorem store_recovers_conversation:
  assumes "session_rows sid tbl = []" and "(st, tbl') = append_all es (open_store sid rid, tbl)"
  shows "rebuild_conversation sid tbl' = Some (map (as_stored \<circ> en_message) es)
    \<and> messages_since sid n tbl' = Some (drop n (map (as_stored \<circ> en_message) es))
    \<and> last_event_id sid tbl' = length es"
proof -
  let ?rows = "rows_for (open_store sid rid) (tbl_next tbl) 0 es"
  have rows: "session_rows sid tbl' = ?rows" by (rule one_store [OF assms])
  have read: "those_of (map read_row (drop k ?rows)) = Some (drop k (map (as_stored \<circ> en_message) es))" for k
  proof -
    have "map read_row (drop k ?rows) = map Some (drop k (map (as_stored \<circ> en_message) es))"
      unfolding drop_map [symmetric] rows_for_messages by (simp add: drop_map comp_assoc)
    then show ?thesis by (simp only: those_map_Some)
  qed
  have "rebuild_conversation sid tbl' = Some (map (as_stored \<circ> en_message) es)"
    using read [of 0] later_in_order [of 0 "open_store sid rid"] by (simp add: rebuild_conversation_def rows)
  moreover have "messages_since sid n tbl' = Some (drop n (map (as_stored \<circ> en_message) es))"
    using read [of n] by (simp add: messages_since_def rows later_rows later_in_order)
  moreover have "last_event_id sid tbl' = length es"
    using highest_row [of "open_store sid rid" "tbl_next tbl" 0 es] by (simp add: last_event_id_def rows)
  ultimately show ?thesis by blast
qed

section \<open>The buffer refines the store\<close>

fun faultless :: "buffer_call \<Rightarrow> buffer_call" where
  "faultless (B_APPEND e now fault) = B_APPEND e now None"
| "faultless (B_FLUSH now fault) = B_FLUSH now None"
| "faultless (B_TIMER now fault) = B_TIMER now None"
| "faultless (B_CLOSE now fault) = B_CLOSE now None"

fun appended :: "buffer_call list \<Rightarrow> entry list" where
  "appended [] = []"
| "appended (B_APPEND e now fault # xs) = e # appended xs"
| "appended (x # xs) = appended xs"

fun write_through :: "buffered \<times> message_table \<Rightarrow> conv_store \<times> message_table" where
  "write_through (b, tbl) = append_all (buffer b) (inner b, tbl)"

fun direct_step :: "conv_store \<times> message_table \<Rightarrow> buffer_call \<Rightarrow> conv_store \<times> message_table" where
  "direct_step x (B_APPEND e now fault) = append_message e x"
| "direct_step x _ = x"

fun buffer_ok :: "nat \<Rightarrow> buffered \<times> message_table \<Rightarrow> bool" where
  "buffer_ok n (b, tbl) \<longleftrightarrow> batch_size b = n \<and> flushed_count b = event_seq (inner b) \<and> length (buffer b) < max 1 n"

lemma hit_None [simp]: "hit None n = None"
  by (simp add: hit_def)

lemma append_all_Nil [simp]: "append_all [] x = x"
  by (simp add: append_all_def)

lemma append_all_snoc: "append_all (es @ [e]) x = append_message e (append_all es x)"
  by (simp add: append_all_def)

lemma append_all_append: "append_all (xs @ ys) x = append_all ys (append_all xs x)"
  by (simp add: append_all_def)

lemma flush_ok:
  assumes "flush_locked now None (b, tbl) = (ok, b', tbl')"
  shows "write_through (b', tbl') = write_through (b, tbl) \<and> buffer b' = [] \<and> batch_size b' = batch_size b
    \<and> (flushed_count b = event_seq (inner b) \<longrightarrow> flushed_count b' = event_seq (inner b'))"
  using assms by (auto simp: flush_locked_def append_all_rows split: if_splits)

lemma flushed_ok:
  assumes "flushed_count b = event_seq (inner b)" "batch_size b = n"
  shows "write_through (snd (flush_locked now None (b, tbl))) = write_through (b, tbl)
    \<and> buffer_ok n (snd (flush_locked now None (b, tbl)))"
proof -
  obtain ok b' tbl' where "flush_locked now None (b, tbl) = (ok, b', tbl')" by (metis prod_cases3)
  then show ?thesis using flush_ok assms by fastforce
qed

lemma buffer_step_ok:
  assumes "buffer_ok n s"
  shows "buffer_ok n (buffer_step s (faultless x))
    \<and> write_through (buffer_step s (faultless x)) = direct_step (write_through s) (faultless x)"
proof -
  obtain b tbl where s: "s = (b, tbl)" by force
  note ok = flushed_ok [where n = n]
  show ?thesis
  proof (cases x)
    case (B_APPEND e now fault)
    then show ?thesis
      using assms ok [of "b\<lparr>buffer := buffer b @ [e], buffered_total := buffered_total b + 1\<rparr>" now tbl]
      by (auto simp: s Let_def append_all_snoc)
  next
    case (B_CLOSE now fault)
    then show ?thesis using assms ok [of "b\<lparr>buf_closed := True\<rparr>" now tbl] by (simp add: s)
  qed (use assms ok [of b _ tbl] in \<open>auto simp: s\<close>)
qed

interpretation buffer_refinement: data_refinement "\<lambda>s x. buffer_step s (faultless x)"
    "\<lambda>s x. direct_step s (faultless x)" write_through "buffer_ok n" for n
  by unfold_locales (auto simp: buffer_step_ok)

lemma direct_run: "foldl (\<lambda>s x. direct_step s (faultless x)) y xs = append_all (appended xs) y"
proof (induction xs arbitrary: y)
  case (Cons x xs)
  then show ?case by (cases x) (simp_all add: append_all_def)
qed simp

text \<open>
  C37. The buffer implements the store: after any sequence of appends, flushes, timer ticks and
  closings in which no insertion raises, writing out what is buffered gives exactly the table and the
  sequence number that appending every message at once would have given; fewer messages than a
  batch are waiting, and the event the next append announces is the one it will have.
\<close>

theorem buffer_refines_store:
  "(let (b, tbl') = foldl buffer_step (open_buffer sid rid n interval t0, tbl) (map faultless xs);
        direct = append_all (appended xs) (open_store sid rid, tbl)
    in append_all (buffer b) (inner b, tbl') = direct
       \<and> snd (buffer_step (b, tbl') (B_FLUSH now None)) = snd direct
       \<and> length (buffer b) < max 1 n \<and> estimated_id b = event_seq (fst direct) + 1)"
proof -
  let ?s0 = "(open_buffer sid rid n interval t0, tbl)"
  have steps: "foldl buffer_step s (map faultless ys) = foldl (\<lambda>s x. buffer_step s (faultless x)) s ys" for s ys
    by (induction ys arbitrary: s) simp_all
  obtain b tbl' where r: "foldl buffer_step ?s0 (map faultless xs) = (b, tbl')" by force
  have "buffer_ok n ?s0" by (simp add: open_buffer_def open_store_def)
  moreover have "write_through ?s0 = (open_store sid rid, tbl)" by (simp add: open_buffer_def)
  ultimately have "write_through (b, tbl') = append_all (appended xs) (open_store sid rid, tbl)" "buffer_ok n (b, tbl')"
    using buffer_refinement.run_refines [of n ?s0 xs] buffer_refinement.concrete.run_inv [of n ?s0 xs]
    by (simp_all only: steps [symmetric] r direct_run)
  then have sim: "append_all (buffer b) (inner b, tbl') = append_all (appended xs) (open_store sid rid, tbl)"
    and ok: "buffer_ok n (b, tbl')"
    by simp_all
  have "write_through (buffer_step (b, tbl') (B_FLUSH now None)) = write_through (b, tbl')"
    using buffer_step_ok [OF ok, of "B_FLUSH now None"] by simp
  moreover have "buffer (fst (buffer_step (b, tbl') (B_FLUSH now None))) = []"
    using flush_ok [of now b tbl'] by (simp add: prod_eq_iff)
  ultimately have "snd (buffer_step (b, tbl') (B_FLUSH now None)) = snd (append_all (buffer b) (inner b, tbl'))"
    by (metis append_all_Nil prod.collapse snd_conv write_through.simps)
  moreover have "estimated_id b = event_seq (fst (append_all (buffer b) (inner b, tbl'))) + 1"
    using ok by (simp add: append_all_rows estimated_id_def)
  ultimately show ?thesis using ok by (simp add: r sim)
qed

text \<open>
  A flush that fails half way repeats itself: the messages before the failing one are in the
  table and stay in the buffer, so that the next flush inserts them once more.
\<close>

theorem failed_flush_repeats:
  assumes "k < length (buffer b)"
  shows "(let (b1, tbl1) = buffer_step (b, tbl) (B_FLUSH t1 (Some k));
              (b2, tbl2) = buffer_step (b1, tbl1) (B_FLUSH t2 None)
          in buffer b2 = [] \<and> map row_json (tbl_rows tbl2)
               = map row_json (tbl_rows tbl) @ map (JSON \<circ> content_json \<circ> en_message) (take k (buffer b) @ buffer b))"
proof -
  have json: "map row_json (rows_for st i ev es) = map (JSON \<circ> content_json \<circ> en_message) es" for st i ev es
    by (induction es arbitrary: i ev) (auto simp: new_row_def Let_def)
  have "hit (Some k) (length (buffer b)) = Some k" using assms by (simp add: hit_def)
  then show ?thesis
    using assms by (auto simp: flush_locked_def append_all_rows json next_event_def Let_def)
qed

section \<open>Concrete stores\<close>

definition plain :: "string \<Rightarrow> entry" where
  "plain txt = \<lparr>en_message = text_message USER txt, en_turn = 0, en_parent = None\<rparr>"

definition empty_table :: message_table where
  "empty_table = \<lparr>tbl_rows = [], tbl_next = 1\<rparr>"

lemma no_rows: "session_rows ''s1'' empty_table = []"
  by (simp add: session_rows_def empty_table_def)

theorem resumed_store_interleaves_witness:
  "rebuild_conversation ''s1'' (snd (append_all [plain ''c''] (open_store ''s1'' ''r2'',
       snd (append_all [plain ''a'', plain ''b''] (open_store ''s1'' ''r1'', empty_table)))))
    = Some [text_message USER ''a'', text_message USER ''c'', text_message USER ''b'']"
proof -
  have "as_stored (en_message (plain x)) = text_message USER x" for x
    by (simp add: plain_def as_stored_def text_message_def)
  then show ?thesis
    using resumed_store_interleaves [OF no_rows prod.collapse prod.collapse,
        of "[plain ''c'']" "''r2''" "[plain ''a'', plain ''b'']" "''r1''"]
    by simp
qed

theorem store_recovers_conversation_witness:
  "rebuild_conversation ''s1'' (snd (append_all [plain ''a'', plain ''b''] (open_store ''s1'' ''r1'', empty_table)))
    = Some [text_message USER ''a'', text_message USER ''b'']"
proof -
  have "as_stored (en_message (plain x)) = text_message USER x" for x
    by (simp add: plain_def as_stored_def text_message_def)
  then show ?thesis
    using store_recovers_conversation [OF no_rows prod.collapse, of "[plain ''a'', plain ''b'']" "''r1''"] by simp
qed

definition waiting :: buffered where
  "waiting = (open_buffer ''s1'' ''r1'' 5 100 0)\<lparr>buffer := [plain ''a'', plain ''b'']\<rparr>"

theorem failed_flush_repeats_witness:
  "(let (b1, tbl1) = buffer_step (waiting, empty_table) (B_FLUSH 0 (Some 1));
        (b2, tbl2) = buffer_step (b1, tbl1) (B_FLUSH 1 None)
    in buffer b2 = [] \<and> map row_json (tbl_rows tbl2)
         = map (JSON \<circ> content_json \<circ> en_message) [plain ''a'', plain ''a'', plain ''b''])"
proof -
  have "1 < length (buffer waiting)" by (simp add: waiting_def)
  moreover have "tbl_rows empty_table = []" by (simp add: empty_table_def)
  moreover have "take 1 (buffer waiting) @ buffer waiting = [plain ''a'', plain ''a'', plain ''b'']"
    by (simp add: waiting_def)
  ultimately show ?thesis
    using failed_flush_repeats [of 1 waiting empty_table 0 1] by (simp only: list.map(1) append_Nil)
qed

end
