(* ===== verification/Workflow.thy ===== *)
theory Workflow
  imports Json_Values "HOL-Library.Multiset"
begin

text \<open>
  \<^verbatim>\<open>core/workflow.py\<close>: the graph of a workflow, its validation by Kahn's algorithm, layer by layer,
  and its execution. The executor of a node is a parameter, a function of the node, the variables
  and the number of the attempt; the nodes of a layer run concurrently on the same variables, so
  their results are those of each one alone.
\<close>

section \<open>Workflows\<close>

record wf_node =
  wf_id :: string
  wf_type :: string
  wf_config :: "(string \<times> json) list"
  depends_on :: "string list"
  on_error :: string
  max_retries :: nat

type_synonym workflow = "wf_node list"

datatype wf_error = UnknownDependency string string | CycleDetected "string list"

abbreviation node_ids :: "workflow \<Rightarrow> string list" where
  "node_ids w \<equiv> map wf_id w"

definition node_map :: "workflow \<Rightarrow> (string, wf_node) dict" where
  "node_map w = fold (\<lambda>n. dict_set (wf_id n) n) w []"

definition initial_degrees :: "workflow \<Rightarrow> (string, int) dict" where
  "initial_degrees w = fold (\<lambda>n. dict_set (wf_id n) 0) w []"

definition count_in :: "string \<Rightarrow> (string, int) dict \<Rightarrow> (string, int) dict" where
  "count_in i deg = dict_set i (the_default 0 (dict_get deg i) + 1) deg"

definition in_degrees :: "workflow \<Rightarrow> (string, int) dict" where
  "in_degrees w = fold (\<lambda>n. fold (\<lambda>d. count_in (wf_id n)) (depends_on n)) w (initial_degrees w)"

text \<open>The nodes that wait for one, once for every time they name it.\<close>

definition dependents :: "workflow \<Rightarrow> string \<Rightarrow> string list" where
  "dependents w i = concat (map (\<lambda>n. map (\<lambda>d. wf_id n) (filter (\<lambda>d. d = i) (depends_on n))) w)"

section \<open>Kahn's algorithm by layers\<close>

type_synonym kahn_state = "(string, int) dict \<times> string list"

fun release_one :: "string \<Rightarrow> kahn_state \<Rightarrow> kahn_state" where
  "release_one i (deg, q) =
     (let v = the_default 0 (dict_get deg i) - 1 in (dict_set i v deg, if v = 0 then q @ [i] else q))"

fun pop_layer :: "workflow \<Rightarrow> nat \<Rightarrow> kahn_state \<Rightarrow> string list \<times> kahn_state" where
  "pop_layer w 0 s = ([], s)"
| "pop_layer w (Suc k) (deg, []) = ([], (deg, []))"
| "pop_layer w (Suc k) (deg, i # q) =
     (let (l, s) = pop_layer w k (fold release_one (dependents w i) (deg, q)) in (i # l, s))"

definition positives :: "(string, int) dict \<Rightarrow> nat" where
  "positives deg = length (filter (\<lambda>(i, v). v > 0) deg)"

lemma positives_set:
  "positives (dict_set i v deg) + (if the_default 0 (dict_get deg i) > 0 then 1 else 0)
    = positives deg + (if v > 0 then 1 else 0)"
  by (induction deg) (auto simp: positives_def)

lemma release_measure:
  "release_one i (deg, q) = (deg', q') \<Longrightarrow> length q' + positives deg' \<le> length q + positives deg"
  using positives_set [of i "the_default 0 (dict_get deg i) - 1" deg]
  by (auto simp: Let_def split: if_splits)

lemma releases_measure:
  "fold release_one is (deg, q) = (deg', q') \<Longrightarrow> length q' + positives deg' \<le> length q + positives deg"
proof (induction "is" arbitrary: deg q)
  case (Cons i "is")
  obtain d1 q1 where r: "release_one i (deg, q) = (d1, q1)" by force
  show ?case using Cons.IH [of d1 q1] Cons.prems release_measure [OF r] r by simp
qed simp

lemma pop_measure:
  "pop_layer w k (deg, q) = (l, deg', q') \<Longrightarrow> k \<le> length q
    \<Longrightarrow> length l = k \<and> length q' + positives deg' + k \<le> length q + positives deg"
proof (induction k arbitrary: deg q l)
  case (Suc k)
  obtain i q0 where q: "q = i # q0" using Suc.prems(2) by (cases q) auto
  obtain d1 q1 where r: "fold release_one (dependents w i) (deg, q0) = (d1, q1)" by force
  obtain l1 s1 where p: "pop_layer w k (d1, q1) = (l1, s1)" by (metis prod.collapse)
  have "length q0 \<le> length q1" 
  proof -
    have "length (snd s) \<le> length (snd (fold release_one is s))" for "is" s
    proof (induction "is" arbitrary: s)
      case (Cons j js)
      have "length (snd s) \<le> length (snd (release_one j s))" by (cases s) (auto simp: Let_def)
      then show ?case using Cons [of "release_one j s"] by simp
    qed simp
    from this [of "(deg, q0)" "dependents w i"] show ?thesis by (simp add: r)
  qed
  then have "length l1 = k \<and> length (snd s1) + positives (fst s1) + k \<le> length q1 + positives d1"
    using Suc.IH [of d1 q1 l1 ] p Suc.prems q by (cases s1) (auto simp: r)
  then show ?case using Suc.prems q r p releases_measure [OF r] by auto
qed simp

function kahn :: "workflow \<Rightarrow> kahn_state \<Rightarrow> string list list \<times> (string, int) dict" where
  "kahn w (deg, q) =
     (if q = [] then ([], deg)
      else let (l, s) = pop_layer w (length q) (deg, q); (ls, rest) = kahn w s in (l # ls, rest))"
  by pat_completeness auto
termination
proof (relation "measure (\<lambda>(w, deg, q). length q + positives deg)")
  fix w :: workflow and deg q x and l :: "string list" and s
  assume "q \<noteq> []" "x = pop_layer w (length q) (deg, q)" "(l, s) = x"
  then show "((w, s), w, deg, q) \<in> measure (\<lambda>(w, deg, q). length q + positives deg)"
    using pop_measure [of w "length q" deg q l "fst s" "snd s"] by (cases s) (auto simp: neq_Nil_conv)
qed simp

declare kahn.simps [simp del]

definition topological_sort :: "workflow \<Rightarrow> wf_error + wf_node list list" where
  "topological_sort w =
     (let deg = in_degrees w;
          (ls, rest) = kahn w (deg, map fst (filter (\<lambda>(i, v). v = 0) deg))
      in if sum_list (map length ls) \<noteq> length w
         then Inl (CycleDetected (map fst (filter (\<lambda>(i, v). v > 0) rest)))
         else Inr (map (List.map_filter (dict_get (node_map w))) ls))"

definition unknown_dependencies :: "workflow \<Rightarrow> wf_error list" where
  "unknown_dependencies w =
     concat (map (\<lambda>n. map (UnknownDependency (wf_id n)) (filter (\<lambda>d. d \<notin> set (node_ids w)) (depends_on n))) w)"

definition validate_workflow :: "workflow \<Rightarrow> wf_error list" where
  "validate_workflow w =
     (if unknown_dependencies w \<noteq> [] then unknown_dependencies w
      else (case topological_sort w of Inl e \<Rightarrow> [e] | Inr ls \<Rightarrow> []))"

section \<open>What the algorithm keeps\<close>

definition deps_of :: "workflow \<Rightarrow> string \<Rightarrow> string list" where
  "deps_of w i = concat (map depends_on (filter (\<lambda>n. wf_id n = i) w))"

definition open_deps :: "workflow \<Rightarrow> string set \<Rightarrow> string \<Rightarrow> nat" where
  "open_deps w P i = length (filter (\<lambda>d. d \<notin> P) (deps_of w i))"

definition ready :: "workflow \<Rightarrow> string set \<Rightarrow> string set" where
  "ready w P = {i \<in> set (node_ids w). i \<notin> P \<and> open_deps w P i = 0}"

fun kahn_inv :: "workflow \<Rightarrow> string set \<Rightarrow> kahn_state \<Rightarrow> bool" where
  "kahn_inv w P (deg, q) \<longleftrightarrow>
     (\<forall>i \<in> set (node_ids w). dict_get deg i = Some (int (open_deps w P i))) \<and> distinct q \<and> set q = ready w P
     \<and> P \<subseteq> set (node_ids w) \<and> (\<forall>i \<in> P. open_deps w P i = 0)"

lemma count_concat: "count_list (concat xss) x = sum_list (map (\<lambda>xs. count_list xs x) xss)"
  by (induction xss) auto

lemma count_copies: "count_list (map (\<lambda>d. j) (filter (\<lambda>d. d = p) ds)) i = (if i = j then count_list ds p else 0)"
  by (induction ds) auto

lemma dependents_count: "count_list (dependents w p) i = count_list (deps_of w i) p"
  unfolding dependents_def deps_of_def
  by (induction w) (auto simp: count_copies)

lemma dependents_ids: "set (dependents w p) \<subseteq> set (node_ids w)"
  by (auto simp: dependents_def)

lemma open_deps_pop:
  assumes "p \<notin> P"
  shows "open_deps w P i = open_deps w (insert p P) i + count_list (deps_of w i) p"
proof -
  have "length (filter (\<lambda>d. d \<notin> P) ds) = length (filter (\<lambda>d. d \<notin> insert p P) ds) + count_list ds p" for ds
    using assms by (induction ds) auto
  then show ?thesis by (simp add: open_deps_def)
qed

lemma releases:
  assumes "\<forall>i \<in> set is. dict_get deg i = Some (int (c i)) \<and> count_list is i \<le> c i"
  shows "\<exists>deg' new. fold release_one is (deg, q) = (deg', q @ new) \<and> distinct new
    \<and> set new = {i \<in> set is. c i = count_list is i}
    \<and> (\<forall>i. dict_get deg' i = (if i \<in> set is then Some (int (c i) - int (count_list is i)) else dict_get deg i))"
  using assms
proof (induction "is" arbitrary: deg q c)
  case (Cons j "is")
  define c' where "c' = c(j := c j - 1)"
  define v where "v = int (c j) - 1"
  have cj: "dict_get deg j = Some (int (c j))" "count_list is j + 1 \<le> c j" using Cons.prems by auto
  have step: "release_one j (deg, q) = (dict_set j v deg, if v = 0 then q @ [j] else q)"
    by (simp add: cj v_def Let_def)
  have pre: "\<forall>i \<in> set is. dict_get (dict_set j v deg) i = Some (int (c' i)) \<and> count_list is i \<le> c' i"
  proof
    fix i assume "i \<in> set is"
    then show "dict_get (dict_set j v deg) i = Some (int (c' i)) \<and> count_list is i \<le> c' i"
      using Cons.prems cj by (cases "i = j") (auto simp: c'_def v_def dict_simps)
  qed
  obtain deg' new where IH: "fold release_one is (dict_set j v deg, if v = 0 then q @ [j] else q)
        = (deg', (if v = 0 then q @ [j] else q) @ new)" "distinct new"
      "set new = {i \<in> set is. c' i = count_list is i}"
      "\<forall>i. dict_get deg' i = (if i \<in> set is then Some (int (c' i) - int (count_list is i)) else dict_get (dict_set j v deg) i)"
    using Cons.IH [OF pre, of "if v = 0 then q @ [j] else q"] by blast
  have last: "v = 0 \<longleftrightarrow> c j = 1" using cj(2) by (simp add: v_def)
  have gone: "j \<notin> set is" if "v = 0"
    using that cj(2) last by (simp add: count_list_0_iff)
  have "distinct ((if v = 0 then [j] else []) @ new)" using IH(2,3) gone by auto
  moreover have "set ((if v = 0 then [j] else []) @ new) = {i \<in> set (j # is). c i = count_list (j # is) i}"
  proof (rule set_eqI)
    fix i
    show "(i \<in> set ((if v = 0 then [j] else []) @ new)) = (i \<in> {i \<in> set (j # is). c i = count_list (j # is) i})"
    proof (cases "i = j")
      case True
      have "count_list is j = 0" if "j \<notin> set is" using that by (simp add: count_list_0_iff)
      then have "(v = 0 \<or> j \<in> set is \<and> c j - 1 = count_list is j) = (c j = count_list is j + 1)"
        using last cj(2) gone by (cases "j \<in> set is") auto
      then show ?thesis using True IH(3) by (auto simp: c'_def)
    next
      case False
      then show ?thesis using IH(3) by (auto simp: c'_def)
    qed
  qed
  moreover have "\<forall>i. dict_get deg' i = (if i \<in> set (j # is) then Some (int (c i) - int (count_list (j # is) i)) else dict_get deg i)"
    using IH(4) cj(2) by (auto simp: c'_def v_def dict_simps count_list_0_iff of_nat_diff)
  moreover have "fold release_one (j # is) (deg, q) = (deg', q @ ((if v = 0 then [j] else []) @ new))"
    using IH(1) step by simp
  ultimately show ?case by blast
qed simp

lemma pop_keeps:
  assumes "kahn_inv w P (deg, p # q)"
  shows "kahn_inv w (insert p P) (fold release_one (dependents w p) (deg, q))
    \<and> (\<exists>new. snd (fold release_one (dependents w p) (deg, q)) = q @ new)"
proof -
  let ?c = "\<lambda>i. open_deps w P i" and ?P = "insert p P"
  have p: "p \<in> set (node_ids w)" "p \<notin> P" "?c p = 0" and q: "set q = ready w P - {p}" "distinct q" "p \<notin> set q"
    using assms by (auto simp: ready_def)
  have pop: "?c i = open_deps w ?P i + count_list (dependents w p) i" for i
    using open_deps_pop [OF p(2)] by (simp add: dependents_count)
  have "\<forall>i \<in> set (dependents w p). dict_get deg i = Some (int (?c i)) \<and> count_list (dependents w p) i \<le> ?c i"
    using assms pop dependents_ids [of w p] by fastforce
  from releases [OF this, of q] obtain deg' new where
    r: "fold release_one (dependents w p) (deg, q) = (deg', q @ new)" "distinct new"
      "set new = {i \<in> set (dependents w p). ?c i = count_list (dependents w p) i}"
      "\<forall>i. dict_get deg' i = (if i \<in> set (dependents w p) then Some (int (?c i) - int (count_list (dependents w p) i))
         else dict_get deg i)"
    by blast
  have count: "count_list (dependents w p) i = 0 \<longleftrightarrow> i \<notin> set (dependents w p)" for i
    by (rule count_list_0_iff)
  have new: "i \<in> set new \<longleftrightarrow> ?c i > 0 \<and> open_deps w ?P i = 0" for i
    unfolding r(3) using pop [of i] count [of i] by (cases "i \<in> set (dependents w p)") (simp_all, linarith?)
  have closed: "\<forall>i \<in> P. ?c i = 0" using assms by simp
  have "dict_get deg' i = Some (int (open_deps w ?P i))" if "i \<in> set (node_ids w)" for i
  proof -
    have "dict_get deg i = Some (int (?c i))" using assms that unfolding kahn_inv.simps by blast
    then show ?thesis using r(4) pop [of i] count [of i] by (cases "i \<in> set (dependents w p)") simp_all
  qed
  moreover have "distinct (q @ new)" using r(2) q new by (auto simp: ready_def)
  moreover have "set (q @ new) = ready w ?P"
  proof (rule set_eqI)
    fix i
    have "i \<in> set (node_ids w)" if "i \<in> set new" using that r(3) dependents_ids [of w p] by auto
    then show "(i \<in> set (q @ new)) = (i \<in> ready w ?P)"
      using q(1) new [of i] p pop [of i] closed by (auto simp: ready_def)
  qed
  moreover have "\<forall>i \<in> ?P. open_deps w ?P i = 0" using closed p(3) pop by (metis add_is_0 insert_iff)
  ultimately show ?thesis using r(1) assms p(1) by auto
qed

lemma layer_keeps:
  "kahn_inv w P (deg, q) \<Longrightarrow> k \<le> length q \<Longrightarrow>
   fst (pop_layer w k (deg, q)) = take k q \<and> kahn_inv w (P \<union> set (take k q)) (snd (pop_layer w k (deg, q)))"
proof (induction k arbitrary: P deg q)
  case (Suc k)
  obtain p q0 where q: "q = p # q0" using Suc.prems(2) by (cases q) auto
  obtain d1 q1 where r: "fold release_one (dependents w p) (deg, q0) = (d1, q1)" by force
  obtain new where "kahn_inv w (insert p P) (d1, q1)" "q1 = q0 @ new"
    using pop_keeps [of w P deg p q0] Suc.prems(1) q r by auto
  then show ?case
    using Suc.IH [of "insert p P" d1 q1] Suc.prems(2) q r by (auto simp del: kahn_inv.simps split: prod.splits)
qed simp

text \<open>
  The reference: each layer is the set of the nodes whose dependencies are all in earlier layers.
\<close>

fun layered :: "workflow \<Rightarrow> string set \<Rightarrow> string list list \<Rightarrow> bool" where
  "layered w P [] \<longleftrightarrow> ready w P = {}"
| "layered w P (l # ls) \<longleftrightarrow> l \<noteq> [] \<and> distinct l \<and> set l = ready w P \<and> layered w (P \<union> set l) ls"

lemma kahn_layers:
  "kahn_inv w P (deg, q) \<Longrightarrow> layered w P (fst (kahn w (deg, q)))"
proof (induction w "(deg, q)" arbitrary: P deg q rule: kahn.induct)
  case (1 w deg q)
  show ?case
  proof (cases "q = []")
    case True
    then show ?thesis using 1(2) by (simp add: kahn.simps)
  next
    case False
    obtain l d1 q1 where r: "pop_layer w (length q) (deg, q) = (l, d1, q1)" by (metis prod_cases3)
    have "l = q" "kahn_inv w (P \<union> set q) (d1, q1)" using layer_keeps [OF 1(2), of "length q"] r by auto
    then show ?thesis
      using 1(1) [OF False refl r [symmetric]] 1(2) False r
      by (subst kahn.simps) (auto split: prod.splits)
  qed
qed

lemma layered_facts:
  "layered w P ls \<Longrightarrow> distinct (concat ls) \<and> set (concat ls) \<inter> P = {} \<and> set (concat ls) \<subseteq> set (node_ids w)
     \<and> ready w (P \<union> set (concat ls)) = {}"
proof (induction ls arbitrary: P)
  case (Cons l ls)
  then have "layered w (P \<union> set l) ls" "set l = ready w P" "distinct l" by auto
  moreover have "set l \<subseteq> set (node_ids w)" "set l \<inter> P = {}" using calculation(2) by (auto simp: ready_def)
  ultimately show ?case using Cons.IH [of "P \<union> set l"]
    by (simp add: Un_assoc Int_Un_distrib Int_Un_distrib2) blast
qed simp

section \<open>The initial degrees\<close>

lemma sets_dict: "is_dict deg \<Longrightarrow> is_dict (fold (\<lambda>n. dict_set (f n) v) ns deg)"
  by (induction ns arbitrary: deg) auto

lemma initial_get: "dict_get (initial_degrees w) i = (if i \<in> set (node_ids w) then Some 0 else None)"
proof -
  have "dict_get (fold (\<lambda>n. dict_set (wf_id n) 0) ns deg) i = (if i \<in> set (node_ids ns) then Some 0 else dict_get deg i)"
    for ns and deg :: "(string, int) dict"
    by (induction ns arbitrary: deg) (auto simp: dict_simps)
  then show ?thesis by (simp add: initial_degrees_def)
qed

lemma counted:
  "dict_get deg i = Some v \<Longrightarrow>
   dict_get (fold (\<lambda>d. count_in i) ds deg) j = (if j = i then Some (v + int (length ds)) else dict_get deg j)"
  by (induction ds arbitrary: deg v) (auto simp: count_in_def dict_simps)

lemma counted_dict: "is_dict deg \<Longrightarrow> is_dict (fold (\<lambda>d. count_in i) ds deg)"
  by (induction ds arbitrary: deg) (auto simp: count_in_def)

lemma degrees_fold:
  assumes "\<forall>i \<in> set (node_ids ns). dict_get deg i \<noteq> None" "is_dict deg"
  shows "is_dict (fold (\<lambda>n. fold (\<lambda>d. count_in (wf_id n)) (depends_on n)) ns deg)
    \<and> dict_get (fold (\<lambda>n. fold (\<lambda>d. count_in (wf_id n)) (depends_on n)) ns deg) i
       = map_option (\<lambda>v. v + int (length (deps_of ns i))) (dict_get deg i)"
  using assms
proof (induction ns arbitrary: deg)
  case (Cons n ns)
  let ?deg = "fold (\<lambda>d. count_in (wf_id n)) (depends_on n) deg"
  obtain v where v: "dict_get deg (wf_id n) = Some v" using Cons.prems by auto
  have get: "dict_get ?deg j = (if j = wf_id n then Some (v + int (length (depends_on n))) else dict_get deg j)" for j
    by (rule counted [OF v])
  have "is_dict ?deg" "\<forall>j \<in> set (node_ids ns). dict_get ?deg j \<noteq> None"
    using Cons.prems by (auto simp: get counted_dict)
  from Cons.IH [OF this(2,1)] show ?case
    using v by (auto simp: get deps_of_def map_option_case split: option.splits)
qed (simp add: deps_of_def option.map_ident)

lemma degrees_get:
  "is_dict (in_degrees w)"
  "dict_get (in_degrees w) i = (if i \<in> set (node_ids w) then Some (int (length (deps_of w i))) else None)"
proof -
  have "is_dict (initial_degrees w)" by (simp add: initial_degrees_def sets_dict)
  from degrees_fold [of w "initial_degrees w" i, OF _ this]
  show "is_dict (in_degrees w)"
    "dict_get (in_degrees w) i = (if i \<in> set (node_ids w) then Some (int (length (deps_of w i))) else None)"
    by (auto simp: in_degrees_def initial_get)
qed

lemma initial_inv:
  "kahn_inv w {} (in_degrees w, map fst (filter (\<lambda>(i, v). v = 0) (in_degrees w)))"
proof -
  have "set (map fst (filter (\<lambda>(i, v). v = 0) (in_degrees w))) = {i. dict_get (in_degrees w) i = Some 0}"
    using in_dict_get [OF degrees_get(1)] by (force simp: image_iff)
  moreover have "distinct (map fst (filter (\<lambda>(i, v). v = 0) (in_degrees w)))"
    using degrees_get(1) [of w] by (simp add: is_dict_def distinct_map_filter)
  ultimately show ?thesis by (auto simp: degrees_get(2) open_deps_def ready_def)
qed

definition layers_of :: "workflow \<Rightarrow> string list list" where
  "layers_of w = fst (kahn w (in_degrees w, map fst (filter (\<lambda>(i, v). v = 0) (in_degrees w))))"

lemma layers: "layered w {} (layers_of w)"
  unfolding layers_of_def by (rule kahn_layers [OF initial_inv])

section \<open>Cycles\<close>

definition dependency_relation :: "workflow \<Rightarrow> (string \<times> string) set" where
  "dependency_relation w = {(d, i). i \<in> set (node_ids w) \<and> d \<in> set (deps_of w i)}"

lemma relation_finite: "finite (dependency_relation w)"
proof -
  have "dependency_relation w \<subseteq> (\<Union>n \<in> set w. set (depends_on n)) \<times> set (node_ids w)"
    by (auto simp: dependency_relation_def deps_of_def)
  then show ?thesis by (rule finite_subset) auto
qed

lemma acyclic_complete:
  assumes "acyclic (dependency_relation w)" "unknown_dependencies w = []"
  shows "set (concat (layers_of w)) = set (node_ids w)"
proof (rule ccontr)
  let ?P = "set (concat (layers_of w))" and ?U = "set (node_ids w) - set (concat (layers_of w))"
  assume "?P \<noteq> set (node_ids w)"
  then have "\<exists>i. i \<in> ?U" using layered_facts [OF layers [of w]] by auto
  moreover have "wf (dependency_relation w)"
    using finite_acyclic_wf relation_finite assms(1) by blast
  ultimately obtain i where i: "i \<in> ?U" "\<And>d. (d, i) \<in> dependency_relation w \<Longrightarrow> d \<notin> ?U"
    by (metis wfE_min)
  have "d \<in> ?P" if "d \<in> set (deps_of w i)" for d
  proof -
    have "d \<in> set (node_ids w)"
      using assms(2) that by (fastforce simp: unknown_dependencies_def deps_of_def filter_empty_conv)
    then show ?thesis using i that by (auto simp: dependency_relation_def)
  qed
  then have "open_deps w ?P i = 0" by (simp add: open_deps_def filter_empty_conv)
  then have "i \<in> ready w ?P" using i(1) by (auto simp: ready_def)
  then show False using layered_facts [OF layers [of w]] by simp
qed

lemma layered_accessible:
  "layered w P ls \<Longrightarrow> P \<subseteq> Wellfounded.acc (dependency_relation w)
    \<Longrightarrow> set (concat ls) \<subseteq> Wellfounded.acc (dependency_relation w)"
proof (induction ls arbitrary: P)
  case (Cons l ls)
  have "i \<in> Wellfounded.acc (dependency_relation w)" if "i \<in> set l" for i
  proof (rule accI)
    fix d assume "(d, i) \<in> dependency_relation w"
    then show "d \<in> Wellfounded.acc (dependency_relation w)"
      using Cons.prems that by (auto simp: ready_def open_deps_def filter_empty_conv dependency_relation_def)
  qed
  then have "P \<union> set l \<subseteq> Wellfounded.acc (dependency_relation w)" using Cons.prems(2) by blast
  moreover have "layered w (P \<union> set l) ls" using Cons.prems(1) unfolding layered.simps by blast
  ultimately show ?case using Cons.IH [of "P \<union> set l"] by simp
qed simp

lemma complete_acyclic:
  assumes "set (concat (layers_of w)) = set (node_ids w)"
  shows "acyclic (dependency_relation w)"
proof -
  have "x \<in> Wellfounded.acc (dependency_relation w)" for x
  proof (cases "x \<in> set (node_ids w)")
    case True
    have "set (concat (layers_of w)) \<subseteq> Wellfounded.acc (dependency_relation w)"
      by (rule layered_accessible [OF layers]) simp
    then show ?thesis using True assms by blast
  next
    case False
    then show ?thesis using accI [of x "dependency_relation w"] by (simp add: dependency_relation_def)
  qed
  then have "wf (dependency_relation w)" by (intro acc_wfI allI)
  then show ?thesis by (rule wf_acyclic)
qed

lemma sort_cases:
  "topological_sort w = (if length (concat (layers_of w)) \<noteq> length w
     then Inl (CycleDetected (map fst (filter (\<lambda>(i, v). v > 0)
       (snd (kahn w (in_degrees w, map fst (filter (\<lambda>(i, v). v = 0) (in_degrees w))))))))
     else Inr (map (List.map_filter (dict_get (node_map w))) (layers_of w)))"
  by (simp add: topological_sort_def layers_of_def Let_def length_concat split: prod.splits)

lemma all_sorted_iff:
  "length (concat (layers_of w)) = length w \<longleftrightarrow>
     distinct (node_ids w) \<and> set (concat (layers_of w)) = set (node_ids w)"
proof -
  note facts = layered_facts [OF layers [of w]]
  have len: "length (concat (layers_of w)) = card (set (concat (layers_of w)))"
    using facts distinct_card by metis
  show ?thesis
  proof
    assume eq: "length (concat (layers_of w)) = length w"
    have "card (set (concat (layers_of w))) \<le> card (set (node_ids w))"
      using facts by (intro card_mono) auto
    moreover have "card (set (node_ids w)) \<le> length w" using card_length [of "node_ids w"] by simp
    ultimately have c: "card (set (node_ids w)) = length (node_ids w)"
        "card (set (concat (layers_of w))) = card (set (node_ids w))"
      using eq len by auto
    then show "distinct (node_ids w) \<and> set (concat (layers_of w)) = set (node_ids w)"
      using facts card_distinct [of "node_ids w"] card_subset_eq [of "set (node_ids w)" "set (concat (layers_of w))"]
      by (simp only: List.finite_set simp_thms)
  next
    assume "distinct (node_ids w) \<and> set (concat (layers_of w)) = set (node_ids w)"
    then show "length (concat (layers_of w)) = length w" using len distinct_card [of "node_ids w"] by simp
  qed
qed

lemma validate_iff:
  "validate_workflow w = [] \<longleftrightarrow> unknown_dependencies w = [] \<and> distinct (node_ids w) \<and> acyclic (dependency_relation w)"
  using all_sorted_iff [of w] acyclic_complete [of w] complete_acyclic [of w]
  by (auto simp: validate_workflow_def sort_cases)

text \<open>
  Validation is exact: a workflow passes if and only if every dependency names a node, no two
  nodes have the same name, and no node depends on itself through any chain. (Two nodes of one name
  are reported as a cycle.)
\<close>

theorem validation_is_exact:
  "validate_workflow w = [] \<longleftrightarrow>
     unknown_dependencies w = [] \<and> distinct (node_ids w) \<and> acyclic (dependency_relation w)"
  by (rule validate_iff)

lemma node_map_fold:
  "dict_get (fold (\<lambda>n. dict_set (wf_id n) n) ns d) i
    = (case find (\<lambda>n. wf_id n = i) (rev ns) of Some n \<Rightarrow> Some n | None \<Rightarrow> dict_get d i)"
proof (induction ns arbitrary: d)
  case (Cons n ns)
  have "find P (xs @ [n]) = (case find P xs of None \<Rightarrow> if P n then Some n else None | Some x \<Rightarrow> Some x)" for P xs
    by (induction xs) auto
  then show ?case using Cons by (auto simp: dict_simps split: option.splits)
qed simp

lemma found: "find P xs = Some x \<Longrightarrow> x \<in> set xs \<and> P x"
  by (induction xs) (auto split: if_splits)

lemma node_map_get:
  assumes "distinct (node_ids w)" "n \<in> set w"
  shows "dict_get (node_map w) (wf_id n) = Some n"
proof -
  obtain m where m: "find (\<lambda>x. wf_id x = wf_id n) (rev w) = Some m"
    using assms(2) by (cases "find (\<lambda>x. wf_id x = wf_id n) (rev w)") (auto simp: find_None_iff)
  then have "m \<in> set w" "wf_id m = wf_id n" using found [OF m] by auto
  then have "m = n" using assms by (auto simp: distinct_map inj_on_def)
  then show ?thesis using m by (simp add: node_map_def node_map_fold)
qed

lemma mapped_layer:
  assumes "distinct (node_ids w)" "set l \<subseteq> set (node_ids w)"
  shows "map wf_id (List.map_filter (dict_get (node_map w)) l) = l
    \<and> set (List.map_filter (dict_get (node_map w)) l) = {n \<in> set w. wf_id n \<in> set l}"
  using assms(2)
proof (induction l)
  case (Cons i l)
  then obtain n where n: "n \<in> set w" "i = wf_id n" by auto
  have "m = n" if "m \<in> set w" "wf_id m = wf_id n" for m
    using assms(1) n(1) that by (auto simp: distinct_map inj_on_def)
  then show ?case using Cons node_map_get [OF assms(1) n(1)] n by (auto simp: map_filter_simps)
qed (simp add: map_filter_simps)

lemma sorted_layers:
  assumes "validate_workflow w = []"
  obtains ls where "topological_sort w = Inr ls" "map (map wf_id) ls = layers_of w" "mset (concat ls) = mset w"
    "distinct (node_ids w)"
proof -
  have d: "distinct (node_ids w)" and full: "set (concat (layers_of w)) = set (node_ids w)"
    using assms validate_iff [of w] acyclic_complete [of w] by auto
  let ?ls = "map (List.map_filter (dict_get (node_map w))) (layers_of w)"
  have sub: "set l \<subseteq> set (node_ids w)" if "l \<in> set (layers_of w)" for l
    using full that by auto
  have "map (map wf_id) ?ls = layers_of w"
    using mapped_layer [OF d sub] by (simp add: map_idI)
  moreover have "mset (concat ?ls) = mset w"
  proof -
    have ids: "map wf_id (concat ?ls) = concat (layers_of w)"
      using calculation by (simp add: map_concat)
    then have "distinct (map wf_id (concat ?ls))" using layered_facts [OF layers [of w]] by simp
    then have "distinct (concat ?ls)" by (simp add: distinct_map)
    moreover have "set (concat ?ls) = set w"
    proof -
      have "set (concat ?ls) = {n \<in> set w. wf_id n \<in> set (concat (layers_of w))}"
        using mapped_layer [OF d sub] by auto
      then show ?thesis unfolding full by auto
    qed
    moreover have "distinct w" using d by (simp add: distinct_map)
    ultimately show ?thesis by (simp only: set_eq_iff_mset_eq_distinct)
  qed
  moreover have "topological_sort w = Inr ?ls"
    using all_sorted_iff [of w] d full by (simp add: sort_cases)
  ultimately show thesis using that d by blast
qed

text \<open>
  C40. The layers: the sort of a valid workflow puts every node into exactly one layer, and each layer
  holds exactly the nodes not placed before whose dependencies have all been placed in earlier
  layers, so that nodes run as early as they can.
\<close>

theorem layers_are_greedy:
  assumes "validate_workflow w = []"
  shows "\<exists>ls. topological_sort w = Inr ls \<and> layered w {} (map (map wf_id) ls) \<and> mset (concat ls) = mset w"
  using sorted_layers [OF assms] layers [of w] by metis

section \<open>Execution\<close>

record node_result =
  nr_id :: string
  nr_success :: bool
  nr_output :: json
  nr_error :: string
  nr_retries :: nat

type_synonym node_executor = "wf_node \<Rightarrow> (string, json) dict \<Rightarrow> nat \<Rightarrow> string + node_result"

fun attempts :: "node_executor \<Rightarrow> wf_node \<Rightarrow> (string, json) dict \<Rightarrow> nat \<Rightarrow> nat \<Rightarrow> string \<Rightarrow> node_result" where
  "attempts run n vars a 0 err =
     \<lparr>nr_id = wf_id n, nr_success = False, nr_output = J_NULL, nr_error = err, nr_retries = 0\<rparr>"
| "attempts run n vars a (Suc left) err =
     (case run n vars a of
        Inr r \<Rightarrow>
          if nr_success r then r\<lparr>nr_retries := a - 1\<rparr>
          else attempts run n vars (a + 1) (if on_error n = ''retry'' then left else 0) (nr_error r)
      | Inl e \<Rightarrow> attempts run n vars (a + 1) (if on_error n = ''retry'' then left else 0) e)"

definition execute_node :: "node_executor \<Rightarrow> wf_node \<Rightarrow> (string, json) dict \<Rightarrow> node_result" where
  "execute_node run n vars = attempts run n vars 1 (max_retries n) []"

definition feed :: "wf_node \<Rightarrow> node_result \<Rightarrow> (string, json) dict \<Rightarrow> (string, json) dict" where
  "feed n r vars =
     (if nr_success r then dict_set (wf_id n) (nr_output r) vars
      else if on_error n = ''skip'' then dict_set (wf_id n) J_NULL vars else vars)"

type_synonym exec_state = "(string, node_result) dict \<times> (string, json) dict"

fun run_layer :: "node_executor \<Rightarrow> wf_node list \<Rightarrow> exec_state \<Rightarrow> exec_state" where
  "run_layer run l (res, vars) =
     (fold (\<lambda>n. dict_set (wf_id n) (execute_node run n vars)) l res,
      fold (\<lambda>n. feed n (execute_node run n vars)) l vars)"

datatype wf_result = Refused "wf_error list" | Ran bool "(string, node_result) dict"

definition execute_workflow :: "node_executor \<Rightarrow> workflow \<Rightarrow> (string, json) dict \<Rightarrow> wf_result" where
  "execute_workflow run w inputs =
     (if validate_workflow w \<noteq> [] then Refused (validate_workflow w)
      else (case topological_sort w of
              Inl e \<Rightarrow> Refused [e]
            | Inr ls \<Rightarrow>
                (let (res, vars) = fold (run_layer run) ls ([], inputs)
                 in Ran (list_all (\<lambda>(i, r). nr_success r) res) res)))"

text \<open>The executor used when none is given: references are looked up, everything else is copied.\<close>

definition resolve :: "(string, json) dict \<Rightarrow> json \<Rightarrow> json" where
  "resolve vars v =
     (case v of
        J_STR (c # ref) \<Rightarrow> if c = CHR 0x24 then the_default v (dict_get vars ref) else v
      | _ \<Rightarrow> v)"

definition default_executor :: node_executor where
  "default_executor n vars a =
     Inr \<lparr>nr_id = wf_id n, nr_success = True, nr_output = J_OBJECT (map (\<lambda>(k, v). (k, resolve vars v)) (wf_config n)),
          nr_error = [], nr_retries = 0\<rparr>"

section \<open>What an execution gives\<close>

text \<open>What a node finds under a name, from the results so far and the inputs.\<close>

definition visible ::
  "workflow \<Rightarrow> (string, json) dict \<Rightarrow> (string, node_result) dict \<Rightarrow> string \<Rightarrow> json option" where
  "visible w inputs res i =
     (case (dict_get (node_map w) i, dict_get res i) of
        (Some n, Some r) \<Rightarrow>
          if nr_success r then Some (nr_output r)
          else if on_error n = ''skip'' then Some J_NULL else dict_get inputs i
      | _ \<Rightarrow> dict_get inputs i)"

definition ran_with :: "node_executor \<Rightarrow> workflow \<Rightarrow> (string, json) dict \<Rightarrow> (string, node_result) dict \<Rightarrow> wf_node \<Rightarrow> bool" where
  "ran_with run w inputs res n \<longleftrightarrow>
     (\<exists>vars. dict_get res (wf_id n) = Some (execute_node run n vars)
        \<and> (\<forall>d \<in> set (depends_on n). dict_get vars d = visible w inputs res d))"

definition exec_inv :: "node_executor \<Rightarrow> workflow \<Rightarrow> (string, json) dict \<Rightarrow> string set \<Rightarrow> exec_state \<Rightarrow> bool" where
  "exec_inv run w inputs P s \<longleftrightarrow>
     (\<forall>i. dict_get (snd s) i = visible w inputs (fst s) i) \<and> (\<forall>i. (dict_get (fst s) i \<noteq> None) = (i \<in> P))
     \<and> (\<forall>n \<in> set w. wf_id n \<in> P \<longrightarrow> set (depends_on n) \<subseteq> P \<and> ran_with run w inputs (fst s) n)"

lemma set_others:
  "i \<notin> wf_id ` set l \<Longrightarrow> dict_get (fold (\<lambda>n. dict_set (wf_id n) (g n)) l d) i = dict_get d i"
  by (induction l arbitrary: d) (auto simp: dict_simps)

lemma set_results:
  "distinct (node_ids l) \<Longrightarrow> n \<in> set l \<Longrightarrow> dict_get (fold (\<lambda>n. dict_set (wf_id n) (g n)) l d) (wf_id n) = Some (g n)"
proof (induction l arbitrary: d)
  case (Cons m l)
  have "wf_id m \<notin> wf_id ` set l" using Cons.prems(1) by simp
  then have "dict_get (fold (\<lambda>n. dict_set (wf_id n) (g n)) l (dict_set (wf_id m) (g m) d)) (wf_id m) = Some (g m)"
    by (simp add: set_others dict_simps)
  then show ?case using Cons by auto
qed simp

lemma feed_results:
  "i \<notin> wf_id ` set l \<Longrightarrow> dict_get (fold (\<lambda>n. feed n (g n)) l d) i = dict_get d i"
  by (induction l arbitrary: d) (auto simp: feed_def dict_simps)

lemma feed_own:
  "distinct (node_ids l) \<Longrightarrow> n \<in> set l \<Longrightarrow>
   dict_get (fold (\<lambda>n. feed n (g n)) l d) (wf_id n)
     = (if nr_success (g n) then Some (nr_output (g n)) else if on_error n = ''skip'' then Some J_NULL
        else dict_get d (wf_id n))"
proof (induction l arbitrary: d)
  case (Cons m l)
  show ?case
  proof (cases "n = m")
    case True
    then show ?thesis using Cons.prems(1) by (simp add: feed_results) (simp add: feed_def dict_simps)
  next
    case False
    then have n: "n \<in> set l" using Cons.prems by simp
    moreover have "wf_id n \<noteq> wf_id m" using Cons.prems(1) n by (metis distinct.simps(2) image_eqI list.set_map list.simps(9))
    ultimately have "dict_get (feed m (g m) d) (wf_id n) = dict_get d (wf_id n)" by (simp add: feed_def dict_simps)
    then show ?thesis using Cons n by simp
  qed
qed simp

lemma layer_inv:
  assumes inv: "exec_inv run w inputs P s" and d: "distinct (node_ids w)" "distinct (node_ids l)"
    and l: "set l \<subseteq> set w" "set (node_ids l) = ready w P"
  shows "exec_inv run w inputs (P \<union> set (node_ids l)) (run_layer run l s)"
proof -
  obtain res vars where s: "s = (res, vars)" by force
  define g where "g = (\<lambda>n. execute_node run n vars)"
  let ?res = "fold (\<lambda>n. dict_set (wf_id n) (g n)) l res"
  let ?vars = "fold (\<lambda>n. feed n (g n)) l vars"
  have step: "run_layer run l s = (?res, ?vars)" by (simp add: s g_def)
  have out: "i \<notin> P" if "i \<in> set (node_ids l)" for i using l(2) that by (simp add: ready_def)
  have old: "dict_get ?res i = dict_get res i" if "i \<notin> set (node_ids l)" for i
    using set_others [of i l g] that by simp
  have own: "dict_get ?res (wf_id n) = Some (g n)" if "n \<in> set l" for n using set_results [OF d(2) that] .
  have vis: "visible w inputs ?res i = visible w inputs res i" if "i \<notin> set (node_ids l)" for i
    using old [OF that] by (simp add: visible_def)
  have deps: "set (depends_on n) \<subseteq> P" if "n \<in> set l" for n
  proof -
    have "open_deps w P (wf_id n) = 0" using l(2) that by (auto simp: ready_def)
    moreover have "set (depends_on n) \<subseteq> set (deps_of w (wf_id n))" using l(1) that by (auto simp: deps_of_def)
    ultimately show ?thesis by (auto simp: open_deps_def filter_empty_conv)
  qed
  have vars: "dict_get ?vars i = visible w inputs ?res i" for i
  proof (cases "i \<in> set (node_ids l)")
    case True
    then obtain n where n: "n \<in> set l" "i = wf_id n" by auto
    have "dict_get vars i = dict_get inputs i"
    proof -
      have "dict_get vars i = visible w inputs res i" "dict_get res i = None"
        using inv out [OF True] by (auto simp: exec_inv_def s)
      then show ?thesis by (simp add: visible_def split: option.splits)
    qed
    then show ?thesis
      using feed_own [OF d(2) n(1), of g vars] own [OF n(1)] node_map_get [OF d(1), of n] l(1) n by (auto simp: visible_def)
  next
    case False
    then show ?thesis using feed_results [of i l g vars] inv vis [OF False] by (simp add: exec_inv_def s)
  qed
  have keep: "visible w inputs ?res d = visible w inputs res d" if "d \<in> P" for d
    using vis out that by blast
  have ran: "set (depends_on n) \<subseteq> P \<union> set (node_ids l) \<and> ran_with run w inputs ?res n"
    if n: "n \<in> set w" "wf_id n \<in> P \<union> set (node_ids l)" for n
  proof (cases "wf_id n \<in> P")
    case True
    then have "set (depends_on n) \<subseteq> P" "ran_with run w inputs res n" using inv n(1) by (auto simp: exec_inv_def s)
    moreover have "dict_get ?res (wf_id n) = dict_get res (wf_id n)" using old out True by blast
    ultimately show ?thesis using keep by (auto simp: ran_with_def subset_iff)
  next
    case False
    then obtain m where "m \<in> set l" "wf_id m = wf_id n" using n(2) by auto
    moreover have "m = n" using d(1) n(1) l(1) calculation by (auto simp: distinct_map inj_on_def)
    ultimately have "n \<in> set l" by simp
    moreover have "dict_get vars d = visible w inputs ?res d" if "d \<in> P" for d
      using inv keep [OF that] by (simp add: exec_inv_def s)
    ultimately show ?thesis using own [of n] deps [of n] by (auto simp: ran_with_def g_def)
  qed
  have "(dict_get ?res i \<noteq> None) = (i \<in> P \<union> set (node_ids l))" for i
  proof (cases "i \<in> set (node_ids l)")
    case True
    then show ?thesis using own by auto
  next
    case False
    then show ?thesis using old inv by (auto simp: exec_inv_def s)
  qed
  then show ?thesis unfolding exec_inv_def step fst_conv snd_conv using vars ran by blast
qed

lemma layers_inv:
  assumes "distinct (node_ids w)"
  shows "exec_inv run w inputs P s \<Longrightarrow> layered w P (map (map wf_id) ls) \<Longrightarrow> set (concat ls) \<subseteq> set w
    \<Longrightarrow> exec_inv run w inputs (P \<union> set (node_ids (concat ls))) (fold (run_layer run) ls s)"
proof (induction ls arbitrary: P s)
  case (Cons l ls)
  have "distinct (node_ids l)" "set (node_ids l) = ready w P" "layered w (P \<union> set (node_ids l)) (map (map wf_id) ls)"
    using Cons.prems(2) by (auto simp del: set_map)
  moreover have "set l \<subseteq> set w" "set (concat ls) \<subseteq> set w" using Cons.prems(3) by auto
  ultimately have "exec_inv run w inputs (P \<union> set (node_ids l) \<union> set (node_ids (concat ls)))
      (fold (run_layer run) ls (run_layer run l s))"
    using Cons.IH layer_inv [OF Cons.prems(1) assms] by blast
  then show ?case by (simp add: Un_assoc)
qed simp

text \<open>
  An execution runs every node of a valid workflow exactly once, whatever fails: each result is
  that of the node's executor, with its retries, on variables in which every dependency that
  succeeded has its output and every skipped one has none; a dependency that failed leaves what the
  inputs had, and its dependents run all the same. The workflow succeeds when every node did.
\<close>

theorem every_node_runs:
  assumes "validate_workflow w = []"
  shows "\<exists>res. execute_workflow run w inputs = Ran (list_all (\<lambda>(i, r). nr_success r) res) res
    \<and> (\<forall>i. (dict_get res i \<noteq> None) = (i \<in> set (node_ids w)))
    \<and> (\<forall>n \<in> set w. ran_with run w inputs res n)"
proof -
  obtain ls where ls: "topological_sort w = Inr ls" "map (map wf_id) ls = layers_of w" "mset (concat ls) = mset w"
      "distinct (node_ids w)"
    using sorted_layers [OF assms] .
  obtain res vars where r: "fold (run_layer run) ls ([], inputs) = (res, vars)" by force
  have "exec_inv run w inputs {} ([], inputs)" by (simp add: exec_inv_def visible_def split: option.splits)
  moreover have "set (concat ls) = set w" using ls(3) mset_eq_setD by blast
  ultimately have "exec_inv run w inputs (set (node_ids w)) (res, vars)"
    using layers_inv [OF ls(4), of run inputs "{}" "([], inputs)" ls] layers [of w] ls(2) r by simp
  then show ?thesis using assms ls(1) r by (auto simp: execute_workflow_def exec_inv_def)
qed

section \<open>A concrete workflow\<close>

definition sample_node :: "string \<Rightarrow> string list \<Rightarrow> string \<Rightarrow> wf_node" where
  "sample_node i ds err = \<lparr>wf_id = i, wf_type = ''tool'', wf_config = [(''path'', J_STR ''$a'')], depends_on = ds,
     on_error = err, max_retries = 2\<rparr>"

definition diamond :: workflow where
  "diamond = [sample_node ''d'' [''b'', ''c''] ''fail'', sample_node ''a'' [] ''fail'',
     sample_node ''b'' [''a''] ''skip'', sample_node ''c'' [''a''] ''retry'']"

lemma diamond_valid: "validate_workflow diamond = []" by code_simp

theorem layers_are_greedy_witness:
  "\<exists>ls. topological_sort diamond = Inr ls \<and> map (map wf_id) ls = [[''a''], [''b'', ''c''], [''d'']]
    \<and> layered diamond {} (map (map wf_id) ls)"
proof -
  have "map_option (map (map wf_id)) (case topological_sort diamond of Inr ls \<Rightarrow> Some ls | Inl e \<Rightarrow> None)
      = Some [[''a''], [''b'', ''c''], [''d'']]" by code_simp
  then show ?thesis using layers_are_greedy [OF diamond_valid] by auto
qed

theorem every_node_runs_witness:
  "\<exists>res. execute_workflow default_executor diamond [] = Ran True res
    \<and> ran_with default_executor diamond [] res (sample_node ''d'' [''b'', ''c''] ''fail'')"
proof -
  have "(case execute_workflow default_executor diamond [] of Ran ok res \<Rightarrow> ok | Refused es \<Rightarrow> False)" by code_simp
  then show ?thesis
    using every_node_runs [OF diamond_valid, of default_executor "[]"] by (auto simp: diamond_def)
qed

end
