(* ===== verification/Scope_Tree.thy ===== *)
theory Scope_Tree
  imports Grace_Prelude
begin

text \<open>
  \<^verbatim>\<open>core/eventing/scope.py\<close> and \<^verbatim>\<open>eventing/scope_tree.py\<close>: scope tokens, and the tree of sessions and
  tasks with their generations. Of an archived node only its generation is ever read, so that the
  tombstones are generations. A generation is a natural number: a token refuses a negative one.
\<close>

section \<open>Tokens\<close>

datatype scope_kind = GLOBAL | SESSION | TASK

record scope_token =
  tk_kind :: scope_kind
  tk_global :: string
  tk_generation :: nat
  tk_session :: "string option"
  tk_task :: "string option"

text \<open>An identifier must not be blank; a token has the identifiers of its kind and no other.\<close>

definition valid_id :: "string \<Rightarrow> bool" where
  "valid_id s \<longleftrightarrow> s \<noteq> [] \<and> str_strip s \<noteq> []"

definition valid_token :: "scope_token \<Rightarrow> bool" where
  "valid_token tok \<longleftrightarrow>
     (case tk_kind tok of
        GLOBAL \<Rightarrow> tk_session tok = None \<and> tk_task tok = None
      | SESSION \<Rightarrow> tk_session tok \<noteq> None \<and> tk_task tok = None
      | TASK \<Rightarrow> tk_session tok \<noteq> None \<and> tk_task tok \<noteq> None)"

definition global_scope :: "string \<Rightarrow> nat \<Rightarrow> scope_token" where
  "global_scope gid g = \<lparr>tk_kind = GLOBAL, tk_global = gid, tk_generation = g, tk_session = None, tk_task = None\<rparr>"

definition session_scope :: "string \<Rightarrow> string \<Rightarrow> nat \<Rightarrow> scope_token" where
  "session_scope gid sid g =
     \<lparr>tk_kind = SESSION, tk_global = gid, tk_generation = g, tk_session = Some sid, tk_task = None\<rparr>"

definition task_scope :: "string \<Rightarrow> string \<Rightarrow> string \<Rightarrow> nat \<Rightarrow> scope_token" where
  "task_scope gid sid tid g =
     \<lparr>tk_kind = TASK, tk_global = gid, tk_generation = g, tk_session = Some sid, tk_task = Some tid\<rparr>"

definition session_key :: "string \<Rightarrow> string" where
  "session_key sid = ''session:'' @ sid"

definition task_key :: "string \<Rightarrow> string \<Rightarrow> string" where
  "task_key sid tid = ''task:'' @ sid @ '':'' @ tid"

definition scope_key :: "scope_token \<Rightarrow> string" where
  "scope_key tok =
     (case tk_kind tok of
        GLOBAL \<Rightarrow> ''global''
      | SESSION \<Rightarrow> session_key (the_default ''None'' (tk_session tok))
      | TASK \<Rightarrow> task_key (the_default ''None'' (tk_session tok)) (the_default ''None'' (tk_task tok)))"

definition parent_key :: "scope_token \<Rightarrow> string option" where
  "parent_key tok =
     (case tk_kind tok of
        GLOBAL \<Rightarrow> None
      | SESSION \<Rightarrow> Some ''global''
      | TASK \<Rightarrow> Some (session_key (the_default ''None'' (tk_session tok))))"

definition is_stale :: "scope_token \<Rightarrow> nat \<Rightarrow> bool" where
  "is_stale tok current \<longleftrightarrow> tk_generation tok < current"

section \<open>The tree\<close>

record task_node =
  tn_generation :: nat
  tn_closed :: bool

record session_node =
  sn_generation :: nat
  sn_closed :: bool
  sn_tasks :: "(string, task_node) dict"

record scope_tree =
  tree_id :: string
  root_closed :: bool
  sessions :: "(string, session_node) dict"
  tombstones :: "(string, nat list) dict"

definition new_tree :: "string \<Rightarrow> scope_tree" where
  "new_tree gid = \<lparr>tree_id = gid, root_closed = False, sessions = [], tombstones = []\<rparr>"

text \<open>A node as far as its readers see it: its generation and whether it is closed.\<close>

type_synonym seen_node = "nat \<times> bool"

definition find_node :: "scope_tree \<Rightarrow> scope_token \<Rightarrow> seen_node option" where
  "find_node tr tok =
     (case tk_kind tok of
        GLOBAL \<Rightarrow> Some (0, root_closed tr)
      | SESSION \<Rightarrow>
          (case dict_get (sessions tr) (the_default [] (tk_session tok)) of
             None \<Rightarrow> None | Some n \<Rightarrow> Some (sn_generation n, sn_closed n))
      | TASK \<Rightarrow>
          (case dict_get (sessions tr) (the_default [] (tk_session tok)) of
             None \<Rightarrow> None
           | Some n \<Rightarrow>
               (case dict_get (sn_tasks n) (the_default [] (tk_task tok)) of
                  None \<Rightarrow> None | Some t \<Rightarrow> Some (tn_generation t, tn_closed t))))"

definition find_exact :: "scope_tree \<Rightarrow> scope_token \<Rightarrow> seen_node option" where
  "find_exact tr tok =
     (case find_node tr tok of
        None \<Rightarrow> None
      | Some (g, c) \<Rightarrow> if g \<noteq> tk_generation tok then None else Some (g, c))"

definition tombs :: "scope_tree \<Rightarrow> string \<Rightarrow> nat list" where
  "tombs tr k = the_default [] (dict_get (tombstones tr) k)"

datatype scope_error = StaleGeneration | ScopeClosed | ScopeNotFound

definition check_stale :: "scope_tree \<Rightarrow> scope_token \<Rightarrow> scope_error option" where
  "check_stale tr tok =
     (case find_node tr tok of
        Some (g, c) \<Rightarrow>
          if g > tk_generation tok then Some StaleGeneration else if c then Some ScopeClosed else None
      | None \<Rightarrow>
          if list_ex (\<lambda>t. t > tk_generation tok) (tombs tr (scope_key tok)) then Some StaleGeneration else None)"

definition is_closed :: "scope_tree \<Rightarrow> scope_token \<Rightarrow> bool" where
  "is_closed tr tok \<longleftrightarrow>
     list_ex (\<lambda>t. t \<ge> tk_generation tok) (tombs tr (scope_key tok))
     \<or> (case find_exact tr tok of None \<Rightarrow> False | Some (g, c) \<Rightarrow> c)"

fun bury :: "nat \<Rightarrow> nat list \<Rightarrow> nat list" where
  "bury g [] = [g]"
| "bury g (t # ts) = (if t = g then t # ts else if t < g then g # ts else t # bury g ts)"

definition add_tombstone :: "string \<Rightarrow> nat \<Rightarrow> scope_tree \<Rightarrow> scope_tree" where
  "add_tombstone k g tr = tr\<lparr>tombstones := dict_set k (bury g (tombs tr k)) (tombstones tr)\<rparr>"

definition close_tasks :: "(string, task_node) dict \<Rightarrow> (string, task_node) dict" where
  "close_tasks ts = map (\<lambda>(i, t). (i, t\<lparr>tn_closed := True\<rparr>)) ts"

definition close_node :: "session_node \<Rightarrow> session_node" where
  "close_node n = (if sn_closed n then n else n\<lparr>sn_closed := True, sn_tasks := close_tasks (sn_tasks n)\<rparr>)"

definition new_session :: "nat \<Rightarrow> session_node" where
  "new_session g = \<lparr>sn_generation = g, sn_closed = False, sn_tasks = []\<rparr>"

definition put_session :: "string \<Rightarrow> session_node \<Rightarrow> scope_tree \<Rightarrow> scope_tree" where
  "put_session sid n tr = tr\<lparr>sessions := dict_set sid n (sessions tr)\<rparr>"

definition ensure_session :: "string \<Rightarrow> nat \<Rightarrow> scope_tree \<Rightarrow> scope_tree" where
  "ensure_session sid g tr =
     (case dict_get (sessions tr) sid of
        None \<Rightarrow> put_session sid (new_session g) tr
      | Some n \<Rightarrow>
          if sn_generation n = g then tr
          else put_session sid (new_session g) (add_tombstone (session_key sid) (sn_generation n) tr))"

definition ensure_task :: "string \<Rightarrow> string \<Rightarrow> nat \<Rightarrow> scope_tree \<Rightarrow> scope_tree" where
  "ensure_task sid tid g tr =
     (let tr1 = ensure_session sid g tr in
      case dict_get (sessions tr1) sid of
        None \<Rightarrow> tr1
      | Some n \<Rightarrow>
          (let add = (\<lambda>tr2. put_session sid
                 (n\<lparr>sn_tasks := dict_set tid \<lparr>tn_generation = g, tn_closed = False\<rparr> (sn_tasks n)\<rparr>) tr2) in
           case dict_get (sn_tasks n) tid of
             None \<Rightarrow> add tr1
           | Some t \<Rightarrow>
               if tn_generation t = g then tr1
               else add (add_tombstone (task_key sid tid) (tn_generation t) tr1)))"

definition close_session :: "string \<Rightarrow> scope_tree \<Rightarrow> scope_tree" where
  "close_session sid tr =
     (case dict_get (sessions tr) sid of
        None \<Rightarrow> tr
      | Some n \<Rightarrow>
          if sn_closed n then tr
          else add_tombstone (session_key sid) (sn_generation n) (put_session sid (close_node n) tr))"

definition close_task :: "string \<Rightarrow> string \<Rightarrow> scope_tree \<Rightarrow> scope_tree" where
  "close_task sid tid tr =
     (case dict_get (sessions tr) sid of
        None \<Rightarrow> tr
      | Some n \<Rightarrow>
          (case dict_get (sn_tasks n) tid of
             None \<Rightarrow> tr
           | Some t \<Rightarrow>
               if tn_closed t then tr
               else add_tombstone (task_key sid tid) (tn_generation t)
                 (put_session sid (n\<lparr>sn_tasks := dict_set tid (t\<lparr>tn_closed := True\<rparr>) (sn_tasks n)\<rparr>) tr)))"

definition close_all :: "scope_tree \<Rightarrow> scope_tree" where
  "close_all tr =
     (fold (\<lambda>(sid, n). add_tombstone (session_key sid) (sn_generation n)) (sessions tr) (tr\<lparr>root_closed := True\<rparr>))
       \<lparr>sessions := []\<rparr>"

definition tombstone_count :: "scope_tree \<Rightarrow> nat" where
  "tombstone_count tr = sum_list (map length (dict_values (tombstones tr)))"

definition active_session_count :: "scope_tree \<Rightarrow> nat" where
  "active_session_count tr = length (sessions tr)"

text \<open>The check before an event is published, of \<^verbatim>\<open>eventing/scoped_bus.py\<close>.\<close>

definition validate_scope :: "scope_tree \<Rightarrow> scope_token \<Rightarrow> scope_error option" where
  "validate_scope tr tok =
     (case find_node tr tok of
        None \<Rightarrow> Some ScopeNotFound
      | Some (g, c) \<Rightarrow>
          if c then Some ScopeClosed
          else if tk_kind tok \<noteq> GLOBAL \<and> tk_generation tok < g then Some ScopeClosed else None)"

section \<open>Histories\<close>

datatype tree_op =
    EnsureSession string nat
  | EnsureTask string string nat
  | CloseSession string
  | CloseTask string string
  | CloseAll

fun tree_step :: "scope_tree \<Rightarrow> tree_op \<Rightarrow> scope_tree" where
  "tree_step tr (EnsureSession sid g) = ensure_session sid g tr"
| "tree_step tr (EnsureTask sid tid g) = ensure_task sid tid g tr"
| "tree_step tr (CloseSession sid) = close_session sid tr"
| "tree_step tr (CloseTask sid tid) = close_task sid tid tr"
| "tree_step tr CloseAll = close_all tr"

section \<open>Tombstones\<close>

definition buried :: "scope_tree \<Rightarrow> string \<Rightarrow> nat \<Rightarrow> bool" where
  "buried tr k g \<longleftrightarrow> list_ex (\<lambda>t. t \<ge> g) (tombs tr k)"

lemma bury_keeps: "list_ex (\<lambda>t. t \<ge> g) ts \<Longrightarrow> list_ex (\<lambda>t. t \<ge> g) (bury h ts)"
  by (induction ts) auto

lemma bury_adds: "list_ex (\<lambda>t. t \<ge> h) (bury h ts)"
  by (induction ts) auto

lemma bury_set: "set (bury h ts) \<subseteq> insert h (set ts)"
  by (induction ts) auto

lemma tombs_add: "tombs (add_tombstone k g tr) k' = (if k' = k then bury g (tombs tr k) else tombs tr k')"
  by (simp add: add_tombstone_def tombs_def dict_simps)

lemma add_tombstone_frame [simp]:
  "sessions (add_tombstone k g tr) = sessions tr" "root_closed (add_tombstone k g tr) = root_closed tr"
  by (simp_all add: add_tombstone_def)

lemma put_session_frame [simp]:
  "sessions (put_session sid n tr) = dict_set sid n (sessions tr)" "tombs (put_session sid n tr) = tombs tr"
  "tombs (tr\<lparr>root_closed := b\<rparr>) = tombs tr" "tombs (tr\<lparr>sessions := d\<rparr>) = tombs tr"
  by (auto simp: put_session_def tombs_def)

lemma buried_add: "buried tr k g \<Longrightarrow> buried (add_tombstone k' h tr) k g"
  using bury_keeps by (auto simp: buried_def tombs_add)

lemma buried_own [simp]: "buried (add_tombstone k h tr) k h"
  by (simp add: buried_def tombs_add bury_adds)

lemma buried_put [simp]: "buried (put_session sid n tr) = buried tr"
  "buried (tr\<lparr>root_closed := b\<rparr>) = buried tr" "buried (tr\<lparr>sessions := d\<rparr>) = buried tr"
  by (intro ext; simp add: buried_def)+

lemma key_inj [simp]: "session_key a = session_key b \<longleftrightarrow> a = b" "session_key a \<noteq> task_key b c"
  by (simp_all add: session_key_def task_key_def)

lemma buried_ensure: "buried tr k g \<Longrightarrow> buried (ensure_session sid h tr) k g"
  by (auto simp: ensure_session_def buried_add split: option.splits)

lemma buried_all:
  "buried tr k g \<Longrightarrow> buried (fold (\<lambda>(sid, n). add_tombstone (session_key sid) (sn_generation n)) ns tr) k g"
  by (induction ns arbitrary: tr) (auto simp: buried_add)

lemma buried_step: "buried tr k g \<Longrightarrow> buried (tree_step tr x) k g"
  by (cases x) (auto simp: buried_ensure ensure_task_def close_session_def close_task_def close_all_def buried_add
      buried_all Let_def split: option.splits)

text \<open>A closed session has a tombstone of its generation.\<close>

definition tombs_ok :: "scope_tree \<Rightarrow> bool" where
  "tombs_ok tr \<longleftrightarrow> (\<forall>sid n. dict_get (sessions tr) sid = Some n \<longrightarrow> sn_closed n \<longrightarrow> buried tr (session_key sid) (sn_generation n))"

lemma ok_ensure: "tombs_ok tr \<Longrightarrow> tombs_ok (ensure_session sid g tr)"
  by (auto simp: tombs_ok_def ensure_session_def dict_simps new_session_def intro: buried_add split: option.splits if_splits)

lemma ok_add: "tombs_ok tr \<Longrightarrow> tombs_ok (add_tombstone k g tr)"
  by (auto simp: tombs_ok_def intro: buried_add)

lemma ok_put:
  "tombs_ok tr \<Longrightarrow> dict_get (sessions tr) sid = Some n \<Longrightarrow> sn_generation m = sn_generation n \<Longrightarrow> sn_closed m = sn_closed n
    \<Longrightarrow> tombs_ok (put_session sid m tr)"
  by (auto simp: tombs_ok_def dict_simps split: if_splits)

lemma ok_step: "tombs_ok tr \<Longrightarrow> tombs_ok (tree_step tr x)"
proof (cases x)
  case (EnsureTask sid tid g)
  assume "tombs_ok tr"
  then have ok: "tombs_ok (ensure_session sid g tr)" by (rule ok_ensure)
  then show ?thesis
    using ok_put [OF ok, of sid] ok_put [OF ok_add [OF ok], where sid = sid]
    by (auto simp: EnsureTask ensure_task_def Let_def split: option.splits)
next
  case (CloseSession sid)
  assume ok: "tombs_ok tr"
  have "tombs_ok (add_tombstone (session_key sid) (sn_generation n) (put_session sid (close_node n) tr))" for n
    using ok by (auto simp: tombs_ok_def dict_simps close_node_def intro: buried_add split: if_splits)
  then show ?thesis using ok by (auto simp: CloseSession close_session_def split: option.splits)
next
  case (CloseTask sid tid)
  assume "tombs_ok tr"
  then show ?thesis
    using ok_put [of tr sid] by (auto simp: CloseTask close_task_def intro!: ok_add split: option.splits)
next
  case CloseAll
  then show ?thesis by (simp add: close_all_def tombs_ok_def)
qed (simp add: ok_ensure)

lemma session_closed_iff:
  assumes "tombs_ok tr"
  shows "is_closed tr (session_scope gid sid g) \<longleftrightarrow> buried tr (session_key sid) g"
  using assms
  by (auto simp: is_closed_def session_scope_def scope_key_def find_exact_def find_node_def buried_def tombs_ok_def
      split: option.splits if_splits)

interpretation tree_ok: op_invariant tree_step tombs_ok
  by unfold_locales (rule ok_step)

interpretation burial: op_latch tree_step "\<lambda>tr. buried tr k g" for k g
  by unfold_locales (rule buried_step)

lemma reachable_ok: "tombs_ok (foldl tree_step (new_tree gid) xs)"
  by (rule tree_ok.run_inv) (simp add: tombs_ok_def new_tree_def)

text \<open>
  A closed generation of a session stays closed: once the tree reports it so, it reports it after
  every further sequence of creations and closings, whatever their generations and order.
\<close>

theorem closed_session_stays_closed:
  assumes "is_closed (foldl tree_step (new_tree gid) xs) (session_scope gid sid g)"
  shows "is_closed (foldl tree_step (new_tree gid) (xs @ ys)) (session_scope gid sid g)"
  using assms burial.latch_prefix by (simp only: session_closed_iff [OF reachable_ok])

section \<open>Generations that only go up\<close>

text \<open>A caller asks for the generation a session has, or for one above all it has had.\<close>

definition fresh_for :: "scope_tree \<Rightarrow> string \<Rightarrow> nat \<Rightarrow> bool" where
  "fresh_for tr sid g \<longleftrightarrow>
     (case dict_get (sessions tr) sid of
        None \<Rightarrow> list_all (\<lambda>t. t < g) (tombs tr (session_key sid))
      | Some n \<Rightarrow> sn_generation n = g \<or> (sn_generation n < g \<and> list_all (\<lambda>t. t < g) (tombs tr (session_key sid))))"

fun fresh_op :: "scope_tree \<Rightarrow> tree_op \<Rightarrow> bool" where
  "fresh_op tr (EnsureSession sid g) = fresh_for tr sid g"
| "fresh_op tr (EnsureTask sid tid g) = fresh_for tr sid g"
| "fresh_op tr _ = True"

fun disciplined :: "scope_tree \<Rightarrow> tree_op list \<Rightarrow> bool" where
  "disciplined tr [] = True"
| "disciplined tr (x # xs) = (fresh_op tr x \<and> disciplined (tree_step tr x) xs)"

definition newest :: "scope_tree \<Rightarrow> bool" where
  "newest tr \<longleftrightarrow> (\<forall>sid n t. dict_get (sessions tr) sid = Some n \<longrightarrow> t \<in> set (tombs tr (session_key sid))
     \<longrightarrow> t \<le> sn_generation n \<and> (t = sn_generation n \<longrightarrow> sn_closed n))"

lemma newest_ensure: "newest tr \<Longrightarrow> fresh_for tr sid g \<Longrightarrow> newest (ensure_session sid g tr)"
  using bury_set
  by (fastforce simp: newest_def ensure_session_def fresh_for_def dict_simps tombs_add new_session_def list_all_iff
      split: option.splits if_splits)

lemma newest_put:
  "newest tr \<Longrightarrow> dict_get (sessions tr) sid = Some n \<Longrightarrow> sn_generation m = sn_generation n \<Longrightarrow> sn_closed m = sn_closed n
    \<Longrightarrow> newest (put_session sid m tr)"
  by (auto simp: newest_def dict_simps split: if_splits)

lemma newest_task: "newest tr \<Longrightarrow> newest (add_tombstone (task_key sid tid) g tr)"
  by (auto simp: newest_def tombs_add)

lemma newest_step: "newest tr \<Longrightarrow> fresh_op tr x \<Longrightarrow> newest (tree_step tr x)"
proof (cases x)
  case (EnsureTask sid tid g)
  assume "newest tr" "fresh_op tr x"
  then have n: "newest (ensure_session sid g tr)" using newest_ensure EnsureTask by simp
  then show ?thesis
    using newest_put [OF n, of sid] newest_put [OF newest_task [OF n], where sid = sid]
    by (auto simp: EnsureTask ensure_task_def Let_def split: option.splits)
next
  case (CloseSession sid)
  assume n: "newest tr"
  have "newest (add_tombstone (session_key sid) (sn_generation m) (put_session sid (close_node m) tr))"
    if "dict_get (sessions tr) sid = Some m" for m
    using n that bury_set [of "sn_generation m" "tombs tr (session_key sid)"]
    by (fastforce simp: newest_def dict_simps tombs_add close_node_def split: if_splits)
  then show ?thesis using n by (auto simp: CloseSession close_session_def split: option.splits)
next
  case (CloseTask sid tid)
  assume "newest tr"
  then show ?thesis
    using newest_put [of tr sid] by (auto simp: CloseTask close_task_def intro!: newest_task split: option.splits)
next
  case CloseAll
  then show ?thesis by (simp add: close_all_def newest_def)
qed (simp add: newest_ensure)

lemma disciplined_newest: "newest tr \<Longrightarrow> disciplined tr xs \<Longrightarrow> newest (foldl tree_step tr xs)"
  by (induction xs arbitrary: tr) (auto intro: newest_step)

text \<open>
  A closed scope takes no more events: when every caller asks only for generations that are
  current or new, an event for a generation of a session that was closed is refused for ever.
\<close>

theorem closed_scope_refuses_events:
  assumes "disciplined (new_tree gid) (xs @ ys)"
    and "is_closed (foldl tree_step (new_tree gid) xs) (session_scope gid sid g)"
  shows "validate_scope (foldl tree_step (new_tree gid) (xs @ ys)) (session_scope gid sid g) \<noteq> None"
proof -
  let ?tr = "foldl tree_step (new_tree gid) (xs @ ys)"
  have "buried ?tr (session_key sid) g"
    using assms(2) burial.latch_prefix by (simp only: session_closed_iff [OF reachable_ok])
  moreover have "newest ?tr" by (rule disciplined_newest [OF _ assms(1)]) (simp add: newest_def new_tree_def)
  ultimately show ?thesis
    by (fastforce simp: validate_scope_def find_node_def session_scope_def buried_def newest_def list_ex_iff
        split: option.splits)
qed

text \<open>
  Without that discipline the tree reopens what was closed: asking for a closed generation again
  after a newer one takes events for it while the tree reports it closed, and a task of a closed
  session is created open and takes events.
\<close>

theorem closed_scope_reopens:
  "(let tr = foldl tree_step (new_tree gid)
        [EnsureSession sid g, CloseSession sid, EnsureSession sid (g + 1 + k), EnsureSession sid g]
    in is_closed tr (session_scope gid sid g) \<and> validate_scope tr (session_scope gid sid g) = None)
   \<and> (let tr = foldl tree_step (new_tree gid) [EnsureSession sid g, CloseSession sid, EnsureTask sid tid g]
      in validate_scope tr (session_scope gid sid g) = Some ScopeClosed
         \<and> validate_scope tr (task_scope gid sid tid g) = None)"
  by (simp add: new_tree_def ensure_session_def close_session_def ensure_task_def put_session_def new_session_def
      close_node_def close_tasks_def add_tombstone_def tombs_def validate_scope_def find_node_def session_scope_def
      task_scope_def is_closed_def scope_key_def Let_def)

section \<open>A concrete tree\<close>

theorem closed_session_stays_closed_witness:
  "is_closed (foldl tree_step (new_tree ''g'') ([EnsureSession ''s'' 1, EnsureTask ''s'' ''t'' 1, CloseSession ''s'']
     @ [EnsureSession ''s'' 2, CloseAll])) (session_scope ''g'' ''s'' 1)"
  by (rule closed_session_stays_closed) code_simp

theorem closed_scope_refuses_events_witness:
  "validate_scope (foldl tree_step (new_tree ''g'') ([EnsureSession ''s'' 1, CloseSession ''s'']
     @ [EnsureSession ''s'' 2])) (session_scope ''g'' ''s'' 1) \<noteq> None"
  by (rule closed_scope_refuses_events) code_simp+

end
