(* ===== verification/Scoped_Bus.thy ===== *)
theory Scoped_Bus
  imports Scope_Tree
begin

text \<open>
  \<^verbatim>\<open>eventing/scoped_bus.py\<close> and \<^verbatim>\<open>subscription.py\<close>: subscriptions to the exact scope of an event. A
  subscription is an object its holder can close, identified by a number. A handler runs outside the
  model: publishing gives the subscriptions whose handlers are called, in order; an exception of a
  handler is swallowed by the code.
\<close>

section \<open>The bus\<close>

record subscription =
  sb_ref :: nat
  sb_event :: string
  sb_subscriber :: string
  sb_scope :: scope_token
  sb_closed :: bool

type_synonym sub_key = "string \<times> string \<times> scope_token"

definition key_of :: "subscription \<Rightarrow> sub_key" where
  "key_of sb = (sb_event sb, sb_subscriber sb, sb_scope sb)"

record event_bus =
  bus_tree :: scope_tree
  subscribers :: "(string, subscription list) dict"
  sub_ids :: "sub_key list"
  next_ref :: nat

definition new_bus :: "string \<Rightarrow> event_bus" where
  "new_bus gid = \<lparr>bus_tree = new_tree gid, subscribers = [], sub_ids = [], next_ref = 0\<rparr>"

datatype bus_error = DuplicateSubscription | IndexOutOfRange

definition subscribe :: "string \<Rightarrow> string \<Rightarrow> scope_token \<Rightarrow> event_bus \<Rightarrow> bus_error + event_bus" where
  "subscribe ev who scope b =
     (let sb = \<lparr>sb_ref = next_ref b, sb_event = ev, sb_subscriber = who, sb_scope = scope, sb_closed = False\<rparr> in
      if key_of sb \<in> set (sub_ids b) then Inl DuplicateSubscription
      else Inr (b\<lparr>sub_ids := sub_ids b @ [key_of sb], next_ref := next_ref b + 1,
                  subscribers := dict_set ev (the_default [] (dict_get (subscribers b) ev) @ [sb]) (subscribers b)\<rparr>))"

definition close_subscription :: "nat \<Rightarrow> event_bus \<Rightarrow> event_bus" where
  "close_subscription ref b =
     b\<lparr>subscribers := map (\<lambda>(ev, sbs).
         (ev, map (\<lambda>sb. if sb_ref sb = ref then sb\<lparr>sb_closed := True\<rparr> else sb) sbs)) (subscribers b)\<rparr>"

text \<open>
  Which subscriptions stay when a session, or a task of it, is closed. The cleaning of the
  identifiers reads a fourth component of a triple: with a task it raises on the first identifier,
  without one it compares a tuple with a string and removes nothing.
\<close>

definition stays :: "string \<Rightarrow> string option \<Rightarrow> subscription \<Rightarrow> bool" where
  "stays sid task sb \<longleftrightarrow>
     \<not> sb_closed sb
     \<and> (if task \<noteq> None \<and> tk_kind (sb_scope sb) = TASK
        then \<not> (tk_session (sb_scope sb) = Some sid \<and> tk_task (sb_scope sb) = task)
        else if tk_kind (sb_scope sb) = SESSION then tk_session (sb_scope sb) \<noteq> Some sid
        else True)"

definition remove_scoped :: "string \<Rightarrow> string option \<Rightarrow> event_bus \<Rightarrow> bus_error option \<times> event_bus" where
  "remove_scoped sid task b =
     (if task \<noteq> None \<and> sub_ids b \<noteq> [] then Some IndexOutOfRange else None,
      b\<lparr>subscribers := filter (\<lambda>(ev, sbs). sbs \<noteq> [])
          (map (\<lambda>(ev, sbs). (ev, filter (stays sid task) sbs)) (subscribers b))\<rparr>)"

definition bus_close_session :: "string \<Rightarrow> event_bus \<Rightarrow> bus_error option \<times> event_bus" where
  "bus_close_session sid b = remove_scoped sid None (b\<lparr>bus_tree := close_session sid (bus_tree b)\<rparr>)"

definition bus_close_task :: "string \<Rightarrow> string \<Rightarrow> event_bus \<Rightarrow> bus_error option \<times> event_bus" where
  "bus_close_task sid tid b = remove_scoped sid (Some tid) (b\<lparr>bus_tree := close_task sid tid (bus_tree b)\<rparr>)"

definition publish :: "string \<Rightarrow> scope_token \<Rightarrow> event_bus \<Rightarrow> scope_error + subscription list" where
  "publish ev scope b =
     (case validate_scope (bus_tree b) scope of
        Some e \<Rightarrow> Inl e
      | None \<Rightarrow>
          Inr (filter (\<lambda>sb. \<not> sb_closed sb \<and> sb_scope sb = scope) (the_default [] (dict_get (subscribers b) ev))))"

definition subscriber_count :: "event_bus \<Rightarrow> nat" where
  "subscriber_count b = length (filter (\<lambda>sb. \<not> sb_closed sb) (concat (dict_values (subscribers b))))"

datatype bus_op =
    Subscribe string string scope_token
  | Unsubscribe nat
  | OnTree tree_op

text \<open>An exception leaves what was done before it.\<close>

fun bus_step :: "event_bus \<Rightarrow> bus_op \<Rightarrow> event_bus" where
  "bus_step b (Subscribe ev who scope) = (case subscribe ev who scope b of Inl e \<Rightarrow> b | Inr b' \<Rightarrow> b')"
| "bus_step b (Unsubscribe ref) = close_subscription ref b"
| "bus_step b (OnTree (CloseSession sid)) = snd (bus_close_session sid b)"
| "bus_step b (OnTree (CloseTask sid tid)) = snd (bus_close_task sid tid b)"
| "bus_step b (OnTree op) = b\<lparr>bus_tree := tree_step (bus_tree b) op\<rparr>"

section \<open>One subscription for a key\<close>

definition all_subs :: "event_bus \<Rightarrow> subscription list" where
  "all_subs b = concat (dict_values (subscribers b))"

definition list_ok :: "sub_key list \<Rightarrow> string \<Rightarrow> sub_key list \<Rightarrow> bool" where
  "list_ok ids ev ks \<longleftrightarrow> distinct ks \<and> (\<forall>k \<in> set ks. fst k = ev \<and> k \<in> set ids)"

definition bus_ok :: "event_bus \<Rightarrow> bool" where
  "bus_ok b \<longleftrightarrow> is_dict (subscribers b)
     \<and> (\<forall>(ev, sbs) \<in> set (subscribers b). list_ok (sub_ids b) ev (map key_of sbs))"

lemma key_simps [simp]:
  "fst (key_of sb) = sb_event sb" "key_of (sb\<lparr>sb_closed := c\<rparr>) = key_of sb"
  by (simp_all add: key_of_def)

lemma list_ok_filter: "list_ok ids ev (map key_of sbs) \<Longrightarrow> list_ok ids ev (map key_of (filter P sbs))"
  by (auto simp: list_ok_def distinct_map_filter)

lemma list_ok_more: "list_ok ids ev ks \<Longrightarrow> list_ok (ids @ js) ev ks"
  by (auto simp: list_ok_def)

lemma bus_own:
  "bus_ok b \<Longrightarrow> list_ok (sub_ids b) ev (map key_of (the_default [] (dict_get (subscribers b) ev)))"
  by (cases "dict_get (subscribers b) ev") (auto simp: bus_ok_def list_ok_def dest!: map_of_SomeD)

lemma map_dict: "is_dict d \<Longrightarrow> is_dict (map (\<lambda>(k, v). (k, f v)) d)"
  by (simp add: is_dict_def comp_def case_prod_unfold)

lemma filter_dict: "is_dict d \<Longrightarrow> is_dict (filter P d)"
  by (simp add: is_dict_def distinct_map_filter)

lemma ok_subscribe:
  assumes "bus_ok b" "subscribe ev who scope b = Inr b'"
  shows "bus_ok b'"
proof -
  let ?sb = "\<lparr>sb_ref = next_ref b, sb_event = ev, sb_subscriber = who, sb_scope = scope, sb_closed = False\<rparr>"
  let ?old = "the_default [] (dict_get (subscribers b) ev)"
  have new: "key_of ?sb \<notin> set (sub_ids b)" and b': "b' = b\<lparr>sub_ids := sub_ids b @ [key_of ?sb], next_ref := next_ref b + 1,
      subscribers := dict_set ev (?old @ [?sb]) (subscribers b)\<rparr>"
    using assms(2) by (auto simp: subscribe_def Let_def split: if_splits)
  have own: "list_ok (sub_ids b') ev (map key_of (?old @ [?sb]))"
    using new bus_own [OF assms(1), of ev] b' by (auto simp: list_ok_def)
  have "list_ok (sub_ids b') e (map key_of sbs)" if "(e, sbs) \<in> set (subscribers b')" for e sbs
  proof -
    have "(e = ev \<and> sbs = ?old @ [?sb]) \<or> (e, sbs) \<in> set (subscribers b)"
      using that dict_set_in unfolding b' by fastforce
    then show ?thesis using own assms(1) b' list_ok_more by (fastforce simp: bus_ok_def)
  qed
  moreover have "is_dict (subscribers b')" using assms(1) b' by (simp add: bus_ok_def)
  ultimately show ?thesis by (auto simp: bus_ok_def)
qed

lemma ok_close: "bus_ok b \<Longrightarrow> bus_ok (close_subscription ref b)"
proof -
  assume ok: "bus_ok b"
  have "map key_of (map (\<lambda>sb. if sb_ref sb = ref then sb\<lparr>sb_closed := True\<rparr> else sb) sbs) = map key_of sbs" for sbs
    by simp
  then show ?thesis
    using ok by (auto simp: bus_ok_def close_subscription_def map_dict simp del: map_map)
qed

lemma ok_remove: "bus_ok b \<Longrightarrow> bus_ok (snd (remove_scoped sid task b))"
  by (auto simp: bus_ok_def remove_scoped_def filter_dict map_dict list_ok_filter)

lemma ok_tree: "bus_ok (b\<lparr>bus_tree := tr\<rparr>) = bus_ok b"
  by (simp add: bus_ok_def)

lemma ok_bus_step: "bus_ok b \<Longrightarrow> bus_ok (bus_step b x)"
  by (cases "(b, x)" rule: bus_step.cases)
    (auto simp: bus_close_session_def bus_close_task_def ok_tree ok_close
      intro: ok_subscribe ok_remove split: sum.splits)

interpretation bus_inv: op_invariant bus_step bus_ok
  by unfold_locales (rule ok_bus_step)

lemma used_step: "k \<in> set (sub_ids b) \<Longrightarrow> k \<in> set (sub_ids (bus_step b x))"
  by (cases "(b, x)" rule: bus_step.cases)
    (auto simp: subscribe_def Let_def close_subscription_def bus_close_session_def bus_close_task_def
      remove_scoped_def split: sum.splits if_splits)

interpretation used_key: op_latch bus_step "\<lambda>b. k \<in> set (sub_ids b)" for k
  by unfold_locales (rule used_step)

lemma reachable_bus: "bus_ok (foldl bus_step (new_bus gid) xs)"
  by (rule bus_inv.run_inv) (simp add: bus_ok_def new_bus_def)

text \<open>
  An event reaches exactly the open subscriptions to its type and its very scope, each subscriber
  once, after any history of subscriptions, cancellations and closings; and it is taken only for a
  scope that is open and not older than the current one.
\<close>

theorem delivery_is_exact:
  assumes "publish ev scope (foldl bus_step (new_bus gid) xs) = Inr sbs"
  shows "distinct (map sb_subscriber sbs)
    \<and> (\<forall>sb \<in> set sbs. sb_event sb = ev \<and> sb_scope sb = scope \<and> \<not> sb_closed sb)
    \<and> (\<forall>sb \<in> set (all_subs (foldl bus_step (new_bus gid) xs)).
         sb_event sb = ev \<and> sb_scope sb = scope \<and> \<not> sb_closed sb \<longrightarrow> sb \<in> set sbs)
    \<and> validate_scope (bus_tree (foldl bus_step (new_bus gid) xs)) scope = None"
proof -
  let ?b = "foldl bus_step (new_bus gid) xs"
  let ?own = "the_default [] (dict_get (subscribers ?b) ev)"
  have ok: "bus_ok ?b" by (rule reachable_bus)
  have sbs: "sbs = filter (\<lambda>sb. \<not> sb_closed sb \<and> sb_scope sb = scope) ?own"
    and valid: "validate_scope (bus_tree ?b) scope = None"
    using assms by (auto simp: publish_def split: option.splits)
  have "list_ok (sub_ids ?b) ev (map key_of ?own)" by (rule bus_own [OF ok])
  then have own: "distinct (map key_of ?own) \<and> (\<forall>sb \<in> set ?own. sb_event sb = ev)" by (auto simp: list_ok_def)
  have "inj_on sb_subscriber (set sbs)"
    using own by (auto simp: sbs inj_on_def distinct_map key_of_def)
  moreover have "distinct sbs" using own by (simp add: sbs distinct_map)
  ultimately have once: "distinct (map sb_subscriber sbs)" by (simp add: distinct_map)
  have mine: "\<forall>sb \<in> set sbs. sb_event sb = ev \<and> sb_scope sb = scope \<and> \<not> sb_closed sb" using own by (simp add: sbs)
  have "sb \<in> set ?own" if sb: "sb \<in> set (all_subs ?b)" "sb_event sb = ev" for sb
  proof -
    obtain e ss where e: "(e, ss) \<in> set (subscribers ?b)" "sb \<in> set ss"
      using sb(1) unfolding all_subs_def dict_values_def by fastforce
    then have "list_ok (sub_ids ?b) e (map key_of ss)" using ok by (auto simp: bus_ok_def)
    then have "e = ev" using e(2) sb(2) by (auto simp: list_ok_def)
    moreover have "is_dict (subscribers ?b)" using ok by (simp add: bus_ok_def)
    ultimately show ?thesis using in_dict_get [of "subscribers ?b"] e by simp
  qed
  then have all: "\<forall>sb \<in> set (all_subs ?b). sb_event sb = ev \<and> sb_scope sb = scope \<and> \<not> sb_closed sb \<longrightarrow> sb \<in> set sbs"
    by (simp add: sbs)
  show ?thesis by (intro conjI once mine all valid)
qed

text \<open>
  A subscriber subscribes once: a key that was ever used is refused for ever, also after its
  subscription was closed and after its scope was closed.
\<close>

theorem keys_are_never_freed:
  assumes "subscribe ev who scope (foldl bus_step (new_bus gid) xs) \<noteq> Inl DuplicateSubscription"
  shows "subscribe ev who scope (foldl bus_step (new_bus gid) (xs @ Subscribe ev who scope # ys)) = Inl DuplicateSubscription"
proof -
  have "(ev, who, scope) \<in> set (sub_ids (foldl bus_step (new_bus gid) (xs @ [Subscribe ev who scope])))"
    using assms by (auto simp: subscribe_def Let_def key_of_def)
  from used_key.latch_prefix [OF this, of ys] show ?thesis by (simp add: subscribe_def Let_def key_of_def)
qed

text \<open>
  Closing a task goes too far: as soon as anybody ever subscribed, it raises, and whatever it
  raises, the subscribers of the session itself are gone afterwards.
\<close>

theorem closing_a_task_unsubscribes_its_session:
  "fst (bus_close_task sid tid b) = (if sub_ids b = [] then None else Some IndexOutOfRange)
    \<and> filter (\<lambda>sb. tk_kind (sb_scope sb) = SESSION \<and> tk_session (sb_scope sb) = Some sid)
        (all_subs (snd (bus_close_task sid tid b))) = []"
proof -
  have "filter (\<lambda>sb. tk_kind (sb_scope sb) = SESSION \<and> tk_session (sb_scope sb) = Some sid)
        (concat (map snd (filter (\<lambda>(ev, sbs). sbs \<noteq> []) (map (\<lambda>(ev, sbs). (ev, filter (stays sid (Some tid)) sbs)) d)))) = []"
    for d
    by (auto simp: filter_empty_conv stays_def split: if_splits)
  then show ?thesis by (auto simp: bus_close_task_def remove_scoped_def all_subs_def dict_values_def)
qed

section \<open>A concrete bus\<close>

definition bus_history :: "bus_op list" where
  "bus_history = [OnTree (EnsureSession ''s'' 1), Subscribe ''run'' ''trace'' (session_scope ''g'' ''s'' 1),
     Subscribe ''run'' ''stats'' (session_scope ''g'' ''s'' 1), Subscribe ''run'' ''all'' (global_scope ''g'' 0), Unsubscribe 1]"

theorem delivery_is_exact_witness:
  "\<exists>sbs. publish ''run'' (session_scope ''g'' ''s'' 1) (foldl bus_step (new_bus ''g'') bus_history) = Inr sbs
    \<and> map sb_subscriber sbs = [''trace''] \<and> distinct (map sb_subscriber sbs)"
proof -
  let ?r = "publish ''run'' (session_scope ''g'' ''s'' 1) (foldl bus_step (new_bus ''g'') bus_history)"
  have r: "(case ?r of Inl e \<Rightarrow> None | Inr sbs \<Rightarrow> Some (map sb_subscriber sbs)) = Some [''trace'']" by code_simp
  show ?thesis
  proof (cases ?r)
    case (Inl e)
    then show ?thesis using r by (simp only: sum.case option.distinct)
  next
    case (Inr sbs)
    then have "map sb_subscriber sbs = [''trace'']" using r by (simp only: sum.case option.inject)
    moreover have "distinct (map sb_subscriber sbs)" using delivery_is_exact [OF Inr] by (rule conjunct1)
    ultimately show ?thesis by (intro exI [of _ sbs] conjI Inr)
  qed
qed

theorem keys_are_never_freed_witness:
  "subscribe ''run'' ''x'' (global_scope ''g'' 0)
     (foldl bus_step (new_bus ''g'') ([] @ Subscribe ''run'' ''x'' (global_scope ''g'' 0) # [Unsubscribe 0]))
   = Inl DuplicateSubscription"
  by (rule keys_are_never_freed) (simp add: subscribe_def new_bus_def Let_def)

end
