(* ===== verification/Bounded_Channel.thy ===== *)
theory Bounded_Channel
  imports Grace_Prelude "HOL-Library.Multiset"
begin

text \<open>
  \<^verbatim>\<open>eventing/bounded_channel.py\<close>: the channel between publishers and one consumer, as a step relation.
  A step is what runs between two points where the event loop may switch: a publisher that gets a
  slot and the rest of its \<open>put\<close> are two steps, an item taken from the queue and the end of its
  handler are two. Which step comes next, how long a handler takes and whether it fails are open.
\<close>

section \<open>The channel\<close>

datatype 'm queued = ITEM 'm | POISON

datatype 'm consumer = NOT_STARTED | IDLE | BUSY 'm | FINISHED

datatype handler_end = HANDLED | HANDLER_RAISED string | HANDLER_TIMEOUT

datatype 'm receipt = DELIVERED 'm | REJECTED_CLOSED 'm | TIMED_OUT 'm

record 'm channel =
  ch_capacity :: nat
  free_slots :: nat
  granted :: "'m list"
  ch_queue :: "'m queued list"
  unfinished :: nat
  pending_count :: nat
  consumer :: "'m consumer"
  ch_closed :: bool
  error_sink :: "handler_end list"
  receipts :: "'m receipt list"
  taken :: "'m list"
  done_items :: "('m \<times> handler_end) list"
  cut_off :: "'m list"

definition new_channel :: "nat \<Rightarrow> 'm channel option" where
  "new_channel n =
     (if n = 0 then None
      else Some \<lparr>ch_capacity = n, free_slots = n, granted = [], ch_queue = [], unfinished = 0, pending_count = 0,
        consumer = NOT_STARTED, ch_closed = False, error_sink = [], receipts = [], taken = [], done_items = [],
        cut_off = []\<rparr>)"

text \<open>The end of one round of the consumer: \<open>task_done\<close> raises on zero, and the count is not touched then.\<close>

definition round_done :: "'m channel \<Rightarrow> 'm channel" where
  "round_done c =
     (if unfinished c = 0 then c
      else c\<lparr>unfinished := unfinished c - 1, pending_count := pending_count c - 1\<rparr>)"

definition release_slot :: "'m channel \<Rightarrow> 'm channel" where
  "release_slot c = c\<lparr>free_slots := free_slots c + 1\<rparr>"

definition sink :: "handler_end \<Rightarrow> 'm channel \<Rightarrow> 'm channel" where
  "sink e c = (case e of HANDLED \<Rightarrow> c | _ \<Rightarrow> c\<lparr>error_sink := error_sink c @ [e]\<rparr>)"

text \<open>The parts of a round of \<open>_consume_loop\<close>; \<open>task_done\<close> on a count of zero makes the round of a poison an error.\<close>

definition take_item :: "'m \<Rightarrow> 'm queued list \<Rightarrow> 'm channel \<Rightarrow> 'm channel" where
  "take_item m q c = c\<lparr>consumer := BUSY m, ch_queue := q, taken := taken c @ [m]\<rparr>"

definition end_item :: "'m \<Rightarrow> handler_end \<Rightarrow> 'm channel \<Rightarrow> 'm channel" where
  "end_item m e c = release_slot (round_done (sink e (c\<lparr>consumer := IDLE, done_items := done_items c @ [(m, e)]\<rparr>)))"

definition take_poison :: "'m queued list \<Rightarrow> 'm channel \<Rightarrow> 'm channel" where
  "take_poison q c =
     (if unfinished c = 0
      then round_done (sink (HANDLER_RAISED ''task_done() called too many times'') (c\<lparr>ch_queue := q\<rparr>))
      else round_done (c\<lparr>consumer := FINISHED, ch_queue := q, unfinished := unfinished c - 1\<rparr>))"

inductive chan_step :: "'m channel \<Rightarrow> 'm channel \<Rightarrow> bool" where
  refuse: "ch_closed c \<Longrightarrow> chan_step c (c\<lparr>receipts := receipts c @ [REJECTED_CLOSED m]\<rparr>)"
| time_out: "chan_step c (c\<lparr>receipts := receipts c @ [TIMED_OUT m]\<rparr>)"
| acquire: "free_slots c > 0 \<Longrightarrow> chan_step c (c\<lparr>free_slots := free_slots c - 1, granted := granted c @ [m]\<rparr>)"
| put_closed: "granted c = xs @ m # ys \<Longrightarrow> ch_closed c
    \<Longrightarrow> chan_step c (release_slot c\<lparr>granted := xs @ ys, receipts := receipts c @ [REJECTED_CLOSED m]\<rparr>)"
| put_item: "granted c = xs @ m # ys \<Longrightarrow> \<not> ch_closed c \<Longrightarrow> length (ch_queue c) < ch_capacity c
    \<Longrightarrow> chan_step c (c\<lparr>granted := xs @ ys, ch_queue := ch_queue c @ [ITEM m], unfinished := unfinished c + 1,
          pending_count := pending_count c + 1, receipts := receipts c @ [DELIVERED m]\<rparr>)"
| close_channel: "chan_step c (c\<lparr>ch_closed := True\<rparr>)"
| poison: "ch_closed c \<Longrightarrow> length (ch_queue c) < ch_capacity c
    \<Longrightarrow> chan_step c (c\<lparr>ch_queue := ch_queue c @ [POISON], unfinished := unfinished c + 1\<rparr>)"
| start: "consumer c = NOT_STARTED \<or> consumer c = FINISHED \<Longrightarrow> chan_step c (c\<lparr>consumer := IDLE\<rparr>)"
| get_item: "consumer c = IDLE \<Longrightarrow> ch_queue c = ITEM m # q \<Longrightarrow> chan_step c (take_item m q c)"
| get_poison: "consumer c = IDLE \<Longrightarrow> ch_queue c = POISON # q \<Longrightarrow> chan_step c (take_poison q c)"
| handler_end: "consumer c = BUSY m \<Longrightarrow> chan_step c (end_item m e c)"
| cancel_idle: "consumer c = IDLE \<Longrightarrow> chan_step c (c\<lparr>consumer := FINISHED\<rparr>)"
| cancel_busy: "consumer c = BUSY m
    \<Longrightarrow> chan_step c (release_slot (round_done (c\<lparr>consumer := FINISHED, cut_off := cut_off c @ [m]\<rparr>)))"

inductive chan_reachable :: "nat \<Rightarrow> 'm channel \<Rightarrow> bool" for n where
  init: "new_channel n = Some c \<Longrightarrow> chan_reachable n c"
| step: "chan_reachable n c \<Longrightarrow> chan_step c c' \<Longrightarrow> chan_reachable n c'"

definition running :: "'m channel \<Rightarrow> bool" where
  "running c = (case consumer c of NOT_STARTED \<Rightarrow> False | FINISHED \<Rightarrow> False | _ \<Rightarrow> True)"

text \<open>
  The first two actions of \<open>shutdown\<close>, and the count it returns: the length of the queue, at once when
  no consumer runs, and after \<open>drain\<close> otherwise.
\<close>

definition begin_shutdown :: "'m channel \<Rightarrow> 'm channel" where
  "begin_shutdown c =
     (let c1 = c\<lparr>ch_closed := True\<rparr>
      in if length (ch_queue c1) < ch_capacity c1
         then c1\<lparr>ch_queue := ch_queue c1 @ [POISON], unfinished := unfinished c1 + 1\<rparr> else c1)"

definition drain_count :: "'m channel \<Rightarrow> nat" where
  "drain_count c = (if running c \<and> pending_count c = 0 then 0 else length (ch_queue c))"

text \<open>\<open>_consume_loop\<close> with no other task between its rounds, up to a number of rounds.\<close>

fun consume_loop :: "('m \<Rightarrow> handler_end) \<Rightarrow> nat \<Rightarrow> 'm channel \<Rightarrow> 'm channel" where
  "consume_loop h 0 c = c"
| "consume_loop h (Suc k) c =
     (case (consumer c, ch_queue c) of
        (IDLE, ITEM m # q) \<Rightarrow> consume_loop h k (end_item m (h m) (take_item m q c))
      | (IDLE, POISON # q) \<Rightarrow> consume_loop h k (take_poison q c)
      | _ \<Rightarrow> c)"

section \<open>Slots and order\<close>

fun items :: "'m queued list \<Rightarrow> 'm list" where
  "items [] = []"
| "items (ITEM m # q) = m # items q"
| "items (POISON # q) = items q"

fun accepted :: "'m receipt list \<Rightarrow> 'm list" where
  "accepted [] = []"
| "accepted (DELIVERED m # rs) = m # accepted rs"
| "accepted (r # rs) = accepted rs"

definition busy :: "'m channel \<Rightarrow> 'm list" where
  "busy c = (case consumer c of BUSY m \<Rightarrow> [m] | _ \<Rightarrow> [])"

text \<open>What is between a publisher and the end of its handler.\<close>

definition in_flight :: "'m channel \<Rightarrow> nat" where
  "in_flight c = length (granted c) + length (items (ch_queue c)) + length (busy c)"

lemma items_append [simp]: "items (xs @ ys) = items xs @ items ys"
  by (induction xs rule: items.induct) auto

lemma accepted_append [simp]: "accepted (xs @ ys) = accepted xs @ accepted ys"
  by (induction xs rule: accepted.induct) auto

text \<open>
  The invariant: slots are neither lost nor doubled, the counters count what is there as long as an
  item is left, the poisons of a closed channel follow its items, and the items taken are the first
  accepted.
\<close>

definition channel_ok :: "nat \<Rightarrow> 'm channel \<Rightarrow> bool" where
  "channel_ok n c \<longleftrightarrow> ch_capacity c = n \<and> free_slots c + in_flight c = n
     \<and> (\<exists>xs k. ch_queue c = map ITEM xs @ replicate k POISON \<and> (ch_closed c \<or> k = 0)
          \<and> (xs = [] \<and> busy c = [] \<and> ch_closed c \<or> unfinished c = length xs + k + length (busy c))
          \<and> pending_count c = length xs + length (busy c)
          \<and> accepted (receipts c) = taken c @ xs)
     \<and> mset (taken c) = mset (map fst (done_items c)) + mset (cut_off c) + mset (busy c)"


lemma items_map [simp]: "items (map ITEM xs) = xs" "items (replicate k POISON) = []"
  by (induction xs; simp) (induction k; simp)

lemma channel_okI:
  assumes "ch_capacity c = n" "free_slots c + in_flight c = n"
    and "ch_queue c = map ITEM xs @ replicate k POISON" "ch_closed c \<or> k = 0"
    and "xs = [] \<and> busy c = [] \<and> ch_closed c \<or> unfinished c = length xs + k + length (busy c)"
    and "pending_count c = length xs + length (busy c)" "accepted (receipts c) = taken c @ xs"
    and "mset (taken c) = mset (map fst (done_items c)) + mset (cut_off c) + mset (busy c)"
  shows "channel_ok n c"
  unfolding channel_ok_def using assms by blast

lemma channel_okE:
  assumes "channel_ok n c"
  obtains xs k where "ch_capacity c = n" "free_slots c + in_flight c = n"
    and "ch_queue c = map ITEM xs @ replicate k POISON" "ch_closed c \<or> k = 0"
    and "xs = [] \<and> busy c = [] \<and> ch_closed c \<or> unfinished c = length xs + k + length (busy c)"
    and "pending_count c = length xs + length (busy c)" "accepted (receipts c) = taken c @ xs"
    and "mset (taken c) = mset (map fst (done_items c)) + mset (cut_off c) + mset (busy c)"
  using assms unfolding channel_ok_def by blast

lemma first_item:
  assumes "map ITEM xs @ replicate k POISON = ITEM m # q"
  obtains ys where "xs = m # ys" "q = map ITEM ys @ replicate k POISON"
  using assms by (cases xs; cases k) auto

lemma first_poison:
  assumes "map ITEM xs @ replicate k POISON = POISON # q"
  obtains j where "xs = []" "k = Suc j" "q = replicate j POISON"
  using assms by (cases xs; cases k) auto

named_theorems channel_simps

lemmas channel_updates [channel_simps] =
  in_flight_def busy_def round_done_def release_slot_def sink_def take_item_def
  end_item_def take_poison_def

lemma channel_ok_step:
  assumes "chan_step c c'" "channel_ok n c"
  shows "channel_ok n c'"
proof -
  obtain xs k where ok: "ch_capacity c = n" "free_slots c + in_flight c = n"
    "ch_queue c = map ITEM xs @ replicate k POISON" "ch_closed c \<or> k = 0"
    "xs = [] \<and> busy c = [] \<and> ch_closed c \<or> unfinished c = length xs + k + length (busy c)"
    "pending_count c = length xs + length (busy c)" "accepted (receipts c) = taken c @ xs"
    "mset (taken c) = mset (map fst (done_items c)) + mset (cut_off c) + mset (busy c)"
    using assms(2) by (rule channel_okE)
  from assms(1) show ?thesis
  proof cases
    case (put_item ys m zs)
    with ok show ?thesis
      by (intro channel_okI [where xs = "xs @ [m]" and k = 0]) (auto simp: channel_simps)
  next
    case (poison)
    with ok show ?thesis
      by (intro channel_okI [where xs = xs and k = "Suc k"]) (auto simp: channel_simps replicate_append_same)
  next
    case (get_item m q)
    with ok obtain ys where "xs = m # ys" "q = map ITEM ys @ replicate k POISON"
      using first_item by metis
    with get_item ok show ?thesis
      by (intro channel_okI [where xs = ys and k = k]) (auto simp: channel_simps)
  next
    case (get_poison q)
    with ok obtain j where "xs = []" "k = Suc j" "q = replicate j POISON"
      using first_poison by metis
    with get_poison ok show ?thesis
      by (intro channel_okI [where xs = "[]" and k = j]) (auto simp: channel_simps)
  next
    case (handler_end m e)
    with ok show ?thesis
      by (intro channel_okI [where xs = xs and k = k]) (auto simp: channel_simps split: handler_end.splits)
  next
    case (refuse m)
    with ok show ?thesis
      by (intro channel_okI [where xs = xs and k = k]) (auto simp: channel_simps split: consumer.splits)
  next
    case (time_out m)
    with ok show ?thesis
      by (intro channel_okI [where xs = xs and k = k]) (auto simp: channel_simps split: consumer.splits)
  next
    case (acquire m)
    with ok show ?thesis
      by (intro channel_okI [where xs = xs and k = k]) (auto simp: channel_simps split: consumer.splits)
  next
    case (put_closed ys m zs)
    with ok show ?thesis
      by (intro channel_okI [where xs = xs and k = k]) (auto simp: channel_simps split: consumer.splits)
  next
    case (close_channel)
    with ok show ?thesis
      by (intro channel_okI [where xs = xs and k = k]) (auto simp: channel_simps split: consumer.splits)
  next
    case (start)
    with ok show ?thesis
      by (intro channel_okI [where xs = xs and k = k]) (auto simp: channel_simps split: consumer.splits)
  next
    case (cancel_idle)
    with ok show ?thesis
      by (intro channel_okI [where xs = xs and k = k]) (auto simp: channel_simps split: consumer.splits)
  next
    case (cancel_busy m)
    with ok show ?thesis
      by (intro channel_okI [where xs = xs and k = k]) (auto simp: channel_simps split: consumer.splits)
  qed
qed

lemma chan_reachable_ok: "chan_reachable n c \<Longrightarrow> channel_ok n c"
proof (induction rule: chan_reachable.induct)
  case (init c)
  then show ?case
    by (intro channel_okI [where xs = "[]" and k = 0]) (auto simp: new_channel_def channel_simps split: if_splits)
next
  case (step c c')
  then show ?case by (blast intro: channel_ok_step)
qed


lemma queue_fits: "chan_reachable n c \<Longrightarrow> length (ch_queue c) \<le> ch_capacity c \<and> ch_capacity c = n"
proof (induction rule: chan_reachable.induct)
  case (step c c')
  from step.hyps(2) step.IH show ?case
    by cases (auto simp: channel_simps split: handler_end.splits)
qed (auto simp: new_channel_def split: if_splits)

lemma open_queue:
  assumes "chan_reachable n c" "\<not> ch_closed c"
  obtains xs where "ch_queue c = map ITEM xs" "unfinished c = length xs + length (busy c)"
    "accepted (receipts c) = taken c @ xs" "length xs \<le> n" "ch_capacity c = n"
proof -
  obtain xs k where ok: "ch_queue c = map ITEM xs @ replicate k POISON" "ch_closed c \<or> k = 0"
    "xs = [] \<and> busy c = [] \<and> ch_closed c \<or> unfinished c = length xs + k + length (busy c)"
    "accepted (receipts c) = taken c @ xs"
    using chan_reachable_ok [OF assms(1)] by (auto elim: channel_okE)
  with assms(2) queue_fits [OF assms(1)] show thesis by (intro that [of xs]) auto
qed

lemma consume_items:
  "consumer c = IDLE \<Longrightarrow> ch_queue c = map ITEM xs @ rest \<Longrightarrow> unfinished c = length xs + length rest
   \<Longrightarrow> \<exists>d. consume_loop h (length xs + j) c = consume_loop h j d \<and> consumer d = IDLE \<and> ch_queue d = rest
        \<and> unfinished d = length rest \<and> taken d = taken c @ xs
        \<and> done_items d = done_items c @ map (\<lambda>m. (m, h m)) xs"
proof (induction xs arbitrary: c)
  case (Cons m xs)
  let ?c = "end_item m (h m) (take_item m (map ITEM xs @ rest) c)"
  have "consumer ?c = IDLE" "ch_queue ?c = map ITEM xs @ rest" "unfinished ?c = length xs + length rest"
    "taken ?c = taken c @ [m]" "done_items ?c = done_items c @ [(m, h m)]"
    using Cons.prems by (simp_all add: channel_simps split: handler_end.splits)
  with Cons.IH [of ?c] Cons.prems show ?case by simp
qed auto

lemma consume_steps: "chan_reachable n c \<Longrightarrow> chan_reachable n (consume_loop h k c)"
proof (induction k arbitrary: c)
  case (Suc k)
  have "chan_reachable n (take_poison q c)" if "consumer c = IDLE" "ch_queue c = POISON # q" for q
    using get_poison [OF that] Suc.prems by (rule step [rotated])
  moreover have "chan_reachable n (end_item m (h m) (take_item m q c))"
    if "consumer c = IDLE" "ch_queue c = ITEM m # q" for m q
  proof (rule step)
    show "chan_reachable n (take_item m q c)" using get_item [OF that] Suc.prems by (rule step [rotated])
    show "chan_step (take_item m q c) (end_item m (h m) (take_item m q c))"
      by (rule handler_end) (simp add: channel_simps)
  qed
  ultimately show ?case
    using Suc by (auto split: consumer.splits list.splits queued.splits)
qed simp

lemma shutdown_steps:
  assumes "chan_reachable n c"
  shows "chan_reachable n (begin_shutdown c)"
proof -
  have closed: "chan_reachable n (c\<lparr>ch_closed := True\<rparr>)" using assms close_channel by (rule step)
  show ?thesis
    using step [OF closed poison] closed unfolding begin_shutdown_def Let_def by auto
qed

lemma shutdown_keeps [simp]:
  "consumer (begin_shutdown c) = consumer c" "taken (begin_shutdown c) = taken c"
  "done_items (begin_shutdown c) = done_items c" "running (begin_shutdown c) = running c"
  by (simp_all add: begin_shutdown_def running_def Let_def)

lemma shutdown_queue:
  "ch_queue (begin_shutdown c) = ch_queue c @ (if length (ch_queue c) < ch_capacity c then [POISON] else [])"
  "unfinished (begin_shutdown c) = unfinished c + (if length (ch_queue c) < ch_capacity c then 1 else 0)"
  by (simp_all add: begin_shutdown_def Let_def)

text \<open>A channel of two slots with one message in its queue and a consumer that waits.\<close>

definition sample_channel :: "bool \<Rightarrow> string channel" where
  "sample_channel started =
     \<lparr>ch_capacity = 2, free_slots = 1, granted = [], ch_queue = [ITEM ''a''], unfinished = 1, pending_count = 1,
      consumer = (if started then IDLE else NOT_STARTED), ch_closed = False, error_sink = [],
      receipts = [DELIVERED ''a''], taken = [], done_items = [], cut_off = []\<rparr>"

lemma sample_channel_simps [simp]:
  "ch_queue (sample_channel b) = [ITEM ''a'']" "\<not> ch_closed (sample_channel b)" "taken (sample_channel b) = []"
  "consumer (sample_channel True) = IDLE" "\<not> running (sample_channel False)"
  "free_slots (sample_channel b) = 1"
  by (simp_all add: sample_channel_def running_def)

lemma sample_reachable: "chan_reachable 2 (sample_channel started)"
proof -
  let ?c0 = "the (new_channel 2) :: string channel"
  let ?c1 = "?c0\<lparr>free_slots := 1, granted := [''a'']\<rparr>"
  have "chan_reachable 2 ?c0" by (rule init) (simp add: new_channel_def)
  moreover have "chan_step ?c0 ?c1" using acquire [of ?c0 "''a''"] by (simp add: new_channel_def)
  moreover have "chan_step ?c1 (sample_channel False)"
    using put_item [of ?c1 "[]" "''a''" "[]"] by (simp add: new_channel_def sample_channel_def)
  ultimately have waiting: "chan_reachable 2 (sample_channel False)" by (blast intro: step)
  have "chan_step (sample_channel False) (sample_channel True)"
    using start [of "sample_channel False"] by (simp add: sample_channel_def)
  with waiting show ?thesis by (cases started) (auto intro: step)
qed

section \<open>Properties\<close>

text \<open>
  Backpressure: in every state the channel can reach, the free slots and the items between a
  publisher and the end of their handler make up the capacity, the queue never holds more than the
  capacity, and a publisher with a slot finds room in the queue of an open channel, so that its put
  does not wait.
\<close>

theorem channel_is_bounded:
  assumes "chan_reachable n c"
  shows "free_slots c + in_flight c = n \<and> length (ch_queue c) \<le> n \<and> pending_count c \<le> n
    \<and> (granted c \<noteq> [] \<and> \<not> ch_closed c \<longrightarrow> length (ch_queue c) < ch_capacity c)"
proof -
  obtain xs k where ok: "ch_capacity c = n" "free_slots c + in_flight c = n"
    "ch_queue c = map ITEM xs @ replicate k POISON" "ch_closed c \<or> k = 0"
    "pending_count c = length xs + length (busy c)"
    using chan_reachable_ok [OF assms] by (blast elim: channel_okE)
  moreover have "length (granted c) > 0" if "granted c \<noteq> []" using that by simp
  ultimately show ?thesis using queue_fits [OF assms] by (auto simp: in_flight_def)
qed

theorem channel_is_bounded_witness: "in_flight (sample_channel True) = 1"
  using channel_is_bounded [OF sample_reachable [of True]] by simp

text \<open>
  Every item a publisher was told is delivered is taken by the consumer once and in order, or is
  still in the queue; and every item taken met the end of its handler once, was cut off with the
  consumer, or is with the handler now.
\<close>

theorem accepted_items_are_taken_once:
  assumes "chan_reachable n c"
  shows "accepted (receipts c) = taken c @ items (ch_queue c)
    \<and> mset (taken c) = mset (map fst (done_items c)) + mset (cut_off c) + mset (busy c)"
  using chan_reachable_ok [OF assms] by (auto elim: channel_okE)

theorem accepted_items_are_taken_once_witness: "accepted (receipts (sample_channel True)) = [''a'']"
  using accepted_items_are_taken_once [OF sample_reachable [of True]] by simp

text \<open>
  An open channel whose consumer waits shuts down gracefully: the consumer left to itself hands
  every accepted item to the handler, whatever the handler does, and then ends, provided there was
  room for the poison; on a full queue the poison is dropped and the consumer waits on for ever.
\<close>

theorem shutdown_drains:
  assumes "chan_reachable n c" "\<not> ch_closed c" "consumer c = IDLE"
  shows "let d = consume_loop h (Suc (length (ch_queue c))) (begin_shutdown c)
    in chan_reachable n d \<and> ch_queue d = [] \<and> taken d = accepted (receipts c)
      \<and> done_items d = done_items c @ map (\<lambda>m. (m, h m)) (items (ch_queue c))
      \<and> consumer d = (if length (ch_queue c) < n then FINISHED else IDLE)"
proof -
  obtain xs where xs: "ch_queue c = map ITEM xs" "unfinished c = length xs + length (busy c)"
    "accepted (receipts c) = taken c @ xs" "ch_capacity c = n"
    using assms(1,2) by (rule open_queue)
  let ?c = "begin_shutdown c" and ?rest = "if length xs < n then [POISON] else []"
  have c: "consumer ?c = IDLE" "ch_queue ?c = map ITEM xs @ ?rest" "unfinished ?c = length xs + length ?rest"
    "taken ?c = taken c" "done_items ?c = done_items c"
    using assms(3) xs by (simp_all add: busy_def shutdown_queue)
  obtain d where d: "consume_loop h (length xs + 1) ?c = consume_loop h 1 d" "consumer d = IDLE"
    "ch_queue d = ?rest" "unfinished d = length ?rest" "taken d = taken c @ xs"
    "done_items d = done_items c @ map (\<lambda>m. (m, h m)) xs"
    using consume_items [OF c(1-3), of h 1] c(4,5) by auto
  have "chan_reachable n (consume_loop h (length xs + 1) ?c)"
    using assms(1) by (intro consume_steps shutdown_steps)
  then show ?thesis using d xs by (simp add: Let_def take_poison_def round_done_def)
qed

theorem shutdown_drains_witness:
  "consumer (consume_loop (\<lambda>m. HANDLER_TIMEOUT) 2 (begin_shutdown (sample_channel True))) = FINISHED"
  using shutdown_drains [OF sample_reachable [of True], of "\<lambda>m. HANDLER_TIMEOUT"]
  by (simp add: Let_def numeral_2_eq_2 del: consume_loop.simps)

text \<open>
  A channel that no consumer serves counts its own poison as an undelivered item when it is shut
  down: the count of an open channel is one too high while the queue has room.
\<close>

theorem shutdown_counts_its_poison:
  assumes "chan_reachable n c" "\<not> ch_closed c" "\<not> running c"
  shows "drain_count (begin_shutdown c) =
    (if length (items (ch_queue c)) < n then Suc (length (items (ch_queue c))) else length (items (ch_queue c)))"
proof -
  obtain xs where "ch_queue c = map ITEM xs" "ch_capacity c = n"
    using assms(1,2) by (rule open_queue)
  then show ?thesis using assms(3) by (simp add: drain_count_def shutdown_queue)
qed

theorem shutdown_counts_its_poison_witness: "drain_count (begin_shutdown (sample_channel False)) = 2"
  using shutdown_counts_its_poison [OF sample_reachable [of False]] by simp

end
