(* ===== verification/Resource_Governor.thy ===== *)
theory Resource_Governor
  imports Grace_Prelude
begin

text \<open>
  \<^verbatim>\<open>core/resource_governor.py\<close>: admission of requests for capacity, the leases they are granted, the
  queue of the requests that wait, and the accounting. Every method runs under the governor's lock, so
  it is one step; the clock and the cancelled tokens are arguments. A lease and a queue entry are named
  by numbers that are never reused (the code draws a uuid and uses the object); the object of a result
  a waiter shares with the queue is the entry of \<open>answers\<close> at its number. A missing kind in a dict of
  counters reads as 0, so such a dict is a function.
\<close>

section \<open>Requests, results and configuration\<close>

datatype resource_kind = WORKER_SLOT | LLM_SLOT | PROVIDER_RPM | PROVIDER_TPM | TOOL_SLOT | TOKEN_BUDGET
  | EVENT_CAPACITY | WORKTREE_SLOT | DISK_BYTES | DB_WRITE_CAPACITY

definition all_kinds :: "resource_kind list" where
  "all_kinds = [WORKER_SLOT, LLM_SLOT, PROVIDER_RPM, PROVIDER_TPM, TOOL_SLOT, TOKEN_BUDGET, EVENT_CAPACITY,
     WORKTREE_SLOT, DISK_BYTES, DB_WRITE_CAPACITY]"

definition renewable :: "resource_kind \<Rightarrow> bool" where
  "renewable k \<longleftrightarrow> k \<in> {WORKER_SLOT, LLM_SLOT, TOOL_SLOT, WORKTREE_SLOT}"

datatype admission_outcome = GRANTED | QUEUED | CANCELLED | CAPACITY_TIMEOUT | IMPOSSIBLE | SHUTDOWN

datatype pressure = NORMAL | WARNING | CRITICAL | DRAINING

datatype gov_reason = NO_REASON | SHUTTING_DOWN | EXCEEDS_TOTAL int resource_kind int
  | EXCEEDS_ROOT int resource_kind int | QUEUE_FULL nat | WAIT_EXCEEDED time | REQUEST_CANCELLED string
  | DISAPPEARED | RELEASED | ACCOUNTING_ONLY

type_synonym amounts = "(resource_kind, int) dict"
type_synonym counters = "resource_kind \<Rightarrow> int"

record request =
  request_id :: string
  root_id :: string
  run_id :: string
  resources :: amounts
  timeout_s :: time
  cancel_token :: "string option"

record admission =
  outcome :: admission_outcome
  lease_of :: "nat option"
  queue_position :: nat
  wait_time :: time
  reason :: gov_reason
  adm_pressure :: pressure

definition admission_result :: "admission_outcome \<Rightarrow> admission" where
  "admission_result oc = \<lparr>outcome = oc, lease_of = None, queue_position = 0, wait_time = 0, reason = NO_REASON,
     adm_pressure = NORMAL\<rparr>"

record queued_request =
  ticket :: nat
  req :: request
  enqueued_at :: time

datatype gov_mode = OBSERVE | SOFT_ENFORCE | ENFORCE

definition validate_mode :: "string \<Rightarrow> gov_mode" where
  "validate_mode s =
     (let m = str_strip (str_lower s)
      in if m = ''enforce'' then ENFORCE else if m = ''soft_enforce'' then SOFT_ENFORCE else OBSERVE)"

record gov_config =
  mode_name :: string
  worker_global :: int
  worker_root :: int
  worktree_global :: int
  worktree_root :: int
  event_max :: int
  tool_global :: int
  tool_root :: int
  queue_max_cfg :: int
  queue_timeout_cfg :: time

datatype gov_event =
    EV_RESOURCE string request admission amounts
  | EV_PRESSURE resource_kind pressure pressure
  | PRESSURE_CALLBACK resource_kind pressure pressure

record governor =
  gmode :: gov_mode
  limits :: counters
  root_limits :: counters
  queue_max :: nat
  queue_timeout :: time
  reserved :: counters
  consumed :: counters
  root_reserved :: "(string, counters) dict"
  run_limits :: "(string, counters) dict"
  run_reserved :: "(string, counters) dict"
  leases :: "(nat, request) dict"
  queue :: "queued_request list"
  queued_by_id :: "(string, nat) dict"
  answers :: "(nat, admission) dict"
  shutting_down :: bool
  total_grants :: nat
  total_rejections :: nat
  total_timeouts :: nat
  total_cancellations :: nat
  total_impossibles :: nat
  blocked_would_be :: counters
  event_callbacks :: bool
  pressure_callbacks :: bool
  last_pressure :: "resource_kind \<Rightarrow> pressure"
  last_root :: string
  next_lease :: nat
  next_ticket :: nat
  emitted :: "gov_event list"

definition limits_of :: "gov_config \<Rightarrow> counters" where
  "limits_of c = (\<lambda>k. 0)(WORKER_SLOT := max 0 (worker_global c), WORKTREE_SLOT := max 0 (worktree_global c),
     EVENT_CAPACITY := max 0 (event_max c), TOOL_SLOT := max 0 (tool_global c))"

definition root_limits_of :: "gov_config \<Rightarrow> counters" where
  "root_limits_of c = (\<lambda>k. 0)(WORKER_SLOT := max 0 (worker_root c), WORKTREE_SLOT := max 0 (worktree_root c),
     TOOL_SLOT := max 0 (tool_root c))"

definition new_governor :: "gov_config \<Rightarrow> governor" where
  "new_governor c =
     \<lparr>gmode = validate_mode (mode_name c), limits = limits_of c, root_limits = root_limits_of c,
      queue_max = nat (max 1 (queue_max_cfg c)), queue_timeout = max (1 / 1000) (queue_timeout_cfg c),
      reserved = (\<lambda>k. 0), consumed = (\<lambda>k. 0), root_reserved = [], run_limits = [], run_reserved = [], leases = [],
      queue = [], queued_by_id = [], answers = [], shutting_down = False, total_grants = 0, total_rejections = 0,
      total_timeouts = 0, total_cancellations = 0, total_impossibles = 0, blocked_would_be = (\<lambda>k. 0),
      event_callbacks = False, pressure_callbacks = False, last_pressure = (\<lambda>k. NORMAL), last_root = [], next_lease = 0, next_ticket = 0,
      emitted = []\<rparr>"

text \<open>\<open>_normalize_request\<close>; the kinds and the amounts already have their types here.\<close>

definition put_amount :: "resource_kind \<times> int \<Rightarrow> amounts \<Rightarrow> amounts" where
  "put_amount ka d = (case ka of (k, a) \<Rightarrow> if 0 \<le> a then dict_set k (max 0 a) d else d)"

definition normalize_request :: "request \<Rightarrow> request" where
  "normalize_request r = r\<lparr>resources := fold put_amount (resources r) []\<rparr>"

section \<open>Capacity\<close>

definition counter_at :: "(string, counters) dict \<Rightarrow> string \<Rightarrow> counters" where
  "counter_at d x = the_default (\<lambda>k. 0) (dict_get d x)"

definition run_counter :: "(string, counters) dict \<Rightarrow> request \<Rightarrow> counters" where
  "run_counter d r = (if run_id r = [] then (\<lambda>k. 0) else counter_at d (run_id r))"

definition spent :: "governor \<Rightarrow> resource_kind \<Rightarrow> int" where
  "spent g k = (if renewable k then 0 else consumed g k)"

definition blocks :: "governor \<Rightarrow> request \<Rightarrow> resource_kind \<times> int \<Rightarrow> bool" where
  "blocks g r ka = (case ka of (k, a) \<Rightarrow>
       (limits g k > 0 \<and> spent g k + reserved g k + a > limits g k)
     \<or> (root_limits g k > 0 \<and> counter_at (root_reserved g) (root_id r) k + a > root_limits g k)
     \<or> (run_counter (run_limits g) r k > 0 \<and> run_counter (run_reserved g) r k + a > run_counter (run_limits g) r k))"

definition would_block :: "governor \<Rightarrow> request \<Rightarrow> bool" where
  "would_block g r = list_ex (blocks g r) (resources r)"

fun impossible_in :: "governor \<Rightarrow> amounts \<Rightarrow> gov_reason option" where
  "impossible_in g [] = None"
| "impossible_in g ((k, a) # ks) =
     (if limits g k > 0 \<and> a > limits g k then Some (EXCEEDS_TOTAL a k (limits g k))
      else if root_limits g k > 0 \<and> a > root_limits g k then Some (EXCEEDS_ROOT a k (root_limits g k))
      else impossible_in g ks)"

definition check_impossible :: "governor \<Rightarrow> request \<Rightarrow> gov_reason option" where
  "check_impossible g r = impossible_in g (resources r)"

definition ratio_pressure :: "int \<Rightarrow> int \<Rightarrow> pressure" where
  "ratio_pressure used limit =
     (let r = (of_int used / of_int limit :: rat)
      in if r \<ge> 85 / 100 then CRITICAL else if r \<ge> 60 / 100 then WARNING else NORMAL)"

fun pressure_in :: "governor \<Rightarrow> pressure \<Rightarrow> amounts \<Rightarrow> pressure" where
  "pressure_in g p [] = p"
| "pressure_in g p ((k, a) # ks) =
     (if limits g k \<le> 0 then pressure_in g p ks
      else case ratio_pressure (spent g k + reserved g k + a) (limits g k) of
          CRITICAL \<Rightarrow> CRITICAL | WARNING \<Rightarrow> pressure_in g WARNING ks | _ \<Rightarrow> pressure_in g p ks)"

definition compute_pressure :: "governor \<Rightarrow> request \<Rightarrow> pressure" where
  "compute_pressure g r = pressure_in g NORMAL (resources r)"

definition kind_pressure :: "governor \<Rightarrow> resource_kind \<Rightarrow> pressure" where
  "kind_pressure g k = (if limits g k \<le> 0 then NORMAL else ratio_pressure (spent g k + reserved g k) (limits g k))"

record resource_snapshot =
  snap_kind :: resource_kind
  snap_limit :: int
  snap_consumed :: int
  snap_reserved :: int
  snap_available :: int
  snap_queued :: nat
  snap_wait_max :: time
  snap_pressure :: pressure

definition snapshot_of :: "governor \<Rightarrow> time \<Rightarrow> resource_kind \<Rightarrow> resource_snapshot" where
  "snapshot_of g now k =
     (let qs = filter (\<lambda>q. the_default 0 (dict_get (resources (req q)) k) > 0) (queue g)
      in \<lparr>snap_kind = k, snap_limit = limits g k, snap_consumed = consumed g k, snap_reserved = reserved g k,
          snap_available = (if limits g k > 0 then max 0 (limits g k - (reserved g k + spent g k)) else 0),
          snap_queued = length qs,
          snap_wait_max = (case qs of [] \<Rightarrow> 0 | _ \<Rightarrow> Max (set (map (\<lambda>q. now - enqueued_at q) qs))),
          snap_pressure = kind_pressure g k\<rparr>)"

definition snapshots :: "governor \<Rightarrow> time \<Rightarrow> resource_snapshot list" where
  "snapshots g now = map (snapshot_of g now) all_kinds"

section \<open>Events\<close>

definition emit :: "gov_event list \<Rightarrow> governor \<Rightarrow> governor" where
  "emit evs g = (if event_callbacks g then g\<lparr>emitted := emitted g @ evs\<rparr> else g)"

definition call_pressure :: "resource_kind \<Rightarrow> pressure \<Rightarrow> pressure \<Rightarrow> governor \<Rightarrow> governor" where
  "call_pressure k q p g =
     (if pressure_callbacks g then g\<lparr>emitted := emitted g @ [PRESSURE_CALLBACK k q p]\<rparr> else g)"

fun notify_kinds :: "resource_kind list \<Rightarrow> governor \<Rightarrow> governor" where
  "notify_kinds [] g = g"
| "notify_kinds (k # ks) g =
     (let p = kind_pressure g k; q = last_pressure g k
      in if q = p then notify_kinds ks g
         else notify_kinds ks (call_pressure k q p
                (emit [EV_PRESSURE k q p] (g\<lparr>last_pressure := (last_pressure g)(k := p)\<rparr>))))"

definition notify_pressure :: "governor \<Rightarrow> governor" where
  "notify_pressure g = (if event_callbacks g \<or> pressure_callbacks g then notify_kinds all_kinds g else g)"

definition phase_name :: "admission_outcome \<Rightarrow> string" where
  "phase_name oc = (case oc of GRANTED \<Rightarrow> ''granted'' | QUEUED \<Rightarrow> ''queued'' | CANCELLED \<Rightarrow> ''cancelled''
     | CAPACITY_TIMEOUT \<Rightarrow> ''capacity_timeout'' | IMPOSSIBLE \<Rightarrow> ''impossible'' | SHUTDOWN \<Rightarrow> ''shutdown'')"

section \<open>Granting and draining\<close>

definition add_amounts :: "amounts \<Rightarrow> counters \<Rightarrow> counters" where
  "add_amounts rs c = fold (\<lambda>(k, a) c. c(k := c k + a)) rs c"

definition take_amounts :: "amounts \<Rightarrow> counters \<Rightarrow> counters" where
  "take_amounts rs c = fold (\<lambda>(k, a) c. c(k := max 0 (c k - a))) rs c"

definition grant :: "request \<Rightarrow> governor \<Rightarrow> nat \<times> governor" where
  "grant r g =
     (let roots = dict_set (root_id r) (add_amounts (resources r) (counter_at (root_reserved g) (root_id r)))
            (root_reserved g);
          runs = (if run_id r \<noteq> [] \<and> dict_get (run_limits g) (run_id r) \<noteq> None
            then dict_set (run_id r) (add_amounts (resources r) (counter_at (run_reserved g) (run_id r)))
                   (run_reserved g)
            else run_reserved g)
      in (next_lease g,
          g\<lparr>reserved := add_amounts (resources r) (reserved g), root_reserved := roots, run_reserved := runs,
            leases := leases g @ [(next_lease g, r)], next_lease := next_lease g + 1, last_root := root_id r\<rparr>))"

definition answer :: "nat \<Rightarrow> (admission \<Rightarrow> admission) \<Rightarrow> governor \<Rightarrow> governor" where
  "answer t f g = g\<lparr>answers := dict_set t (f (the_default (admission_result QUEUED) (dict_get (answers g) t))) (answers g)\<rparr>"

definition unqueue :: "queued_request \<Rightarrow> governor \<Rightarrow> governor" where
  "unqueue q g = g\<lparr>queue := remove1 q (queue g), queued_by_id := dict_del (request_id (req q)) (queued_by_id g)\<rparr>"

definition token_cancelled :: "(string \<Rightarrow> bool) \<Rightarrow> request \<Rightarrow> bool" where
  "token_cancelled cs r = (case cancel_token r of None \<Rightarrow> False | Some t \<Rightarrow> cs t)"

definition wait_limit :: "governor \<Rightarrow> request \<Rightarrow> time" where
  "wait_limit g r = (if timeout_s r > 0 then timeout_s r else queue_timeout g)"

definition expiry :: "(string \<Rightarrow> bool) \<Rightarrow> time \<Rightarrow> governor \<Rightarrow> queued_request \<Rightarrow> (admission_outcome \<times> gov_reason) option"
  where
  "expiry cs now g q =
     (if token_cancelled cs (req q) then Some (CANCELLED, REQUEST_CANCELLED ''Request cancelled'')
      else if now - enqueued_at q \<ge> wait_limit g (req q) then Some (CAPACITY_TIMEOUT, WAIT_EXCEEDED (wait_limit g (req q)))
      else None)"

definition answer_of :: "governor \<Rightarrow> nat \<Rightarrow> admission" where
  "answer_of g t = the_default (admission_result QUEUED) (dict_get (answers g) t)"

definition expire :: "(string \<Rightarrow> bool) \<Rightarrow> time \<Rightarrow> queued_request \<Rightarrow> governor \<Rightarrow> governor \<times> gov_event list" where
  "expire cs now q g =
     (case expiry cs now g q of
        None \<Rightarrow> (g, [])
      | Some (oc, why) \<Rightarrow>
          (let g1 = answer (ticket q) (\<lambda>a. a\<lparr>outcome := oc, wait_time := now - enqueued_at q, reason := why\<rparr>) (unqueue q g);
               g2 = (if oc = CANCELLED then g1\<lparr>total_cancellations := total_cancellations g1 + 1\<rparr>
                     else g1\<lparr>total_timeouts := total_timeouts g1 + 1\<rparr>)
           in (g2, [EV_RESOURCE (phase_name oc) (req q) (answer_of g2 (ticket q)) []])))"

fun expire_all :: "(string \<Rightarrow> bool) \<Rightarrow> time \<Rightarrow> queued_request list \<Rightarrow> governor \<Rightarrow> governor \<times> gov_event list" where
  "expire_all cs now [] g = (g, [])"
| "expire_all cs now (q # qs) g =
     (let (g1, es) = expire cs now q g; (g2, fs) = expire_all cs now qs g1 in (g2, es @ fs))"

definition grantable :: "governor \<Rightarrow> queued_request list" where
  "grantable g = filter (\<lambda>q. \<not> would_block g (req q)) (queue g)"

definition pick :: "governor \<Rightarrow> queued_request option" where
  "pick g =
     (let gs = grantable g; others = filter (\<lambda>q. root_id (req q) \<noteq> last_root g) gs
      in case (if others = [] then gs else others) of [] \<Rightarrow> None | q # _ \<Rightarrow> Some q)"

definition grant_queued :: "time \<Rightarrow> queued_request \<Rightarrow> governor \<Rightarrow> governor \<times> gov_event list" where
  "grant_queued now q g =
     (let (l, g1) = grant (req q) (unqueue q g);
          g2 = answer (ticket q) (\<lambda>a. a\<lparr>outcome := GRANTED, lease_of := Some l, queue_position := 0,
                 wait_time := now - enqueued_at q, adm_pressure := compute_pressure g1 (req q)\<rparr>) g1;
          g3 = g2\<lparr>total_grants := total_grants g2 + 1\<rparr>
      in (g3, [EV_RESOURCE ''granted'' (req q) (answer_of g3 (ticket q)) []]))"

lemma expire_queue: "length (queue (fst (expire cs now q g))) \<le> length (queue g)"
  by (simp add: expire_def answer_def unqueue_def Let_def length_remove1 split: option.splits prod.splits)

lemma expire_all_queue: "length (queue (fst (expire_all cs now qs g))) \<le> length (queue g)"
proof (induction qs arbitrary: g)
  case (Cons q qs)
  show ?case using Cons.IH [of "fst (expire cs now q g)"] expire_queue [of cs now q g]
    by (simp add: Let_def split_beta)
qed simp

lemma pick_queued: "pick g = Some q \<Longrightarrow> q \<in> set (queue g) \<and> \<not> would_block g (req q)"
  by (auto simp: pick_def grantable_def Let_def split: list.splits if_splits dest!: arg_cong [of _ "_ # _" set])

lemma grant_queued_queue: "queue (fst (grant_queued now q g)) = remove1 q (queue g)"
  by (simp add: grant_queued_def answer_def grant_def unqueue_def Let_def)

text \<open>\<open>_drain_queue_locked\<close>: a round expires entries of the whole queue and grants one more.\<close>

function drain :: "(string \<Rightarrow> bool) \<Rightarrow> time \<Rightarrow> governor \<Rightarrow> governor \<times> gov_event list" where
  "drain cs now g =
     (if queue g = [] then (g, [])
      else let (g1, es) = expire_all cs now (queue g) g
           in case pick g1 of
                None \<Rightarrow> (g1, es)
              | Some q \<Rightarrow> (let (g2, fs) = grant_queued now q g1; (g3, hs) = drain cs now g2 in (g3, es @ fs @ hs)))"
  by pat_completeness auto

termination drain
proof (relation "measure (\<lambda>(cs, now, g). length (queue g))", goal_cases)
  case (2 cs now g p g1 es q p2 g2 fs)
  have "length (queue g1) \<le> length (queue g)"
    using expire_all_queue [of cs now "queue g" g] 2(2,3) by (metis fst_conv)
  moreover have "q \<in> set (queue g1)" using 2 pick_queued by blast
  moreover have "queue g2 = remove1 q (queue g1)" using 2 grant_queued_queue by (metis fst_conv)
  ultimately have "length (queue g2) < length (queue g)"
    by (metis length_pos_if_in_set length_remove1 less_le_trans diff_less zero_less_one)
  then show ?case by simp
qed simp

declare drain.simps [simp del]

section \<open>The methods\<close>

text \<open>\<open>admit\<close>: the result, and for a queued request the number of its entry.\<close>

definition enqueue :: "time \<Rightarrow> pressure \<Rightarrow> request \<Rightarrow> governor \<Rightarrow> (admission \<times> nat option) \<times> governor" where
  "enqueue now p r g =
     (let a = (admission_result QUEUED)\<lparr>queue_position := length (queue g) + 1, adm_pressure := p\<rparr>; t = next_ticket g
      in ((a, Some t),
          g\<lparr>queue := queue g @ [\<lparr>ticket = t, req = r, enqueued_at = now\<rparr>],
            queued_by_id := dict_set (request_id r) t (queued_by_id g), answers := dict_set t a (answers g),
            next_ticket := t + 1\<rparr>))"

definition grant_now :: "pressure \<Rightarrow> request \<Rightarrow> governor \<Rightarrow> (admission \<times> nat option) \<times> governor" where
  "grant_now p r g =
     (let (l, g1) = grant r g
      in (((admission_result GRANTED)\<lparr>lease_of := Some l, adm_pressure := p\<rparr>, None),
          g1\<lparr>total_grants := total_grants g1 + 1\<rparr>))"

definition count_blocked :: "request \<Rightarrow> governor \<Rightarrow> governor" where
  "count_blocked r g =
     g\<lparr>blocked_would_be := fold (\<lambda>ka c. if blocks g r ka then c(fst ka := c (fst ka) + 1) else c) (resources r)
         (blocked_would_be g)\<rparr>"

definition decide :: "time \<Rightarrow> pressure \<Rightarrow> request \<Rightarrow> governor \<Rightarrow> (admission \<times> nat option) \<times> governor" where
  "decide now p r g =
     (case gmode g of
        OBSERVE \<Rightarrow> grant_now p r (count_blocked r g)
      | SOFT_ENFORCE \<Rightarrow> grant_now p r g
      | ENFORCE \<Rightarrow>
          (if queue g = [] \<and> \<not> would_block g r then grant_now p r g
           else if length (queue g) \<ge> queue_max g
           then (((admission_result CAPACITY_TIMEOUT)\<lparr>reason := QUEUE_FULL (queue_max g), adm_pressure := CRITICAL\<rparr>, None),
                 g\<lparr>total_rejections := total_rejections g + 1\<rparr>)
           else enqueue now p r g))"

definition decision_phase :: "admission \<Rightarrow> string" where
  "decision_phase a = (if outcome a = CAPACITY_TIMEOUT then ''rejected'' else phase_name (outcome a))"

definition admit :: "time \<Rightarrow> request \<Rightarrow> governor \<Rightarrow> (admission \<times> nat option) \<times> governor" where
  "admit now r0 g =
     (let r = normalize_request r0; p = compute_pressure g r
      in if shutting_down g
         then (((admission_result SHUTDOWN)\<lparr>reason := SHUTTING_DOWN, adm_pressure := DRAINING\<rparr>, None), g)
         else case (check_impossible g r, gmode g) of
           (Some why, ENFORCE) \<Rightarrow>
             (((admission_result IMPOSSIBLE)\<lparr>reason := why, adm_pressure := CRITICAL\<rparr>, None),
              g\<lparr>total_impossibles := total_impossibles g + 1\<rparr>)
         | _ \<Rightarrow>
             (let (a, g1) = decide now p r g
              in (a, notify_pressure (emit [EV_RESOURCE (decision_phase (fst a)) r (fst a) []] g1))))"

text \<open>\<open>ResourceLease.release\<close> and \<open>_release_lease\<close>; a lease that is not in the table was released before.\<close>

datatype usage = USED int | USED_EACH amounts

definition lease_kind :: "request \<Rightarrow> resource_kind" where
  "lease_kind r =
     (case dict_get (resources r) WORKER_SLOT of
        Some a \<Rightarrow> WORKER_SLOT | None \<Rightarrow> (case resources r of [] \<Rightarrow> WORKER_SLOT | (k, a) # ks \<Rightarrow> k))"

definition actual_usage :: "request \<Rightarrow> usage \<Rightarrow> amounts" where
  "actual_usage r u =
     (case u of
        USED_EACH d \<Rightarrow> map (\<lambda>(k, a). (k, max 0 a)) d
      | USED n \<Rightarrow> [(if dict_get (resources r) TOKEN_BUDGET = None then lease_kind r else TOKEN_BUDGET, max 0 n)])"

definition consume :: "amounts \<Rightarrow> amounts \<Rightarrow> counters \<Rightarrow> counters" where
  "consume rs actual c =
     fold (\<lambda>(k, a) c. if renewable k then c else c(k := c k + max 0 (the_default 0 (dict_get actual k)))) rs c"

definition change_counter :: "(counters \<Rightarrow> counters) \<Rightarrow> string \<Rightarrow> (string, counters) dict \<Rightarrow> (string, counters) dict" where
  "change_counter f x d = (case dict_get d x of None \<Rightarrow> d | Some c \<Rightarrow> dict_set x (f c) d)"

definition give_back :: "nat \<Rightarrow> request \<Rightarrow> amounts \<Rightarrow> governor \<Rightarrow> governor" where
  "give_back l r actual g =
     g\<lparr>reserved := take_amounts (resources r) (reserved g),
       root_reserved := change_counter (take_amounts (resources r)) (root_id r) (root_reserved g),
       run_reserved := (if run_id r = [] then run_reserved g
          else change_counter (take_amounts (resources r)) (run_id r) (run_reserved g)),
       consumed := consume (resources r) actual (consumed g),
       leases := dict_del l (leases g)\<rparr>"

definition release_lease :: "(string \<Rightarrow> bool) \<Rightarrow> time \<Rightarrow> nat \<Rightarrow> usage \<Rightarrow> governor \<Rightarrow> governor" where
  "release_lease cs now l u g =
     (case dict_get (leases g) l of
        None \<Rightarrow> g
      | Some r \<Rightarrow>
          (let actual = actual_usage r u;
               a = (admission_result GRANTED)\<lparr>lease_of := Some l, reason := RELEASED\<rparr>;
               (g2, es) = drain cs now (give_back l r actual g)
           in notify_pressure (emit (EV_RESOURCE ''released'' r a actual # es) g2)))"

definition drain_queue :: "(string \<Rightarrow> bool) \<Rightarrow> time \<Rightarrow> governor \<Rightarrow> governor" where
  "drain_queue cs now g = (let (g1, es) = drain cs now g in emit es g1)"

text \<open>\<open>_cancel_locked\<close> and its callers.\<close>

definition cancel_locked :: "string \<Rightarrow> admission_outcome \<Rightarrow> gov_reason \<Rightarrow> governor \<Rightarrow> bool \<times> governor" where
  "cancel_locked rid oc why g =
     (case dict_get (queued_by_id g) rid of
        None \<Rightarrow> (False, g)
      | Some t \<Rightarrow>
          (True, answer t (\<lambda>a. a\<lparr>outcome := oc, reason := why\<rparr>)
             (g\<lparr>queue := filter (\<lambda>q. ticket q \<noteq> t) (queue g), queued_by_id := dict_del rid (queued_by_id g)\<rparr>)))"

definition cancel_request :: "string \<Rightarrow> governor \<Rightarrow> bool \<times> governor" where
  "cancel_request rid g =
     (let (b, g1) = cancel_locked rid CANCELLED (REQUEST_CANCELLED ''Request cancelled'') g
      in (b, if b then g1\<lparr>total_cancellations := total_cancellations g1 + 1\<rparr> else g1))"

text \<open>
  \<open>admit_wait\<close> after a queued \<open>admit\<close>: the entry is looked up by the id of the request, then every
  round of the loop either ends with a result or waits. The wait is over when the answer is no longer
  \<open>QUEUED\<close>, the token is cancelled, or the deadline has passed, in this order.
\<close>

definition wait_entry :: "request \<Rightarrow> nat \<Rightarrow> governor \<Rightarrow> nat + admission" where
  "wait_entry r t g =
     (case dict_get (queued_by_id g) (request_id r) of
        Some t' \<Rightarrow> Inl t'
      | None \<Rightarrow>
          (if outcome (answer_of g t) = QUEUED then Inr ((admission_result CANCELLED)\<lparr>reason := DISAPPEARED\<rparr>)
           else Inr (answer_of g t)))"

definition deadline :: "governor \<Rightarrow> request \<Rightarrow> time option \<Rightarrow> time \<Rightarrow> time" where
  "deadline g r limit started = started + max (1 / 1000) (the_default (wait_limit g r) limit)"

definition or_detail :: "string \<Rightarrow> string" where
  "or_detail d = or_else d ''Request cancelled''"

definition wait_round ::
  "(string \<Rightarrow> bool) \<Rightarrow> (string \<Rightarrow> string) \<Rightarrow> time \<Rightarrow> request \<Rightarrow> time option \<Rightarrow> time \<Rightarrow> nat \<Rightarrow> governor
    \<Rightarrow> admission option \<times> governor" where
  "wait_round cs detail now r limit started t g =
     (let over = the_default (wait_limit g r) limit;
          stop = (\<lambda>a g. (Some (a\<lparr>wait_time := now - started\<rparr>),
            emit [EV_RESOURCE (phase_name (outcome a)) r (a\<lparr>wait_time := now - started\<rparr>) []] g))
      in if outcome (answer_of g t) \<noteq> QUEUED then stop (answer_of g t) g
         else if token_cancelled cs r
         then (let why = REQUEST_CANCELLED (or_detail (detail (the_default [] (cancel_token r))))
               in stop ((admission_result CANCELLED)\<lparr>reason := why\<rparr>) (snd (cancel_locked (request_id r) CANCELLED why g)))
         else if deadline g r limit started \<le> now
         then (let g1 = snd (cancel_locked (request_id r) CAPACITY_TIMEOUT (WAIT_EXCEEDED over) g)
               in stop ((admission_result CAPACITY_TIMEOUT)\<lparr>reason := WAIT_EXCEEDED over, adm_pressure := CRITICAL\<rparr>)
                    (g1\<lparr>total_timeouts := total_timeouts g1 + 1\<rparr>))
         else (None, g))"

definition set_limit_for_run :: "string \<Rightarrow> resource_kind \<Rightarrow> int \<Rightarrow> governor \<Rightarrow> governor" where
  "set_limit_for_run rid k limit g =
     (if limit \<le> 0 then g\<lparr>run_limits := dict_del rid (run_limits g)\<rparr>
      else g\<lparr>run_limits := dict_set rid ((counter_at (run_limits g) rid)(k := limit)) (run_limits g)\<rparr>)"

definition remove_limit_for_run :: "string \<Rightarrow> governor \<Rightarrow> governor" where
  "remove_limit_for_run rid g =
     g\<lparr>run_limits := dict_del rid (run_limits g), run_reserved := dict_del rid (run_reserved g)\<rparr>"

definition shut_entry :: "queued_request \<Rightarrow> governor \<Rightarrow> governor" where
  "shut_entry q = answer (ticket q) (\<lambda>a. a\<lparr>outcome := SHUTDOWN, reason := SHUTTING_DOWN, adm_pressure := DRAINING\<rparr>)"

definition shutdown :: "governor \<Rightarrow> governor" where
  "shutdown g =
     (if shutting_down g then g
      else let g1 = fold shut_entry (queue g) (g\<lparr>shutting_down := True\<rparr>);
               es = map (\<lambda>q. EV_RESOURCE ''shutdown'' (req q) (answer_of g1 (ticket q)) []) (queue g)
           in emit es (g1\<lparr>queue := [], queued_by_id := []\<rparr>))"

definition publish_accounting :: "string \<Rightarrow> request \<Rightarrow> amounts \<Rightarrow> amounts \<Rightarrow> governor \<Rightarrow> governor" where
  "publish_accounting phase r rs actual g =
     emit [EV_RESOURCE phase (r\<lparr>resources := rs\<rparr>) ((admission_result GRANTED)\<lparr>reason := ACCOUNTING_ONLY\<rparr>) actual] g"

definition root_usage :: "governor \<Rightarrow> string \<Rightarrow> resource_kind \<Rightarrow> int" where
  "root_usage g x k = counter_at (root_reserved g) x k"

text \<open>One call on the governor, by any thread.\<close>

datatype gov_call =
    ADMIT time request
  | RELEASE "string \<Rightarrow> bool" time nat usage
  | DRAIN "string \<Rightarrow> bool" time
  | CANCEL string
  | WAIT_ROUND "string \<Rightarrow> bool" "string \<Rightarrow> string" time request "time option" time nat
  | SET_RUN_LIMIT string resource_kind int
  | REMOVE_RUN_LIMIT string
  | SHUT_DOWN
  | ON_EVENT
  | ON_PRESSURE
  | PUBLISH string request amounts amounts

fun gov_step :: "governor \<Rightarrow> gov_call \<Rightarrow> governor" where
  "gov_step g (ADMIT now r) = snd (admit now r g)"
| "gov_step g (RELEASE cs now l u) = release_lease cs now l u g"
| "gov_step g (DRAIN cs now) = drain_queue cs now g"
| "gov_step g (CANCEL rid) = snd (cancel_request rid g)"
| "gov_step g (WAIT_ROUND cs detail now r limit started t) = snd (wait_round cs detail now r limit started t g)"
| "gov_step g (SET_RUN_LIMIT rid k n) = set_limit_for_run rid k n g"
| "gov_step g (REMOVE_RUN_LIMIT rid) = remove_limit_for_run rid g"
| "gov_step g SHUT_DOWN = shutdown g"
| "gov_step g ON_EVENT = g\<lparr>event_callbacks := True\<rparr>"
| "gov_step g ON_PRESSURE = g\<lparr>pressure_callbacks := True\<rparr>"
| "gov_step g (PUBLISH phase r rs actual) = publish_accounting phase r rs actual g"

end
