(* ===== verification/Governor_Invariants.thy ===== *)
theory Governor_Invariants
  imports Resource_Governor
begin

text \<open>
  The invariants of the resource governor. The books: the counters are the sums of the leases and, in
  the mode that enforces, within the limits. The tickets: a request waits for its answer as long as it
  is in the queue, and not longer. A locale says once how a property of the parts of a call becomes one
  of every call, and the invariants and latches are its interpretations.
\<close>

section \<open>The books\<close>

definition normal :: "request \<Rightarrow> bool" where
  "normal r \<longleftrightarrow> is_dict (resources r) \<and> list_all (\<lambda>(k, a). 0 \<le> a) (resources r)"

definition amount :: "request \<Rightarrow> resource_kind \<Rightarrow> int" where
  "amount r k = the_default 0 (dict_get (resources r) k)"

definition held :: "governor \<Rightarrow> resource_kind \<Rightarrow> int" where
  "held g k = (\<Sum>(l, r)\<leftarrow>leases g. amount r k)"

definition root_held :: "governor \<Rightarrow> string \<Rightarrow> resource_kind \<Rightarrow> int" where
  "root_held g x k = (\<Sum>(l, r)\<leftarrow>leases g. if root_id r = x then amount r k else 0)"

definition books :: "governor \<Rightarrow> bool" where
  "books g \<longleftrightarrow> is_dict (leases g) \<and> (\<forall>(l, r) \<in> set (leases g). l < next_lease g \<and> normal r)
     \<and> (\<forall>q \<in> set (queue g). normal (req q)) \<and> reserved g = held g
     \<and> counter_at (root_reserved g) = root_held g \<and> (\<forall>k. 0 \<le> consumed g k)"

definition limits_kept :: "governor \<Rightarrow> bool" where
  "limits_kept g \<longleftrightarrow> (\<forall>k. limits g k > 0 \<longrightarrow> reserved g k \<le> limits g k)
     \<and> (\<forall>x k. root_limits g k > 0 \<longrightarrow> counter_at (root_reserved g) x k \<le> root_limits g k)"

lemma normal_resources: "normal r \<Longrightarrow> (k, a) \<in> set (resources r) \<Longrightarrow> 0 \<le> a"
  by (auto simp: normal_def list_all_iff)

lemma amount_nonneg: "normal r \<Longrightarrow> 0 \<le> amount r k"
  unfolding amount_def using normal_resources [of r k] map_of_SomeD [of "resources r" k]
  by (cases "dict_get (resources r) k") auto

lemma put_amount_normal:
  "is_dict d \<and> list_all (\<lambda>(k, a). 0 \<le> a) d
   \<Longrightarrow> is_dict (put_amount ka d) \<and> list_all (\<lambda>(k, a). 0 \<le> a) (put_amount ka d)"
  by (auto simp: put_amount_def list_all_iff dest!: dict_set_in split: prod.splits)

lemma normalize_request_normal [simp]: "normal (normalize_request r)"
proof -
  have "is_dict d \<and> list_all (\<lambda>(k, a). 0 \<le> a) d
    \<Longrightarrow> is_dict (fold put_amount rs d) \<and> list_all (\<lambda>(k, a). 0 \<le> a) (fold put_amount rs d)" for rs d
  proof (induction rs arbitrary: d)
    case (Cons x rs)
    show ?case using Cons.IH [OF put_amount_normal [OF Cons.prems]] by simp
  qed simp
  then show ?thesis by (simp add: normal_def normalize_request_def)
qed

lemma add_amounts_at: "is_dict rs \<Longrightarrow> add_amounts rs c k = c k + the_default 0 (dict_get rs k)"
  unfolding add_amounts_def is_dict_def
  by (induction rs arbitrary: c) (auto simp: map_of_eq_None_iff [THEN iffD2] image_iff)

lemma take_amounts_at:
  "is_dict rs \<Longrightarrow> list_all (\<lambda>(k, a). 0 \<le> a) rs \<Longrightarrow> the_default 0 (dict_get rs k) \<le> c k
   \<Longrightarrow> take_amounts rs c k = c k - the_default 0 (dict_get rs k)"
  unfolding take_amounts_def is_dict_def
proof (induction rs arbitrary: c)
  case (Cons x rs)
  obtain j a where x: "x = (j, a)" by (cases x)
  with Cons.prems have none: "dict_get rs j = None" by (auto simp: map_of_eq_None_iff)
  show ?case using Cons.IH [of "c(j := max 0 (c j - a))"] Cons.prems x none
    by (cases "j = k") auto
qed simp

lemma sum_del:
  fixes f :: "request \<Rightarrow> int"
  shows "is_dict d \<Longrightarrow> dict_get d l = Some r \<Longrightarrow> (\<Sum>(l, r)\<leftarrow>dict_del l d. f r) = (\<Sum>(l, r)\<leftarrow>d. f r) - f r"
proof (induction d)
  case (Cons x d)
  obtain m s where x: "x = (m, s)" by (cases x)
  show ?case
  proof (cases "m = l")
    case True
    with Cons.prems x have "l \<notin> fst ` set d" by (auto simp: is_dict_def)
    then have "dict_del l d = d" by (induction d) auto
    with True Cons.prems x show ?thesis by simp
  next
    case False
    with Cons x show ?thesis by (simp add: is_dict_def)
  qed
qed simp

lemma sum_part:
  fixes f :: "request \<Rightarrow> int"
  assumes "(l, r) \<in> set d" "\<forall>(l, r) \<in> set d. 0 \<le> f r"
  shows "f r \<le> (\<Sum>(l, r)\<leftarrow>d. f r)"
  using assms
proof (induction d)
  case (Cons x d)
  obtain m s where x: "x = (m, s)" by (cases x)
  have "0 \<le> (\<Sum>(l, r)\<leftarrow>d. f r)" by (rule sum_list_nonneg) (use Cons.prems in auto)
  with Cons x show ?case by force
qed simp

section \<open>Every call keeps the books\<close>

lemma books_frame [simp]:
  "books (answer t f g) = books g" "books (emit es g) = books g" "books (call_pressure k p q g) = books g"
  "limits_kept (answer t f g) = limits_kept g" "limits_kept (emit es g) = limits_kept g" "limits_kept (call_pressure k p q g) = limits_kept g"
  by (simp_all add: books_def limits_kept_def held_def root_held_def answer_def emit_def call_pressure_def fun_eq_iff)

lemma books_fields [simp]:
  "books (g\<lparr>total_grants := a\<rparr>) = books g" "books (g\<lparr>total_rejections := a\<rparr>) = books g"
  "books (g\<lparr>total_timeouts := a\<rparr>) = books g" "books (g\<lparr>total_cancellations := a\<rparr>) = books g"
  "books (g\<lparr>total_impossibles := a\<rparr>) = books g" "books (g\<lparr>blocked_would_be := c\<rparr>) = books g"
  "books (g\<lparr>last_pressure := lp\<rparr>) = books g" "books (g\<lparr>event_callbacks := b\<rparr>) = books g"
  "books (g\<lparr>pressure_callbacks := b\<rparr>) = books g" "books (g\<lparr>run_limits := d\<rparr>) = books g"
  "books (g\<lparr>run_reserved := d\<rparr>) = books g" "books (g\<lparr>shutting_down := b\<rparr>) = books g"
  "books (g\<lparr>queued_by_id := m\<rparr>) = books g"
  by (simp_all add: books_def held_def root_held_def fun_eq_iff)

lemma limits_kept_fields [simp]:
  "limits_kept (g\<lparr>total_grants := a\<rparr>) = limits_kept g" "limits_kept (g\<lparr>total_rejections := a\<rparr>) = limits_kept g"
  "limits_kept (g\<lparr>total_timeouts := a\<rparr>) = limits_kept g" "limits_kept (g\<lparr>total_cancellations := a\<rparr>) = limits_kept g"
  "limits_kept (g\<lparr>total_impossibles := a\<rparr>) = limits_kept g" "limits_kept (g\<lparr>blocked_would_be := c\<rparr>) = limits_kept g"
  "limits_kept (g\<lparr>last_pressure := lp\<rparr>) = limits_kept g" "limits_kept (g\<lparr>event_callbacks := b\<rparr>) = limits_kept g"
  "limits_kept (g\<lparr>pressure_callbacks := b\<rparr>) = limits_kept g" "limits_kept (g\<lparr>run_limits := d\<rparr>) = limits_kept g"
  "limits_kept (g\<lparr>run_reserved := d\<rparr>) = limits_kept g" "limits_kept (g\<lparr>shutting_down := b\<rparr>) = limits_kept g"
  "limits_kept (g\<lparr>queued_by_id := m\<rparr>) = limits_kept g" "limits_kept (g\<lparr>queue := qs\<rparr>) = limits_kept g"
  by (simp_all add: limits_kept_def)

lemma books_queue: "books g \<Longrightarrow> set qs \<subseteq> set (queue g) \<Longrightarrow> books (g\<lparr>queue := qs\<rparr>)"
  by (auto simp: books_def held_def root_held_def fun_eq_iff)

lemma books_unqueue: "books g \<Longrightarrow> books (unqueue q g)"
  unfolding unqueue_def using books_queue [of g "remove1 q (queue g)"] set_remove1_subset [of q "queue g"]
  by (simp add: books_def held_def root_held_def fun_eq_iff)

lemma limits_kept_unqueue [simp]: "limits_kept (unqueue q g) = limits_kept g"
  by (simp add: limits_kept_def unqueue_def)

lemma counter_at_set: "counter_at (dict_set x c d) y = (if y = x then c else counter_at d y)"
  by (simp add: counter_at_def dict_simps)

lemma books_grant:
  assumes "books g" "normal r"
  shows "books (snd (grant r g))"
proof -
  have d: "is_dict (resources r)" using assms(2) by (simp add: normal_def)
  have "next_lease g \<notin> fst ` set (leases g)" using assms(1) by (auto simp: books_def)
  then have "is_dict (leases g @ [(next_lease g, r)])" using assms(1) by (auto simp: books_def is_dict_def)
  moreover have "add_amounts (resources r) (reserved g) = held (snd (grant r g))"
    using assms(1) by (auto simp: books_def held_def grant_def Let_def add_amounts_at [OF d] amount_def fun_eq_iff)
  moreover have "counter_at (root_reserved (snd (grant r g))) = root_held (snd (grant r g))"
    using assms(1) by (auto simp: books_def root_held_def grant_def Let_def add_amounts_at [OF d] amount_def fun_eq_iff
      counter_at_set)
  ultimately show ?thesis using assms by (auto simp: books_def grant_def Let_def)
qed

lemma limits_kept_grant:
  assumes "books g" "normal r" "limits_kept g" "\<not> would_block g r"
  shows "limits_kept (snd (grant r g))"
proof -
  have d: "is_dict (resources r)" using assms(2) by (simp add: normal_def)
  have "spent g k \<ge> 0" for k using assms(1) by (simp add: books_def spent_def)
  moreover have "\<not> blocks g r (k, amount r k) \<or> amount r k = 0" for k
  proof (cases "dict_get (resources r) k")
    case (Some a)
    from assms(4) map_of_SomeD [OF this] Some show ?thesis
      by (auto simp: would_block_def list_ex_iff amount_def)
  qed (simp add: amount_def)
  moreover have "limits g k > 0 \<Longrightarrow> reserved g k \<le> limits g k" 
    "root_limits g k > 0 \<Longrightarrow> counter_at (root_reserved g) x k \<le> root_limits g k" for x k
    using assms(3) by (simp_all add: limits_kept_def)
  ultimately have kept: "limits g k > 0 \<Longrightarrow> reserved g k + amount r k \<le> limits g k"
    "root_limits g k > 0 \<Longrightarrow> counter_at (root_reserved g) (root_id r) k + amount r k \<le> root_limits g k" for k
    unfolding blocks_def prod.case by (smt (verit))+
  then show ?thesis using assms(3)
    by (simp add: limits_kept_def grant_def Let_def add_amounts_at [OF d] amount_def counter_at_set)
qed

section \<open>Invariants of the governor\<close>

text \<open>
  The part of the state that decides: statistics, events, pressure and the limits of single runs are
  left out, so a property of the core is kept by every call that changes only those.
\<close>

definition core where
  "core g = (gmode g, limits g, root_limits g, reserved g, consumed g, root_reserved g, leases g, queue g,
     queued_by_id g, answers g, shutting_down g, next_lease g, next_ticket g)"

lemma core_eq:
  "core g = core h \<longleftrightarrow> gmode g = gmode h \<and> limits g = limits h \<and> root_limits g = root_limits h
     \<and> reserved g = reserved h \<and> consumed g = consumed h \<and> root_reserved g = root_reserved h
     \<and> leases g = leases h \<and> queue g = queue h \<and> queued_by_id g = queued_by_id h \<and> answers g = answers h
     \<and> shutting_down g = shutting_down h \<and> next_lease g = next_lease h \<and> next_ticket g = next_ticket h"
  by (simp add: core_def)

lemma core_emit [simp]: "core (emit es g) = core g"
  by (simp add: core_def emit_def)

lemma core_notify_kinds: "core (notify_kinds ks g) = core g"
proof (induction ks arbitrary: g)
  case (Cons k ks)
  show ?case
    by (simp add: Cons.IH Let_def) (simp add: core_def call_pressure_def emit_def)
qed simp

lemma core_notify [simp]: "core (notify_pressure g) = core g"
  by (simp add: notify_pressure_def core_notify_kinds)

lemma expire_in_queue:
  assumes "distinct (map ticket (queue g))" "x \<in> set (queue g)" "ticket x \<noteq> ticket q"
  shows "x \<in> set (queue (fst (expire cs now q g)))"
proof -
  have "x \<noteq> q" using assms(3) by auto
  then show ?thesis using assms(2)
    by (auto simp: expire_def answer_def unqueue_def Let_def split: option.splits prod.splits)
qed

text \<open>A property that every call keeps, as long as the requests it admits are \<open>fine\<close>.\<close>

locale gov_property_for =
  fixes P :: "governor \<Rightarrow> bool" and fine :: "request \<Rightarrow> bool"
  assumes core_P: "P g \<Longrightarrow> core h = core g \<Longrightarrow> P h"
    and distinct_P: "P g \<Longrightarrow> distinct (map ticket (queue g))"
    and expire_P: "P g \<Longrightarrow> q \<in> set (queue g) \<Longrightarrow> P (fst (expire cs now q g))"
    and grant_P: "P g \<Longrightarrow> q \<in> set (queue g) \<Longrightarrow> \<not> would_block g (req q) \<Longrightarrow> P (fst (grant_queued now q g))"
    and back_P: "P g \<Longrightarrow> dict_get (leases g) l = Some r \<Longrightarrow> P (give_back l r actual g)"
    and decide_P: "P g \<Longrightarrow> \<not> shutting_down g \<Longrightarrow> normal r \<Longrightarrow> fine r \<Longrightarrow> P (snd (decide now p r g))"
    and cancel_P: "P g \<Longrightarrow> oc \<in> {CANCELLED, CAPACITY_TIMEOUT} \<Longrightarrow> P (snd (cancel_locked rid oc why g))"
    and shutdown_P: "P g \<Longrightarrow> P (shutdown g)"
begin

lemma expire_all_P:
  "P g \<Longrightarrow> set qs \<subseteq> set (queue g) \<Longrightarrow> distinct (map ticket qs) \<Longrightarrow> P (fst (expire_all cs now qs g))"
proof (induction qs arbitrary: g)
  case (Cons q qs)
  have "set qs \<subseteq> set (queue (fst (expire cs now q g)))"
  proof
    fix x assume "x \<in> set qs"
    with Cons.prems have "ticket x \<noteq> ticket q" by (force simp: image_iff)
    with Cons.prems \<open>x \<in> set qs\<close> show "x \<in> set (queue (fst (expire cs now q g)))"
      by (intro expire_in_queue distinct_P) auto
  qed
  with Cons show ?case by (simp add: Let_def split_beta expire_P)
qed simp

lemma drain_P: "P g \<Longrightarrow> P (fst (drain cs now g))"
proof (induction cs now g rule: drain.induct)
  case (1 cs now g)
  show ?case
  proof (cases "queue g = []")
    case False
    obtain g1 es where e: "expire_all cs now (queue g) g = (g1, es)" by fastforce
    with 1 have g1: "P g1" using expire_all_P [of g "queue g" cs now] distinct_P by auto
    show ?thesis
    proof (cases "pick g1")
      case None
      with g1 e False show ?thesis by (simp add: drain.simps [of cs now g])
    next
      case (Some q)
      obtain g2 fs where gr: "grant_queued now q g1 = (g2, fs)" by fastforce
      with g1 pick_queued [OF Some] grant_P [of g1 q now] have "P g2" by auto
      with 1 False e Some gr have "P (fst (drain cs now g2))" by auto
      with False e Some gr show ?thesis by (simp add: drain.simps [of cs now g] split_beta)
    qed
  qed (use 1 in \<open>simp add: drain.simps [of cs now g]\<close>)
qed

definition fine_call :: "gov_call \<Rightarrow> bool" where
  "fine_call x \<longleftrightarrow> (case x of ADMIT now r \<Rightarrow> fine (normalize_request r) | _ \<Rightarrow> True)"

lemma step_for: "P g \<Longrightarrow> fine_call x \<Longrightarrow> P (gov_step g x)"
proof (induction x)
  case (ADMIT now r)
  let ?h = "snd (decide now (compute_pressure g (normalize_request r)) (normalize_request r) g)"
  have "P ?h" if "\<not> shutting_down g" using that ADMIT by (intro decide_P) (auto simp: fine_call_def)
  moreover have "P (notify_pressure (emit es h))" if "P h" for es h using that by (rule core_P) simp
  moreover have "P (g\<lparr>total_impossibles := n\<rparr>)" for n using ADMIT(1) by (rule core_P) (simp add: core_def)
  ultimately show ?case using ADMIT
    by (simp add: admit_def Let_def split_beta split: option.split gov_mode.split)
next
  case (RELEASE cs now l u)
  have "P (fst (drain cs now (give_back l r a g)))" if "dict_get (leases g) l = Some r" for r a
    using that RELEASE by (intro drain_P back_P)
  moreover have "P (notify_pressure (emit es h))" if "P h" for es h using that by (rule core_P) simp
  ultimately show ?case using RELEASE
    by (simp add: release_lease_def Let_def split_beta split: option.split)
next
  case (DRAIN cs now)
  then show ?case by (auto simp: drain_queue_def split_beta intro: core_P drain_P)
next
  case (CANCEL rid)
  then have "P (snd (cancel_locked rid CANCELLED (REQUEST_CANCELLED ''Request cancelled'') g))" by (intro cancel_P) auto
  then show ?case by (auto simp: cancel_request_def Let_def split_beta core_def intro: core_P)
next
  case (WAIT_ROUND cs detail now r limit started t)
  have cancelled: "P (snd (cancel_locked (request_id r) oc why g))" if "oc \<in> {CANCELLED, CAPACITY_TIMEOUT}" for oc why
    using that WAIT_ROUND(1) by (rule cancel_P [rotated])
  have counted: "P (h\<lparr>total_timeouts := n\<rparr>)" if "P h" for h n using that by (rule core_P) (simp add: core_def)
  have emitted: "P (emit es h)" if "P h" for h es using that by (rule core_P) simp
  show ?case using WAIT_ROUND by (simp add: wait_round_def Let_def cancelled counted emitted)
next
  case SHUT_DOWN
  then show ?case by (simp add: shutdown_P)
next
  case (PUBLISH phase r rs actual)
  from PUBLISH(1) show ?case unfolding gov_step.simps publish_accounting_def by (rule core_P) simp
qed (auto simp: set_limit_for_run_def remove_limit_for_run_def core_def intro: core_P)

lemma run_for: "P g \<Longrightarrow> list_all fine_call xs \<Longrightarrow> P (foldl gov_step g xs)"
  by (induction xs arbitrary: g) (auto intro: step_for)

end

locale gov_property = gov_property_for P "\<lambda>r. True" for P :: "governor \<Rightarrow> bool"

context gov_property begin

lemma decide_always: "P g \<Longrightarrow> \<not> shutting_down g \<Longrightarrow> normal r \<Longrightarrow> P (snd (decide now p r g))"
  by (rule decide_P) simp_all

lemma step_P: "P g \<Longrightarrow> P (gov_step g x)"
  by (rule step_for) (simp_all add: fine_call_def split: gov_call.split)

end

sublocale gov_property \<subseteq> op_invariant gov_step P
  by unfold_locales (rule step_P)

text \<open>The tickets: an entry of the queue waits for its answer, and nothing else does.\<close>

definition tickets_ok :: "governor \<Rightarrow> bool" where
  "tickets_ok g \<longleftrightarrow> distinct (map ticket (queue g)) \<and> (\<forall>q \<in> set (queue g). ticket q < next_ticket g)
     \<and> (\<forall>t < next_ticket g. outcome (answer_of g t) = QUEUED \<longleftrightarrow> t \<in> ticket ` set (queue g))
     \<and> (\<forall>rid t. dict_get (queued_by_id g) rid = Some t
          \<longrightarrow> (\<exists>q \<in> set (queue g). ticket q = t \<and> request_id (req q) = rid))"

lemma answer_at: "answer_of (answer t f g) t' = (if t' = t then f (answer_of g t) else answer_of g t')"
  by (simp add: answer_of_def answer_def dict_simps)

lemma answer_fields [simp]:
  "queue (answer t f g) = queue g" "queued_by_id (answer t f g) = queued_by_id g"
  "next_ticket (answer t f g) = next_ticket g" "leases (answer t f g) = leases g"
  "shutting_down (answer t f g) = shutting_down g" "next_lease (answer t f g) = next_lease g"
  "gmode (answer t f g) = gmode g"
  by (simp_all add: answer_def)

lemma unqueue_fields [simp]:
  "queue (unqueue q g) = remove1 q (queue g)" "answers (unqueue q g) = answers g"
  "queued_by_id (unqueue q g) = dict_del (request_id (req q)) (queued_by_id g)"
  "next_ticket (unqueue q g) = next_ticket g" "leases (unqueue q g) = leases g"
  "shutting_down (unqueue q g) = shutting_down g" "next_lease (unqueue q g) = next_lease g"
  "gmode (unqueue q g) = gmode g"
  by (simp_all add: unqueue_def)

lemma grant_fields [simp]:
  "queue (snd (grant r g)) = queue g" "queued_by_id (snd (grant r g)) = queued_by_id g"
  "answers (snd (grant r g)) = answers g" "next_ticket (snd (grant r g)) = next_ticket g"
  "shutting_down (snd (grant r g)) = shutting_down g" "fst (grant r g) = next_lease g"
  "leases (snd (grant r g)) = leases g @ [(next_lease g, r)]" "gmode (snd (grant r g)) = gmode g"
  by (simp_all add: grant_def Let_def)

lemma answer_of_cong: "answers g = answers h \<Longrightarrow> answer_of g = answer_of h"
  by (simp add: answer_of_def fun_eq_iff)

lemma tickets_cong:
  "queue g = queue h \<Longrightarrow> queued_by_id g = queued_by_id h \<Longrightarrow> answers g = answers h
   \<Longrightarrow> next_ticket g = next_ticket h \<Longrightarrow> tickets_ok g = tickets_ok h"
  using answer_of_cong [of g h] by (simp add: tickets_ok_def)

lemma tickets_settle:
  assumes "tickets_ok g" "q \<in> set (queue g)" "outcome (f (answer_of g (ticket q))) \<noteq> QUEUED"
  shows "tickets_ok (answer (ticket q) f (unqueue q g))"
proof -
  have d: "distinct (map ticket (queue g))" using assms(1) by (simp add: tickets_ok_def)
  then have dq: "distinct (queue g)" by (simp add: distinct_map)
  have inj: "x = y" if "x \<in> set (queue g)" "y \<in> set (queue g)" "ticket x = ticket y" for x y
    using d that by (auto simp: distinct_map inj_on_def)
  have rest: "set (remove1 q (queue g)) = set (queue g) - {q}" using dq by simp
  have "distinct (map ticket (remove1 q (queue g)))"
    using d dq by (auto simp: distinct_map rest inj_on_def)
  moreover have "t \<in> ticket ` (set (queue g) - {q}) \<longleftrightarrow> t \<in> ticket ` set (queue g) \<and> t \<noteq> ticket q" for t
    using inj assms(2) by auto
  moreover have "\<exists>x \<in> set (queue g) - {q}. ticket x = t \<and> request_id (req x) = rid"
    if "dict_get (queued_by_id g) rid = Some t" "rid \<noteq> request_id (req q)" for rid t
  proof -
    obtain x where "x \<in> set (queue g)" "ticket x = t" "request_id (req x) = rid"
      using assms(1) \<open>dict_get (queued_by_id g) rid = Some t\<close> unfolding tickets_ok_def by blast
    with that(2) show ?thesis by blast
  qed
  moreover have "answer_of (unqueue q g) = answer_of g" by (rule answer_of_cong) simp
  ultimately show ?thesis
    using assms rest unfolding tickets_ok_def by (auto simp: answer_at dict_simps split: if_splits)
qed

lemma tickets_totals [simp]:
  "tickets_ok (g\<lparr>total_grants := a\<rparr>) = tickets_ok g" "tickets_ok (g\<lparr>total_timeouts := a\<rparr>) = tickets_ok g"
  "tickets_ok (g\<lparr>total_cancellations := a\<rparr>) = tickets_ok g" "tickets_ok (g\<lparr>total_rejections := a\<rparr>) = tickets_ok g"
  "tickets_ok (g\<lparr>blocked_would_be := c\<rparr>) = tickets_ok g" "tickets_ok (snd (grant r g)) = tickets_ok g"
  "tickets_ok (give_back l r u g) = tickets_ok g"
  by (rule tickets_cong; simp add: give_back_def)+

lemma would_block_cong:
  "limits g = limits h \<Longrightarrow> root_limits g = root_limits h \<Longrightarrow> reserved g = reserved h \<Longrightarrow> consumed g = consumed h
   \<Longrightarrow> root_reserved g = root_reserved h \<Longrightarrow> run_limits g = run_limits h \<Longrightarrow> run_reserved g = run_reserved h
   \<Longrightarrow> would_block g = would_block h"
  by (auto simp: would_block_def blocks_def spent_def fun_eq_iff split: prod.splits intro!: list_ex_cong)

lemma expire_settles:
  "fst (expire cs now q g) =
     (case expiry cs now g q of None \<Rightarrow> g
      | Some (oc, why) \<Rightarrow>
          (let g1 = answer (ticket q) (\<lambda>a. a\<lparr>outcome := oc, wait_time := now - enqueued_at q, reason := why\<rparr>) (unqueue q g)
           in if oc = CANCELLED then g1\<lparr>total_cancellations := total_cancellations g1 + 1\<rparr>
              else g1\<lparr>total_timeouts := total_timeouts g1 + 1\<rparr>))"
  by (simp add: expire_def Let_def split: option.split prod.split)

lemma expiry_outcome: "expiry cs now g q = Some (oc, why) \<Longrightarrow> oc = CANCELLED \<or> oc = CAPACITY_TIMEOUT"
  by (auto simp: expiry_def split: if_splits)

definition grant_answer :: "time \<Rightarrow> queued_request \<Rightarrow> governor \<Rightarrow> admission \<Rightarrow> admission" where
  "grant_answer now q g a = a\<lparr>outcome := GRANTED, lease_of := Some (next_lease g), queue_position := 0,
     wait_time := now - enqueued_at q, adm_pressure := compute_pressure (snd (grant (req q) (unqueue q g))) (req q)\<rparr>"

lemma grant_queued_state:
  "fst (grant_queued now q g) =
     (let g2 = answer (ticket q) (grant_answer now q g) (snd (grant (req q) (unqueue q g)))
      in g2\<lparr>total_grants := total_grants g2 + 1\<rparr>)"
  by (simp add: grant_queued_def Let_def split_beta grant_answer_def [abs_def])

definition gov_ok :: "governor \<Rightarrow> bool" where
  "gov_ok g \<longleftrightarrow> books g \<and> (gmode g = ENFORCE \<longrightarrow> limits_kept g) \<and> tickets_ok g
     \<and> (gmode g \<noteq> ENFORCE \<longrightarrow> queue g = []) \<and> (shutting_down g \<longrightarrow> queue g = [])"

lemma ok_expire:
  assumes "gov_ok g" "q \<in> set (queue g)"
  shows "gov_ok (fst (expire cs now q g))"
proof (cases "expiry cs now g q")
  case (Some x)
  obtain oc why where x: "x = (oc, why)" by (cases x)
  let ?f = "\<lambda>a. a\<lparr>outcome := oc, wait_time := now - enqueued_at q, reason := why\<rparr>"
  have "tickets_ok (answer (ticket q) ?f (unqueue q g))"
    using assms expiry_outcome [OF Some [unfolded x]] by (intro tickets_settle) (auto simp: gov_ok_def)
  moreover have "books (answer (ticket q) ?f (unqueue q g))" using assms by (simp add: gov_ok_def books_unqueue)
  ultimately show ?thesis using assms Some x by (auto simp: expire_settles Let_def gov_ok_def)
qed (use assms in \<open>simp add: expire_settles\<close>)

lemma ok_grant_queued:
  assumes "gov_ok g" "q \<in> set (queue g)" "\<not> would_block g (req q)"
  shows "gov_ok (fst (grant_queued now q g))"
proof -
  have n: "normal (req q)" and b: "books (unqueue q g)" and e: "gmode g = ENFORCE" and k: "limits_kept (unqueue q g)"
    using assms by (auto simp: gov_ok_def books_def [of g] books_unqueue)
  have "would_block (unqueue q g) = would_block g" by (rule would_block_cong) (simp_all add: unqueue_def)
  then have "limits_kept (snd (grant (req q) (unqueue q g)))"
    using assms(3) b n k by (intro limits_kept_grant) simp_all
  moreover have "books (snd (grant (req q) (unqueue q g)))" using b n by (rule books_grant)
  moreover have "tickets_ok (answer (ticket q) (grant_answer now q g) (unqueue q g))"
    using assms by (intro tickets_settle) (auto simp: gov_ok_def grant_answer_def)
  then have "tickets_ok (answer (ticket q) (grant_answer now q g) (snd (grant (req q) (unqueue q g))))"
    by (subst (asm) tickets_cong [of _ "answer (ticket q) (grant_answer now q g) (snd (grant (req q) (unqueue q g)))"])
      (simp_all add: answer_def)
  ultimately show ?thesis using assms e
    by (auto simp: grant_queued_state Let_def gov_ok_def)
qed


lemma tickets_enqueue:
  assumes "tickets_ok g"
  shows "tickets_ok (snd (enqueue now p r g))"
proof -
  have "answer_of (snd (enqueue now p r g)) t =
      (if t = next_ticket g then (admission_result QUEUED)\<lparr>queue_position := length (queue g) + 1, adm_pressure := p\<rparr>
       else answer_of g t)" for t
    by (simp add: answer_of_def enqueue_def Let_def dict_simps)
  then show ?thesis using assms
    by (auto simp: tickets_ok_def enqueue_def Let_def dict_simps admission_result_def less_Suc_eq split: if_splits)
qed

lemma ok_decide:
  assumes "gov_ok g" "\<not> shutting_down g" "normal r"
  shows "gov_ok (snd (decide now p r g))"
proof -
  have granted: "gov_ok (snd (grant_now p r h))"
    if "gov_ok h" "gmode h = ENFORCE \<longrightarrow> \<not> would_block h r" for h
    using that assms(3) by (auto simp: grant_now_def Let_def split_beta gov_ok_def intro: books_grant limits_kept_grant)
  have counted: "gov_ok (count_blocked r g)" using assms(1) by (simp add: count_blocked_def gov_ok_def)
  have queued: "gov_ok (snd (enqueue now p r g))" if "gmode g = ENFORCE"
    using assms that tickets_enqueue [of g now p r]
    by (auto simp: gov_ok_def enqueue_def Let_def books_def held_def root_held_def fun_eq_iff limits_kept_def)
  show ?thesis
    using assms granted [of g] granted [OF counted] queued
    by (auto simp: decide_def count_blocked_def gov_ok_def split: gov_mode.split)
qed

lemma consume_nonneg: "\<forall>k. 0 \<le> c k \<Longrightarrow> 0 \<le> consume rs u c k"
  unfolding consume_def by (induction rs arbitrary: c) (auto split: prod.splits)

lemma counter_at_change: "f (\<lambda>k::resource_kind. 0 :: int) = (\<lambda>k. 0) \<Longrightarrow> counter_at (change_counter f x d) y = (if y = x then f (counter_at d y) else counter_at d y)"
  by (simp add: counter_at_def change_counter_def dict_simps split: option.split)

lemma in_dict_del: "(a, b) \<in> set (dict_del k d) \<Longrightarrow> (a, b) \<in> set d"
  by (induction d) (auto split: if_splits)

lemma give_back_fields [simp]:
  "leases (give_back l r u g) = dict_del l (leases g)" "next_lease (give_back l r u g) = next_lease g"
  "queue (give_back l r u g) = queue g" "gmode (give_back l r u g) = gmode g"
  "shutting_down (give_back l r u g) = shutting_down g" "limits (give_back l r u g) = limits g"
  "root_limits (give_back l r u g) = root_limits g" "answers (give_back l r u g) = answers g"
  by (simp_all add: give_back_def)

lemma ok_give_back:
  assumes "gov_ok g" "dict_get (leases g) l = Some r"
  shows "gov_ok (give_back l r u g)"
proof -
  have b: "books g" using assms(1) by (simp add: gov_ok_def)
  have lr: "(l, r) \<in> set (leases g)" using assms(2) by (rule map_of_SomeD)
  have n: "normal r" using b lr by (auto simp: books_def)
  have nonneg: "\<forall>(l, r) \<in> set (leases g). 0 \<le> amount r k" for k using b by (auto simp: books_def amount_nonneg)
  have take: "take_amounts (resources r) c k = c k - amount r k" if "amount r k \<le> c k" for c k
    using take_amounts_at [of "resources r" k c] n that by (simp add: normal_def amount_def)
  have zero: "take_amounts (resources r) (\<lambda>k. 0) = (\<lambda>k. 0)"
  proof -
    have "fold (\<lambda>(k, a) c. c(k := max 0 (c k - a))) rs (\<lambda>k. 0) = (\<lambda>k. 0)" if "list_all (\<lambda>(k, a). 0 \<le> a) rs"
      for rs :: amounts
      using that by (induction rs) (auto simp: fun_upd_idem)
    then show ?thesis using n by (simp add: take_amounts_def normal_def)
  qed
  have "amount r k \<le> held g k" for k
    unfolding held_def using sum_part [OF lr, of "\<lambda>r. amount r k"] nonneg by simp
  then have res: "take_amounts (resources r) (reserved g) k = held g k - amount r k" for k
    using b take by (simp add: books_def)
  have "amount r k \<le> root_held g (root_id r) k" for k
    unfolding root_held_def
    using sum_part [OF lr, of "\<lambda>s. if root_id s = root_id r then amount s k else 0"] nonneg [of k] by fastforce
  then have root: "take_amounts (resources r) (root_held g (root_id r)) k = root_held g (root_id r) k - amount r k" for k
    by (rule take)
  have d: "is_dict (leases g)" using b by (simp add: books_def)
  let ?g = "give_back l r u g"
  have held: "held ?g k = held g k - amount r k" for k
    using sum_del [OF d assms(2), of "\<lambda>r. amount r k"] by (simp add: held_def give_back_def)
  have root_held: "root_held ?g x k = root_held g x k - (if root_id r = x then amount r k else 0)" for x k
    using sum_del [OF d assms(2), of "\<lambda>s. if root_id s = x then amount s k else 0"]
    by (simp add: root_held_def give_back_def)
  have "counter_at (root_reserved ?g) x =
      (if x = root_id r then take_amounts (resources r) (root_held g x) else root_held g x)" for x
    using b by (simp add: give_back_def zero counter_at_change books_def)
  then have roots: "counter_at (root_reserved ?g) = root_held ?g"
    using root by (auto simp: fun_eq_iff root_held)
  have reserved: "reserved ?g = held ?g" by (simp add: fun_eq_iff held res) (simp add: give_back_def res)
  have "\<forall>k. 0 \<le> consumed ?g k" using b consume_nonneg [of "consumed g"] by (simp add: give_back_def books_def)
  then have "books ?g"
    using b reserved roots d unfolding books_def [of ?g] by (auto simp: books_def [of g] dest: in_dict_del)
  moreover have "limits_kept ?g" if "limits_kept g"
  proof -
    have less: "held ?g k \<le> held g k" "root_held ?g x k \<le> root_held g x k" for x k
      using amount_nonneg [OF n, of k] by (simp_all add: held root_held)
    have kept: "limits g k > 0 \<Longrightarrow> held g k \<le> limits g k"
      "root_limits g k > 0 \<Longrightarrow> root_held g x k \<le> root_limits g k" for x k
      using that b by (simp_all add: limits_kept_def books_def)
    show ?thesis unfolding limits_kept_def reserved roots give_back_fields
      using order_trans [OF less(1) kept(1)] order_trans [OF less(2) kept(2)] by blast
  qed
  ultimately show ?thesis using assms(1) by (auto simp: gov_ok_def)
qed

lemma filter_key:
  "distinct (map f xs) \<Longrightarrow> x \<in> set xs \<Longrightarrow> filter (\<lambda>y. f y \<noteq> f x) xs = remove1 x xs"
proof (induction xs)
  case (Cons y xs)
  show ?case
  proof (cases "y = x")
    case True
    with Cons.prems have "filter (\<lambda>y. f y \<noteq> f x) xs = xs" by (intro filter_True) (auto simp: image_iff)
    with True show ?thesis by simp
  next
    case False
    with Cons show ?thesis by (auto simp: image_iff)
  qed
qed simp

lemma tickets_cancel:
  assumes "tickets_ok g" "dict_get (queued_by_id g) rid = Some t" "oc \<noteq> QUEUED"
  shows "tickets_ok (snd (cancel_locked rid oc why g))"
proof -
  obtain q where q: "q \<in> set (queue g)" "ticket q = t" "request_id (req q) = rid"
    using assms(1,2) unfolding tickets_ok_def by blast
  have dist: "distinct (map ticket (queue g))" using assms(1) by (simp add: tickets_ok_def)
  have "filter (\<lambda>q'. ticket q' \<noteq> t) (queue g) = remove1 q (queue g)"
    using filter_key [OF dist q(1)] q(2) by simp
  then have "snd (cancel_locked rid oc why g) = answer (ticket q) (\<lambda>a. a\<lparr>outcome := oc, reason := why\<rparr>) (unqueue q g)"
    using assms(2) q(2,3) by (simp add: cancel_locked_def unqueue_def)
  then show ?thesis using tickets_settle [OF assms(1) q(1)] assms(3) by simp
qed

lemma ok_cancel:
  assumes "gov_ok g" "oc \<in> {CANCELLED, CAPACITY_TIMEOUT}"
  shows "gov_ok (snd (cancel_locked rid oc why g))"
proof (cases "dict_get (queued_by_id g) rid")
  case (Some t)
  with assms have "tickets_ok (snd (cancel_locked rid oc why g))"
    by (intro tickets_cancel) (auto simp: gov_ok_def)
  then show ?thesis using assms Some
    by (auto simp: gov_ok_def cancel_locked_def intro: books_queue)
qed (use assms in \<open>simp add: cancel_locked_def\<close>)

lemma shut_outcome:
  "outcome (answer_of (fold shut_entry qs g) t) =
     (if t \<in> ticket ` set qs then SHUTDOWN else outcome (answer_of g t))"
  by (induction qs arbitrary: g) (auto simp: shut_entry_def answer_at)

lemma shut_others: "t \<notin> ticket ` set qs \<Longrightarrow> answer_of (fold shut_entry qs g) t = answer_of g t"
  by (induction qs arbitrary: g) (auto simp: shut_entry_def answer_at)

lemma shut_frame:
  "(\<And>t f g. F (answer t f g) = F g) \<Longrightarrow> F (fold shut_entry qs g) = F g"
  by (induction qs arbitrary: g) (auto simp: shut_entry_def)

lemma ok_shutdown:
  assumes "gov_ok g"
  shows "gov_ok (shutdown g)"
proof (cases "shutting_down g")
  case False
  let ?h = "fold shut_entry (queue g) (g\<lparr>shutting_down := True\<rparr>)"
  let ?g = "?h\<lparr>queue := [], queued_by_id := []\<rparr>"
  have "books ?h = books g" "limits_kept ?h = limits_kept g" "gmode ?h = gmode g" "next_ticket ?h = next_ticket g"
    using shut_frame [of books] shut_frame [of limits_kept] shut_frame [of gmode] shut_frame [of next_ticket] by simp_all
  moreover have answers: "answer_of (g\<lparr>shutting_down := True\<rparr>) = answer_of g" "answer_of ?g = answer_of ?h"
    by (rule answer_of_cong; simp)+
  moreover have "books ?g" using assms books_queue [of ?h "[]"] calculation(1) by (simp add: gov_ok_def)
  moreover have "tickets_ok ?g"
    using assms calculation(4) by (simp add: tickets_ok_def answers shut_outcome gov_ok_def)
  ultimately have "gov_ok ?g" using assms by (simp add: gov_ok_def)
  moreover have "tickets_ok (emit es ?g) = tickets_ok ?g" "queue (emit es ?g) = queue ?g" "gmode (emit es ?g) = gmode ?g"
    for es by (simp_all add: emit_def tickets_ok_def answer_of_def)
  ultimately show ?thesis using False
    by (simp add: shutdown_def Let_def gov_ok_def)
qed (use assms in \<open>simp add: shutdown_def\<close>)

lemma core_ok:
  assumes "gov_ok g" "core h = core g"
  shows "gov_ok h"
proof -
  have c: "queue h = queue g" "queued_by_id h = queued_by_id g" "answers h = answers g" "next_ticket h = next_ticket g"
    "leases h = leases g" "reserved h = reserved g" "consumed h = consumed g" "root_reserved h = root_reserved g"
    "next_lease h = next_lease g" "gmode h = gmode g" "limits h = limits g" "root_limits h = root_limits g"
    "shutting_down h = shutting_down g"
    using assms(2) by (simp_all add: core_eq)
  have "tickets_ok h = tickets_ok g" using c by (intro tickets_cong)
  moreover have "held h = held g" "root_held h = root_held g"
    by (simp_all add: held_def root_held_def c fun_eq_iff)
  then have "books h = books g" by (simp add: books_def c)
  moreover have "limits_kept h = limits_kept g" by (simp add: limits_kept_def c)
  ultimately show ?thesis using assms(1) by (simp add: gov_ok_def c)
qed

interpretation gov: gov_property gov_ok
proof
  show "distinct (map ticket (queue g))" if "gov_ok g" for g using that by (simp add: gov_ok_def tickets_ok_def)
  show "gov_ok (snd (decide now p r g))" if "gov_ok g" "\<not> shutting_down g" "normal r" for g r now p
    using that by (rule ok_decide)
qed (fact core_ok ok_expire ok_grant_queued ok_give_back ok_cancel ok_shutdown)+

lemma settings_settle [simp]:
  "gmode (fst (expire cs now q g)) = gmode g" "limits (fst (expire cs now q g)) = limits g"
  "root_limits (fst (expire cs now q g)) = root_limits g"
  "gmode (fst (grant_queued now q g)) = gmode g" "limits (fst (grant_queued now q g)) = limits g"
  "root_limits (fst (grant_queued now q g)) = root_limits g"
  "gmode (snd (decide now p r g)) = gmode g" "limits (snd (decide now p r g)) = limits g"
  "root_limits (snd (decide now p r g)) = root_limits g"
  "gmode (snd (cancel_locked rid oc why g)) = gmode g" "limits (snd (cancel_locked rid oc why g)) = limits g"
  "root_limits (snd (cancel_locked rid oc why g)) = root_limits g"
  by (simp_all add: expire_settles grant_queued_state decide_def grant_now_def count_blocked_def enqueue_def
      cancel_locked_def grant_def answer_def unqueue_def Let_def split_beta split: option.split gov_mode.split)

lemma settings_shutdown [simp]:
  "gmode (shutdown g) = gmode g" "limits (shutdown g) = limits g" "root_limits (shutdown g) = root_limits g"
  using shut_frame [of gmode "queue g" "g\<lparr>shutting_down := True\<rparr>"] shut_frame [of limits "queue g" "g\<lparr>shutting_down := True\<rparr>"]
    shut_frame [of root_limits "queue g" "g\<lparr>shutting_down := True\<rparr>"]
  by (simp_all add: shutdown_def Let_def emit_def answer_def)

definition settled :: "governor \<Rightarrow> governor \<Rightarrow> bool" where
  "settled g0 g \<longleftrightarrow> gov_ok g \<and> gmode g = gmode g0 \<and> limits g = limits g0 \<and> root_limits g = root_limits g0"

interpretation fixed_limits: gov_property "settled g0" for g0
proof unfold_locales
  show "settled g0 h" if "settled g0 g" "core h = core g" for g h
    using that core_ok [of g h] by (simp add: settled_def core_eq)
qed (auto simp: settled_def gov.expire_P gov.grant_P gov.back_P gov.decide_always gov.cancel_P gov.shutdown_P
    dest: gov.distinct_P)

text \<open>An answer that is not \<open>QUEUED\<close> stays, and so does a governor that is shut down.\<close>

definition answered :: "nat \<Rightarrow> admission \<Rightarrow> governor \<Rightarrow> bool" where
  "answered t a g \<longleftrightarrow> gov_ok g \<and> t < next_ticket g \<and> answer_of g t = a \<and> outcome a \<noteq> QUEUED"

lemma answer_of_total [simp]:
  "answer_of (g\<lparr>total_grants := n\<rparr>) = answer_of g" "answer_of (g\<lparr>total_timeouts := n\<rparr>) = answer_of g"
  "answer_of (g\<lparr>total_cancellations := n\<rparr>) = answer_of g" "answer_of (unqueue q g) = answer_of g"
  "answer_of (snd (grant r g)) = answer_of g" "answer_of (give_back l r u g) = answer_of g"
  "answer_of (emit es g) = answer_of g"
  by (rule answer_of_cong; simp add: emit_def)+

lemma waits_in_queue:
  "gov_ok g \<Longrightarrow> q \<in> set (queue g) \<Longrightarrow> outcome (answer_of g (ticket q)) = QUEUED \<and> ticket q < next_ticket g"
  by (auto simp: gov_ok_def tickets_ok_def)

lemma answer_settle:
  "ticket q \<noteq> t \<Longrightarrow> answer_of (fst (expire cs now q g)) t = answer_of g t"
  "ticket q \<noteq> t \<Longrightarrow> answer_of (fst (grant_queued now q g)) t = answer_of g t"
  "next_ticket (fst (expire cs now q g)) = next_ticket g" "next_ticket (fst (grant_queued now q g)) = next_ticket g"
  by (simp_all add: expire_settles grant_queued_state answer_at Let_def split: option.split prod.split)

lemma answer_decide: "t < next_ticket g \<Longrightarrow> answer_of (snd (decide now p r g)) t = answer_of g t
    \<and> t < next_ticket (snd (decide now p r g))"
  by (auto simp: decide_def grant_now_def count_blocked_def enqueue_def grant_def answer_of_def Let_def split_beta
      dict_simps split: gov_mode.split)

lemma answer_cancel:
  assumes "gov_ok g" "outcome (answer_of g t) \<noteq> QUEUED"
  shows "answer_of (snd (cancel_locked rid oc why g)) t = answer_of g t
    \<and> next_ticket (snd (cancel_locked rid oc why g)) = next_ticket g"
proof (cases "dict_get (queued_by_id g) rid")
  case (Some t')
  then obtain q where "q \<in> set (queue g)" "ticket q = t'"
    using assms(1) unfolding gov_ok_def tickets_ok_def by blast
  with waits_in_queue [OF assms(1), of q] assms(2) have "t' \<noteq> t" by auto
  moreover have "answer_of (g\<lparr>queue := qs, queued_by_id := m\<rparr>) = answer_of g" for qs m
    by (rule answer_of_cong) simp
  ultimately show ?thesis using Some by (simp add: cancel_locked_def answer_at)
qed (simp add: cancel_locked_def)

lemma answer_shutdown:
  assumes "gov_ok g" "outcome (answer_of g t) \<noteq> QUEUED"
  shows "answer_of (shutdown g) t = answer_of g t \<and> next_ticket (shutdown g) = next_ticket g"
proof -
  have "t \<notin> ticket ` set (queue g)" using waits_in_queue [OF assms(1)] assms(2) by auto
  then have "answer_of (fold shut_entry (queue g) (g\<lparr>shutting_down := True\<rparr>)) t = answer_of g t"
    using shut_others [of t "queue g"] by (simp add: answer_of_def)
  then show ?thesis
    using shut_frame [of next_ticket "queue g" "g\<lparr>shutting_down := True\<rparr>"]
    by (simp add: shutdown_def Let_def emit_def answer_of_def)
qed

interpretation answered: gov_property "answered t a" for t a
proof unfold_locales
  fix g h l r u q cs now p oc rid why assume g: "answered t a g"
  then have ok: "gov_ok g" and t: "t < next_ticket g" "answer_of g t = a" "outcome a \<noteq> QUEUED"
    by (simp_all add: answered_def)
  show "answered t a h" if "core h = core g"
    using that core_ok [OF ok that] t answer_of_cong [of h g] by (simp add: answered_def core_eq)
  show "distinct (map ticket (queue g))" using ok by (rule gov.distinct_P)
  { assume q: "q \<in> set (queue g)"
    with waits_in_queue [OF ok] t have "ticket q \<noteq> t" by auto
    then show "answered t a (fst (expire cs now q g))"
      using gov.expire_P [OF ok q] t by (simp add: answered_def answer_settle)
    show "answered t a (fst (grant_queued now q g))" if "\<not> would_block g (req q)"
      using gov.grant_P [OF ok q that] t \<open>ticket q \<noteq> t\<close> by (simp add: answered_def answer_settle) }
  show "answered t a (give_back l r u g)" if "dict_get (leases g) l = Some r"
    using gov.back_P [OF ok that, of u] t by (simp add: answered_def) (simp add: give_back_def)
  show "answered t a (snd (decide now p r g))" if "\<not> shutting_down g" "normal r"
    using gov.decide_always [OF ok that] t answer_decide by (simp add: answered_def)
  show "answered t a (snd (cancel_locked rid oc why g))" if "oc \<in> {CANCELLED, CAPACITY_TIMEOUT}"
    using gov.cancel_P [OF ok that] t answer_cancel [OF ok, of t rid oc why] by (simp add: answered_def)
  show "answered t a (shutdown g)"
    using gov.shutdown_P [OF ok] t answer_shutdown [OF ok, of t] by (simp add: answered_def)
qed

definition closed_at :: "nat \<Rightarrow> governor \<Rightarrow> bool" where
  "closed_at n g \<longleftrightarrow> gov_ok g \<and> shutting_down g \<and> next_lease g = n"

interpretation closed: gov_property "closed_at n" for n
proof unfold_locales
  fix g h l r u q cs now p oc rid why assume g: "closed_at n g"
  then have ok: "gov_ok g" and sd: "shutting_down g" "next_lease g = n" "queue g = []"
    by (auto simp: closed_at_def gov_ok_def)
  show "closed_at n h" if "core h = core g"
    using that core_ok [OF ok that] sd by (simp add: closed_at_def core_eq)
  show "distinct (map ticket (queue g))" using ok by (rule gov.distinct_P)
  show "closed_at n (fst (expire cs now q g))" if "q \<in> set (queue g)" using sd that by simp
  show "closed_at n (fst (grant_queued now q g))" if "q \<in> set (queue g)" using sd that by simp
  show "closed_at n (give_back l r u g)" if "dict_get (leases g) l = Some r"
    using gov.back_P [OF ok that, of u] sd by (simp add: closed_at_def)
  show "closed_at n (snd (decide now p r g))" if "\<not> shutting_down g" using sd that by simp
  show "closed_at n (snd (cancel_locked rid oc why g))" if "oc \<in> {CANCELLED, CAPACITY_TIMEOUT}"
    using gov.cancel_P [OF ok that, of rid why] sd by (auto simp: closed_at_def cancel_locked_def split: option.split)
  show "closed_at n (shutdown g)" using gov.shutdown_P [OF ok] sd by (simp add: closed_at_def shutdown_def)
qed

lemma new_governor_ok: "gov_ok (new_governor c)"
  by (simp add: gov_ok_def books_def limits_kept_def tickets_ok_def new_governor_def held_def [abs_def]
      root_held_def [abs_def] counter_at_def [abs_def] limits_of_def root_limits_of_def)

lemma reachable_gov: "gov_ok (foldl gov_step (new_governor c) xs)"
  by (rule gov.run_inv) (rule new_governor_ok)

text \<open>
  A waiter whose request alone has its id: as long as it waits, the table of ids leads to its own entry.
\<close>

definition alone :: "string \<Rightarrow> nat \<Rightarrow> governor \<Rightarrow> bool" where
  "alone rid t g \<longleftrightarrow> gov_ok g \<and> t < next_ticket g
     \<and> (\<forall>q\<in>set (queue g). request_id (req q) = rid \<longrightarrow> ticket q = t)
     \<and> (outcome (answer_of g t) = QUEUED \<longrightarrow> dict_get (queued_by_id g) rid = Some t)"

lemma alone_settled:
  assumes g: "alone rid t g" and h: "gov_ok h" "next_ticket h = next_ticket g"
    and q: "q \<in> set (queue g)" "queue h = remove1 q (queue g)" "queued_by_id h = dict_del (request_id (req q)) (queued_by_id g)"
    and a: "\<And>t'. t' \<noteq> ticket q \<Longrightarrow> answer_of h t' = answer_of g t'"
  shows "alone rid t h"
proof (cases "ticket q = t")
  case True
  have "distinct (map ticket (queue g))" using g by (simp add: alone_def gov.distinct_P)
  then have "t \<notin> ticket ` set (queue h)"
    using q(1,2) True by (auto simp: distinct_map inj_on_def)
  then have "outcome (answer_of h t) \<noteq> QUEUED" using h g by (auto simp: gov_ok_def tickets_ok_def alone_def)
  then show ?thesis using g h q(2) notin_set_remove1 by (fastforce simp: alone_def)
next
  case False
  then have "request_id (req q) \<noteq> rid" using g q(1) by (auto simp: alone_def)
  then show ?thesis using g h q(2,3) a [of t] False notin_set_remove1 by (fastforce simp: alone_def dict_simps)
qed

interpretation alone: gov_property_for "alone rid t" "\<lambda>r. request_id r \<noteq> rid" for rid t
proof unfold_locales
  fix g h l r u q cs now p oc rid' why assume g: "alone rid t g"
  then have ok: "gov_ok g" by (simp add: alone_def)
  show "alone rid t h" if "core h = core g"
    using that g core_ok [OF ok that] answer_of_cong [of h g] by (simp add: alone_def core_eq)
  show "distinct (map ticket (queue g))" using ok by (rule gov.distinct_P)
  { assume q: "q \<in> set (queue g)"
    show "alone rid t (fst (expire cs now q g))"
    proof (cases "expiry cs now g q")
      case (Some x)
      then show ?thesis
        using gov.expire_P [OF ok q, of cs now]
        by (intro alone_settled [OF g _ _ q])
          (auto simp: expire_settles answer_at Let_def split: prod.split)
    qed (use g in \<open>simp add: expire_settles\<close>)
    show "alone rid t (fst (grant_queued now q g))" if "\<not> would_block g (req q)"
      using gov.grant_P [OF ok q that, of now]
      by (intro alone_settled [OF g _ _ q]) (auto simp: grant_queued_state answer_at Let_def) }
  show "alone rid t (give_back l r u g)" if "dict_get (leases g) l = Some r"
    using gov.back_P [OF ok that, of u] g by (simp add: alone_def) (simp add: give_back_def)
  show "alone rid t (snd (decide now p r g))" if "\<not> shutting_down g" "normal r" "request_id r \<noteq> rid"
  proof -
    have "alone rid t g \<Longrightarrow> \<forall>q\<in>set (queue (snd (decide now p r g))). request_id (req q) = rid \<longrightarrow> ticket q = t"
      using that(3) by (auto simp: alone_def decide_def grant_now_def count_blocked_def enqueue_def Let_def split_beta split: gov_mode.split)
    moreover have "dict_get (queued_by_id (snd (decide now p r g))) rid = dict_get (queued_by_id g) rid"
      using that(3) by (simp add: decide_def grant_now_def count_blocked_def enqueue_def Let_def split_beta dict_simps split: gov_mode.split)
    ultimately show ?thesis
      using g gov.decide_always [OF ok that(1,2), of now p] answer_decide [of t g now p r] by (simp add: alone_def)
  qed
  show "alone rid t (snd (cancel_locked rid' oc why g))" if "oc \<in> {CANCELLED, CAPACITY_TIMEOUT}"
  proof (cases "dict_get (queued_by_id g) rid'")
    case (Some t')
    then obtain q where q: "q \<in> set (queue g)" "ticket q = t'" "request_id (req q) = rid'"
      using ok unfolding gov_ok_def tickets_ok_def by blast
    have "queue (snd (cancel_locked rid' oc why g)) = remove1 q (queue g)"
      using filter_key [OF gov.distinct_P [OF ok] q(1)] q(2) Some by (simp add: cancel_locked_def)
    moreover have "answer_of (g\<lparr>queue := qs, queued_by_id := m\<rparr>) = answer_of g" for qs m
      by (rule answer_of_cong) simp
    ultimately show ?thesis
      using gov.cancel_P [OF ok that, of rid' why] Some q
      by (intro alone_settled [OF g _ _ q(1)]) (auto simp: cancel_locked_def answer_at)
  qed (use g in \<open>simp add: cancel_locked_def\<close>)
  show "alone rid t (shutdown g)"
  proof (cases "shutting_down g")
    case False
    have ok': "gov_ok (shutdown g)" using ok by (rule gov.shutdown_P)
    have "queue (shutdown g) = []" using False by (simp add: shutdown_def Let_def emit_def)
    moreover have n: "next_ticket (shutdown g) = next_ticket g"
      using shut_frame [of next_ticket "queue g" "g\<lparr>shutting_down := True\<rparr>"] by (simp add: shutdown_def Let_def emit_def)
    moreover have "outcome (answer_of (shutdown g) t) \<noteq> QUEUED"
      using ok' calculation g by (simp add: gov_ok_def tickets_ok_def alone_def)
    ultimately show ?thesis using ok' g by (simp add: alone_def)
  qed (use g in \<open>simp add: shutdown_def\<close>)
qed

end
