(* ===== verification/Governor_Properties.thy ===== *)
theory Governor_Properties
  imports Governor_Invariants
begin

text \<open>
  What the resource governor guarantees: in the mode that enforces, the leases never hold more than the
  limits; a request is answered once; a release leaves no request that could be granted; shutting down
  is final. And what it does not: a request that waits when no lease is left is never granted, and the
  limit of a run counts only the leases granted after it was set.
\<close>

section \<open>After a drain\<close>

lemma drain_settles: "grantable (fst (drain cs now g)) = []"
proof (induction cs now g rule: drain.induct)
  case (1 cs now g)
  obtain g1 es where e: "expire_all cs now (queue g) g = (g1, es)" by fastforce
  show ?case
  proof (cases "queue g = [] \<or> pick g1 = None")
    case True
    have "pick g1 = None \<Longrightarrow> grantable g1 = []" by (auto simp: pick_def Let_def split: list.splits if_splits)
    with True e show ?thesis by (auto simp: drain.simps [of cs now g] grantable_def)
  next
    case False
    then obtain q where q: "queue g \<noteq> []" "pick g1 = Some q" by auto
    obtain g2 fs where "grant_queued now q g1 = (g2, fs)" by fastforce
    with 1 e q show ?thesis by (simp add: drain.simps [of cs now g] split_beta)
  qed
qed

definition expired_now :: "(string \<Rightarrow> bool) \<Rightarrow> time \<Rightarrow> governor \<Rightarrow> queued_request list" where
  "expired_now cs now g = filter (\<lambda>q. expiry cs now g q \<noteq> None) (queue g)"

lemma expiry_kept:
  "expiry cs now (fst (expire cs' now' q g)) = expiry cs now g"
  by (simp add: fun_eq_iff expiry_def wait_limit_def expire_settles answer_def unqueue_def Let_def
      split: option.split prod.split)

lemma expiry_grant: "expiry cs now (fst (grant_queued now' q g)) = expiry cs now g"
  by (simp add: fun_eq_iff expiry_def wait_limit_def grant_queued_state answer_def unqueue_def grant_def Let_def)

lemma expire_all_clean:
  assumes "distinct (map ticket (queue g))" "q \<in> set (queue (fst (expire_all cs now qs g)))"
  shows "q \<in> set (queue g) \<and> (q \<in> set qs \<longrightarrow> expiry cs now g q = None)"
  using assms
proof (induction qs arbitrary: g)
  case (Cons x qs)
  let ?g = "fst (expire cs now x g)"
  have queue: "queue ?g = (if expiry cs now g x = None then queue g else remove1 x (queue g))"
    by (simp add: expire_settles Let_def split: option.split prod.split)
  have dist: "distinct (queue g)" using Cons.prems(1) by (simp add: distinct_map)
  have "distinct (map ticket (remove1 x (queue g)))"
    using Cons.prems(1) dist by (auto simp: distinct_map inj_on_def)
  then have "distinct (map ticket (queue ?g))" using Cons.prems(1) queue by simp
  moreover have "q \<in> set (queue (fst (expire_all cs now qs ?g)))" using Cons.prems(2) by (simp add: split_beta Let_def)
  ultimately have "q \<in> set (queue ?g) \<and> (q \<in> set qs \<longrightarrow> expiry cs now ?g q = None)" by (rule Cons.IH)
  then show ?case using queue dist by (auto simp: expiry_kept split: if_splits)
qed simp

lemma drain_clean:
  assumes "gov_ok g"
  shows "expired_now cs now (fst (drain cs now g)) = []"
  using assms
proof (induction cs now g rule: drain.induct)
  case (1 cs now g)
  obtain g1 es where e: "expire_all cs now (queue g) g = (g1, es)" by fastforce
  have ok: "gov_ok g1" using 1 gov.expire_all_P [of g "queue g" cs now] gov.distinct_P e by auto
  have same: "expiry cs now (fst (expire_all cs now qs h)) = expiry cs now h" for qs h
    by (induction qs arbitrary: h) (simp_all add: split_beta Let_def expiry_kept)
  have "expiry cs now g1 q = None" if "q \<in> set (queue g1)" for q
    using expire_all_clean [of g q cs now "queue g"] that e gov.distinct_P [OF 1(2)] same [of "queue g" g] by auto
  then have clean: "expired_now cs now g1 = []" by (simp add: expired_now_def)
  show ?case
  proof (cases "queue g = [] \<or> pick g1 = None")
    case True
    with clean e show ?thesis by (auto simp: drain.simps [of cs now g] expired_now_def)
  next
    case False
    then obtain q where q: "queue g \<noteq> []" "pick g1 = Some q" by auto
    obtain g2 fs where gr: "grant_queued now q g1 = (g2, fs)" by fastforce
    with ok pick_queued [OF q(2)] gov.grant_P [of g1 q now] have "gov_ok g2" by auto
    with 1 q e gr have "expired_now cs now (fst (drain cs now g2)) = []" by auto
    with q e gr show ?thesis by (simp add: drain.simps [of cs now g] split_beta)
  qed
qed

lemma notify_kinds_only: "\<exists>lp em. notify_kinds ks g = g\<lparr>last_pressure := lp, emitted := em\<rparr>"
proof (induction ks arbitrary: g)
  case Nil
  have "g = g\<lparr>last_pressure := last_pressure g, emitted := emitted g\<rparr>" by simp
  then show ?case by (metis notify_kinds.simps(1))
next
  case (Cons k ks)
  let ?h = "call_pressure k (last_pressure g k) (kind_pressure g k)
    (emit [EV_PRESSURE k (last_pressure g k) (kind_pressure g k)]
      (g\<lparr>last_pressure := (last_pressure g)(k := kind_pressure g k)\<rparr>))"
  obtain lp em where "notify_kinds ks ?h = ?h\<lparr>last_pressure := lp, emitted := em\<rparr>" using Cons.IH by blast
  then have "notify_kinds ks ?h = g\<lparr>last_pressure := lp, emitted := em\<rparr>" by (simp add: call_pressure_def emit_def)
  with Cons.IH [of g] show ?case by (auto simp: Let_def)
qed

lemma notify_only: "\<exists>lp em. notify_pressure (emit es g) = g\<lparr>last_pressure := lp, emitted := em\<rparr>"
proof (cases "event_callbacks (emit es g) \<or> pressure_callbacks (emit es g)")
  case True
  obtain lp em where "notify_kinds all_kinds (emit es g) = (emit es g)\<lparr>last_pressure := lp, emitted := em\<rparr>"
    using notify_kinds_only by blast
  then have "notify_pressure (emit es g) = g\<lparr>last_pressure := lp, emitted := em\<rparr>"
    using True by (simp add: notify_pressure_def emit_def)
  then show ?thesis by blast
next
  case False
  then have "\<not> event_callbacks g" by (auto simp: emit_def split: if_splits)
  then have "emit es g = g" by (simp add: emit_def)
  with False have "notify_pressure (emit es g) = g\<lparr>last_pressure := last_pressure g, emitted := emitted g\<rparr>"
    by (simp add: notify_pressure_def)
  then show ?thesis by blast
qed

lemma notify_grantable: "grantable (notify_pressure (emit es g)) = grantable g"
  and notify_expired: "expired_now cs now (notify_pressure (emit es g)) = expired_now cs now g"
proof -
  obtain lp em where n: "notify_pressure (emit es g) = g\<lparr>last_pressure := lp, emitted := em\<rparr>" using notify_only by blast
  have "would_block (notify_pressure (emit es g)) = would_block g" unfolding n by (rule would_block_cong) simp_all
  then show "grantable (notify_pressure (emit es g)) = grantable g" by (simp add: grantable_def) (simp add: n)
  have "expiry cs now (notify_pressure (emit es g)) = expiry cs now g"
    unfolding n by (simp add: fun_eq_iff expiry_def wait_limit_def)
  then show "expired_now cs now (notify_pressure (emit es g)) = expired_now cs now g"
    by (simp add: expired_now_def) (simp add: n)
qed

text \<open>
  With no lease and a request in the queue, nothing is granted: \<open>admit\<close> queues what comes, and only a
  release drains. The latch holds for one ticket that has not been granted.
\<close>

definition stranded :: "nat \<Rightarrow> governor \<Rightarrow> bool" where
  "stranded t g \<longleftrightarrow> gov_ok g \<and> t < next_ticket g \<and> outcome (answer_of g t) \<noteq> GRANTED
     \<and> (outcome (answer_of g t) = QUEUED \<longrightarrow> leases g = [])"

fun drains :: "gov_call \<Rightarrow> bool" where
  "drains (DRAIN cs now) = True"
| "drains _ = False"

lemma leases_decide: "queue g \<noteq> [] \<Longrightarrow> gmode g = ENFORCE \<Longrightarrow> leases (snd (decide now p r g)) = leases g"
  by (simp add: decide_def enqueue_def Let_def)

lemma leases_frame [simp]:
  "leases (notify_pressure (emit es g)) = leases g" "answers (notify_pressure (emit es g)) = answers g"
  "next_ticket (notify_pressure (emit es g)) = next_ticket g"
  "leases (emit es g) = leases g" "answers (emit es g) = answers g" "next_ticket (emit es g) = next_ticket g"
  using core_notify [of "emit es g"] core_emit [of es g] unfolding core_eq by simp_all

lemma leases_cancel [simp]: "leases (snd (cancel_locked rid oc why g)) = leases g"
  by (simp add: cancel_locked_def split: option.split)

lemma leases_shutdown [simp]: "leases (shutdown g) = leases g"
  using shut_frame [of leases "queue g" "g\<lparr>shutting_down := True\<rparr>"]
  by (simp add: shutdown_def Let_def emit_def)

lemma outcome_cancel:
  assumes "gov_ok g"
  shows "outcome (answer_of (snd (cancel_locked rid oc why g)) t) \<in> {oc, outcome (answer_of g t)}"
proof (cases "dict_get (queued_by_id g) rid")
  case (Some t')
  have "answer_of (g\<lparr>queue := qs, queued_by_id := m\<rparr>) = answer_of g" for qs m
    by (rule answer_of_cong) simp
  with Some show ?thesis by (simp add: cancel_locked_def answer_at)
qed (simp add: cancel_locked_def)

lemma outcome_shutdown:
  "outcome (answer_of (shutdown g) t) \<in> {SHUTDOWN, outcome (answer_of g t)}"
proof -
  have "answer_of (h\<lparr>queue := [], queued_by_id := []\<rparr>) = answer_of h" "answer_of (g\<lparr>shutting_down := True\<rparr>) = answer_of g"
    for h by (rule answer_of_cong; simp)+
  then show ?thesis by (simp add: shutdown_def Let_def shut_outcome)
qed

lemma next_ticket_cancel [simp]: "next_ticket (snd (cancel_locked rid oc why g)) = next_ticket g"
  by (simp add: cancel_locked_def split: option.split)

lemma next_ticket_shutdown [simp]: "next_ticket (shutdown g) = next_ticket g"
  using shut_frame [of next_ticket "queue g" "g\<lparr>shutting_down := True\<rparr>"]
  by (simp add: shutdown_def Let_def emit_def)

lemma answer_of_notify [simp]: "answer_of (notify_pressure (emit es g)) = answer_of g"
  by (rule answer_of_cong) simp

lemma admit_cases:
  obtains (refused) "answers (snd (admit now r g)) = answers g" "leases (snd (admit now r g)) = leases g"
      "next_ticket (snd (admit now r g)) = next_ticket g"
  | (decided) d where "d = snd (decide now (compute_pressure g (normalize_request r)) (normalize_request r) g)"
      "answers (snd (admit now r g)) = answers d" "leases (snd (admit now r g)) = leases d"
      "next_ticket (snd (admit now r g)) = next_ticket d"
  by (cases "shutting_down g"; cases "check_impossible g (normalize_request r)"; cases "gmode g")
    (auto simp: admit_def Let_def split_beta)

lemma stranded_queued:
  assumes "stranded t g" "outcome (answer_of g t) = QUEUED"
  shows "leases g = []" "queue g \<noteq> []" "gmode g = ENFORCE"
proof -
  show "leases g = []" using assms by (simp add: stranded_def)
  have "t \<in> ticket ` set (queue g)" using assms by (auto simp: stranded_def gov_ok_def tickets_ok_def)
  then show "queue g \<noteq> []" by auto
  then show "gmode g = ENFORCE" using assms(1) by (auto simp: stranded_def gov_ok_def)
qed

lemma stranded_by_answer:
  assumes "stranded t g" "gov_ok h" "leases h = leases g" "next_ticket h = next_ticket g"
    "outcome (answer_of h t) \<in> {CANCELLED, CAPACITY_TIMEOUT, SHUTDOWN, outcome (answer_of g t)}"
  shows "stranded t h"
  using assms by (auto simp: stranded_def)

definition calm :: "nat \<Rightarrow> governor \<Rightarrow> governor \<Rightarrow> bool" where
  "calm t g h \<longleftrightarrow> leases h = leases g \<and> next_ticket h = next_ticket g
     \<and> outcome (answer_of h t) \<in> {CANCELLED, CAPACITY_TIMEOUT, SHUTDOWN, outcome (answer_of g t)}"

lemma calm_refl [simp]: "calm t g g"
  by (simp add: calm_def)

lemma calm_totals [simp]:
  "calm t g (h\<lparr>total_timeouts := n\<rparr>) = calm t g h" "calm t g (h\<lparr>total_cancellations := n\<rparr>) = calm t g h"
  "calm t g (emit es h) = calm t g h"
  by (simp_all add: calm_def)

lemma calm_cancel [simp]:
  "gov_ok g \<Longrightarrow> oc \<in> {CANCELLED, CAPACITY_TIMEOUT} \<Longrightarrow> calm t g (snd (cancel_locked rid oc why g))"
  using outcome_cancel [of g rid oc why t] by (auto simp: calm_def)

lemma calm_wait: "gov_ok g \<Longrightarrow> calm t g (snd (wait_round cs detail now r limit started t' g))"
  by (simp add: wait_round_def Let_def)

lemma calm_cancel_request: "gov_ok g \<Longrightarrow> calm t g (snd (cancel_request rid g))"
  by (simp add: cancel_request_def split_beta)

lemma stranded_calm: "stranded t g \<Longrightarrow> gov_ok h \<Longrightarrow> calm t g h \<Longrightarrow> stranded t h"
  by (rule stranded_by_answer [of t g h]) (simp_all add: calm_def)

lemma stranded_step:
  assumes g: "stranded t g" and x: "\<not> drains x"
  shows "stranded t (gov_step g x)"
proof (cases "outcome (answer_of g t) = QUEUED")
  case False
  then have "answered t (answer_of g t) g" using g by (simp add: answered_def stranded_def)
  then have "answered t (answer_of g t) (gov_step g x)" by (rule answered.step_P)
  then show ?thesis using g by (simp add: answered_def stranded_def)
next
  case True
  note idle = stranded_queued [OF g True]
  have ok: "gov_ok g" using g by (simp add: stranded_def)
  have ok': "gov_ok (gov_step g x)" using ok by (rule gov.step_P)
  have t: "t < next_ticket g" using g by (simp add: stranded_def)
  show ?thesis
  proof (cases x)
    case (ADMIT now r)
    show ?thesis
    proof (cases rule: admit_cases [of now r g])
      case refused
      with g ok' ADMIT show ?thesis
        by (intro stranded_by_answer [OF g]) (auto simp: answer_of_def)
    next
      case (decided d)
      have "answer_of (snd (admit now r g)) = answer_of d" using decided(2) by (rule answer_of_cong)
      with decided answer_decide [OF t] leases_decide [OF idle(2,3)] g ok' ADMIT True show ?thesis
        by (simp add: stranded_def)
    qed
  next
    case (RELEASE cs now l u)
    with g idle(1) show ?thesis by (simp add: release_lease_def)
  next
    case (CANCEL rid)
    then show ?thesis using stranded_calm [OF g ok'] calm_cancel_request [OF ok] by simp
  next
    case (WAIT_ROUND cs detail now r limit started t')
    then show ?thesis using stranded_calm [OF g ok'] calm_wait [OF ok] by simp
  next
    case SHUT_DOWN
    with ok' outcome_shutdown [of g t] show ?thesis by (intro stranded_by_answer [OF g]) auto
  next
    case (PUBLISH phase r rs actual)
    with g ok' show ?thesis by (intro stranded_by_answer [OF g]) (auto simp: publish_accounting_def)
  qed (use x g ok' in \<open>auto simp: stranded_def answer_of_def set_limit_for_run_def remove_limit_for_run_def\<close>)
qed

lemma stranded_forever:
  "stranded t g \<Longrightarrow> list_all (\<lambda>x. \<not> drains x) xs \<Longrightarrow> stranded t (foldl gov_step g xs)"
  by (induction xs arbitrary: g) (auto intro: stranded_step)

definition sample_config :: gov_config where
  "sample_config = \<lparr>mode_name = '' Enforce '', worker_global = 4, worker_root = 4, worktree_global = 1, worktree_root = 1,
     event_max = 1, tool_global = 2, tool_root = 2, queue_max_cfg = 8, queue_timeout_cfg = 30\<rparr>"

definition sample_request :: "string \<Rightarrow> resource_kind \<Rightarrow> request" where
  "sample_request rid k = \<lparr>request_id = rid, root_id = ''root'', run_id = ''run'', resources = [(k, 1)], timeout_s = 10,
     cancel_token = None\<rparr>"

text \<open>An event quota that is used up, a request that waits for it, and a request for a tool behind it.\<close>

definition sample_history :: "gov_call list" where
  "sample_history =
     [ADMIT 0 (sample_request ''a'' EVENT_CAPACITY), RELEASE (\<lambda>t. False) 1 0 (USED_EACH [(EVENT_CAPACITY, 1)]),
      ADMIT 2 (sample_request ''b'' EVENT_CAPACITY), ADMIT 3 (sample_request ''c'' TOOL_SLOT)]"

lemma sample_waits:
  "let g = foldl gov_step (new_governor sample_config) sample_history
   in leases g = [] \<and> map ticket (grantable g) = [1] \<and> map ticket (queue g) = [0, 1] \<and> next_ticket g = 2"
  by code_simp

section \<open>What a release changes\<close>

lemma expire_frame:
  "leases (fst (expire cs now q g)) = leases g" "next_lease (fst (expire cs now q g)) = next_lease g"
  "consumed (fst (expire cs now q g)) = consumed g" "set (queue (fst (expire cs now q g))) \<subseteq> set (queue g)"
  using set_remove1_subset [of q "queue g"]
  by (simp_all add: expire_settles answer_def unqueue_def Let_def split: option.split prod.split)

lemma expire_all_frame:
  "leases (fst (expire_all cs now qs g)) = leases g" "next_lease (fst (expire_all cs now qs g)) = next_lease g"
  "consumed (fst (expire_all cs now qs g)) = consumed g" "set (queue (fst (expire_all cs now qs g))) \<subseteq> set (queue g)"
proof (induction qs arbitrary: g)
  case (Cons q qs)
  { case 1 with Cons(1) show ?case by (simp add: split_beta Let_def expire_frame) }
  { case 2 with Cons(2) show ?case by (simp add: split_beta Let_def expire_frame) }
  { case 3 with Cons(3) show ?case by (simp add: split_beta Let_def expire_frame) }
  { case 4 with Cons(4) [of "fst (expire cs now q g)"] expire_frame(4) [of cs now q g] show ?case
      by (auto simp: split_beta Let_def) }
qed simp_all

text \<open>A drain adds leases, numbered on, for requests that were in the queue, and nothing else.\<close>

definition leases_added :: "governor \<Rightarrow> governor \<Rightarrow> (nat \<times> request) list \<Rightarrow> bool" where
  "leases_added g h new \<longleftrightarrow> leases h = leases g @ new
     \<and> list_all (\<lambda>(n, r). next_lease g \<le> n \<and> r \<in> set (map req (queue g))) new"

lemma drain_frame:
  "(\<exists>new. leases_added g (fst (drain cs now g)) new) \<and> consumed (fst (drain cs now g)) = consumed g"
proof (induction cs now g rule: drain.induct)
  case (1 cs now g)
  obtain g1 es where e: "expire_all cs now (queue g) g = (g1, es)" by fastforce
  note f = expire_all_frame [of cs now "queue g" g, unfolded e fst_conv]
  show ?case
  proof (cases "queue g = [] \<or> pick g1 = None")
    case True
    with e f show ?thesis
      by (auto simp: drain.simps [of cs now g] leases_added_def)
  next
    case False
    then obtain q where q: "queue g \<noteq> []" "pick g1 = Some q" by auto
    obtain g2 fs where gr: "grant_queued now q g1 = (g2, fs)" by fastforce
    have d: "fst (drain cs now g) = fst (drain cs now g2)"
      using q e gr by (simp add: drain.simps [of cs now g] split_beta)
    have qq: "q \<in> set (queue g1)" using pick_queued [OF q(2)] by simp
    have two: "leases g2 = leases g @ [(next_lease g, req q)]" "next_lease g2 = next_lease g + 1" "consumed g2 = consumed g"
      "set (queue g2) \<subseteq> set (queue g)"
      using f gr grant_queued_state [of now q g1] set_remove1_subset [of q "queue g1"]
      by (auto simp: Let_def answer_def grant_def unqueue_def)
    obtain new where n: "leases_added g2 (fst (drain cs now g2)) new" and c: "consumed (fst (drain cs now g2)) = consumed g2"
      using 1 [OF q(1) e [symmetric] refl q(2) gr [symmetric] refl] by blast
    have "leases_added g (fst (drain cs now g2)) ((next_lease g, req q) # new)"
      using n two(1,2) qq f(4) image_mono [OF two(4), of req] unfolding leases_added_def by (fastforce simp: list_all_iff)
    then show ?thesis unfolding d using c two(3) by auto
  qed
qed


lemma normalize_id [simp]: "request_id (normalize_request r) = request_id r"
  by (simp add: normalize_request_def)






section \<open>Properties\<close>

text \<open>
  C18. Admission is sound: after any sequence of calls the reserved counters are exactly what the active
  leases hold, and when the mode is enforce, the leases together never hold more than the limit of a
  kind and the leases of one root session never more than its share. Calls that race are sequences of
  steps, since every method holds the lock.
\<close>

theorem leases_within_capacity:
  assumes "g = foldl gov_step (new_governor c) xs"
  shows "reserved g k = held g k
    \<and> (validate_mode (mode_name c) = ENFORCE \<and> limits_of c k > 0 \<longrightarrow> held g k \<le> limits_of c k)
    \<and> (validate_mode (mode_name c) = ENFORCE \<and> root_limits_of c k > 0 \<longrightarrow> root_held g x k \<le> root_limits_of c k)"
proof -
  have "settled (new_governor c) (new_governor c)" using new_governor_ok by (simp add: settled_def)
  then have "settled (new_governor c) g" unfolding assms by (rule fixed_limits.run_inv)
  then show ?thesis
    by (auto simp: settled_def gov_ok_def books_def limits_kept_def new_governor_def)
qed

theorem leases_within_capacity_witness:
  "held (foldl gov_step (new_governor sample_config) sample_history) TOOL_SLOT \<le> 2"
proof -
  have "validate_mode (mode_name sample_config) = ENFORCE" "limits_of sample_config TOOL_SLOT = 2" by code_simp+
  then show ?thesis
    using leases_within_capacity [OF refl, of sample_config sample_history TOOL_SLOT] by simp
qed



text \<open>
  With two requests of one id in the queue the same is not true: the table of ids leads only to the second, so the
  first is told that it timed out while the entry of the second is taken out of the queue, and a later release
  grants a lease to the first, which nobody holds.
\<close>

theorem shared_id_strands_waiter:
  "let r = sample_request ''b'' EVENT_CAPACITY;
       g = foldl gov_step (new_governor sample_config) [ADMIT 0 (sample_request ''a'' EVENT_CAPACITY), ADMIT 1 r, ADMIT 2 r];
       (told, h) = wait_round (\<lambda>t. False) id 3 r (Some 1) 1 0 g;
       h' = gov_step h (RELEASE (\<lambda>t. False) 4 0 (USED_EACH []))
   in map_option outcome told = Some CAPACITY_TIMEOUT \<and> outcome (answer_of h' 0) = GRANTED \<and> map fst (leases h') = [1]"
  by code_simp

text \<open>
  C30. Releasing a lease takes it out of the table, gives back what it reserved and settles the queue. The leases
  afterwards are the others followed by new ones, with new numbers, for requests that were in the queue; of each
  kind, what was reserved has fallen by the amount of the released lease and grown by the amounts of the new ones;
  the counters, in all and of every root session, are what the leases then hold; what it used up of a quota is
  booked; and no request is left that fits into the capacity, none whose wait is over and none whose token is
  cancelled.
\<close>

theorem release_drains_the_queue:
  assumes "g = foldl gov_step (new_governor c) xs" "dict_get (leases g) l = Some r"
    and "h = gov_step g (RELEASE cs now l u)"
  shows "(\<exists>new. leases h = dict_del l (leases g) @ new
        \<and> list_all (\<lambda>(n, r'). next_lease g \<le> n \<and> r' \<in> set (map req (queue g))) new
        \<and> reserved h k = reserved g k - amount r k + (\<Sum>(n, r')\<leftarrow>new. amount r' k))
    \<and> dict_get (leases h) l = None \<and> reserved h k = held h k \<and> counter_at (root_reserved h) x k = root_held h x k
    \<and> consumed h = consume (resources r) (actual_usage r u) (consumed g)
    \<and> grantable h = [] \<and> expired_now cs now h = []"
proof -
  let ?b = "give_back l r (actual_usage r u) g"
  let ?d = "fst (drain cs now ?b)"
  have ok: "gov_ok g" unfolding assms(1) by (rule reachable_gov)
  then have b: "gov_ok ?b" using assms(2) by (rule gov.back_P)
  obtain es where h: "h = notify_pressure (emit es ?d)"
    unfolding assms(3) using assms(2) by (simp add: release_lease_def Let_def split_beta)
  obtain new where n: "leases_added ?b ?d new" and c: "consumed ?d = consumed ?b" using drain_frame by blast
  have l: "leases h = dict_del l (leases g) @ new" using n by (simp add: h leases_added_def)
  have "gov_ok h" unfolding assms(3) using ok by (rule gov.step_P)
  then have books: "reserved h = held h" "counter_at (root_reserved h) = root_held h" by (simp_all add: gov_ok_def books_def)
  have old: "is_dict (leases g)" "reserved g = held g" "l < next_lease g"
    using ok map_of_SomeD [OF assms(2)] by (auto simp: gov_ok_def books_def)
  have added: "list_all (\<lambda>(n, r'). next_lease g \<le> n \<and> r' \<in> set (map req (queue g))) new"
    using n by (simp add: leases_added_def)
  then have "dict_get new l = None" using old(3) by (auto simp: list_all_iff map_of_eq_None_iff)
  then have "dict_get (leases h) l = None" using old(1) by (simp add: l dict_simps map_add_def)
  moreover have "reserved h k = reserved g k - amount r k + (\<Sum>(n, r')\<leftarrow>new. amount r' k)"
    using sum_del [OF old(1) assms(2), of "\<lambda>r. amount r k"] by (simp add: books old(2) held_def l)
  moreover have "consumed h = consume (resources r) (actual_usage r u) (consumed g)"
    using core_notify [of "emit es ?d"] core_emit [of es ?d] c unfolding h core_eq by (simp add: give_back_def)
  moreover have "grantable h = []" "expired_now cs now h = []"
    using drain_settles [of cs now ?b] drain_clean [OF b, of cs now] by (simp_all add: h notify_grantable notify_expired)
  ultimately show ?thesis using l added books by auto
qed

text \<open>A lease of the event quota, a request that waits for it, and the release of the lease unused.\<close>

theorem release_drains_the_queue_witness:
  "let g = foldl gov_step (new_governor sample_config)
         [ADMIT 0 (sample_request ''a'' EVENT_CAPACITY), ADMIT 1 (sample_request ''b'' EVENT_CAPACITY)];
       h = gov_step g (RELEASE (\<lambda>t. False) 2 0 (USED_EACH []))
   in length (queue g) = 1 \<and> dict_get (leases h) 0 = None \<and> grantable h = [] \<and> map fst (leases h) = [1]"
proof -
  let ?g = "foldl gov_step (new_governor sample_config)
    [ADMIT 0 (sample_request ''a'' EVENT_CAPACITY), ADMIT 1 (sample_request ''b'' EVENT_CAPACITY)]"
  have "dict_get (leases ?g) 0 = Some (sample_request ''a'' EVENT_CAPACITY)" by code_simp
  from release_drains_the_queue [OF refl this refl]
  have "dict_get (leases (gov_step ?g (RELEASE (\<lambda>t. False) 2 0 (USED_EACH [])))) 0 = None
    \<and> grantable (gov_step ?g (RELEASE (\<lambda>t. False) 2 0 (USED_EACH []))) = []" by blast
  moreover have "length (queue ?g) = 1" "map fst (leases (gov_step ?g (RELEASE (\<lambda>t. False) 2 0 (USED_EACH [])))) = [1]"
    by code_simp+
  ultimately show ?thesis by (simp add: Let_def)
qed

text \<open>
  Shutting down is final: every request in the queue is told so, the queue stays empty, and no call
  of any later sequence grants a lease.
\<close>

theorem shutdown_is_final:
  assumes "g = foldl gov_step (new_governor c) xs" "h = foldl gov_step (shutdown g) ys"
  shows "shutting_down h \<and> queue h = [] \<and> next_lease h = next_lease g
    \<and> list_all (\<lambda>q. outcome (answer_of h (ticket q)) = SHUTDOWN) (queue g)"
proof -
  have ok: "gov_ok g" unfolding assms(1) by (rule reachable_gov)
  have "closed_at (next_lease g) (shutdown g)"
    using gov.shutdown_P [OF ok] shut_frame [of next_lease "queue g" "g\<lparr>shutting_down := True\<rparr>"]
      shut_frame [of shutting_down "queue g" "g\<lparr>shutting_down := True\<rparr>"]
    by (simp add: closed_at_def shutdown_def Let_def emit_def)
  then have "closed_at (next_lease g) h" unfolding assms(2) by (rule closed.run_inv)
  moreover have "outcome (answer_of h (ticket q)) = SHUTDOWN" if "q \<in> set (queue g)" for q
  proof -
    have "\<not> shutting_down g" using ok that by (auto simp: gov_ok_def)
    moreover have "answer_of (k\<lparr>queue := [], queued_by_id := []\<rparr>) = answer_of k" for k
      by (rule answer_of_cong) simp
    ultimately have told: "outcome (answer_of (shutdown g) (ticket q)) = SHUTDOWN"
      using that by (simp add: shutdown_def Let_def shut_outcome)
    then have "answered (ticket q) (answer_of (shutdown g) (ticket q)) (shutdown g)"
      using waits_in_queue [OF ok that] gov.shutdown_P [OF ok] by (simp add: answered_def)
    then have "answered (ticket q) (answer_of (shutdown g) (ticket q)) h"
      unfolding assms(2) by (rule answered.run_inv)
    then show ?thesis using told by (simp add: answered_def)
  qed
  ultimately show ?thesis by (auto simp: closed_at_def gov_ok_def list_all_iff)
qed

theorem shutdown_is_final_witness:
  "queue (foldl gov_step (shutdown (foldl gov_step (new_governor sample_config) sample_history)) [SHUT_DOWN]) = []"
  using shutdown_is_final [OF refl refl, of sample_config sample_history "[SHUT_DOWN]"] by simp

text \<open>
  Forgotten waiters: when no lease is active, a request that waits in the queue is never granted,
  whatever else is called and however much capacity is free. New requests join the queue behind it, and
  only the release of a lease would drain the queue.
\<close>

theorem idle_governor_forgets_waiters:
  assumes "g = foldl gov_step (new_governor c) xs" "leases g = []" "q \<in> set (queue g)"
    and "list_all (\<lambda>x. \<not> drains x) ys"
  shows "outcome (answer_of (foldl gov_step g ys) (ticket q)) \<noteq> GRANTED"
proof -
  have ok: "gov_ok g" unfolding assms(1) by (rule reachable_gov)
  have "stranded (ticket q) g"
    using ok assms(2) waits_in_queue [OF ok assms(3)] by (simp add: stranded_def)
  then have "stranded (ticket q) (foldl gov_step g ys)" using assms(4) by (rule stranded_forever)
  then show ?thesis by (simp add: stranded_def)
qed

theorem idle_governor_forgets_waiters_witness:
  "\<exists>q. q \<in> set (grantable (foldl gov_step (new_governor sample_config) sample_history))
     \<and> outcome (answer_of (foldl gov_step (foldl gov_step (new_governor sample_config) sample_history)
         [CANCEL ''b'', ADMIT 4 (sample_request ''d'' TOOL_SLOT)]) (ticket q)) \<noteq> GRANTED"
proof -
  let ?g = "foldl gov_step (new_governor sample_config) sample_history"
  have g: "leases ?g = []" "map ticket (grantable ?g) = [1]" using sample_waits by (simp_all add: Let_def)
  then obtain q where q: "q \<in> set (grantable ?g)" by (cases "grantable ?g") auto
  then have queued: "q \<in> set (queue ?g)" by (simp add: grantable_def)
  have "list_all (\<lambda>x. \<not> drains x) [CANCEL ''b'', ADMIT 4 (sample_request ''d'' TOOL_SLOT)]" by simp
  with q idle_governor_forgets_waiters [OF refl g(1) queued] show ?thesis by blast
qed

text \<open>
  The limit of a run counts only the leases granted after it was set: with one worker running, a
  limit of one lets a second worker in, although the limit was in force when it was admitted.
\<close>

theorem run_limit_misses_earlier_leases:
  "let g = foldl gov_step (new_governor sample_config)
      [ADMIT 0 (sample_request ''a'' WORKER_SLOT), SET_RUN_LIMIT ''run'' WORKER_SLOT 1,
       ADMIT 1 (sample_request ''b'' WORKER_SLOT)]
   in map (\<lambda>(l, r). run_id r) (leases g) = [''run'', ''run''] \<and> counter_at (run_limits g) ''run'' WORKER_SLOT = 1"
  by code_simp

end
