(* ===== verification/Provider_Governor.thy ===== *)
theory Provider_Governor
  imports Grace_Prelude
begin

text \<open>
  \<^verbatim>\<open>core/provider_governor.py\<close>: the limiter of one provider, with a sliding window of requests per
  minute, a bucket of tokens per minute, a bounded semaphore of concurrent calls and a shared backoff,
  and the table of limiters. The clock is an argument. A call is one step: between its two critical
  sections \<open>acquire\<close> holds nothing but its slot of the semaphore. A limit of 0 is no limit; the bucket,
  which the code then sets to infinity, is not read. The last four fields of the limiter are not in the
  code; they record what was granted and given back.
\<close>

section \<open>The limiter\<close>

record limiter =
  rpm_limit :: nat
  tpm_limit :: nat
  max_concurrent :: nat
  slots :: nat
  request_times :: "time list"
  bucket :: rat
  refill_ts :: time
  backoff_until :: time
  granted_at :: "time list"
  granted_tokens :: rat
  returned_tokens :: rat
  in_use :: int

definition new_limiter :: "nat \<Rightarrow> nat \<Rightarrow> nat \<Rightarrow> time \<Rightarrow> limiter" where
  "new_limiter rpm tpm conc now =
     \<lparr>rpm_limit = rpm, tpm_limit = tpm, max_concurrent = conc, slots = conc, request_times = [], bucket = of_nat tpm,
      refill_ts = now, backoff_until = 0, granted_at = [], granted_tokens = 0, returned_tokens = 0, in_use = 0\<rparr>"

definition refill :: "time \<Rightarrow> limiter \<Rightarrow> limiter" where
  "refill now l =
     (let elapsed = now - refill_ts l; full = of_nat (tpm_limit l)
      in if elapsed \<ge> 60 then l\<lparr>bucket := full, refill_ts := now\<rparr>
         else l\<lparr>bucket := min full (bucket l + elapsed / 60 * full), refill_ts := now\<rparr>)"

definition purge :: "time \<Rightarrow> limiter \<Rightarrow> limiter" where
  "purge now l = l\<lparr>request_times := dropWhile (\<lambda>t. t < now - 60) (request_times l)\<rparr>"

definition take_slot :: "limiter \<Rightarrow> limiter option" where
  "take_slot l = (if max_concurrent l = 0 then Some l else if slots l = 0 then None else Some (l\<lparr>slots := slots l - 1\<rparr>))"

definition free_slot :: "limiter \<Rightarrow> limiter" where
  "free_slot l = (if max_concurrent l = 0 \<or> slots l \<ge> max_concurrent l then l else l\<lparr>slots := slots l + 1\<rparr>)"

definition note_grant :: "time \<Rightarrow> nat \<Rightarrow> limiter \<Rightarrow> limiter" where
  "note_grant now tokens l = l\<lparr>granted_at := granted_at l @ [now],
     granted_tokens := granted_tokens l + (if tpm_limit l > 0 then of_nat tokens else 0), in_use := in_use l + 1\<rparr>"

definition check_tokens :: "time \<Rightarrow> nat \<Rightarrow> limiter \<Rightarrow> bool \<times> limiter" where
  "check_tokens now tokens l =
     (if tpm_limit l = 0 then (True, l)
      else let l1 = refill now l
           in if of_nat tokens > bucket l1 then (False, l1) else (True, l1\<lparr>bucket := bucket l1 - of_nat tokens\<rparr>))"

definition check_limits :: "time \<Rightarrow> nat \<Rightarrow> limiter \<Rightarrow> bool \<times> limiter" where
  "check_limits now tokens l =
     (let l1 = (if rpm_limit l > 0 then purge now l else l)
      in if rpm_limit l > 0 \<and> length (request_times l1) \<ge> rpm_limit l then (False, l1)
         else let (ok, l2) = check_tokens now tokens l1
              in (ok, if ok \<and> rpm_limit l > 0 then l2\<lparr>request_times := request_times l2 @ [now]\<rparr> else l2))"

definition acquire :: "time \<Rightarrow> nat \<Rightarrow> limiter \<Rightarrow> bool \<times> limiter" where
  "acquire now tokens l =
     (if now < backoff_until l then (False, l)
      else case take_slot l of
        None \<Rightarrow> (False, l)
      | Some l1 \<Rightarrow>
          (let (ok, l2) = check_limits now tokens l1
           in (ok, if ok then note_grant now tokens l2 else free_slot l2)))"

definition release :: "int \<Rightarrow> int \<Rightarrow> limiter \<Rightarrow> limiter" where
  "release used held l =
     (let l1 = (if tpm_limit l > 0 \<and> held > used
          then l\<lparr>bucket := min (of_nat (tpm_limit l)) (bucket l + of_int held - of_int used),
                 returned_tokens := returned_tokens l + (of_int held - of_int used)\<rparr> else l)
      in free_slot (l1\<lparr>in_use := in_use l1 - 1\<rparr>))"

definition record_429 :: "time \<Rightarrow> rat \<Rightarrow> limiter \<Rightarrow> limiter" where
  "record_429 now retry_after l = l\<lparr>backoff_until := max (backoff_until l) (now + max 1 retry_after)\<rparr>"

text \<open>
  \<open>acquire_wait\<close> over the clock readings of its rounds: the one of \<open>acquire\<close>, whether the token is
  cancelled then, and the one that is compared with the deadline. \<open>None\<close> is a wait that goes on.
\<close>

fun acquire_wait :: "nat \<Rightarrow> time \<Rightarrow> (time \<times> bool \<times> time) list \<Rightarrow> limiter \<Rightarrow> bool option \<times> limiter" where
  "acquire_wait tokens limit [] l = (None, l)"
| "acquire_wait tokens limit ((now, cancelled, later) # rounds) l =
     (let (ok, l1) = acquire now tokens l
      in if ok then (Some True, l1) else if cancelled then (Some False, l1)
         else if limit - later \<le> 0 then (Some False, l1) else acquire_wait tokens limit rounds l1)"

section \<open>The governor of the providers\<close>

record provider_config =
  rate_limit_enabled :: bool
  cfg_rpm :: int
  cfg_tpm :: int
  cfg_concurrent :: int

type_synonym provider_governor = "(string, limiter) dict"

definition provider_key :: "string \<Rightarrow> string" where
  "provider_key p = str_strip (str_lower p)"

definition create_limiter :: "provider_config option \<Rightarrow> time \<Rightarrow> limiter" where
  "create_limiter cfg now =
     (case cfg of
        None \<Rightarrow> new_limiter 0 0 0 now
      | Some c \<Rightarrow> if rate_limit_enabled c
          then new_limiter (nat (max 0 (cfg_rpm c))) (nat (max 0 (cfg_tpm c))) (nat (max 0 (cfg_concurrent c))) now
          else new_limiter 0 0 0 now)"

definition get_limiter :: "provider_config option \<Rightarrow> time \<Rightarrow> string \<Rightarrow> provider_governor \<Rightarrow> limiter \<times> provider_governor" where
  "get_limiter cfg now p g =
     (case dict_get g (provider_key p) of
        Some l \<Rightarrow> (l, g)
      | None \<Rightarrow> (let l = create_limiter cfg now in (l, dict_set (provider_key p) l g)))"

definition record_response ::
  "provider_config option \<Rightarrow> time \<Rightarrow> string \<Rightarrow> int \<Rightarrow> rat \<Rightarrow> provider_governor \<Rightarrow> provider_governor" where
  "record_response cfg now p code retry_after g =
     (if code = 429
      then let (l, g1) = get_limiter cfg now p g
           in dict_set (provider_key p) (record_429 now (if retry_after > 0 then retry_after else 1) l) g1
      else g)"

section \<open>The capacity of one model call\<close>

text \<open>
  \<^verbatim>\<open>llm/provider_capacity.py\<close>: a request reserves an estimate of its tokens from the limiter attached
  to its backend and gives it back once. The messages are the texts of their contents, the answer of the
  backend its number of tokens, or an exception.
\<close>

record capacity_lease =
  lease_has_limiter :: bool
  lease_reserved :: nat
  lease_acquired :: bool
  lease_released :: bool

datatype capacity = WAITING | TIMED_OUT | LEASED capacity_lease
datatype completion = STILL_WAITING | NO_CAPACITY | BACKEND_RAISED string | ANSWERED int

definition estimate_request_tokens :: "string list \<Rightarrow> int \<Rightarrow> nat" where
  "estimate_request_tokens contents max_output_tokens =
     max 1 (sum_list (map length contents) div 4) + nat (max 0 max_output_tokens)"

definition release_capacity :: "int option \<Rightarrow> capacity_lease \<Rightarrow> limiter \<Rightarrow> capacity_lease \<times> limiter" where
  "release_capacity response lease l =
     (if lease_released lease then (lease, l)
      else let lease1 = lease\<lparr>lease_released := True\<rparr>
           in if \<not> lease_acquired lease1 \<or> \<not> lease_has_limiter lease1 then (lease1, l)
              else (lease1, release (max 0 (the_default 0 response)) (int (lease_reserved lease1)) l))"

definition acquire_capacity ::
  "bool \<Rightarrow> string list \<Rightarrow> int \<Rightarrow> time \<Rightarrow> time \<Rightarrow> (time \<times> bool \<times> time) list \<Rightarrow> limiter \<Rightarrow> capacity \<times> limiter" where
  "acquire_capacity has_limiter contents max_out now timeout_s rounds l =
     (if \<not> has_limiter then (LEASED \<lparr>lease_has_limiter = False, lease_reserved = 0, lease_acquired = False, lease_released = False\<rparr>, l)
      else let reserved = estimate_request_tokens contents max_out;
               (answer, l1) = acquire_wait reserved (now + max 0 (max (1 / 1000) timeout_s)) rounds l
           in (case answer of
                 None \<Rightarrow> WAITING
               | Some False \<Rightarrow> TIMED_OUT
               | Some True \<Rightarrow> LEASED \<lparr>lease_has_limiter = True, lease_reserved = reserved, lease_acquired = True, lease_released = False\<rparr>,
               l1))"

definition complete_with_capacity ::
  "bool \<Rightarrow> string list \<Rightarrow> int \<Rightarrow> time \<Rightarrow> time \<Rightarrow> (time \<times> bool \<times> time) list \<Rightarrow> (string + int) \<Rightarrow> limiter \<Rightarrow> completion \<times> limiter" where
  "complete_with_capacity has_limiter contents max_out now timeout_s rounds backend l =
     (case acquire_capacity has_limiter contents max_out now timeout_s rounds l of
        (WAITING, l1) \<Rightarrow> (STILL_WAITING, l1)
      | (TIMED_OUT, l1) \<Rightarrow> (NO_CAPACITY, l1)
      | (LEASED lease, l1) \<Rightarrow>
          (case backend of
             Inl e \<Rightarrow> (BACKEND_RAISED e, snd (release_capacity None lease l1))
           | Inr n \<Rightarrow> (ANSWERED n, snd (release_capacity (Some n) lease l1))))"

section \<open>Histories of a limiter\<close>

datatype limiter_call = ACQUIRE time nat | RELEASE time int int | TOO_MANY time rat

fun clock_of :: "limiter_call \<Rightarrow> time" where
  "clock_of (ACQUIRE now n) = now"
| "clock_of (RELEASE now u h) = now"
| "clock_of (TOO_MANY now r) = now"

fun limiter_step :: "limiter \<Rightarrow> limiter_call \<Rightarrow> limiter" where
  "limiter_step l (ACQUIRE now n) = snd (acquire now n l)"
| "limiter_step l (RELEASE now u h) = release u h l"
| "limiter_step l (TOO_MANY now r) = record_429 now r l"

definition window :: "time \<Rightarrow> time list \<Rightarrow> time list" where
  "window t ts = filter (\<lambda>x. t - 60 \<le> x \<and> x \<le> t) ts"

text \<open>The request window: what was purged is too old for every window that ends now or later.\<close>

definition window_ok :: "time \<Rightarrow> limiter \<Rightarrow> bool" where
  "window_ok now l \<longleftrightarrow> rpm_limit l > 0 \<longrightarrow>
     (\<exists>old. granted_at l = old @ request_times l \<and> (\<forall>x \<in> set old. x < now - 60) \<and> sorted (request_times l)
        \<and> (\<forall>x \<in> set (granted_at l). x \<le> now) \<and> (\<forall>t. length (window t (granted_at l)) \<le> rpm_limit l))"

text \<open>The bucket: what was granted is covered by a full bucket, the refill since the start and what came back.\<close>

definition bucket_ok :: "time \<Rightarrow> time \<Rightarrow> limiter \<Rightarrow> bool" where
  "bucket_ok start now l \<longleftrightarrow> 0 \<le> bucket l \<and> bucket l \<le> of_nat (tpm_limit l) \<and> start \<le> refill_ts l \<and> refill_ts l \<le> now
     \<and> granted_tokens l + bucket l \<le> of_nat (tpm_limit l) + (refill_ts l - start) / 60 * of_nat (tpm_limit l) + returned_tokens l"

lemma window_append: "window t (ts @ us) = window t ts @ window t us"
  by (simp add: window_def)

lemma purge_split:
  assumes "sorted ts"
  shows "\<exists>gone. ts = gone @ dropWhile (\<lambda>t. t < c) ts \<and> (\<forall>x \<in> set gone. x < c)"
  by (rule exI [of _ "takeWhile (\<lambda>t. t < c) ts"]) (auto dest: set_takeWhileD)

lemma window_later: "window_ok now l \<Longrightarrow> now \<le> later \<Longrightarrow> window_ok later l"
  unfolding window_ok_def
proof
  assume ok: "rpm_limit l > 0 \<longrightarrow> (\<exists>old. granted_at l = old @ request_times l \<and> (\<forall>x \<in> set old. x < now - 60)
      \<and> sorted (request_times l) \<and> (\<forall>x \<in> set (granted_at l). x \<le> now)
      \<and> (\<forall>t. length (window t (granted_at l)) \<le> rpm_limit l))" and le: "now \<le> later" and "rpm_limit l > 0"
  then obtain old where old: "granted_at l = old @ request_times l" "\<forall>x \<in> set old. x < now - 60"
      "sorted (request_times l)" "\<forall>x \<in> set (granted_at l). x \<le> now" "\<forall>t. length (window t (granted_at l)) \<le> rpm_limit l"
    by blast
  have "x < later - 60" if "x \<in> set old" for x using old(2) that le by force
  moreover have "x \<le> later" if "x \<in> set (granted_at l)" for x using old(4) that le by force
  ultimately show "\<exists>old. granted_at l = old @ request_times l \<and> (\<forall>x \<in> set old. x < later - 60)
      \<and> sorted (request_times l) \<and> (\<forall>x \<in> set (granted_at l). x \<le> later)
      \<and> (\<forall>t. length (window t (granted_at l)) \<le> rpm_limit l)"
    using old by blast
qed

lemma window_frame:
  "rpm_limit l' = rpm_limit l \<Longrightarrow> granted_at l' = granted_at l \<Longrightarrow> request_times l' = request_times l
   \<Longrightarrow> window_ok now l' = window_ok now l"
  by (simp add: window_ok_def)

lemma window_purge:
  assumes "window_ok now l"
  shows "window_ok now (purge now l)"
  unfolding window_ok_def
proof
  assume "rpm_limit (purge now l) > 0"
  then obtain old where old: "granted_at l = old @ request_times l" "\<forall>x \<in> set old. x < now - 60"
      "sorted (request_times l)" "\<forall>x \<in> set (granted_at l). x \<le> now" "\<forall>t. length (window t (granted_at l)) \<le> rpm_limit l"
    using assms by (auto simp: window_ok_def purge_def)
  obtain gone where gone: "request_times l = gone @ dropWhile (\<lambda>t. t < now - 60) (request_times l)"
      "\<forall>x \<in> set gone. x < now - 60"
    using purge_split [OF old(3)] by blast
  show "\<exists>old. granted_at (purge now l) = old @ request_times (purge now l) \<and> (\<forall>x \<in> set old. x < now - 60)
      \<and> sorted (request_times (purge now l)) \<and> (\<forall>x \<in> set (granted_at (purge now l)). x \<le> now)
      \<and> (\<forall>t. length (window t (granted_at (purge now l))) \<le> rpm_limit (purge now l))"
    using old gone sorted_dropWhile by (intro exI [of _ "old @ gone"]) (auto simp: purge_def)
qed

lemma window_grant:
  assumes "window_ok now l" "length (request_times l) < rpm_limit l"
    and "granted_at l' = granted_at l @ [now]" "request_times l' = request_times l @ [now]" "rpm_limit l' = rpm_limit l"
  shows "window_ok now l'"
  unfolding window_ok_def
proof
  obtain old where old: "granted_at l = old @ request_times l" "\<forall>x \<in> set old. x < now - 60"
      "sorted (request_times l)" "\<forall>x \<in> set (granted_at l). x \<le> now" "\<forall>t. length (window t (granted_at l)) \<le> rpm_limit l"
    using assms(1,2) by (auto simp: window_ok_def)
  have "length (window t (granted_at l')) \<le> rpm_limit l" for t
  proof (cases "t < now")
    case True
    then have "window t (granted_at l') = window t (granted_at l)" by (simp add: assms(3) window_def)
    then show ?thesis using old(5) by simp
  next
    case False
    then have "window t old = []" using old(2) by (force simp: window_def filter_empty_conv)
    then have "window t (granted_at l') = window t (request_times l @ [now])" by (simp add: assms(3) old(1) window_append)
    then have "length (window t (granted_at l')) \<le> Suc (length (request_times l))"
      unfolding window_def by (metis length_filter_le length_append_singleton)
    then show ?thesis using assms(2) by simp
  qed
  then show "\<exists>old. granted_at l' = old @ request_times l' \<and> (\<forall>x \<in> set old. x < now - 60)
      \<and> sorted (request_times l') \<and> (\<forall>x \<in> set (granted_at l'). x \<le> now)
      \<and> (\<forall>t. length (window t (granted_at l')) \<le> rpm_limit l')"
    using old assms by (intro exI [of _ old]) (auto simp: sorted_append)
qed

lemmas acquire_defs = acquire_def take_slot_def check_limits_def check_tokens_def refill_def note_grant_def free_slot_def

lemma check_tokens_fields [simp]:
  "request_times (snd (check_tokens now n l)) = request_times l" "granted_at (snd (check_tokens now n l)) = granted_at l"
  "rpm_limit (snd (check_tokens now n l)) = rpm_limit l" "slots (snd (check_tokens now n l)) = slots l"
  "max_concurrent (snd (check_tokens now n l)) = max_concurrent l" "in_use (snd (check_tokens now n l)) = in_use l"
  by (simp_all add: check_tokens_def refill_def Let_def)

lemma purge_fields [simp]:
  "request_times (purge now l) = dropWhile (\<lambda>t. t < now - 60) (request_times l)" "granted_at (purge now l) = granted_at l"
  "rpm_limit (purge now l) = rpm_limit l" "slots (purge now l) = slots l" "max_concurrent (purge now l) = max_concurrent l"
  "in_use (purge now l) = in_use l" "tpm_limit (purge now l) = tpm_limit l" "bucket (purge now l) = bucket l"
  by (simp_all add: purge_def)

lemma check_limits_fields:
  assumes "rpm_limit l \<noteq> 0"
  shows "granted_at (snd (check_limits now n l)) = granted_at l"
    and "fst (check_limits now n l) \<Longrightarrow> length (request_times (purge now l)) < rpm_limit l"
    and "request_times (snd (check_limits now n l))
      = (if fst (check_limits now n l) then request_times (purge now l) @ [now] else request_times (purge now l))"
  using assms by (auto simp: check_limits_def Let_def split_beta split: if_splits)

lemma slot_fields [simp]:
  "request_times (free_slot l) = request_times l" "granted_at (free_slot l) = granted_at l"
  "request_times (note_grant now n l) = request_times l" "granted_at (note_grant now n l) = granted_at l @ [now]"
  by (simp_all add: free_slot_def note_grant_def)

text \<open>The parts of a successful and of a refused \<open>acquire\<close>.\<close>

lemma acquire_window:
  assumes "window_ok now l"
  shows "window_ok now (snd (acquire now n l))"
proof (cases "rpm_limit l = 0")
  case True
  have "rpm_limit (snd (acquire now n l)) = rpm_limit l"
    by (simp add: acquire_defs Let_def purge_def split_beta split: option.split)
  with True show ?thesis by (simp add: window_ok_def)
next
  case False
  have p: "window_ok now (purge now l)" using assms by (rule window_purge)
  let ?a = "snd (acquire now n l)"
  have same: "rpm_limit ?a = rpm_limit l" by (simp add: acquire_defs Let_def purge_def split_beta split: option.split)
  consider "granted_at ?a = granted_at l" "request_times ?a = request_times l"
    | "granted_at ?a = granted_at l" "request_times ?a = request_times (purge now l)"
    | "granted_at ?a = granted_at l @ [now]" "request_times ?a = request_times (purge now l) @ [now]"
      "length (request_times (purge now l)) < rpm_limit l"
  proof (cases "now < backoff_until l \<or> take_slot l = None")
    case True
    then show thesis by (intro that(1)) (auto simp: acquire_def)
  next
    case False
    then obtain l1 where l1: "take_slot l = Some l1" "\<not> now < backoff_until l" by auto
    then have f: "request_times l1 = request_times l" "granted_at l1 = granted_at l" "rpm_limit l1 = rpm_limit l"
      by (auto simp: take_slot_def split: if_splits)
    have a: "?a = (if fst (check_limits now n l1) then note_grant now n (snd (check_limits now n l1))
        else free_slot (snd (check_limits now n l1)))"
      using l1 by (simp add: acquire_def split_beta)
    have r: "rpm_limit l1 \<noteq> 0" using f(3) \<open>rpm_limit l \<noteq> 0\<close> by simp
    show thesis
    proof (cases "fst (check_limits now n l1)")
      case True
      have "?a = note_grant now n (snd (check_limits now n l1))" unfolding a using True by simp
      then show thesis
        by (intro that(3)) (use f True check_limits_fields [OF r] in \<open>simp_all only: slot_fields purge_fields if_True\<close>)
    next
      case False
      have "?a = free_slot (snd (check_limits now n l1))" unfolding a using False by simp
      then show thesis
        by (intro that(2)) (use f False check_limits_fields [OF r] in \<open>simp_all only: slot_fields purge_fields if_False\<close>)
    qed
  qed
  then show ?thesis
  proof cases
    case 1
    show ?thesis using window_frame [OF same 1] assms by blast
  next
    case 2
    have "window_ok now ?a = window_ok now (purge now l)"
      by (rule window_frame) (simp_all only: same 2 purge_fields)
    with p show ?thesis by blast
  next
    case 3
    show ?thesis by (rule window_grant [OF p]) (use 3 same in \<open>simp_all only: purge_fields\<close>)
  qed
qed

lemma window_step:
  assumes "window_ok now l" "now \<le> clock_of x"
  shows "window_ok (clock_of x) (limiter_step l x)"
proof -
  have later: "window_ok (clock_of x) l" using assms by (rule window_later)
  show ?thesis
  proof (cases x)
    case (ACQUIRE t n)
    with later acquire_window show ?thesis by simp
  next
    case (RELEASE t u h)
    have "window_ok t (release u h l) = window_ok t l"
      by (rule window_frame) (simp_all add: release_def free_slot_def Let_def)
    with later RELEASE show ?thesis by simp
  next
    case (TOO_MANY t r)
    have "window_ok t (record_429 t r l) = window_ok t l"
      by (rule window_frame) (simp_all add: record_429_def)
    with later TOO_MANY show ?thesis by simp
  qed
qed

text \<open>A clock that never goes back: what a call keeps at its own reading holds for a whole history.\<close>

lemma clocked_history:
  assumes "\<And>l now x. P now l \<Longrightarrow> now \<le> clock_of x \<Longrightarrow> P (clock_of x) (limiter_step l x)"
    and "P now l" "sorted (now # map clock_of xs)"
  shows "\<exists>later \<in> set (now # map clock_of xs). P later (foldl limiter_step l xs)"
  using assms(2,3)
proof (induction xs arbitrary: now l)
  case (Cons x xs)
  then have "P (clock_of x) (limiter_step l x)" by (intro assms(1)) auto
  with Cons.IH [of "clock_of x" "limiter_step l x"] Cons.prems show ?case by auto
qed auto

section \<open>The bucket and the slots\<close>

lemma bucket_refill:
  assumes "bucket_ok start now l" "now \<le> later"
  shows "bucket_ok start later (refill later l)"
proof (cases "later - refill_ts l \<ge> 60")
  case True
  have "of_nat (tpm_limit l) \<le> (later - refill_ts l) / 60 * of_nat (tpm_limit l)"
    using mult_right_mono [of 1 "(later - refill_ts l) / 60" "of_nat (tpm_limit l)"] True by simp
  then show ?thesis using assms True
    by (auto simp: bucket_ok_def refill_def Let_def diff_divide_distrib add_divide_distrib algebra_simps)
next
  case False
  have "0 \<le> (later - refill_ts l) / 60 * of_nat (tpm_limit l)"
    using assms by (intro mult_nonneg_nonneg) (auto simp: bucket_ok_def)
  then show ?thesis using assms False
    by (auto simp: bucket_ok_def refill_def Let_def min_def diff_divide_distrib algebra_simps)
qed

lemma bucket_frame:
  "bucket l' = bucket l \<Longrightarrow> tpm_limit l' = tpm_limit l \<Longrightarrow> refill_ts l' = refill_ts l
   \<Longrightarrow> granted_tokens l' = granted_tokens l \<Longrightarrow> returned_tokens l' = returned_tokens l
   \<Longrightarrow> bucket_ok s now l' = bucket_ok s now l"
  by (simp add: bucket_ok_def)

lemma bucket_later: "bucket_ok s now l \<Longrightarrow> now \<le> later \<Longrightarrow> bucket_ok s later l"
  by (auto simp: bucket_ok_def)


lemma bucket_charge:
  assumes "bucket_ok s now l" "of_nat n \<le> bucket l" "tpm_limit l' = tpm_limit l" "refill_ts l' = refill_ts l"
    and "bucket l' = bucket l - of_nat n" "granted_tokens l' = granted_tokens l + of_nat n" "returned_tokens l' = returned_tokens l"
  shows "bucket_ok s now l'"
  using assms by (auto simp: bucket_ok_def)

lemma bucket_return:
  assumes "bucket_ok s now l" "r \<ge> 0" "tpm_limit l' = tpm_limit l" "refill_ts l' = refill_ts l"
    and "bucket l' = min (of_nat (tpm_limit l)) (bucket l + r)" "granted_tokens l' = granted_tokens l"
    and "returned_tokens l' = returned_tokens l + r"
  shows "bucket_ok s now l'"
  using assms by (auto simp: bucket_ok_def min_def)

lemma free_slot_bucket [simp]: "bucket_ok s now (free_slot l) = bucket_ok s now l"
  by (rule bucket_frame) (simp_all add: free_slot_def)

lemma bucket_check:
  assumes "bucket_ok s now l" "tpm_limit l > 0"
  shows "bucket_ok s now (let l2 = snd (check_limits now n l) in if fst (check_limits now n l) then note_grant now n l2 else free_slot l2)"
proof -
  let ?l1 = "if rpm_limit l > 0 then purge now l else l"
  have l1: "bucket_ok s now ?l1" "tpm_limit ?l1 > 0" using assms
    by (auto simp: bucket_ok_def purge_def)
  have r: "bucket_ok s now (refill now ?l1)" using bucket_refill [OF l1(1)] by simp
  show ?thesis
  proof (cases "rpm_limit l > 0 \<and> length (request_times ?l1) \<ge> rpm_limit l")
    case True
    then have "check_limits now n l = (False, ?l1)" by (auto simp: check_limits_def Let_def)
    then show ?thesis using l1(1) by (simp add: Let_def)
  next
    case False
    then have c: "check_limits now n l = (let (ok, l2) = check_tokens now n ?l1
        in (ok, if ok \<and> rpm_limit l > 0 then l2\<lparr>request_times := request_times l2 @ [now]\<rparr> else l2))"
      unfolding check_limits_def Let_def by (simp only: if_False)
    show ?thesis
    proof (cases "of_nat n > bucket (refill now ?l1)")
      case True
      then have "check_tokens now n ?l1 = (False, refill now ?l1)" using l1(2) by (simp add: check_tokens_def Let_def)
      then have "check_limits now n l = (False, refill now ?l1)" using c by simp
      then show ?thesis using r by (simp add: Let_def)
    next
      case short: False
      let ?l2 = "(refill now ?l1)\<lparr>bucket := bucket (refill now ?l1) - of_nat n\<rparr>"
      have "check_tokens now n ?l1 = (True, ?l2)" using short l1(2) by (simp add: check_tokens_def Let_def)
      then have "check_limits now n l = (True, if rpm_limit l > 0 then ?l2\<lparr>request_times := request_times ?l2 @ [now]\<rparr> else ?l2)"
        using c by simp
      moreover have "tpm_limit (refill now ?l1) > 0" using l1(2) by (simp add: refill_def Let_def)
      ultimately show ?thesis
        using short by (auto intro!: bucket_charge [OF r, of n] simp: note_grant_def)
    qed
  qed
qed

lemma bucket_acquire:
  assumes "bucket_ok s now l" "tpm_limit l > 0"
  shows "bucket_ok s now (snd (acquire now n l))"
proof (cases "now < backoff_until l \<or> take_slot l = None")
  case True
  then show ?thesis using assms by (auto simp: acquire_def)
next
  case False
  then obtain l1 where l1: "take_slot l = Some l1" "\<not> now < backoff_until l" by auto
  then have "bucket_ok s now l1" "tpm_limit l1 > 0" using assms by (auto simp: take_slot_def bucket_ok_def split: if_splits)
  from bucket_check [OF this] l1 show ?thesis by (simp add: acquire_def split_beta Let_def)
qed

lemma acquire_tpm: "tpm_limit (snd (acquire now n l)) = tpm_limit l"
  by (simp add: acquire_defs Let_def purge_def split_beta split: option.split)

definition bucket_sound :: "time \<Rightarrow> nat \<Rightarrow> time \<Rightarrow> limiter \<Rightarrow> bool" where
  "bucket_sound s tpm now l \<longleftrightarrow> bucket_ok s now l \<and> tpm_limit l = tpm"

lemma bucket_step:
  assumes "tpm > 0" "bucket_sound s tpm now l" "now \<le> clock_of x"
  shows "bucket_sound s tpm (clock_of x) (limiter_step l x)"
proof -
  have l: "bucket_ok s (clock_of x) l" "tpm_limit l = tpm" using bucket_later assms by (auto simp: bucket_sound_def)
  show ?thesis
  proof (cases x)
    case (ACQUIRE t n)
    with l bucket_acquire [of s t l n] acquire_tpm [of t n l] assms(1) show ?thesis by (simp add: bucket_sound_def)
  next
    case (RELEASE t u h)
    have "bucket_ok s t (release u h l)"
    proof (cases "h > u")
      case True
      show ?thesis
        by (rule bucket_return [of s t l "of_int h - of_int u"])
          (use l RELEASE assms(1) True in \<open>auto simp: release_def free_slot_def Let_def algebra_simps\<close>)
    next
      case False
      have "bucket_ok s t (release u h l) = bucket_ok s t l"
        by (rule bucket_frame) (use False in \<open>simp_all add: release_def free_slot_def Let_def\<close>)
      then show ?thesis using l RELEASE by simp
    qed
    with RELEASE l show ?thesis by (simp add: bucket_sound_def release_def free_slot_def Let_def)
  next
    case (TOO_MANY t r)
    with l show ?thesis by (simp add: bucket_sound_def bucket_ok_def record_429_def)
  qed
qed

text \<open>A caller that gives back only what it was granted: no \<open>release\<close> without a call in flight.\<close>

fun paired :: "limiter \<Rightarrow> limiter_call list \<Rightarrow> bool" where
  "paired l [] \<longleftrightarrow> True"
| "paired l (x # xs) \<longleftrightarrow> (case x of RELEASE t u h \<Rightarrow> in_use l > 0 | _ \<Rightarrow> True) \<and> paired (limiter_step l x) xs"

definition slots_ok :: "limiter \<Rightarrow> bool" where
  "slots_ok l \<longleftrightarrow> in_use l \<ge> 0 \<and> (max_concurrent l > 0 \<longrightarrow> int (slots l) + in_use l = int (max_concurrent l))"

lemma check_limits_slots:
  "slots (snd (check_limits now n l)) = slots l" "max_concurrent (snd (check_limits now n l)) = max_concurrent l"
  "in_use (snd (check_limits now n l)) = in_use l"
  by (simp_all add: check_limits_def Let_def split_beta)

lemma slots_acquire: "slots_ok l \<Longrightarrow> slots_ok (snd (acquire now n l)) \<and> max_concurrent (snd (acquire now n l)) = max_concurrent l"
  by (auto simp: slots_ok_def acquire_def take_slot_def free_slot_def note_grant_def check_limits_slots split_beta
      split: option.split if_splits)

lemma slots_release: "slots_ok l \<Longrightarrow> in_use l > 0 \<Longrightarrow> slots_ok (release u h l) \<and> max_concurrent (release u h l) = max_concurrent l"
  by (auto simp: slots_ok_def release_def free_slot_def Let_def)

lemma slots_history:
  "slots_ok l \<Longrightarrow> paired l xs \<Longrightarrow> slots_ok (foldl limiter_step l xs) \<and> max_concurrent (foldl limiter_step l xs) = max_concurrent l"
proof (induction xs arbitrary: l)
  case (Cons x xs)
  have "slots_ok (limiter_step l x) \<and> max_concurrent (limiter_step l x) = max_concurrent l"
    by (cases x) (use Cons.prems slots_acquire slots_release in \<open>auto simp: slots_ok_def record_429_def\<close>)
  with Cons.IH [of "limiter_step l x"] Cons.prems(2) show ?case by simp
qed simp

lemma acquire_use:
  assumes "slots_ok l"
  shows "in_use (snd (acquire now n l)) = in_use l + (if fst (acquire now n l) then 1 else 0)"
    and "slots_ok (snd (acquire now n l))" "max_concurrent (snd (acquire now n l)) = max_concurrent l"
  using slots_acquire [OF assms, of now n]
  by (auto simp: acquire_def take_slot_def free_slot_def note_grant_def check_limits_slots split_beta split: option.split)

lemma acquire_wait_use:
  "slots_ok l \<Longrightarrow> in_use (snd (acquire_wait n limit rounds l)) = in_use l + (if fst (acquire_wait n limit rounds l) = Some True then 1 else 0)
     \<and> slots_ok (snd (acquire_wait n limit rounds l)) \<and> max_concurrent (snd (acquire_wait n limit rounds l)) = max_concurrent l"
proof (induction rounds arbitrary: l)
  case (Cons x rounds)
  obtain now c later where x: "x = (now, c, later)" by (cases x)
  show ?case using acquire_use [OF Cons.prems, of now n] Cons.IH [of "snd (acquire now n l)"]
    by (simp add: x split_beta)
qed simp

section \<open>What the limiter promises\<close>

text \<open>
  The window of a limiter is a real bound: over any history of calls on a clock that does not go back,
  in every closed window of sixty seconds, wherever it lies, at most \<open>rpm\<close> requests are granted, with
  whatever releases and 429 answers come between; what a purge drops is never counted again.
\<close>
theorem requests_per_minute:
  assumes "rpm > 0" "sorted (now # map clock_of xs)"
  shows "length (window t (granted_at (foldl limiter_step (new_limiter rpm tpm conc now) xs))) \<le> rpm"
proof -
  let ?P = "\<lambda>now l. window_ok now l \<and> rpm_limit l = rpm"
  have "\<exists>later \<in> set (now # map clock_of xs). ?P later (foldl limiter_step (new_limiter rpm tpm conc now) xs)"
  proof (rule clocked_history [of ?P, OF _ _ assms(2)])
    fix l u x assume "?P u l" "u \<le> clock_of x"
    moreover have "rpm_limit (limiter_step l x) = rpm_limit l"
      by (cases x) (simp_all add: acquire_defs release_def record_429_def Let_def purge_def split_beta split: option.split)
    ultimately show "?P (clock_of x) (limiter_step l x)" using window_step [of u l x] by simp
  qed (simp add: window_ok_def new_limiter_def window_def)
  then show ?thesis using assms(1) by (auto simp: window_ok_def)
qed

theorem requests_per_minute_witness:
  "length (window 70 (granted_at (foldl limiter_step (new_limiter 2 0 0 0)
     [ACQUIRE 10 0, ACQUIRE 20 0, ACQUIRE 30 0, ACQUIRE 71 0]))) \<le> 2"
  by (rule requests_per_minute) simp_all

text \<open>
  C28. The bucket bounds the tokens: over any history of calls on a clock that does not go back, the tokens
  granted are at most a full bucket, the share of the minutes gone by, and what releases gave back.
\<close>
theorem tokens_per_minute:
  assumes "tpm > 0" "sorted (start # map clock_of xs @ [now])"
    and "l = foldl limiter_step (new_limiter rpm tpm conc start) xs"
  shows "granted_tokens l \<le> of_nat tpm + (now - start) / 60 * of_nat tpm + returned_tokens l"
proof -
  have "\<exists>later \<in> set (start # map clock_of xs). bucket_sound start tpm later l"
    unfolding assms(3)
  proof (rule clocked_history [of "bucket_sound start tpm"])
    show "bucket_sound start tpm start (new_limiter rpm tpm conc start)"
      by (simp add: bucket_sound_def bucket_ok_def new_limiter_def)
  qed (use assms(1,2) bucket_step in \<open>auto simp: sorted_append\<close>)
  then obtain later where l: "bucket_sound start tpm later l" "later \<le> now"
    using assms(2) by (auto simp: sorted_append)
  then have "(refill_ts l - start) / 60 * of_nat tpm \<le> (now - start) / 60 * of_nat tpm"
    by (intro mult_right_mono divide_right_mono) (auto simp: bucket_sound_def bucket_ok_def)
  with l(1) show ?thesis by (auto simp: bucket_sound_def bucket_ok_def)
qed

text \<open>
  A 429 answer holds everyone back: once recorded at \<open>t\<close> with \<open>r\<close> seconds to wait, whatever calls follow,
  no \<open>acquire\<close> before \<open>t + max 1 r\<close> succeeds, whoever asks, and the refused call leaves the limiter as it was;
  a later 429 with less to wait does not shorten it.
\<close>
theorem shared_backoff_holds:
  assumes "now < t + max 1 r"
  shows "acquire now n (foldl limiter_step (record_429 t r l) xs) = (False, foldl limiter_step (record_429 t r l) xs)"
proof -
  have step: "backoff_until l \<le> backoff_until (limiter_step l x)" for l x
    by (cases x) (simp_all add: acquire_defs release_def record_429_def Let_def purge_def split_beta split: option.split)
  have "b \<le> backoff_until l \<Longrightarrow> b \<le> backoff_until (foldl limiter_step l xs)" for b l
    by (induction xs arbitrary: l) (auto intro: order_trans [OF _ step])
  then have "t + max 1 r \<le> backoff_until (foldl limiter_step (record_429 t r l) xs)" by (simp add: record_429_def)
  with assms show ?thesis by (simp add: acquire_def)
qed

text \<open>
  The semaphore bounds the calls in flight as long as every release answers a grant: then what is in
  flight and the free slots always add up to the maximum, whatever else was refused in between.
\<close>
theorem concurrent_calls_bounded:
  assumes "conc > 0" "paired (new_limiter rpm tpm conc now) xs"
    and "l = foldl limiter_step (new_limiter rpm tpm conc now) xs"
  shows "0 \<le> in_use l \<and> in_use l \<le> int conc \<and> int (slots l) + in_use l = int conc"
  using slots_history [OF _ assms(2)] assms(1,3) by (auto simp: slots_ok_def new_limiter_def)


theorem tokens_per_minute_witness:
  "granted_tokens (foldl limiter_step (new_limiter 0 100 0 0) [ACQUIRE 0 80, ACQUIRE 5 80, RELEASE 20 10 80, ACQUIRE 30 80])
   \<le> of_nat 100 + (45 - 0) / 60 * of_nat 100
     + returned_tokens (foldl limiter_step (new_limiter 0 100 0 0) [ACQUIRE 0 80, ACQUIRE 5 80, RELEASE 20 10 80, ACQUIRE 30 80])"
  by (rule tokens_per_minute [OF _ _ refl]) simp_all

theorem shared_backoff_holds_witness:
  "fst (acquire 12 0 (foldl limiter_step (record_429 10 5 (new_limiter 0 0 1 0)) [TOO_MANY 11 1])) = False"
  by (subst shared_backoff_holds) simp_all

theorem concurrent_calls_bounded_witness:
  "0 \<le> in_use (foldl limiter_step (new_limiter 0 0 2 0) [ACQUIRE 1 0, ACQUIRE 2 0, ACQUIRE 3 0, RELEASE 4 0 0])
   \<and> in_use (foldl limiter_step (new_limiter 0 0 2 0) [ACQUIRE 1 0, ACQUIRE 2 0, ACQUIRE 3 0, RELEASE 4 0 0]) \<le> int 2
   \<and> int (slots (foldl limiter_step (new_limiter 0 0 2 0) [ACQUIRE 1 0, ACQUIRE 2 0, ACQUIRE 3 0, RELEASE 4 0 0]))
     + in_use (foldl limiter_step (new_limiter 0 0 2 0) [ACQUIRE 1 0, ACQUIRE 2 0, ACQUIRE 3 0, RELEASE 4 0 0]) = int 2"
  by (rule concurrent_calls_bounded [OF _ _ refl]) (simp_all, code_simp)


text \<open>
  C29. A model call always gives its slot back: however the wait ends and whether the backend answers or
  raises, after the call there are as many calls in flight and as many free slots as before it; releasing
  the lease of the call a second time changes nothing.
\<close>
theorem capacity_is_given_back:
  assumes "slots_ok l" "max_concurrent l > 0"
  shows "in_use (snd (complete_with_capacity h cs out now timeout_s rounds backend l)) = in_use l
    \<and> slots (snd (complete_with_capacity h cs out now timeout_s rounds backend l)) = slots l
    \<and> release_capacity r' (fst (release_capacity r lease l)) l' = (fst (release_capacity r lease l), l')"
proof -
  let ?n = "estimate_request_tokens cs out" and ?d = "now + max (1 / 1000) timeout_s"
  define w where "w = acquire_wait ?n ?d rounds l"
  have w: "in_use (snd w) = in_use l + (if fst w = Some True then 1 else 0)" "slots_ok (snd w)" "max_concurrent (snd w) = max_concurrent l"
    using acquire_wait_use [OF assms(1)] by (auto simp: w_def)
  have given: "in_use (release u v (snd w)) = in_use l" "slots (release u v (snd w)) = slots l" if "fst w = Some True" for u v
  proof -
    show i: "in_use (release u v (snd w)) = in_use l" using w(1) that by (simp add: release_def free_slot_def Let_def)
    have "in_use (snd w) > 0" using w(1) that assms(1) by (simp add: slots_ok_def)
    from slots_release [OF w(2) this, of u v] i w(3) assms
    show "slots (release u v (snd w)) = slots l" by (auto simp: slots_ok_def)
  qed
  have none: "slots (snd w) = slots l" if "fst w \<noteq> Some True" using w assms that by (auto simp: slots_ok_def)
  have "in_use (snd (complete_with_capacity h cs out now timeout_s rounds backend l)) = in_use l
    \<and> slots (snd (complete_with_capacity h cs out now timeout_s rounds backend l)) = slots l"
    using given none w(1)
    by (auto simp: complete_with_capacity_def acquire_capacity_def release_capacity_def Let_def split_beta w_def [symmetric]
        split: option.splits bool.splits sum.splits)
  then show ?thesis by (simp add: release_capacity_def Let_def)
qed

theorem capacity_is_given_back_witness:
  "slots (snd (complete_with_capacity True [''hello world''] 10 1 60 [(1, False, 1)] (Inl ''boom'') (new_limiter 0 100 2 0)))
   = slots (new_limiter 0 100 2 0)"
  using capacity_is_given_back [of "new_limiter 0 100 2 0"] by (simp add: new_limiter_def slots_ok_def)

end
