(* ===== verification/Cancel_Tree.thy ===== *)
theory Cancel_Tree
  imports Grace_Prelude
begin

text \<open>
  \<^verbatim>\<open>core/cancellation.py\<close>: the tree of cancellation handles and the registry of processes. A handle is
  its index in the list of all handles, so a parent has a smaller index than its children. A call of
  \<open>cancel\<close> has two parts: what it does under the lock, and the callbacks and the cancellation of the
  children after it. Between the two other threads may run, so a cancellation that is still to come
  waits in \<open>cascade\<close>, and any of them may be next. The field \<open>registered\<close> is not in the code: it counts the
  registrations that were not withdrawn before their handle was cancelled.
\<close>

section \<open>Handles\<close>

record handle =
  is_set :: bool
  why :: string
  detail :: string
  callbacks :: "nat list"
  parent :: "nat option"
  children :: "nat list"

record cancel_state =
  handles :: "handle list"
  cascade :: "(nat \<times> string \<times> string) list"
  fired :: "(nat \<times> nat \<times> string) list"
  registered :: "(nat \<times> nat) list"

definition fresh_handle :: "nat option \<Rightarrow> handle" where
  "fresh_handle p = \<lparr>is_set = False, why = [], detail = [], callbacks = [], parent = p, children = []\<rparr>"

definition no_handles :: cancel_state where
  "no_handles = \<lparr>handles = [], cascade = [], fired = [], registered = []\<rparr>"

abbreviation node :: "cancel_state \<Rightarrow> nat \<Rightarrow> handle" where
  "node s h \<equiv> handles s ! h"

function is_cancelled :: "cancel_state \<Rightarrow> nat \<Rightarrow> bool" where
  "is_cancelled s h = (is_set (node s h) \<or> (case parent (node s h) of None \<Rightarrow> False | Some p \<Rightarrow> if p < h then is_cancelled s p else False))"
  by pat_completeness auto
termination by (relation "measure snd") auto

function reason_of :: "cancel_state \<Rightarrow> nat \<Rightarrow> string" where
  "reason_of s h =
     (if is_set (node s h) then why (node s h)
      else case parent (node s h) of None \<Rightarrow> why (node s h) | Some p \<Rightarrow> (if p < h then reason_of s p else why (node s h)))"
  by pat_completeness auto
termination by (relation "measure snd") auto

declare is_cancelled.simps [simp del] reason_of.simps [simp del]

definition new_root :: "cancel_state \<Rightarrow> cancel_state" where
  "new_root s = s\<lparr>handles := handles s @ [fresh_handle None]\<rparr>"

text \<open>\<open>child\<close>: under the parent's lock, either set at once or entered into its children.\<close>

definition new_child :: "nat \<Rightarrow> cancel_state \<Rightarrow> cancel_state" where
  "new_child h s =
     (let p = node s h; c = fresh_handle (Some h); n = length (handles s)
      in if is_set p then s\<lparr>handles := handles s @ [c\<lparr>why := why p, detail := detail p, is_set := True\<rparr>]\<rparr>
         else s\<lparr>handles := (handles s)[h := p\<lparr>children := children p @ [n]\<rparr>] @ [c]\<rparr>)"

definition on_cancel :: "nat \<Rightarrow> nat \<Rightarrow> cancel_state \<Rightarrow> cancel_state" where
  "on_cancel h cb s =
     (if is_set (node s h)
      then s\<lparr>fired := fired s @ [(h, cb, why (node s h))], registered := registered s @ [(h, cb)]\<rparr>
      else s\<lparr>handles := (handles s)[h := (node s h)\<lparr>callbacks := callbacks (node s h) @ [cb]\<rparr>],
             registered := registered s @ [(h, cb)]\<rparr>)"

definition unregister_callback :: "nat \<Rightarrow> nat \<Rightarrow> cancel_state \<Rightarrow> cancel_state" where
  "unregister_callback h cb s =
     s\<lparr>handles := (handles s)[h := (node s h)\<lparr>callbacks := remove1 cb (callbacks (node s h))\<rparr>],
       registered := (if is_set (node s h) then registered s else remove1 (h, cb) (registered s))\<rparr>"

text \<open>\<open>cancel\<close>: the call, and its part under the lock with what follows from it.\<close>

definition call_cancel :: "nat \<Rightarrow> string \<Rightarrow> string \<Rightarrow> cancel_state \<Rightarrow> cancel_state" where
  "call_cancel h r d s = s\<lparr>cascade := (h, r, d) # cascade s\<rparr>"

definition cancel_locked :: "nat \<Rightarrow> string \<Rightarrow> string \<Rightarrow> cancel_state \<Rightarrow> cancel_state" where
  "cancel_locked h r d s =
     (let x = node s h
      in if is_set x \<or> length (handles s) \<le> h then s
         else s\<lparr>handles := (handles s)[h := x\<lparr>why := r, detail := d, is_set := True\<rparr>],
                cascade := map (\<lambda>c. (c, r, d)) (children x) @ cascade s,
                fired := fired s @ map (\<lambda>cb. (h, cb, r)) (callbacks x)\<rparr>)"

definition proceed :: "nat \<Rightarrow> cancel_state \<Rightarrow> cancel_state" where
  "proceed i s =
     (if i < length (cascade s)
      then case cascade s ! i of
        (h, r, d) \<Rightarrow> cancel_locked h r d (s\<lparr>cascade := take i (cascade s) @ drop (Suc i) (cascade s)\<rparr>)
      else s)"

datatype cancel_op =
    NewRoot
  | NewChild nat
  | OnCancel nat nat
  | Unregister nat nat
  | CallCancel nat string string
  | Proceed nat

fun cancel_step :: "cancel_state \<Rightarrow> cancel_op \<Rightarrow> cancel_state" where
  "cancel_step s NewRoot = new_root s"
| "cancel_step s (NewChild h) = (if h < length (handles s) then new_child h s else s)"
| "cancel_step s (OnCancel h cb) = (if h < length (handles s) then on_cancel h cb s else s)"
| "cancel_step s (Unregister h cb) = (if h < length (handles s) then unregister_callback h cb s else s)"
| "cancel_step s (CallCancel h r d) = (if h < length (handles s) then call_cancel h r d s else s)"
| "cancel_step s (Proceed i) = proceed i s"

section \<open>Invariant\<close>

definition tree_ok :: "cancel_state \<Rightarrow> bool" where
  "tree_ok s \<longleftrightarrow> (\<forall>h p. h < length (handles s) \<and> parent (node s h) = Some p \<longrightarrow>
         p < h \<and> (h \<in> set (children (node s p)) \<or> is_set (node s h))
         \<and> (is_set (node s p) \<longrightarrow> is_set (node s h) \<or> h \<in> fst ` set (cascade s)))
     \<and> (\<forall>h < length (handles s). \<forall>c \<in> set (children (node s h)). c < length (handles s))
     \<and> (\<forall>x \<in> set (cascade s). fst x < length (handles s))"

lemma tree_okI:
  assumes "\<And>h p. h < length (handles s) \<Longrightarrow> parent (node s h) = Some p \<Longrightarrow> p < h"
    and "\<And>h p. h < length (handles s) \<Longrightarrow> parent (node s h) = Some p \<Longrightarrow> \<not> is_set (node s h) \<Longrightarrow> h \<in> set (children (node s p))"
    and "\<And>h p. h < length (handles s) \<Longrightarrow> parent (node s h) = Some p \<Longrightarrow> is_set (node s p) \<Longrightarrow> \<not> is_set (node s h)
      \<Longrightarrow> h \<in> fst ` set (cascade s)"
    and "\<And>h c. h < length (handles s) \<Longrightarrow> c \<in> set (children (node s h)) \<Longrightarrow> c < length (handles s)"
    and "\<And>x. x \<in> set (cascade s) \<Longrightarrow> fst x < length (handles s)"
  shows "tree_ok s"
  using assms unfolding tree_ok_def by blast

lemma tree_okD:
  assumes "tree_ok s"
  shows "h < length (handles s) \<Longrightarrow> parent (node s h) = Some p \<Longrightarrow> p < h"
    and "h < length (handles s) \<Longrightarrow> parent (node s h) = Some p \<Longrightarrow> \<not> is_set (node s h) \<Longrightarrow> h \<in> set (children (node s p))"
    and "h < length (handles s) \<Longrightarrow> parent (node s h) = Some p \<Longrightarrow> is_set (node s p) \<Longrightarrow> \<not> is_set (node s h)
      \<Longrightarrow> h \<in> fst ` set (cascade s)"
    and "h < length (handles s) \<Longrightarrow> c \<in> set (children (node s h)) \<Longrightarrow> c < length (handles s)"
    and "x \<in> set (cascade s) \<Longrightarrow> fst x < length (handles s)"
  using assms unfolding tree_ok_def by blast+

lemma node_grow: "node (s\<lparr>handles := hs @ [x]\<rparr>) h = (if h < length hs then hs ! h else if h = length hs then x else (hs @ [x]) ! h)"
  by (simp add: nth_append)

lemma ok_root:
  assumes "tree_ok s"
  shows "tree_ok (new_root s)"
proof -
  let ?n = "length (handles s)"
  have n: "node (new_root s) h = node s h" if "h < ?n" for h using that by (simp add: new_root_def nth_append)
  have f: "node (new_root s) ?n = fresh_handle None" by (simp add: new_root_def)
  have len: "length (handles (new_root s)) = Suc ?n" "cascade (new_root s) = cascade s" by (simp_all add: new_root_def)
  note D = tree_okD [OF assms]
  show ?thesis
  proof (rule tree_okI)
    fix h p assume h: "h < length (handles (new_root s))" "parent (node (new_root s) h) = Some p"
    then have h': "h < ?n" "parent (node s h) = Some p"
      using f n len by (cases "h = ?n"; simp add: fresh_handle_def)+
    then show "p < h" by (rule D(1))
    then have p: "p < ?n" using h' by simp
    show "h \<in> set (children (node (new_root s) p))" if "\<not> is_set (node (new_root s) h)"
      using D(2) [OF h'] that h' p n by simp
    show "h \<in> fst ` set (cascade (new_root s))" if "is_set (node (new_root s) p)" "\<not> is_set (node (new_root s) h)"
      using D(3) [OF h'] that h' p n len by simp
  next
    fix h c assume "h < length (handles (new_root s))" "c \<in> set (children (node (new_root s) h))"
    then show "c < length (handles (new_root s))"
      using D(4) [of h c] f n len by (cases "h = ?n") (auto simp: fresh_handle_def less_Suc_eq)
  next
    show "x \<in> set (cascade (new_root s)) \<Longrightarrow> fst x < length (handles (new_root s))" for x
      using D(5) len by (simp add: less_Suc_eq)
  qed
qed

lemma tree_cong:
  assumes "tree_ok s" "length (handles t) = length (handles s)"
    and "\<And>h. h < length (handles s) \<Longrightarrow> parent (node t h) = parent (node s h)
      \<and> children (node t h) = children (node s h) \<and> is_set (node t h) = is_set (node s h)"
    and "set (cascade s) \<subseteq> set (cascade t)" "\<And>x. x \<in> set (cascade t) \<Longrightarrow> fst x < length (handles s)"
  shows "tree_ok t"
proof (rule tree_okI)
  note D = tree_okD [OF assms(1)]
  fix h p assume h: "h < length (handles t)" "parent (node t h) = Some p"
  then have h': "h < length (handles s)" "parent (node s h) = Some p" using assms(2,3) by simp_all
  then show "p < h" by (rule D(1))
  then have p: "p < length (handles s)" using h' by simp
  show "h \<in> set (children (node t p))" if "\<not> is_set (node t h)"
    using D(2) [OF h'] that assms(3) h' p by simp
  show "h \<in> fst ` set (cascade t)" if "is_set (node t p)" "\<not> is_set (node t h)"
    using D(3) [OF h'] that assms(3) [OF p] assms(3) [OF h'(1)] assms(4) by blast
next
  fix h c assume "h < length (handles t)" "c \<in> set (children (node t h))"
  then show "c < length (handles t)" using tree_okD(4) [OF assms(1)] assms(2,3) by simp
next
  show "x \<in> set (cascade t) \<Longrightarrow> fst x < length (handles t)" for x using assms(2,5) by simp
qed

lemma node_update: "h < length (handles s) \<Longrightarrow> (handles s)[h := x] ! k = (if k = h then x else node s k)"
  by simp

lemma ok_on_cancel: "tree_ok s \<Longrightarrow> h < length (handles s) \<Longrightarrow> tree_ok (on_cancel h cb s)"
  by (rule tree_cong [of s]; cases "is_set (node s h)") (auto simp: on_cancel_def nth_list_update dest: tree_okD(5))

lemma ok_unregister: "tree_ok s \<Longrightarrow> h < length (handles s) \<Longrightarrow> tree_ok (unregister_callback h cb s)"
  by (rule tree_cong [of s]) (auto simp: unregister_callback_def nth_list_update dest: tree_okD(5))

lemma ok_call: "tree_ok s \<Longrightarrow> h < length (handles s) \<Longrightarrow> tree_ok (call_cancel h r d s)"
  by (rule tree_cong [of s]) (auto simp: call_cancel_def dest: tree_okD(5))

lemma child_nodes:
  assumes "h < length (handles s)"
  shows "k < length (handles s) \<Longrightarrow> parent (node (new_child h s) k) = parent (node s k)
      \<and> is_set (node (new_child h s) k) = is_set (node s k)
      \<and> children (node (new_child h s) k)
        = (if k = h \<and> \<not> is_set (node s h) then children (node s k) @ [length (handles s)] else children (node s k))"
    and "parent (node (new_child h s) (length (handles s))) = Some h"
    and "children (node (new_child h s) (length (handles s))) = []"
    and "is_set (node (new_child h s) (length (handles s))) = is_set (node s h)"
    and "length (handles (new_child h s)) = Suc (length (handles s))" "cascade (new_child h s) = cascade s"
  using assms by (auto simp: new_child_def Let_def nth_append nth_list_update fresh_handle_def)

lemma ok_child:
  assumes "tree_ok s" "h < length (handles s)"
  shows "tree_ok (new_child h s)"
proof -
  let ?n = "length (handles s)" and ?t = "new_child h s"
  note D = tree_okD [OF assms(1)]
  note old = child_nodes(1) [OF assms(2)] and new = child_nodes(2-4) [OF assms(2)] and len = child_nodes(5,6) [OF assms(2)]
  show ?thesis
  proof (rule tree_okI)
    fix k p assume k: "k < length (handles ?t)" "parent (node ?t k) = Some p"
    show "p < k" using k new(1) assms(2) D(1) [of k p] old [of k] len by (cases "k = ?n") auto
    then have p: "p < ?n" using k len by simp
    show "k \<in> set (children (node ?t p))" if "\<not> is_set (node ?t k)"
      using k that new old [of k] old [OF p] D(2) [of k p] len by (cases "k = ?n") auto
    show "k \<in> fst ` set (cascade ?t)" if "is_set (node ?t p)" "\<not> is_set (node ?t k)"
      using k that new old [of k] old [OF p] D(3) [of k p] len by (cases "k = ?n") auto
  next
    fix k c assume "k < length (handles ?t)" "c \<in> set (children (node ?t k))"
    then show "c < length (handles ?t)"
      using new(2) old [of k] D(4) [of k c] len by (cases "k = ?n") (auto simp: less_Suc_eq split: if_splits)
  next
    show "x \<in> set (cascade ?t) \<Longrightarrow> fst x < length (handles ?t)" for x using D(5) len by (simp add: less_Suc_eq)
  qed
qed

text \<open>The state a pending cancellation leaves when it is taken up: all but its own entry is as before.\<close>

lemma ok_cancel_locked:
  assumes "tree_ok s" "i < length (cascade s)" "cascade s ! i = (h, r, d)"
    and "s' = s\<lparr>cascade := take i (cascade s) @ drop (Suc i) (cascade s)\<rparr>"
  shows "tree_ok (cancel_locked h r d s')"
proof -
  let ?t = "cancel_locked h r d s'"
  note D = tree_okD [OF assms(1)]
  have all: "set (cascade s) = insert (h, r, d) (set (cascade s'))"
    using assms(2-4) by (metis (no_types, lifting) id_take_nth_drop list.simps(15) set_append Un_insert_right
      cancel_state.select_convs(2) cancel_state.surjective cancel_state.update_convs(2))
  have h: "h < length (handles s)" using D(5) [of "(h, r, d)"] all by simp
  have hs: "handles s' = handles s" using assms(4) by simp
  have t: "parent (node ?t k) = parent (node s k) \<and> children (node ?t k) = children (node s k)
      \<and> is_set (node ?t k) = (is_set (node s k) \<or> k = h)" for k
    using h hs by (auto simp: cancel_locked_def not_le Let_def nth_list_update)
  have len: "length (handles ?t) = length (handles s)" using hs by (simp add: cancel_locked_def Let_def)
  have casc: "cascade ?t = (if is_set (node s h) then cascade s' else map (\<lambda>c. (c, r, d)) (children (node s h)) @ cascade s')"
    using hs h by (simp add: cancel_locked_def Let_def)
  show ?thesis
  proof (rule tree_okI)
    fix k p assume "k < length (handles ?t)" "parent (node ?t k) = Some p"
    then have k: "k < length (handles s)" "parent (node s k) = Some p" using t len by simp_all
    then show "p < k" by (rule D(1))
    show "k \<in> set (children (node ?t p))" if "\<not> is_set (node ?t k)" using D(2) [OF k] that t by simp
    show "k \<in> fst ` set (cascade ?t)" if "is_set (node ?t p)" "\<not> is_set (node ?t k)"
      using D(2,3) [OF k] that t all casc by (cases "p = h") (force split: if_splits)+
  next
    fix k c assume "k < length (handles ?t)" "c \<in> set (children (node ?t k))"
    then show "c < length (handles ?t)" using D(4) t len by simp
  next
    fix x assume "x \<in> set (cascade ?t)"
    then have "x \<in> set (cascade s) \<or> fst x \<in> set (children (node s h))" using casc all by (auto split: if_splits)
    then show "fst x < length (handles ?t)" using D(4) [OF h] D(5) [of x] len by auto
  qed
qed

lemma ok_proceed: "tree_ok s \<Longrightarrow> tree_ok (proceed i s)"
  by (cases "cascade s ! i") (auto simp: proceed_def intro: ok_cancel_locked)

lemma cancel_ok_step: "tree_ok s \<Longrightarrow> tree_ok (cancel_step s x)"
  by (cases x) (auto intro: ok_root ok_child ok_on_cancel ok_unregister ok_call ok_proceed)

interpretation tree: op_invariant cancel_step tree_ok
  by unfold_locales (rule cancel_ok_step)

lemma reachable_tree: "tree_ok (foldl cancel_step no_handles xs)"
  by (rule tree.run_inv) (simp add: tree_ok_def no_handles_def)

text \<open>The first reason stays, whatever happens to the tree.\<close>

definition set_with :: "nat \<Rightarrow> string \<Rightarrow> string \<Rightarrow> cancel_state \<Rightarrow> bool" where
  "set_with h r d s \<longleftrightarrow> h < length (handles s) \<and> is_set (node s h) \<and> why (node s h) = r \<and> detail (node s h) = d"

lemma set_with_step: "set_with h r d s \<Longrightarrow> set_with h r d (cancel_step s x)"
  by (cases x)
    (auto simp: set_with_def new_root_def new_child_def on_cancel_def unregister_callback_def call_cancel_def
      cancel_locked_def proceed_def Let_def nth_append nth_list_update split: prod.splits)

interpretation reason: op_latch cancel_step "set_with h r d" for h r d
  by unfold_locales (rule set_with_step)

section \<open>Callbacks\<close>

definition fired_at :: "cancel_state \<Rightarrow> nat \<Rightarrow> nat \<Rightarrow> nat" where
  "fired_at s h cb = count_list (map (\<lambda>(h, cb, r). (h, cb)) (fired s)) (h, cb)"

definition fire_ok :: "cancel_state \<Rightarrow> bool" where
  "fire_ok s \<longleftrightarrow> (\<forall>h cb. if h < length (handles s) \<and> is_set (node s h) then fired_at s h cb = count_list (registered s) (h, cb)
     else fired_at s h cb = 0
       \<and> count_list (registered s) (h, cb) = (if h < length (handles s) then count_list (callbacks (node s h)) cb else 0))"

lemma count_remove1: "count_list (remove1 x xs) y = count_list xs y - (if x = y then 1 else 0)"
  by (induction xs) auto

lemma count_pairs: "count_list (map (\<lambda>(h, cb, r). (h, cb)) (map (\<lambda>cb. (h, cb, r)) cbs)) (k, cb)
    = (if k = h then count_list cbs cb else 0)"
  by (induction cbs) auto

lemma fire_cong:
  assumes "fire_ok s" "length (handles t) \<ge> length (handles s)" "fired t = fired s" "registered t = registered s"
    and "\<And>h. h < length (handles s) \<Longrightarrow> is_set (node t h) = is_set (node s h) \<and> callbacks (node t h) = callbacks (node s h)"
    and "\<And>h. h < length (handles t) \<Longrightarrow> length (handles s) \<le> h \<Longrightarrow> callbacks (node t h) = []"
  shows "fire_ok t"
  unfolding fire_ok_def fired_at_def assms(3,4)
proof (intro allI)
  fix h cb
  show "if h < length (handles t) \<and> is_set (node t h)
      then count_list (map (\<lambda>(h, cb, r). (h, cb)) (fired s)) (h, cb) = count_list (registered s) (h, cb)
      else count_list (map (\<lambda>(h, cb, r). (h, cb)) (fired s)) (h, cb) = 0
        \<and> count_list (registered s) (h, cb) = (if h < length (handles t) then count_list (callbacks (node t h)) cb else 0)"
    using assms(1) [unfolded fire_ok_def fired_at_def, rule_format, of h cb] assms(2,5,6)
    by (cases "h < length (handles s)"; cases "h < length (handles t)") (auto split: if_splits)
qed

lemma fire_on_cancel:
  assumes "fire_ok s" "h < length (handles s)"
  shows "fire_ok (on_cancel h cb s)"
  unfolding fire_ok_def
proof (intro allI)
  fix k c
  show "if k < length (handles (on_cancel h cb s)) \<and> is_set (node (on_cancel h cb s) k)
      then fired_at (on_cancel h cb s) k c = count_list (registered (on_cancel h cb s)) (k, c)
      else fired_at (on_cancel h cb s) k c = 0 \<and> count_list (registered (on_cancel h cb s)) (k, c)
        = (if k < length (handles (on_cancel h cb s)) then count_list (callbacks (node (on_cancel h cb s) k)) c else 0)"
    using assms(1) [unfolded fire_ok_def, rule_format, of k c] assms(2)
    by (cases "is_set (node s h)"; cases "k = h") (auto simp: on_cancel_def fired_at_def nth_list_update split: if_splits)
qed

lemma fire_unregister:
  assumes "fire_ok s" "h < length (handles s)"
  shows "fire_ok (unregister_callback h cb s)"
  unfolding fire_ok_def
proof (intro allI)
  fix k c
  show "if k < length (handles (unregister_callback h cb s)) \<and> is_set (node (unregister_callback h cb s) k)
      then fired_at (unregister_callback h cb s) k c = count_list (registered (unregister_callback h cb s)) (k, c)
      else fired_at (unregister_callback h cb s) k c = 0 \<and> count_list (registered (unregister_callback h cb s)) (k, c)
        = (if k < length (handles (unregister_callback h cb s))
           then count_list (callbacks (node (unregister_callback h cb s) k)) c else 0)"
    using assms(1) [unfolded fire_ok_def, rule_format, of k c] assms(2)
    by (cases "is_set (node s h)"; cases "k = h")
      (auto simp: unregister_callback_def fired_at_def nth_list_update count_remove1 split: if_splits)
qed

lemma fire_cancel:
  assumes "fire_ok s"
  shows "fire_ok (cancel_locked h r d s)"
  unfolding fire_ok_def
proof (intro allI)
  fix k c
  show "if k < length (handles (cancel_locked h r d s)) \<and> is_set (node (cancel_locked h r d s) k)
      then fired_at (cancel_locked h r d s) k c = count_list (registered (cancel_locked h r d s)) (k, c)
      else fired_at (cancel_locked h r d s) k c = 0 \<and> count_list (registered (cancel_locked h r d s)) (k, c)
        = (if k < length (handles (cancel_locked h r d s)) then count_list (callbacks (node (cancel_locked h r d s) k)) c else 0)"
    using assms [unfolded fire_ok_def, rule_format, of k c] count_pairs [of h r "callbacks (node s h)" k c]
    by (cases "is_set (node s h) \<or> length (handles s) \<le> h"; cases "k = h")
      (auto simp: cancel_locked_def fired_at_def Let_def nth_list_update split: if_splits)
qed

lemma fire_step: "fire_ok s \<Longrightarrow> fire_ok (cancel_step s x)"
proof (cases x)
  case (Proceed i)
  assume s: "fire_ok s"
  then have "fire_ok (s\<lparr>cascade := cs\<rparr>)" for cs by (rule fire_cong) auto
  then show ?thesis using s Proceed by (cases "cascade s ! i") (auto simp: proceed_def intro: fire_cancel)
next
  case (NewChild h)
  assume "fire_ok s"
  then show ?thesis using NewChild
    by (auto simp: new_child_def fresh_handle_def Let_def nth_append nth_list_update less_Suc_eq split: if_splits elim!: fire_cong)
next
  case (OnCancel h cb)
  assume "fire_ok s" then show ?thesis using OnCancel by (simp add: fire_on_cancel)
next
  case (Unregister h cb)
  assume "fire_ok s" then show ?thesis using Unregister by (simp add: fire_unregister)
qed (auto simp: new_root_def fresh_handle_def call_cancel_def nth_append less_Suc_eq elim!: fire_cong)

interpretation firing: op_invariant cancel_step fire_ok
  by unfold_locales (rule fire_step)

section \<open>The cascade\<close>

definition unset :: "cancel_state \<Rightarrow> nat" where
  "unset s = length (filter (\<lambda>x. \<not> is_set x) (handles s))"

lemma filter_update:
  "h < length xs \<Longrightarrow> P (xs ! h) \<Longrightarrow> \<not> P y \<Longrightarrow> length (filter P (xs[h := y])) < length (filter P xs)"
proof (induction xs arbitrary: h)
  case (Cons x xs)
  then show ?case by (cases h) auto
qed simp

text \<open>The cascade run by one thread: the callbacks of a handle, then its children one after the other.\<close>

function run_cascade :: "cancel_state \<Rightarrow> cancel_state" where
  "run_cascade s = (if cascade s = [] then s else run_cascade (proceed 0 s))"
  by pat_completeness auto
termination
proof (relation "measures [unset, \<lambda>s. length (cascade s)]", goal_cases)
  case (2 s)
  then obtain h r d cs where c: "cascade s = (h, r, d) # cs" by (cases "cascade s") auto
  show ?case
  proof (cases "is_set (node s h) \<or> length (handles s) \<le> h")
    case True
    with c show ?thesis by (simp add: proceed_def cancel_locked_def Let_def unset_def)
  next
    case False
    with c show ?thesis
      using filter_update [of h "handles s" "\<lambda>x. \<not> is_set x"]
      by (simp add: proceed_def cancel_locked_def Let_def unset_def)
  qed
qed simp

declare run_cascade.simps [simp del]

lemma run_cascade_inv:
  assumes "\<And>s i. P s \<Longrightarrow> P (proceed i s)" "P s"
  shows "P (run_cascade s)"
  using assms(2)
proof (induction s rule: run_cascade.induct)
  case (1 s)
  then show ?case using assms(1) by (cases "cascade s = []") (simp_all add: run_cascade.simps [of s])
qed

lemma run_cascade_empty: "cascade (run_cascade s) = []"
proof (induction s rule: run_cascade.induct)
  case (1 s)
  then show ?case by (cases "cascade s = []") (simp_all add: run_cascade.simps [of s])
qed

function descends :: "cancel_state \<Rightarrow> nat \<Rightarrow> nat \<Rightarrow> bool" where
  "descends s a h =
     (a = h \<or> (case parent (node s h) of None \<Rightarrow> False | Some p \<Rightarrow> if p < h then descends s a p else False))"
  by pat_completeness auto
termination by (relation "measure (\<lambda>(s, a, h). h)") auto

declare descends.simps [simp del]

lemma descends_refl [simp]: "descends s a a"
  by (simp add: descends.simps [of s a a])

text \<open>With no cancellation under way, an event that is set is set in every descendant.\<close>

lemma settled_tree:
  assumes "tree_ok s" "cascade s = []" "descends s a h" "h < length (handles s)" "is_set (node s a)"
  shows "is_set (node s h)"
  using assms(3,4)
proof (induction h rule: less_induct)
  case (less h)
  show ?case
  proof (cases "a = h")
    case False
    then obtain p where p: "parent (node s h) = Some p" "p < h" "descends s a p"
      using less.prems(1) by (subst (asm) descends.simps) (auto split: option.splits if_splits)
    then have "is_set (node s p)" using less by auto
    then show ?thesis using tree_okD(3) [OF assms(1) less.prems(2) p(1)] assms(2) by auto
  qed (use assms(5) in simp)
qed

lemma settled_is_cancelled:
  assumes "tree_ok s" "cascade s = []" "h < length (handles s)"
  shows "is_cancelled s h = is_set (node s h)"
  using assms(3)
proof (induction h rule: less_induct)
  case (less h)
  show ?case
  proof (cases "parent (node s h)")
    case None
    then show ?thesis by (subst is_cancelled.simps) simp
  next
    case (Some p)
    then have "p < h" using tree_okD(1) [OF assms(1) less.prems] by simp
    then show ?thesis
      using less Some tree_okD(3) [OF assms(1) less.prems Some] assms(2) by (subst is_cancelled.simps) auto
  qed
qed

text \<open>The cascade of one cancellation sets descendants of the handle and nothing else.\<close>

definition spreads :: "nat \<Rightarrow> cancel_state \<Rightarrow> cancel_state \<Rightarrow> bool" where
  "spreads a s0 s \<longleftrightarrow> length (handles s) = length (handles s0)
     \<and> (\<forall>k. parent (node s k) = parent (node s0 k) \<and> children (node s k) = children (node s0 k))
     \<and> (\<forall>k. is_set (node s0 k) \<longrightarrow> is_set (node s k))
     \<and> (\<forall>k. is_set (node s k) \<longrightarrow> is_set (node s0 k) \<or> descends s0 a k)
     \<and> (\<forall>x \<in> set (cascade s). descends s0 a (fst x))"

definition linked :: "cancel_state \<Rightarrow> bool" where
  "linked s \<longleftrightarrow> (\<forall>h < length (handles s). \<forall>c \<in> set (children (node s h)). parent (node s c) = Some h \<and> h < c)"

lemma linked_child:
  assumes "tree_ok s" "linked s" "h < length (handles s)"
  shows "linked (new_child h s)"
  unfolding linked_def
proof (intro allI impI ballI)
  let ?n = "length (handles s)" and ?t = "new_child h s"
  note N = child_nodes [OF assms(3)]
  fix k c assume k: "k < length (handles ?t)" and c: "c \<in> set (children (node ?t k))"
  have kn: "k < ?n" using k c N(3,5) by (cases "k = ?n") auto
  show "parent (node ?t c) = Some k \<and> k < c"
  proof (cases "c \<in> set (children (node s k))")
    case True
    then have "c < ?n" using tree_okD(4) [OF assms(1) kn] by simp
    with True N(1) [of c] assms(2) kn show ?thesis by (simp add: linked_def)
  next
    case False
    with c N(1) [OF kn] have "k = h" "c = ?n" by (auto split: if_splits)
    with N(2) kn show ?thesis by simp
  qed
qed

lemma linked_same:
  assumes "linked s" "length (handles t) = length (handles s)"
    and "\<And>k. parent (node t k) = parent (node s k) \<and> children (node t k) = children (node s k)"
  shows "linked t"
  using assms by (simp add: linked_def)

lemma linked_step:
  assumes "tree_ok s" "linked s"
  shows "linked (cancel_step s x)"
proof (cases x)
  case NewRoot
  have "linked (new_root s)" unfolding linked_def
  proof (intro allI impI ballI)
    fix h c assume h: "h < length (handles (new_root s))" and c: "c \<in> set (children (node (new_root s) h))"
    have same: "node (new_root s) k = node s k" if "k < length (handles s)" for k
      using that by (simp add: new_root_def nth_append)
    have hn: "h < length (handles s)"
      using h c by (cases "h = length (handles s)") (simp_all add: new_root_def fresh_handle_def)
    then have "c < length (handles s)" using tree_okD(4) [OF assms(1) hn] c same by simp
    then show "parent (node (new_root s) c) = Some h \<and> h < c" using assms(2) hn c same by (simp add: linked_def)
  qed
  then show ?thesis using NewRoot by simp
next
  case (Proceed i)
  obtain h r d where "cascade s ! i = (h, r, d)" by (cases "cascade s ! i")
  then show ?thesis using Proceed
    by (intro linked_same [OF assms(2)]) (auto simp: proceed_def cancel_locked_def Let_def nth_list_update not_le)
next
  case (OnCancel h cb)
  then show ?thesis by (intro linked_same [OF assms(2)]) (auto simp: on_cancel_def nth_list_update)
next
  case (Unregister h cb)
  then show ?thesis by (intro linked_same [OF assms(2)]) (auto simp: unregister_callback_def nth_list_update)
next
  case (CallCancel h r d)
  then show ?thesis by (intro linked_same [OF assms(2)]) (auto simp: call_cancel_def)
qed (use assms in \<open>simp add: linked_child\<close>)

lemma reachable_linked: "linked (foldl cancel_step no_handles xs)"
proof (induction xs rule: rev_induct)
  case (snoc x xs)
  then show ?case using linked_step [OF reachable_tree] by simp
qed (simp add: linked_def no_handles_def)

lemma spreads_proceed:
  assumes "linked s0" "spreads a s0 s"
  shows "spreads a s0 (proceed i s)"
proof (cases "i < length (cascade s)")
  case True
  obtain h r d where x: "cascade s ! i = (h, r, d)" by (cases "cascade s ! i")
  have x_in: "(h, r, d) \<in> set (cascade s)" using True x by (metis nth_mem)
  have h: "descends s0 a h" using assms(2) x_in by (auto simp: spreads_def)
  have sub: "set (take i (cascade s) @ drop (Suc i) (cascade s)) \<subseteq> set (cascade s)"
    by (auto dest: in_set_takeD in_set_dropD)
  have kids: "descends s0 a c" if "c \<in> set (children (node s h))" "h < length (handles s)" for c
  proof -
    have "parent (node s0 c) = Some h" "h < c" using assms that by (auto simp: spreads_def linked_def)
    with h show ?thesis by (subst descends.simps) simp
  qed
  let ?s = "s\<lparr>cascade := take i (cascade s) @ drop (Suc i) (cascade s)\<rparr>"
  have "\<forall>x \<in> set (cascade s). descends s0 a (fst x)" using assms(2) by (simp add: spreads_def)
  then have "\<forall>x \<in> set (take i (cascade s) @ drop (Suc i) (cascade s)). descends s0 a (fst x)" using sub by blast
  then have less: "spreads a s0 ?s" using assms(2) by (simp add: spreads_def del: set_append)
  have "spreads a s0 (cancel_locked h r d ?s)"
  proof (cases "is_set (node s h) \<or> length (handles s) \<le> h")
    case True
    with less show ?thesis by (simp add: cancel_locked_def Let_def)
  next
    case False
    let ?t = "cancel_locked h r d ?s"
    have node: "parent (node ?t k) = parent (node s k) \<and> children (node ?t k) = children (node s k)
        \<and> is_set (node ?t k) = (is_set (node s k) \<or> k = h)" for k
      using False by (simp add: cancel_locked_def Let_def nth_list_update)
    have "cascade ?t = map (\<lambda>c. (c, r, d)) (children (node s h)) @ cascade ?s"
      "length (handles ?t) = length (handles s)" using False by (simp_all add: cancel_locked_def Let_def)
    with less node h kids False show ?thesis unfolding spreads_def by (auto simp: not_le)
  qed
  then show ?thesis using True x by (simp add: proceed_def)
qed (use assms(2) in \<open>simp add: proceed_def\<close>)

lemma descends_child:
  "descends s a h \<Longrightarrow> parent (node s c) = Some h \<Longrightarrow> h < c \<Longrightarrow> descends s a c"
  by (subst descends.simps) simp

lemma cascade_ok: "tree_ok s \<Longrightarrow> tree_ok (run_cascade s)"
  by (rule run_cascade_inv) (auto intro: ok_proceed)

lemma descends_same:
  assumes "\<And>k. parent (node t k) = parent (node s k)"
  shows "descends t a h = descends s a h"
  by (induction h rule: less_induct)
    (subst descends.simps, subst (2) descends.simps, auto simp: assms split: option.split)

section \<open>Processes\<close>

record process_handle =
  pid :: int
  ph_session :: string
  ph_generation :: int
  ph_run :: string
  ph_invocation :: string

type_synonym processes = "(string, process_handle) dict"

definition register_process :: "process_handle \<Rightarrow> processes \<Rightarrow> processes" where
  "register_process h d = dict_set (ph_invocation h) h d"

definition unregister_process :: "string \<Rightarrow> processes \<Rightarrow> processes" where
  "unregister_process i d = dict_del i d"

text \<open>The processes a call kills, in the order it kills them; its result is their number.\<close>

definition kill_run :: "string \<Rightarrow> int \<Rightarrow> string \<Rightarrow> processes \<Rightarrow> process_handle list" where
  "kill_run sid gen rid d =
     filter (\<lambda>h. ph_session h = sid \<and> ph_generation h = gen \<and> ph_run h = rid) (dict_values d)"

definition kill_one :: "string \<Rightarrow> processes \<Rightarrow> process_handle option" where
  "kill_one i d = dict_get d i"

definition kill_session :: "string \<Rightarrow> int option \<Rightarrow> processes \<Rightarrow> process_handle list" where
  "kill_session sid gen d =
     filter (\<lambda>h. ph_session h = sid \<and> (case gen of None \<Rightarrow> True | Some g \<Rightarrow> ph_generation h = g)) (dict_values d)"

text \<open>\<open>_kill_one\<close>: what is sent to the process, given whether the tree kill and the waits succeed.\<close>

datatype kill_action = KILL_TREE | WAIT | KILL

definition kill_actions :: "bool \<Rightarrow> bool \<Rightarrow> kill_action list" where
  "kill_actions escalate times_out =
     KILL_TREE # (if escalate then WAIT # (if times_out then [KILL, WAIT] else []) else [])"

text \<open>A root with two children, the first of which has one: a callback at the root and one at the leaf.\<close>

definition sample_tree :: "cancel_op list" where
  "sample_tree = [NewRoot, NewChild 0, NewChild 0, NewChild 1, OnCancel 0 7, OnCancel 3 8]"

section \<open>Properties\<close>

text \<open>
  C26. A cancellation is exact: in a tree where no other is under way, cancelling a handle ends, and then
  the events that are set are those that were set before and those of the handle and its descendants;
  the question whether a handle is cancelled has the same answer as its own event.
\<close>

theorem cancellation_is_exact:
  assumes "s = foldl cancel_step no_handles xs" "cascade s = []" "h < length (handles s)" "k < length (handles s)"
    and "t = run_cascade (call_cancel h r d s)"
  shows "cascade t = [] \<and> is_set (node t k) = (is_set (node s k) \<or> descends s h k)
    \<and> is_cancelled t k = is_set (node t k)"
proof -
  have ok: "tree_ok s" and l: "linked s" unfolding assms(1) by (rule reachable_tree, rule reachable_linked)
  have t: "tree_ok t" "cascade t = []"
    unfolding assms(5) by (intro cascade_ok ok_call ok assms(3)) (rule run_cascade_empty)
  have "spreads h s (call_cancel h r d s)" using assms(2) by (simp add: spreads_def call_cancel_def)
  then have sp: "spreads h s t" unfolding assms(5) 
    by (rule run_cascade_inv [where P = "spreads h s", rotated]) (rule spreads_proceed [OF l])
  have "is_set (node t h)"
  proof -
    have "is_set (node (proceed 0 (call_cancel h r d s)) h)"
      using assms(2,3) by (simp add: proceed_def call_cancel_def cancel_locked_def Let_def)
    moreover have "is_set (node s' h) \<Longrightarrow> is_set (node (proceed i s') h)" for s' i
      by (cases "cascade s' ! i") (auto simp: proceed_def cancel_locked_def Let_def nth_list_update)
    moreover have "t = run_cascade (proceed 0 (call_cancel h r d s))"
      unfolding assms(5) by (subst run_cascade.simps) (simp add: call_cancel_def)
    ultimately show ?thesis using run_cascade_inv [of "\<lambda>s. is_set (node s h)"] by blast
  qed
  moreover have "descends t h k = descends s h k" using sp by (intro descends_same) (simp add: spreads_def)
  moreover have len: "length (handles t) = length (handles s)" using sp by (simp add: spreads_def)
  ultimately have "is_set (node t k)" if "descends s h k"
    using settled_tree [OF t, of h k] that assms(4) by simp
  then have "is_set (node t k) = (is_set (node s k) \<or> descends s h k)" using sp by (auto simp: spreads_def)
  then show ?thesis using t settled_is_cancelled [OF t] assms(4) len by simp
qed

theorem cancellation_is_exact_witness:
  "let s = foldl cancel_step no_handles sample_tree; t = run_cascade (call_cancel 1 ''r'' ''d'' s)
   in is_set (node t 3) \<and> \<not> is_set (node t 2)"
proof -
  let ?s = "foldl cancel_step no_handles sample_tree"
  have s: "cascade ?s = []" "1 < length (handles ?s)" "3 < length (handles ?s)" "2 < length (handles ?s)"
    "descends ?s 1 3" "\<not> descends ?s 1 2" "\<not> is_set (node ?s 2)"
    by code_simp+
  show ?thesis
    using cancellation_is_exact [OF refl s(1,2,3) refl] cancellation_is_exact [OF refl s(1,2,4) refl] s(5-7)
    unfolding Let_def by blast
qed

text \<open>
  However cancellations, registrations and new children interleave, a callback runs exactly once
  for each of its registrations that was not withdrawn before its handle was cancelled, and not before
  that; and once no cancellation is under way, every descendant of a cancelled handle is cancelled.
\<close>

theorem callbacks_fire_once:
  assumes "s = foldl cancel_step no_handles xs" "h < length (handles s)"
  shows "fired_at s h cb = (if is_set (node s h) then count_list (registered s) (h, cb) else 0)
    \<and> (cascade s = [] \<and> is_set (node s a) \<and> descends s a h \<longrightarrow> is_set (node s h))"
proof -
  have "fire_ok s" unfolding assms(1)
    by (rule firing.run_inv) (simp add: fire_ok_def fired_at_def no_handles_def)
  moreover have "tree_ok s" unfolding assms(1) by (rule reachable_tree)
  ultimately show ?thesis using assms(2) settled_tree [of s a h] by (auto simp: fire_ok_def)
qed

theorem callbacks_fire_once_witness:
  "fired_at (foldl cancel_step no_handles (sample_tree @ [CallCancel 0 ''r'' ''d'', Proceed 0, OnCancel 0 7])) 0 7 = 2"
proof -
  let ?s = "foldl cancel_step no_handles (sample_tree @ [CallCancel 0 ''r'' ''d'', Proceed 0, OnCancel 0 7])"
  have "0 < length (handles ?s)" "is_set (node ?s 0)" "count_list (registered ?s) (0, 7) = 2" by code_simp+
  then show ?thesis using callbacks_fire_once [OF refl, of 0 "sample_tree @ [CallCancel 0 ''r'' ''d'', Proceed 0, OnCancel 0 7]" 7]
    by simp
qed

text \<open>
  The first cancellation of a handle decides: its reason and detail never change afterwards.
\<close>

theorem first_reason_stays:
  assumes "set_with h r d (foldl cancel_step no_handles xs)"
  shows "set_with h r d (foldl cancel_step no_handles (xs @ ys))"
  using assms by (rule reason.latch_prefix)

theorem first_reason_stays_witness:
  "set_with 0 ''r'' ''d'' (foldl cancel_step no_handles
     ([NewRoot, CallCancel 0 ''r'' ''d'', Proceed 0] @ [CallCancel 0 ''other'' [], Proceed 0]))"
proof -
  have "set_with 0 ''r'' ''d'' (foldl cancel_step no_handles [NewRoot, CallCancel 0 ''r'' ''d'', Proceed 0])" by code_simp
  then show ?thesis by (rule first_reason_stays)
qed

end
