(* ===== verification/Run_Coordinator.thy ===== *)
theory Run_Coordinator
  imports Outbox_Store Step_Loop
begin

text \<open>
  \<^verbatim>\<open>application/coordinators/run_coordinator.py\<close> and \<^verbatim>\<open>cancellation_coordinator.py\<close> over the unit of work of
  \<^verbatim>\<open>infrastructure/sqlite/run_uow.py\<close> and the repository of \<^verbatim>\<open>run_repository.py\<close>: submitting a run,
  finalizing it and requesting its cancellation. A transaction is a function on the database that
  returns an error or a value and the new database; the failure points of the code are the argument
  \<open>fail_at\<close>. Fresh identifiers, the clock, SHA-256 and the canonical JSON of an envelope are arguments.
\<close>

section \<open>The database\<close>

datatype run_state = R_QUEUED | R_RUNNING | R_CANCEL_REQUESTED | R_COMPLETED | R_FAILED | R_CANCELLED
  | R_BLOCKED | R_GAVE_UP

record run_row =
  run_key :: string
  run_session :: string
  run_turn :: string
  turn_index :: int
  idem_key :: string
  run_prompt :: string
  run_state :: run_state
  run_version :: int

record message_row =
  msg_session :: string
  msg_role :: string
  msg_content :: string
  msg_turn :: string

record run_db =
  sessions :: "(string, int option) dict"
  runs :: "run_row list"
  messages :: "message_row list"
  events :: outbox

datatype tx_error =
    InjectedFailure string
  | SessionMissing string
  | AppendFailed append_error
  | IdempotencyConflict string string
  | RunAlreadyActive string string
  | AlreadyTerminal string
  | UniqueViolation string
  | RunMissing string
  | StaleVersion int int

type_synonym 'a tx = "run_db \<Rightarrow> tx_error + 'a \<times> run_db"

definition tx_return :: "'a \<Rightarrow> 'a tx" where
  "tx_return x db = Inr (x, db)"

definition tx_raise :: "tx_error \<Rightarrow> 'a tx" where
  "tx_raise e db = Inl e"

definition tx_bind :: "'a tx \<Rightarrow> ('a \<Rightarrow> 'b tx) \<Rightarrow> 'b tx" where
  "tx_bind m f db = (case m db of Inl e \<Rightarrow> Inl e | Inr (x, db') \<Rightarrow> f x db')"

text \<open>\<open>SqliteUnitOfWork.execute\<close>: commit on success, roll back on an exception and raise it again.\<close>

definition maybe_fail :: "string option \<Rightarrow> string \<Rightarrow> unit tx" where
  "maybe_fail fail_at point = (if fail_at = Some point then tx_raise (InjectedFailure point) else tx_return ())"

definition execute :: "string option \<Rightarrow> 'a tx \<Rightarrow> run_db \<Rightarrow> (tx_error + 'a) \<times> run_db" where
  "execute fail_at fn db =
     (case tx_bind fn (\<lambda>x. tx_bind (maybe_fail fail_at ''commit'') (\<lambda>_. tx_return x)) db of
        Inl e \<Rightarrow> (Inl e, db)
      | Inr (x, db') \<Rightarrow> (Inr x, db'))"

section \<open>The transaction\<close>

definition increment_generation :: "string option \<Rightarrow> string \<Rightarrow> int tx" where
  "increment_generation fail_at sid = tx_bind (maybe_fail fail_at ''generation'') (\<lambda>_ db.
     case dict_get (sessions db) sid of
       None \<Rightarrow> Inl (SessionMissing sid)
     | Some gen \<Rightarrow>
         (let new_gen = the_default 0 gen + 1
          in Inr (new_gen, db\<lparr>sessions := dict_set sid (Some new_gen) (sessions db)\<rparr>)))"

text \<open>\<open>INSERT OR IGNORE\<close> over the primary key and the two unique indexes of the table.\<close>

definition violates_unique :: "run_row list \<Rightarrow> run_row \<Rightarrow> bool" where
  "violates_unique rs r \<longleftrightarrow> list_ex (\<lambda>x. run_key x = run_key r
       \<or> (idem_key r \<noteq> [] \<and> run_session x = run_session r \<and> idem_key x = idem_key r)
       \<or> (run_session x = run_session r \<and> run_state x \<in> {R_QUEUED, R_RUNNING} \<and> run_state r \<in> {R_QUEUED, R_RUNNING})) rs"

definition create_run :: "string option \<Rightarrow> run_row \<Rightarrow> unit tx" where
  "create_run fail_at r = tx_bind (maybe_fail fail_at ''run_insert'') (\<lambda>_ db.
     Inr ((), if violates_unique (runs db) r then db else db\<lparr>runs := runs db @ [r]\<rparr>))"

definition insert_message :: "string option \<Rightarrow> message_row \<Rightarrow> unit tx" where
  "insert_message fail_at m = tx_bind (maybe_fail fail_at ''message_insert'') (\<lambda>_ db.
     Inr ((), db\<lparr>messages := messages db @ [m]\<rparr>))"

definition append_fact ::
  "string option \<Rightarrow> (string \<Rightarrow> string) \<Rightarrow> schema_registry \<Rightarrow> envelope \<Rightarrow> unit tx" where
  "append_fact fail_at sha reg e = tx_bind (maybe_fail fail_at ''outbox_append'') (\<lambda>_ db.
     case outbox_append sha reg e (events db) of
       Inl err \<Rightarrow> Inl (AppendFailed err)
     | Inr ob \<Rightarrow> Inr ((), db\<lparr>events := ob\<rparr>))"

definition active :: "run_row \<Rightarrow> bool" where
  "active r \<longleftrightarrow> run_state r \<notin> {R_COMPLETED, R_FAILED, R_CANCELLED}"

definition active_runs :: "run_db \<Rightarrow> string \<Rightarrow> run_row list" where
  "active_runs db sid = filter (\<lambda>r. run_session r = sid \<and> active r) (runs db)"

definition check_active_run :: "string option \<Rightarrow> string \<Rightarrow> string option tx" where
  "check_active_run fail_at sid = tx_bind (maybe_fail fail_at ''active_run_check'') (\<lambda>_ db.
     Inr (case sort_key (\<lambda>r. - turn_index r) (active_runs db sid) of [] \<Rightarrow> None | r # rs \<Rightarrow> Some (run_key r), db))"

definition idem_digest :: "(string \<Rightarrow> string) \<Rightarrow> string \<Rightarrow> string \<Rightarrow> string \<Rightarrow> string" where
  "idem_digest sha sid prompt key = sha (sid @ '':'' @ prompt @ '':'' @ key)"

definition check_idempotency :: "(string \<Rightarrow> string) \<Rightarrow> string \<Rightarrow> string \<Rightarrow> (string \<times> string) option tx" where
  "check_idempotency sha sid key db =
     Inr (case filter (\<lambda>r. run_session r = sid \<and> idem_key r = key) (runs db) of
            [] \<Rightarrow> None
          | r # rs \<Rightarrow> Some (run_key r, idem_digest sha sid (run_prompt r) key), db)"

section \<open>Facts\<close>

datatype run_fact =
    RunSubmittedV1 string int string
  | RunCompletedV1 string nat int string
  | RunFailedV1 string string
  | RunCancelledV1 string string
  | RunBlockedV1 string string string
  | RunGaveUpV1 string

fun payload_class :: "run_fact \<Rightarrow> string" where
  "payload_class (RunSubmittedV1 r i t) = ''RunSubmittedV1''"
| "payload_class (RunCompletedV1 r n tok s) = ''RunCompletedV1''"
| "payload_class (RunFailedV1 r e) = ''RunFailedV1''"
| "payload_class (RunCancelledV1 r why) = ''RunCancelledV1''"
| "payload_class (RunBlockedV1 r by_what d) = ''RunBlockedV1''"
| "payload_class (RunGaveUpV1 r) = ''RunGaveUpV1''"

text \<open>What an operation draws from its surroundings.\<close>

record env =
  fail_at :: "string option"
  env_sha :: "string \<Rightarrow> string"
  env_registry :: schema_registry
  env_json :: "string \<Rightarrow> time \<Rightarrow> string option \<Rightarrow> string \<Rightarrow> string \<Rightarrow> int \<Rightarrow> run_fact \<Rightarrow> string"
  env_now :: time
  fresh_event :: string
  fresh_run :: string
  fresh_turn :: string

definition envelope_for :: "env \<Rightarrow> string \<Rightarrow> string option \<Rightarrow> string \<Rightarrow> int \<Rightarrow> run_fact \<Rightarrow> envelope" where
  "envelope_for v ty sid rid version f =
     \<lparr>env_event_id = fresh_event v, env_event_type = ty, env_session_id = sid, env_aggregate_id = rid,
      env_aggregate_version = version, env_occurred_at = env_now v, env_payload_class = payload_class f,
      env_canonical_json = env_json v (fresh_event v) (env_now v) sid ty rid version f\<rparr>"

section \<open>Commands\<close>

record submit_run =
  cmd_session :: string
  cmd_prompt :: string
  cmd_key :: string

definition start_fresh_run :: "env \<Rightarrow> submit_run \<Rightarrow> string tx" where
  "start_fresh_run v cmd =
     tx_bind (increment_generation (fail_at v) (cmd_session cmd)) (\<lambda>i.
     tx_bind (create_run (fail_at v) \<lparr>run_key = fresh_run v, run_session = cmd_session cmd, run_turn = fresh_turn v,
        turn_index = i, idem_key = cmd_key cmd, run_prompt = cmd_prompt cmd, run_state = R_QUEUED, run_version = 1\<rparr>) (\<lambda>_.
     tx_bind (insert_message (fail_at v) \<lparr>msg_session = cmd_session cmd, msg_role = ''user'',
        msg_content = cmd_prompt cmd, msg_turn = fresh_turn v\<rparr>) (\<lambda>_.
     tx_bind (append_fact (fail_at v) (env_sha v) (env_registry v)
        (envelope_for v ''run.submitted.v1'' (Some (cmd_session cmd)) (fresh_run v) i
           (RunSubmittedV1 (fresh_run v) i (fresh_turn v)))) (\<lambda>_.
     tx_return (fresh_run v)))))"

definition refuse_active :: "env \<Rightarrow> submit_run \<Rightarrow> string tx" where
  "refuse_active v cmd =
     tx_bind (check_active_run (fail_at v) (cmd_session cmd)) (\<lambda>a.
       case a of Some rid \<Rightarrow> tx_raise (RunAlreadyActive (cmd_session cmd) rid) | None \<Rightarrow> start_fresh_run v cmd)"

definition submit_in_tx :: "env \<Rightarrow> submit_run \<Rightarrow> string tx" where
  "submit_in_tx v cmd =
     (if cmd_key cmd = [] then refuse_active v cmd
      else tx_bind (check_idempotency (env_sha v) (cmd_session cmd) (cmd_key cmd)) (\<lambda>found.
        case found of
          Some (rid, digest) \<Rightarrow>
            (if digest = idem_digest (env_sha v) (cmd_session cmd) (cmd_prompt cmd) (cmd_key cmd) then tx_return rid
             else tx_raise (IdempotencyConflict (cmd_key cmd) rid))
        | None \<Rightarrow> refuse_active v cmd))"

datatype submit_result = Submitted string | Conflict string string | Active string string | Raised tx_error

definition submit :: "env \<Rightarrow> submit_run \<Rightarrow> run_db \<Rightarrow> submit_result \<times> run_db" where
  "submit v cmd db =
     (case execute (fail_at v) (submit_in_tx v cmd) db of
        (Inr rid, db') \<Rightarrow> (Submitted rid, db')
      | (Inl (IdempotencyConflict k rid), db') \<Rightarrow> (Conflict k rid, db')
      | (Inl (RunAlreadyActive sid rid), db') \<Rightarrow> (Active sid rid, db')
      | (Inl e, db') \<Rightarrow> (Raised e, db'))"

definition terminal_fact :: "string \<Rightarrow> runtime_outcome \<Rightarrow> string \<times> run_fact" where
  "terminal_fact rid out =
     (case out_status out of
        RUN_COMPLETED \<Rightarrow> (''run.completed.v1'', RunCompletedV1 rid (steps_taken out) (tokens_used out) (summary out))
      | RUN_FAILED \<Rightarrow> (''run.failed.v1'', RunFailedV1 rid (out_error out))
      | RUN_CANCELLED \<Rightarrow> (''run.cancelled.v1'', RunCancelledV1 rid [])
      | RUN_BLOCKED \<Rightarrow> (''run.blocked.v1'', RunBlockedV1 rid (out_blocked_by out) (out_error out))
      | RUN_GAVE_UP \<Rightarrow> (''run.gave_up.v1'', RunGaveUpV1 rid))"

definition finalize_run ::
  "env \<Rightarrow> string \<Rightarrow> int \<Rightarrow> runtime_outcome \<Rightarrow> string option \<Rightarrow> run_db \<Rightarrow> (tx_error + envelope) \<times> run_db" where
  "finalize_run v rid expected out sid db =
     (let (ty, f) = terminal_fact rid out; e = envelope_for v ty sid rid (expected + 1) f
      in execute (fail_at v) (tx_bind (append_fact (fail_at v) (env_sha v) (env_registry v) e) (\<lambda>_. tx_return e)) db)"

section \<open>Cancellation\<close>

type_synonym cancel_registry = "(string, bool) dict"

definition registry_cancel :: "string \<Rightarrow> cancel_registry \<Rightarrow> bool \<times> cancel_registry" where
  "registry_cancel rid reg = (case dict_get reg rid of None \<Rightarrow> (False, reg) | Some c \<Rightarrow> (True, dict_set rid True reg))"

fun cancel_children :: "string list \<Rightarrow> cancel_registry \<Rightarrow> nat \<times> cancel_registry" where
  "cancel_children [] reg = (0, reg)"
| "cancel_children (c # cs) reg =
     (let (found, reg1) = registry_cancel c reg; (n, reg2) = cancel_children cs reg1
      in (if found then Suc n else n, reg2))"

definition cas_cancel_requested :: "env \<Rightarrow> string \<Rightarrow> string \<Rightarrow> string \<Rightarrow> unit tx" where
  "cas_cancel_requested v rid why sid =
     tx_bind (check_active_run (fail_at v) sid) (\<lambda>a.
       case a of
         None \<Rightarrow> tx_raise (AlreadyTerminal rid)
       | Some x \<Rightarrow>
           (if x \<noteq> rid then tx_raise (AlreadyTerminal rid)
            else append_fact (fail_at v) (env_sha v) (env_registry v)
                   (envelope_for v ''run.cancelled.v1'' (Some sid) rid 1 (RunCancelledV1 rid why))))"

datatype cancel_result = Signalled | HandleNotFound | CancelRaised tx_error

definition request_cancellation ::
  "env \<Rightarrow> string \<Rightarrow> string \<Rightarrow> string \<Rightarrow> run_db \<times> cancel_registry \<Rightarrow> cancel_result \<times> run_db \<times> cancel_registry" where
  "request_cancellation v rid why sid s =
     (let (res, db) = execute (fail_at v) (cas_cancel_requested v rid why sid) (fst s);
          (found, reg) = registry_cancel rid (snd s);
          answer = (if found then Signalled else HandleNotFound)
      in case res of
           Inr _ \<Rightarrow> (answer, db, reg)
         | Inl (AlreadyTerminal _) \<Rightarrow> (answer, db, reg)
         | Inl e \<Rightarrow> (CancelRaised e, db, snd s))"

section \<open>The repository\<close>

definition cas_matches :: "string \<Rightarrow> run_state \<Rightarrow> int \<Rightarrow> run_row \<Rightarrow> bool" where
  "cas_matches rid from_state expected r \<longleftrightarrow> run_key r = rid \<and> run_state r = from_state \<and> run_version r = expected"

text \<open>The unique index on the queued and running runs of a session also holds for an update.\<close>

definition takes_slot :: "string \<Rightarrow> run_row list \<Rightarrow> bool" where
  "takes_slot rid rs \<longleftrightarrow> list_ex (\<lambda>r. run_key r = rid
     \<and> list_ex (\<lambda>x. run_key x \<noteq> rid \<and> run_session x = run_session r \<and> run_state x \<in> {R_QUEUED, R_RUNNING}) rs) rs"

definition cas_transition :: "string \<Rightarrow> run_state \<Rightarrow> run_state \<Rightarrow> int \<Rightarrow> int tx" where
  "cas_transition rid from_state to_state expected db =
     (if list_ex (cas_matches rid from_state expected) (runs db)
      then if to_state \<in> {R_QUEUED, R_RUNNING} \<and> takes_slot rid (runs db) then Inl (UniqueViolation rid)
      else Inr (expected + 1,
        db\<lparr>runs := map (\<lambda>r. if cas_matches rid from_state expected r
             then r\<lparr>run_state := to_state, run_version := run_version r + 1\<rparr> else r) (runs db)\<rparr>)
      else case filter (\<lambda>r. run_key r = rid) (runs db) of
             [] \<Rightarrow> Inl (RunMissing rid)
           | r # rs \<Rightarrow> Inl (StaleVersion (run_version r) expected))"

definition get_status :: "string \<Rightarrow> run_db \<Rightarrow> run_state option" where
  "get_status rid db = map_option run_state (find (\<lambda>r. run_key r = rid) (runs db))"

definition get_version :: "string \<Rightarrow> run_db \<Rightarrow> int" where
  "get_version rid db = (case find (\<lambda>r. run_key r = rid) (runs db) of None \<Rightarrow> 0 | Some r \<Rightarrow> run_version r)"


section \<open>What a submission does\<close>

lemmas tx_defs = tx_bind_def tx_return_def tx_raise_def maybe_fail_def

lemma execute_atomic: "execute fa m db = (Inl e, db') \<Longrightarrow> db' = db"
  by (auto simp: execute_def split: sum.splits prod.splits)

lemma execute_ok:
  "execute fa m db = (Inr x, db') \<longleftrightarrow> m db = Inr (x, db') \<and> fa \<noteq> Some ''commit''"
  by (auto simp: execute_def tx_defs split: sum.splits prod.splits)

lemma submit_atomic: "submit v cmd db = (res, db') \<Longrightarrow> \<forall>rid. res \<noteq> Submitted rid \<Longrightarrow> db' = db"
  unfolding submit_def
  using execute_atomic [of "fail_at v" "submit_in_tx v cmd" db]
  by (auto split: prod.splits sum.splits tx_error.splits)

lemma submit_ok:
  "submit v cmd db = (Submitted rid, db') \<longleftrightarrow> submit_in_tx v cmd db = Inr (rid, db') \<and> fail_at v \<noteq> Some ''commit''"
  using execute_ok [of "fail_at v" "submit_in_tx v cmd" db rid db']
  by (auto simp: submit_def split: prod.splits sum.splits tx_error.splits)

definition same_key :: "run_db \<Rightarrow> string \<Rightarrow> string \<Rightarrow> run_row list" where
  "same_key db sid key = filter (\<lambda>r. run_session r = sid \<and> idem_key r = key) (runs db)"

definition new_run :: "env \<Rightarrow> submit_run \<Rightarrow> int \<Rightarrow> run_row" where
  "new_run v cmd i = \<lparr>run_key = fresh_run v, run_session = cmd_session cmd, run_turn = fresh_turn v,
     turn_index = i, idem_key = cmd_key cmd, run_prompt = cmd_prompt cmd, run_state = R_QUEUED, run_version = 1\<rparr>"

definition submitted_envelope :: "env \<Rightarrow> submit_run \<Rightarrow> int \<Rightarrow> envelope" where
  "submitted_envelope v cmd i = envelope_for v ''run.submitted.v1'' (Some (cmd_session cmd)) (fresh_run v) i
     (RunSubmittedV1 (fresh_run v) i (fresh_turn v))"

lemma sort_empty [simp]: "sort_key f xs = [] \<longleftrightarrow> xs = []"
  by (metis set_empty set_sort)

lemma start_fresh_cases:
  assumes "start_fresh_run v cmd db = Inr (rid, db')"
  obtains gen ob where "dict_get (sessions db) (cmd_session cmd) = Some gen"
    "outbox_append (env_sha v) (env_registry v) (submitted_envelope v cmd (the_default 0 gen + 1)) (events db) = Inr ob"
    "rid = fresh_run v"
    "db' = \<lparr>sessions = dict_set (cmd_session cmd) (Some (the_default 0 gen + 1)) (sessions db),
       runs = (if violates_unique (runs db) (new_run v cmd (the_default 0 gen + 1)) then runs db
               else runs db @ [new_run v cmd (the_default 0 gen + 1)]),
       messages = messages db @ [\<lparr>msg_session = cmd_session cmd, msg_role = ''user'',
         msg_content = cmd_prompt cmd, msg_turn = fresh_turn v\<rparr>],
       events = ob\<rparr>"
  using assms
  by (auto simp: start_fresh_run_def increment_generation_def create_run_def insert_message_def append_fact_def tx_defs
      submitted_envelope_def new_run_def Let_def split: if_splits option.splits sum.splits)

lemma submit_cases:
  assumes "submit v cmd db = (Submitted rid, db')"
  obtains (again) r rs where "cmd_key cmd \<noteq> []" "same_key db (cmd_session cmd) (cmd_key cmd) = r # rs" "rid = run_key r" "db' = db"
      "idem_digest (env_sha v) (cmd_session cmd) (run_prompt r) (cmd_key cmd)
        = idem_digest (env_sha v) (cmd_session cmd) (cmd_prompt cmd) (cmd_key cmd)"
  | (fresh) "cmd_key cmd = [] \<or> same_key db (cmd_session cmd) (cmd_key cmd) = []" "active_runs db (cmd_session cmd) = []"
      "start_fresh_run v cmd db = Inr (rid, db')"
  using assms unfolding submit_ok
  by (auto simp: submit_in_tx_def refuse_active_def check_active_run_def check_idempotency_def tx_defs same_key_def
      split: if_splits option.splits list.splits)

text \<open>With a fresh id the insertion is never ignored: the checks before it exclude both unique indexes.\<close>

lemma never_ignored:
  assumes "cmd_key cmd = [] \<or> same_key db (cmd_session cmd) (cmd_key cmd) = []" "active_runs db (cmd_session cmd) = []"
    and "fresh_run v \<notin> run_key ` set (runs db)"
  shows "\<not> violates_unique (runs db) (new_run v cmd i)"
proof -
  have "run_key x \<noteq> fresh_run v" if "x \<in> set (runs db)" for x using assms(3) that by (metis image_eqI)
  then show ?thesis using assms(1,2)
    by (auto simp: violates_unique_def new_run_def list_ex_iff same_key_def active_runs_def active_def filter_empty_conv)
qed

lemma submit_fresh:
  assumes "submit v cmd db = (Submitted rid, db')" "fresh_run v \<notin> run_key ` set (runs db)" "db' \<noteq> db \<or> rid = fresh_run v"
  obtains gen i where "dict_get (sessions db) (cmd_session cmd) = Some gen" "i = the_default 0 gen + 1" "rid = fresh_run v" "runs db' = runs db @ [new_run v cmd i]"
    "messages db' = messages db @ [\<lparr>msg_session = cmd_session cmd, msg_role = ''user'', msg_content = cmd_prompt cmd,
       msg_turn = fresh_turn v\<rparr>]"
    "sessions db' = dict_set (cmd_session cmd) (Some i) (sessions db)"
    "outbox_append (env_sha v) (env_registry v) (submitted_envelope v cmd i) (events db) = Inr (events db')"
    "active_runs db (cmd_session cmd) = []" "cmd_key cmd = [] \<or> same_key db (cmd_session cmd) (cmd_key cmd) = []"
  using assms(1)
proof (cases rule: submit_cases)
  case (again r rs)
  then have "r \<in> set (same_key db (cmd_session cmd) (cmd_key cmd))" by simp
  then have "rid \<in> run_key ` set (runs db)" using again(3) by (auto simp: same_key_def)
  with again assms(2,3) show ?thesis by auto
next
  case fresh
  show ?thesis using fresh(3)
  proof (cases rule: start_fresh_cases)
    case (1 gen ob)
    show ?thesis using 1 never_ignored [OF fresh(1,2) assms(2)] fresh(1,2)
      by (intro that [of gen "the_default 0 gen + 1"]) simp_all
  qed
qed

section \<open>Histories\<close>

datatype run_call =
    SUBMIT env submit_run
  | FINALIZE env string int runtime_outcome "string option"
  | CANCEL_RUN env string string string
  | TRANSITION "string option" string run_state run_state int
  | REGISTER string
  | UNREGISTER string

type_synonym coordinator = "run_db \<times> cancel_registry"

fun coord_step :: "coordinator \<Rightarrow> run_call \<Rightarrow> coordinator" where
  "coord_step (db, reg) (SUBMIT v cmd) = (snd (submit v cmd db), reg)"
| "coord_step (db, reg) (FINALIZE v rid expected out sid) = (snd (finalize_run v rid expected out sid db), reg)"
| "coord_step (db, reg) (CANCEL_RUN v rid why sid) = snd (request_cancellation v rid why sid (db, reg))"
| "coord_step (db, reg) (TRANSITION fa rid f t n) = (snd (execute fa (cas_transition rid f t n) db), reg)"
| "coord_step (db, reg) (REGISTER rid) = (db, dict_set rid False reg)"
| "coord_step (db, reg) (UNREGISTER rid) = (db, dict_del rid reg)"

definition event_only :: "'a tx \<Rightarrow> bool" where
  "event_only m \<longleftrightarrow> (\<forall>db x db'. m db = Inr (x, db') \<longrightarrow> runs db' = runs db \<and> messages db' = messages db \<and> sessions db' = sessions db)"

lemma event_only_bind: "event_only m \<Longrightarrow> (\<And>x. event_only (f x)) \<Longrightarrow> event_only (tx_bind m f)"
  by (auto simp: event_only_def tx_bind_def split: sum.splits prod.splits)

lemma event_only_append [simp]: "event_only (append_fact fa sha reg e)"
  by (auto simp: event_only_def append_fact_def tx_defs split: if_splits sum.splits)

lemma event_only_simple [simp]: "event_only (tx_return x)" "event_only (tx_raise e)" "event_only (check_active_run fa sid)"
  by (auto simp: event_only_def check_active_run_def tx_defs split: if_splits)

lemma execute_cases: "snd (execute fa m db) = db \<or> (\<exists>x. m db = Inr (x, snd (execute fa m db)))"
  by (auto simp: execute_def tx_defs split: sum.splits prod.splits if_splits)

lemma event_only_execute: "event_only m \<Longrightarrow> runs (snd (execute fa m db)) = runs db"
  using execute_cases [of fa m db] by (auto simp: event_only_def)

lemma runs_finalize [simp]: "runs (snd (finalize_run v rid n out sid db)) = runs db"
  by (auto simp: finalize_run_def split_beta Let_def intro!: event_only_execute event_only_bind)

lemma event_only_cas [simp]: "event_only (cas_cancel_requested v rid why sid)"
  unfolding cas_cancel_requested_def by (rule event_only_bind) (auto split: option.split)

lemma runs_cancel [simp]: "runs (fst (snd (request_cancellation v rid why sid (db, reg)))) = runs db"
  using event_only_execute [OF event_only_cas, of "fail_at v" v rid why sid db]
  by (auto simp: request_cancellation_def split_beta split: sum.split tx_error.split)

fun reopens :: "run_call \<Rightarrow> bool" where
  "reopens (TRANSITION fa rid f t n) = (f \<in> {R_COMPLETED, R_FAILED, R_CANCELLED})"
| "reopens _ = False"

definition one_active :: "coordinator \<Rightarrow> bool" where
  "one_active s \<longleftrightarrow> (\<forall>sid. length (active_runs (fst s) sid) \<le> 1)"

lemma active_transition:
  assumes "cas_transition rid f t n db = Inr (m, db')" "f \<notin> {R_COMPLETED, R_FAILED, R_CANCELLED}"
  shows "length (active_runs db' sid) \<le> length (active_runs db sid)"
proof -
  have "length (filter (\<lambda>r. run_session r = sid \<and> active r)
      (map (\<lambda>r. if cas_matches rid f n r then r\<lparr>run_state := t, run_version := run_version r + 1\<rparr> else r) rs))
    \<le> length (filter (\<lambda>r. run_session r = sid \<and> active r) rs)" for rs
    by (induction rs) (use assms(2) in \<open>auto simp: active_def cas_matches_def\<close>)
  moreover have "runs db' = map (\<lambda>r. if cas_matches rid f n r
      then r\<lparr>run_state := t, run_version := run_version r + 1\<rparr> else r) (runs db)"
    using assms(1) by (auto simp: cas_transition_def split: if_splits list.splits)
  ultimately show ?thesis by (simp only: active_runs_def)
qed

lemma active_submit:
  assumes "length (active_runs db sid) \<le> 1"
  shows "length (active_runs (snd (submit v cmd db)) sid) \<le> 1"
proof (cases "submit v cmd db")
  case (Pair res db')
  show ?thesis
  proof (cases "\<exists>rid. res = Submitted rid")
    case True
    then obtain rid where "submit v cmd db = (Submitted rid, db')" using Pair by blast
    then show ?thesis
    proof (cases rule: submit_cases)
      case fresh
      show ?thesis using fresh(3)
        by (cases rule: start_fresh_cases)
          (use fresh(2) assms Pair in \<open>auto simp: active_runs_def new_run_def\<close>)
    qed (use assms Pair in simp)
  next
    case False
    with submit_atomic [OF Pair] Pair assms show ?thesis by auto
  qed
qed

lemma active_execute:
  assumes "f \<notin> {R_COMPLETED, R_FAILED, R_CANCELLED}"
  shows "length (active_runs (snd (execute fa (cas_transition rid f t n) db)) sid) \<le> length (active_runs db sid)"
  using execute_cases [of fa "cas_transition rid f t n" db] active_transition [OF _ assms] by auto

lemma one_active_step:
  assumes "one_active s" "\<not> reopens x"
  shows "one_active (coord_step s x)"
proof (cases s)
  case (Pair db reg)
  have one: "length (active_runs db sid) \<le> 1" for sid using assms(1) Pair by (simp add: one_active_def)
  show ?thesis
  proof (cases x)
    case (TRANSITION fa rid f t n)
    with assms(2) have "f \<notin> {R_COMPLETED, R_FAILED, R_CANCELLED}" by simp
    then have "length (active_runs (snd (execute fa (cas_transition rid f t n) db)) sid) \<le> 1" for sid
      using active_execute one by (meson order_trans)
    with TRANSITION Pair show ?thesis by (simp add: one_active_def)
  qed (use active_submit [OF one] Pair one in \<open>simp_all add: one_active_def active_runs_def\<close>)
qed

lemma one_active_run_history:
  "one_active s \<Longrightarrow> list_all (\<lambda>x. \<not> reopens x) xs \<Longrightarrow> one_active (foldl coord_step s xs)"
proof (induction xs arbitrary: s)
  case (Cons x xs)
  then show ?case by (simp del: coord_step.simps add: one_active_step)
qed simp

text \<open>Concrete surroundings: a registry of the run facts, the identity for SHA-256, a text per event.\<close>

definition run_registry :: schema_registry where
  "run_registry = map (\<lambda>(ty, cls). ((ty, 1), \<lparr>se_event_type = ty, se_version = 1, se_payload_class = cls\<rparr>))
     [(''run.submitted.v1'', ''RunSubmittedV1''), (''run.completed.v1'', ''RunCompletedV1''),
      (''run.cancelled.v1'', ''RunCancelledV1'')]"

definition sample_env :: "string \<Rightarrow> env" where
  "sample_env x = \<lparr>fail_at = None, env_sha = (\<lambda>s. s), env_registry = run_registry,
     env_json = (\<lambda>i t sid ty rid n f. i @ ty), env_now = 1, fresh_event = ''e'' @ x, fresh_run = ''r'' @ x,
     fresh_turn = ''t'' @ x\<rparr>"

definition sample_db :: "int \<Rightarrow> run_db" where
  "sample_db gen = \<lparr>sessions = [(''s'', Some gen)], runs = [], messages = [], events = empty_outbox\<rparr>"

definition sample_cmd :: submit_run where
  "sample_cmd = \<lparr>cmd_session = ''s'', cmd_prompt = ''p'', cmd_key = ''k''\<rparr>"

lemma sample_submitted:
  "submit (sample_env ''1'') sample_cmd (sample_db 0) = (Submitted ''r1'', snd (submit (sample_env ''1'') sample_cmd (sample_db 0)))"
proof -
  have "fst (submit (sample_env ''1'') sample_cmd (sample_db 0)) = Submitted ''r1''" by code_simp
  then show ?thesis by (metis prod.collapse)
qed

lemma sample_fresh [simp]:
  "fresh_run (sample_env x) = ''r'' @ x" "fail_at (sample_env x) = None" "env_sha (sample_env x) = (\<lambda>s. s)"
  "runs (sample_db n) = []" "rows (events (sample_db n)) = []" "cmd_key sample_cmd = ''k''"
  by (simp_all add: sample_env_def sample_db_def sample_cmd_def empty_outbox_def)

section \<open>Properties\<close>

text \<open>
  C19. Submitting is all or nothing: with fresh ids, either the database is unchanged, or the session existed and had
  no active run, its generation was counted up by one (from zero where it had none) and no other session changed, the
  run got exactly one row that is queued with this generation as the index of its turn, there is one more user message,
  and one fact with this version went to the outbox. Failure at any point of the transaction is the first case, and the
  insertion that may be ignored never is.
\<close>

theorem submit_is_atomic:
  assumes "submit v cmd db = (res, db')" "fresh_run v \<notin> run_key ` set (runs db)"
    and "find_row (fresh_event v) (rows (events db)) = None"
  shows "db' = db \<or> (\<exists>gen i. dict_get (sessions db) (cmd_session cmd) = Some gen
    \<and> i = (case gen of None \<Rightarrow> 1 | Some n \<Rightarrow> n + 1)
    \<and> res = Submitted (fresh_run v) \<and> runs db' = runs db @ [new_run v cmd i]
    \<and> messages db' = messages db @ [\<lparr>msg_session = cmd_session cmd, msg_role = ''user'', msg_content = cmd_prompt cmd,
        msg_turn = fresh_turn v\<rparr>]
    \<and> sessions db' = dict_set (cmd_session cmd) (Some i) (sessions db) \<and> active_runs db (cmd_session cmd) = []
    \<and> rows (events db') = rows (events db) @ [new_row (env_sha v) (submitted_envelope v cmd i)])"
proof (cases "db' = db")
  case False
  with submit_atomic [OF assms(1)] obtain rid where res: "res = Submitted rid" by blast
  from assms(1) [unfolded res] assms(2) disjI1 [OF False] show ?thesis
  proof (cases rule: submit_fresh)
    case (1 gen i)
    then have "rows (events db') = rows (events db) @ [new_row (env_sha v) (submitted_envelope v cmd i)]"
      using assms(3) append_cases [OF 1(7)] by (auto simp: submitted_envelope_def envelope_for_def)
    moreover have "i = (case gen of None \<Rightarrow> 1 | Some n \<Rightarrow> n + 1)" using 1(2) by (cases gen) simp_all
    ultimately show ?thesis using 1 res by blast
  qed
qed simp

theorem submit_is_atomic_witness:
  "runs (snd (submit (sample_env ''1'') sample_cmd (sample_db 0))) = [new_run (sample_env ''1'') sample_cmd 1]
   \<and> rows (events (snd (submit (sample_env ''1'') sample_cmd (sample_db 0))))
      = [new_row (\<lambda>s. s) (submitted_envelope (sample_env ''1'') sample_cmd 1)]"
proof -
  have "messages (snd (submit (sample_env ''1'') sample_cmd (sample_db 0))) \<noteq> messages (sample_db 0)" by code_simp
  moreover have "dict_get (sessions (sample_db 0)) (cmd_session sample_cmd) = Some (Some 0)" by (simp add: sample_db_def sample_cmd_def)
  ultimately show ?thesis using submit_is_atomic [OF sample_submitted] by auto
qed

text \<open>
  Submitting is idempotent: the same command with the same key, sent again, gives the id of the
  first run and changes nothing; another prompt under the key is refused as a conflict, if the digest
  tells the prompts apart.
\<close>

theorem submit_is_idempotent:
  assumes "submit v cmd db = (Submitted rid, db1)" "cmd_key cmd \<noteq> []" "fresh_run v \<notin> run_key ` set (runs db)"
    and "env_sha w = env_sha v" "fail_at w = None" "cmd_session c = cmd_session cmd" "cmd_key c = cmd_key cmd"
    and "cmd_prompt c = cmd_prompt cmd \<or> idem_digest (env_sha v) (cmd_session c) (cmd_prompt c) (cmd_key c)
           \<noteq> idem_digest (env_sha v) (cmd_session cmd) (cmd_prompt cmd) (cmd_key cmd)"
  shows "submit w c db1 = (if cmd_prompt c = cmd_prompt cmd then Submitted rid else Conflict (cmd_key c) rid, db1)"
proof -
  have "\<exists>r rs. same_key db1 (cmd_session cmd) (cmd_key cmd) = r # rs \<and> run_key r = rid
      \<and> idem_digest (env_sha v) (cmd_session cmd) (run_prompt r) (cmd_key cmd)
        = idem_digest (env_sha v) (cmd_session cmd) (cmd_prompt cmd) (cmd_key cmd)"
    using assms(1)
  proof (cases rule: submit_cases)
    case fresh
    show ?thesis using fresh(3)
    proof (cases rule: start_fresh_cases)
      case (1 gen ob)
      with fresh(1) assms(2) never_ignored [OF fresh(1,2) assms(3)] show ?thesis
        by (simp add: same_key_def new_run_def)
    qed
  qed auto
  then show ?thesis using assms(2,4-8)
    by (auto simp: submit_def execute_def submit_in_tx_def check_idempotency_def tx_defs same_key_def)
qed

theorem submit_is_idempotent_witness:
  "let db1 = snd (submit (sample_env ''1'') sample_cmd (sample_db 0))
   in submit (sample_env ''2'') sample_cmd db1 = (Submitted ''r1'', db1)"
  using submit_is_idempotent [OF sample_submitted, of "sample_env ''2''" sample_cmd] by simp

text \<open>
  C25. A session has at most one active run, in every state that submissions, finalizations,
  cancellations and transitions reach, whatever fails on the way, as long as no transition starts from
  completed, failed or cancelled.
\<close>

theorem one_active_run:
  assumes "list_all (\<lambda>x. \<not> reopens x) xs" "runs db = []"
  shows "length (active_runs (fst (foldl coord_step (db, reg) xs)) sid) \<le> 1"
proof -
  have "one_active (db, reg)" using assms(2) by (simp add: one_active_def active_runs_def)
  with assms(1) show ?thesis using one_active_run_history by (fastforce simp: one_active_def)
qed

theorem one_active_run_witness:
  "length (active_runs (fst (foldl coord_step (sample_db 0, [])
      [SUBMIT (sample_env ''1'') sample_cmd, TRANSITION None ''r1'' R_QUEUED R_COMPLETED 1])) ''s'') \<le> 1"
  by (rule one_active_run) simp_all

text \<open>
  Of several transitions that expect the same state and version of a run, one succeeds: whoever
  comes later meets the next version and is refused without a change.
\<close>

theorem transition_wins_once:
  assumes "cas_transition rid f t n db = Inr (m, db')"
  shows "m = n + 1 \<and> cas_transition rid f t' n db' = Inl (StaleVersion (get_version rid db') n)"
proof -
  let ?g = "\<lambda>r. if cas_matches rid f n r then r\<lparr>run_state := t, run_version := run_version r + 1\<rparr> else r"
  have db': "runs db' = map ?g (runs db)" "m = n + 1" "list_ex (cas_matches rid f n) (runs db)"
    using assms by (auto simp: cas_transition_def split: if_splits list.splits)
  have "\<not> list_ex (cas_matches rid f n) (map ?g rs)" for rs
    by (induction rs) (auto simp: cas_matches_def)
  then have "\<not> list_ex (cas_matches rid f n) (runs db')" unfolding db'(1) .
  moreover have "list_ex (cas_matches rid f n) rs \<Longrightarrow> filter (\<lambda>r. run_key r = rid) (map ?g rs) \<noteq> []" for rs
    by (induction rs) (auto simp: cas_matches_def)
  then have "filter (\<lambda>r. run_key r = rid) (runs db') \<noteq> []" unfolding db'(1) using db'(3) by blast
  moreover have "find P xs = (case filter P xs of [] \<Rightarrow> None | x # ys \<Rightarrow> Some x)" for P and xs :: "run_row list"
    by (induction xs) auto
  ultimately show ?thesis using db'(2)
    by (auto simp: cas_transition_def get_version_def split: list.split)
qed

theorem transition_wins_once_witness:
  "let db = snd (submit (sample_env ''1'') sample_cmd (sample_db 0));
       db' = snd (execute None (cas_transition ''r1'' R_QUEUED R_RUNNING 1) db)
   in cas_transition ''r1'' R_QUEUED R_CANCELLED 1 db' = Inl (StaleVersion (get_version ''r1'' db') 1)"
proof -
  let ?db = "snd (submit (sample_env ''1'') sample_cmd (sample_db 0))"
  have "case cas_transition ''r1'' R_QUEUED R_RUNNING 1 ?db of Inl e \<Rightarrow> False | Inr x \<Rightarrow> True" by code_simp
  then obtain m db' where t: "cas_transition ''r1'' R_QUEUED R_RUNNING 1 ?db = Inr (m, db')"
    by (auto split: sum.splits)
  then have "snd (execute None (cas_transition ''r1'' R_QUEUED R_RUNNING 1) ?db) = db'"
    by (simp add: execute_def tx_defs)
  with transition_wins_once [OF t] show ?thesis by (simp add: Let_def)
qed

fun finishes :: "run_call \<Rightarrow> bool" where
  "finishes (FINALIZE v rid n out sid) = True"
| "finishes (CANCEL_RUN v rid why sid) = True"
| "finishes _ = False"

text \<open>
  C31. Finalizing does not end a run: after a submission is accepted, whatever finalizations and
  cancellations are processed, the next submission to the session starts no run. Without a key, or with a key no run of
  the session has, it is refused because the first run is active; with a key that a run of the session has, it is answered with
  that run, or as a conflict with it. The coordinator appends the terminal fact and leaves the row of the run as it is.
\<close>

theorem finalized_run_stays_active:
  assumes "submit v cmd db = (Submitted rid, db1)" "fresh_run v \<notin> run_key ` set (runs db)" "rid = fresh_run v"
    and "list_all finishes xs" "db2 = fst (foldl coord_step (db1, reg) xs)"
    and "fail_at w = None" "cmd_session c = cmd_session cmd"
  shows "if cmd_key c = [] \<or> same_key db1 (cmd_session cmd) (cmd_key c) = []
    then submit w c db2 = (Active (cmd_session cmd) rid, db2)
    else (let old = run_key (hd (same_key db1 (cmd_session cmd) (cmd_key c)))
          in submit w c db2 \<in> {(Submitted old, db2), (Conflict (cmd_key c) old, db2)})"
proof -
  have "runs (fst (coord_step s x)) = runs (fst s)" if "finishes x" for s x
    using that by (cases s; cases x) simp_all
  then have "runs (fst (foldl coord_step s xs)) = runs (fst s)" for s
    using assms(4) by (induction xs arbitrary: s) (simp_all del: coord_step.simps)
  then have same: "runs db2 = runs db1" using assms(5) by (metis fst_conv)
  have keyed: "same_key db2 sid key = same_key db1 sid key" for sid key by (simp add: same_key_def same)
  show ?thesis
  proof (cases "cmd_key c = [] \<or> same_key db1 (cmd_session cmd) (cmd_key c) = []")
    case True
    from assms(1,2) disjI2 [OF assms(3)] show ?thesis
    proof (cases rule: submit_fresh)
      case (1 gen i)
      then have "active_runs db2 (cmd_session cmd) = [new_run v cmd i]"
        using same by (simp add: active_runs_def new_run_def active_def)
      then have "refuse_active w c db2 = Inl (RunAlreadyActive (cmd_session cmd) rid)"
        using assms(3,6,7) by (simp add: refuse_active_def check_active_run_def tx_defs new_run_def)
      then have "submit_in_tx w c db2 = Inl (RunAlreadyActive (cmd_session cmd) rid)"
        using True keyed [of "cmd_session cmd" "cmd_key c"] assms(7)
        by (auto simp: submit_in_tx_def check_idempotency_def same_key_def tx_bind_def)
      then show ?thesis using True by (simp add: submit_def execute_def tx_bind_def)
    qed
  next
    case False
    then obtain r rs where r: "same_key db2 (cmd_session c) (cmd_key c) = r # rs"
      using keyed assms(7) by (metis neq_Nil_conv)
    have "submit w c db2 \<in> {(Submitted (run_key r), db2), (Conflict (cmd_key c) (run_key r), db2)}"
      using False r assms(6)
      by (auto simp: submit_def execute_def submit_in_tx_def check_idempotency_def tx_defs same_key_def)
    then show ?thesis using False r keyed assms(7) by (simp add: Let_def)
  qed
qed

theorem finalized_run_stays_active_witness:
  "let db1 = snd (submit (sample_env ''1'') sample_cmd (sample_db 0));
       db2 = fst (foldl coord_step (db1, []) [FINALIZE (sample_env ''2'') ''r1'' 1 (completed 1 1 ''ok'') (Some ''s'')])
   in submit (sample_env ''3'') (sample_cmd\<lparr>cmd_key := []\<rparr>) db2 = (Active ''s'' ''r1'', db2)"
proof -
  let ?xs = "[FINALIZE (sample_env ''2'') ''r1'' 1 (completed 1 1 ''ok'') (Some ''s'')]"
  let ?c = "sample_cmd\<lparr>cmd_key := []\<rparr>"
  have given: "fresh_run (sample_env ''1'') \<notin> run_key ` set (runs (sample_db 0))" "''r1'' = fresh_run (sample_env ''1'')"
    "list_all finishes ?xs" "fail_at (sample_env ''3'') = None" "cmd_session ?c = cmd_session sample_cmd" "cmd_key ?c = []"
    by simp_all
  have "cmd_session sample_cmd = ''s''" by (simp add: sample_cmd_def)
  with finalized_run_stays_active [OF sample_submitted given(1-3) refl given(4-5)] given(6)
  show ?thesis unfolding Let_def by (simp only: simp_thms if_True)
qed

text \<open>
  The facts of a later run arrive in the wrong order: the submission carries the index of the turn
  as its version and the end of the run the version 2, so for the third run of a session the relay is
  given the end of the run first, and the submission only after the end is delivered.
\<close>

theorem end_overtakes_submission:
  "let db1 = snd (submit (sample_env ''1'') sample_cmd (sample_db 2));
       db2 = snd (finalize_run (sample_env ''2'') ''r1'' 1 (completed 1 1 ''ok'') (Some ''s'') db1);
       (first, ob) = claim_batch 5 ''w'' 10 60 (events db2)
   in map event_type first = [''run.completed''] \<and> fst (claim_batch 6 ''w'' 10 60 ob) = []
      \<and> map event_type (fst (claim_batch 7 ''w'' 10 60 (snd (mark_delivered 6 ''e2'' ''w'' ob)))) = [''run.submitted'']"
  by code_simp

text \<open>
  Requesting a cancellation twice writes two facts of a cancelled run, and the second is claimed
  like the first.
\<close>

theorem cancellation_is_not_idempotent:
  "let db1 = snd (submit (sample_env ''1'') sample_cmd (sample_db 0));
       s2 = coord_step (db1, [(''r1'', False)]) (CANCEL_RUN (sample_env ''2'') ''r1'' ''user_requested'' ''s'');
       (db3, reg) = coord_step s2 (CANCEL_RUN (sample_env ''3'') ''r1'' ''user_requested'' ''s'')
   in map event_type (rows (events db3)) = [''run.submitted'', ''run.cancelled'', ''run.cancelled'']
      \<and> reg = [(''r1'', True)]"
  by code_simp

end
