(* ===== verification/Tool_Executor.thy ===== *)
theory Tool_Executor
  imports Grace_Prelude
begin

text \<open>
  \<^verbatim>\<open>core/streaming_executor.py\<close>: the executor that starts tool calls while the model is still writing.
  Every critical section under the executor's lock is one step. What a thread still has to do after
  one of them waits in \<open>threads\<close>, one list per thread, and any thread may be next; a call whose worker
  was submitted and has not come back from the registry is in \<open>live\<close>. Calls are enqueued by one
  thread. The field \<open>delivered\<close> is not in the code: it records the results handed out, with the index of
  their call. Whether a call is safe beside others, and the digest of a call without an id, are
  parameters; times are left out, and the dash in a message is a hyphen.
\<close>

section \<open>Calls and their tracking\<close>

datatype tracked_status = QUEUED | EXECUTING | COMPLETED | YIELDED | CANCELLED

record tool_call =
  call_id :: string
  call_name :: string
  call_params :: string

record tool_result =
  res_success :: bool
  res_output :: string
  res_error :: "string option"

record tracked_tool =
  tool_call :: tool_call
  status :: tracked_status
  result :: "tool_result option"
  error :: "string option"

datatype micro = TRY nat | CANCEL_RUNNING string | SCAN

record executor =
  abort_on_bash_error :: bool
  tracked :: "tracked_tool list"
  abort_reason :: "string option"
  last_observed :: nat
  threads :: "micro list list"
  live :: "nat list"
  delivered :: "(nat \<times> tool_result) list"

record surroundings =
  concurrency_safe :: "tool_call \<Rightarrow> bool"
  md5_hex :: "string \<Rightarrow> string"

definition new_executor :: "bool \<Rightarrow> executor" where
  "new_executor b = \<lparr>abort_on_bash_error = b, tracked = [], abort_reason = None, last_observed = 0,
     threads = [], live = [], delivered = []\<rparr>"

definition is_terminal :: "tracked_tool \<Rightarrow> bool" where
  "is_terminal t \<longleftrightarrow> status t = COMPLETED \<or> status t = YIELDED \<or> status t = CANCELLED"

definition pending :: "tracked_tool \<Rightarrow> bool" where
  "pending t \<longleftrightarrow> status t = QUEUED \<or> status t = EXECUTING"

definition pending_count :: "executor \<Rightarrow> nat" where
  "pending_count e = length (filter pending (tracked e))"

definition completed_count :: "executor \<Rightarrow> nat" where
  "completed_count e = length (filter (\<lambda>t. status t = COMPLETED) (tracked e))"

definition internal_error :: "string \<Rightarrow> tool_result" where
  "internal_error d = \<lparr>res_success = False, res_output = [], res_error = Some d\<rparr>"

section \<open>Batches\<close>

text \<open>\<open>partition_tool_calls\<close>: the batch under construction is the last one.\<close>

definition add_call :: "surroundings \<Rightarrow> tool_call list list \<Rightarrow> tool_call \<Rightarrow> tool_call list list" where
  "add_call v bs c =
     (if concurrency_safe v c \<and> bs \<noteq> [] \<and> concurrency_safe v (hd (last bs))
      then butlast bs @ [last bs @ [c]] else bs @ [[c]])"

definition partition_tool_calls :: "surroundings \<Rightarrow> tool_call list \<Rightarrow> tool_call list list" where
  "partition_tool_calls v cs = foldl (add_call v) [] cs"

section \<open>The queue\<close>

definition dedup_key :: "surroundings \<Rightarrow> tool_call \<Rightarrow> string" where
  "dedup_key v c = (if call_id c \<noteq> [] then call_id c else take 20 (md5_hex v (call_name c @ '':'' @ call_params c)))"

definition enqueue :: "surroundings \<Rightarrow> tool_call \<Rightarrow> executor \<Rightarrow> executor" where
  "enqueue v c e =
     (if list_ex (\<lambda>t. dedup_key v (tool_call t) = dedup_key v c) (tracked e) then e
      else e\<lparr>tracked := tracked e @ [\<lparr>tool_call = c, status = QUEUED, result = None, error = None\<rparr>],
             threads := threads e @ [[TRY (length (tracked e))]]\<rparr>)"

definition executing :: "executor \<Rightarrow> tracked_tool list" where
  "executing e = filter (\<lambda>t. status t = EXECUTING) (tracked e)"

definition admissible :: "surroundings \<Rightarrow> executor \<Rightarrow> tracked_tool \<Rightarrow> bool" where
  "admissible v e t \<longleftrightarrow> status t = QUEUED \<and>
     (executing e = []
      \<or> (list_all (\<lambda>x. concurrency_safe v (tool_call x)) (executing e) \<and> concurrency_safe v (tool_call t)))"

definition try_start :: "surroundings \<Rightarrow> nat \<Rightarrow> executor \<Rightarrow> executor" where
  "try_start v i e =
     (if i < length (tracked e) \<and> admissible v e (tracked e ! i)
      then e\<lparr>tracked := (tracked e)[i := (tracked e ! i)\<lparr>status := EXECUTING\<rparr>], live := live e @ [i]\<rparr>
      else e)"

definition queued_calls :: "executor \<Rightarrow> nat list" where
  "queued_calls e = filter (\<lambda>i. status (tracked e ! i) = QUEUED) [0..<length (tracked e)]"

section \<open>Cancellation\<close>

definition cancel_where :: "(tracked_tool \<Rightarrow> bool) \<Rightarrow> string \<Rightarrow> executor \<Rightarrow> executor" where
  "cancel_where P why e =
     e\<lparr>tracked := map (\<lambda>t. if P t then t\<lparr>status := CANCELLED, error := Some why\<rparr> else t) (tracked e)\<rparr>"

definition cancel_executing :: "string \<Rightarrow> executor \<Rightarrow> executor" where
  "cancel_executing why e = cancel_where (\<lambda>t. status t = EXECUTING) why e"

definition cancel_queued :: "string \<Rightarrow> executor \<Rightarrow> executor" where
  "cancel_queued why e = cancel_where (\<lambda>t. status t = QUEUED) why e"

definition abort_all :: "string \<Rightarrow> executor \<Rightarrow> executor" where
  "abort_all why e = cancel_where pending why (e\<lparr>abort_reason := Some why\<rparr>)"

text \<open>The processes the registry is asked to kill after \<open>cancel_executing\<close>, by the ids of their calls.\<close>

definition kill_targets :: "executor \<Rightarrow> string list" where
  "kill_targets e = map (\<lambda>t. call_id (tool_call t))
     (filter (\<lambda>t. status t = CANCELLED \<and> call_id (tool_call t) \<noteq> []) (tracked e))"

text \<open>\<open>shutdown\<close>: what no worker has begun is dropped from the pool.\<close>

definition shutdown :: "nat list \<Rightarrow> executor \<Rightarrow> executor" where
  "shutdown begun e = (abort_all ''Executor shutdown'' e)\<lparr>live := filter (\<lambda>i. i \<in> set begun) (live e)\<rparr>"

section \<open>The worker\<close>

text \<open>What the registry does with the call of a worker: an exception with its text, or a result.\<close>

type_synonym outcome = "string + tool_result"

definition store_outcome :: "nat \<Rightarrow> outcome \<Rightarrow> executor \<Rightarrow> executor" where
  "store_outcome i out e =
     (let t = tracked e ! i
      in if status t = CANCELLED then e
         else e\<lparr>tracked := (tracked e)[i := (case out of
                  Inl x \<Rightarrow> t\<lparr>status := COMPLETED, error := Some x\<rparr>
                | Inr r \<Rightarrow> t\<lparr>status := COMPLETED, result := Some r\<rparr>)]\<rparr>)"

definition bash_failed :: "executor \<Rightarrow> nat \<Rightarrow> outcome \<Rightarrow> bool" where
  "bash_failed e i out \<longleftrightarrow> abort_on_bash_error e \<and> call_name (tool_call (tracked e ! i)) = ''Bash''
     \<and> (case out of Inl x \<Rightarrow> False | Inr r \<Rightarrow> \<not> res_success r)"

definition bash_reason :: "outcome \<Rightarrow> string" where
  "bash_reason out = ''Cancelled: parallel tool call Bash errored - ''
     @ (case out of Inr r \<Rightarrow> (case res_error r of Some (c # cs) \<Rightarrow> c # cs | _ \<Rightarrow> ''exit non-zero'') | Inl x \<Rightarrow> [])"

definition finish :: "nat \<Rightarrow> outcome \<Rightarrow> executor \<Rightarrow> executor" where
  "finish i out e =
     (if i \<in> set (live e)
      then (store_outcome i out e)\<lparr>live := remove1 i (live e),
             threads := threads e @ [if bash_failed e i out then [CANCEL_RUNNING (bash_reason out), SCAN] else [SCAN]]\<rparr>
      else e)"

text \<open>One critical section of a thread, and what the thread has left.\<close>

fun run_micro :: "surroundings \<Rightarrow> micro \<Rightarrow> executor \<Rightarrow> micro list \<times> executor" where
  "run_micro v (TRY i) e = ([], try_start v i e)"
| "run_micro v (CANCEL_RUNNING why) e = ([], cancel_executing why (e\<lparr>abort_reason := Some why\<rparr>))"
| "run_micro v SCAN e = (map TRY (queued_calls e), e)"

definition advance :: "surroundings \<Rightarrow> nat \<Rightarrow> executor \<Rightarrow> executor" where
  "advance v k e =
     (if k < length (threads e)
      then case threads e ! k of
             [] \<Rightarrow> e
           | m # rest \<Rightarrow> (let (todo, e1) = run_micro v m e in e1\<lparr>threads := (threads e1)[k := todo @ rest]\<rparr>)
      else e)"

section \<open>Results\<close>

definition completed_result :: "tracked_tool \<Rightarrow> tool_result list" where
  "completed_result t =
     (case result t of
        Some r \<Rightarrow> [r]
      | None \<Rightarrow> (case error t of Some (c # cs) \<Rightarrow> [internal_error (c # cs)] | _ \<Rightarrow> []))"

definition collected_result :: "tracked_tool \<Rightarrow> tool_result list" where
  "collected_result t =
     (case status t of
        COMPLETED \<Rightarrow> completed_result t
      | CANCELLED \<Rightarrow> [internal_error (case error t of Some (c # cs) \<Rightarrow> c # cs | _ \<Rightarrow> ''Tool cancelled'')]
      | _ \<Rightarrow> [])"

definition hand_out :: "(tracked_tool \<Rightarrow> bool) \<Rightarrow> (tracked_tool \<Rightarrow> tool_result list) \<Rightarrow> executor \<Rightarrow> tool_result list \<times> executor" where
  "hand_out P res e =
     (concat (map res (filter P (tracked e))),
      e\<lparr>tracked := map (\<lambda>t. if P t then t\<lparr>status := YIELDED\<rparr> else t) (tracked e),
        delivered := delivered e @ concat (map (\<lambda>i. map (Pair i) (res (tracked e ! i)))
          (filter (\<lambda>i. P (tracked e ! i)) [0..<length (tracked e)]))\<rparr>)"

definition get_completed_results :: "executor \<Rightarrow> tool_result list \<times> executor" where
  "get_completed_results e = hand_out (\<lambda>t. status t = COMPLETED) completed_result e"

text \<open>\<open>collect\<close> waits while a call is pending; \<open>None\<close> is a call that waits.\<close>

definition collect :: "executor \<Rightarrow> (tool_result list \<times> executor) option" where
  "collect e = (if pending_count e \<noteq> 0 then None
     else Some (hand_out (\<lambda>t. status t = COMPLETED \<or> status t = CANCELLED) collected_result e))"

definition observation :: "(tool_call \<Rightarrow> tool_result \<Rightarrow> 'o) \<Rightarrow> tracked_tool \<Rightarrow> 'o list" where
  "observation build t = map (build (tool_call t)) (completed_result t)"

definition collect_with_observations :: "(tool_call \<Rightarrow> tool_result \<Rightarrow> 'o) \<Rightarrow> executor \<Rightarrow> ('o list \<times> executor) option" where
  "collect_with_observations build e =
     (case collect e of
        None \<Rightarrow> None
      | Some (rs, e1) \<Rightarrow>
          (let yielded = filter (\<lambda>t. status t = YIELDED) (tracked e1)
           in Some (concat (map (observation build) (drop (last_observed e1) yielded)), e1\<lparr>last_observed := length yielded\<rparr>)))"

section \<open>Executions\<close>

datatype exec_event =
    ENQUEUE tool_call
  | ADVANCE nat
  | FINISH nat outcome
  | PROCESS_QUEUE
  | GET_COMPLETED
  | COLLECT
  | ABORT_ALL string
  | SHUTDOWN "nat list"

fun exec_step :: "surroundings \<Rightarrow> executor \<Rightarrow> exec_event \<Rightarrow> executor" where
  "exec_step v e (ENQUEUE c) = enqueue v c e"
| "exec_step v e (ADVANCE k) = advance v k e"
| "exec_step v e (FINISH i out) = finish i out e"
| "exec_step v e PROCESS_QUEUE = e\<lparr>threads := threads e @ [[SCAN]]\<rparr>"
| "exec_step v e GET_COMPLETED = snd (get_completed_results e)"
| "exec_step v e COLLECT = (case collect e of None \<Rightarrow> e | Some (rs, e1) \<Rightarrow> e1)"
| "exec_step v e (ABORT_ALL why) = abort_all why e"
| "exec_step v e (SHUTDOWN begun) = shutdown begun e"

section \<open>Invariant\<close>

abbreviation st :: "executor \<Rightarrow> nat \<Rightarrow> tracked_status" where
  "st e i \<equiv> status (tracked e ! i)"

abbreviation safe_at :: "surroundings \<Rightarrow> executor \<Rightarrow> nat \<Rightarrow> bool" where
  "safe_at v e i \<equiv> concurrency_safe v (tool_call (tracked e ! i))"

definition workers_ok :: "executor \<Rightarrow> bool" where
  "workers_ok e \<longleftrightarrow> distinct (live e) \<and> (\<forall>i \<in> set (live e). i < length (tracked e) \<and> st e i \<noteq> QUEUED)
     \<and> (\<forall>i < length (tracked e). st e i = EXECUTING \<longrightarrow> i \<in> set (live e))"

definition exclusive :: "surroundings \<Rightarrow> executor \<Rightarrow> bool" where
  "exclusive v e \<longleftrightarrow> (\<forall>i < length (tracked e). \<forall>j < length (tracked e).
     i \<noteq> j \<longrightarrow> st e i = EXECUTING \<longrightarrow> st e j = EXECUTING \<longrightarrow> safe_at v e i)"

text \<open>Whoever cancels the running calls looks at the queue afterwards.\<close>

fun rescans :: "micro list \<Rightarrow> bool" where
  "rescans [] = True"
| "rescans (CANCEL_RUNNING why # th) = (SCAN \<in> set th \<and> rescans th)"
| "rescans (_ # th) = rescans th"

definition awaited :: "executor \<Rightarrow> nat \<Rightarrow> bool" where
  "awaited e i \<longleftrightarrow> (\<exists>j < length (tracked e). st e j = EXECUTING) \<or> (\<exists>th \<in> set (threads e). SCAN \<in> set th \<or> TRY i \<in> set th)"

definition queue_ok :: "executor \<Rightarrow> bool" where
  "queue_ok e \<longleftrightarrow> (\<forall>th \<in> set (threads e). rescans th) \<and> (\<forall>i < length (tracked e). st e i = QUEUED \<longrightarrow> awaited e i)"

definition exec_ok :: "surroundings \<Rightarrow> executor \<Rightarrow> bool" where
  "exec_ok v e \<longleftrightarrow> workers_ok e \<and> exclusive v e \<and> queue_ok e"

lemma executing_iff: "(t \<in> set (executing e)) = (\<exists>i < length (tracked e). t = tracked e ! i \<and> st e i = EXECUTING)"
  by (auto simp: executing_def in_set_conv_nth)

lemma executing_empty: "(executing e = []) = (\<forall>i < length (tracked e). st e i \<noteq> EXECUTING)"
proof -
  have "(executing e = []) = (\<forall>t \<in> set (tracked e). status t \<noteq> EXECUTING)" by (simp add: executing_def filter_empty_conv)
  then show ?thesis by (simp add: all_set_conv_all_nth)
qed

lemma rescans_append: "rescans a \<Longrightarrow> rescans b \<Longrightarrow> rescans (a @ b)"
  by (induction a rule: rescans.induct) auto

lemma rescans_tries [simp]: "rescans (map TRY is)"
  by (induction "is") auto

lemma other_thread: "th \<in> set ths \<Longrightarrow> th \<noteq> ths ! k \<Longrightarrow> th \<in> set (ths[k := x])"
  by (metis in_set_conv_nth length_list_update nth_list_update_neq)

text \<open>What keeps the invariant: no call becomes queued or starts, and no thread loses work.\<close>

lemma workers_frame:
  assumes "workers_ok e" "length (tracked e') = length (tracked e)" "distinct (live e')" "set (live e') \<subseteq> set (live e)"
    and "\<And>i. i < length (tracked e) \<Longrightarrow> st e' i = QUEUED \<Longrightarrow> st e i = QUEUED"
    and "\<And>i. i < length (tracked e) \<Longrightarrow> st e' i = EXECUTING \<Longrightarrow> st e i = EXECUTING \<and> i \<in> set (live e')"
  shows "workers_ok e'"
  using assms by (auto simp: workers_ok_def)

lemma exclusive_frame:
  assumes "exclusive v e" "length (tracked e') = length (tracked e)"
    and "\<And>i. i < length (tracked e) \<Longrightarrow> st e' i = EXECUTING \<Longrightarrow> st e i = EXECUTING"
    and "\<And>i. i < length (tracked e) \<Longrightarrow> tool_call (tracked e' ! i) = tool_call (tracked e ! i)"
  shows "exclusive v e'"
  using assms by (auto simp: exclusive_def)

lemma start_workers: "workers_ok e \<Longrightarrow> workers_ok (try_start v i e)"
  by (auto simp: workers_ok_def try_start_def admissible_def nth_list_update)

lemma start_exclusive:
  assumes ex: "exclusive v e"
  shows "exclusive v (try_start v i e)"
proof (cases "i < length (tracked e) \<and> admissible v e (tracked e ! i)")
  case True
  let ?e = "try_start v i e"
  have st': "st ?e j = (if j = i then EXECUTING else st e j)" "safe_at v ?e j = safe_at v e j" if "j < length (tracked e)" for j
    using that True by (auto simp: try_start_def nth_list_update)
  have busy: "safe_at v e i \<and> safe_at v e j" if "j < length (tracked e)" "st e j = EXECUTING" for j
    using True that by (auto simp: admissible_def list_all_iff executing_iff executing_empty)
  show ?thesis unfolding exclusive_def
  proof (intro allI impI)
    fix j k assume "j < length (tracked ?e)" "k < length (tracked ?e)" "j \<noteq> k" "st ?e j = EXECUTING" "st ?e k = EXECUTING"
    moreover then have n: "j < length (tracked e)" "k < length (tracked e)" by (simp_all add: try_start_def split: if_splits)
    ultimately have "safe_at v e j"
      using st'(1) [OF n(1)] st'(1) [OF n(2)] busy [OF n(1)] busy [OF n(2)] ex [unfolded exclusive_def] n
      by (cases "j = i"; cases "k = i") auto
    then show "safe_at v ?e j" using st'(2) [OF n(1)] by simp
  qed
qed (use ex in \<open>simp only: try_start_def if_False\<close>)

lemma start_keeps: "threads (try_start v i e) = threads e" "length (tracked (try_start v i e)) = length (tracked e)"
  by (simp_all add: try_start_def)

lemma start_or_busy:
  assumes "i < length (tracked e)" "st e i = QUEUED"
  shows "\<exists>j < length (tracked e). st (try_start v i e) j = EXECUTING"
  using assms by (auto simp: try_start_def admissible_def executing_empty nth_list_update)

lemma start_runs: "j < length (tracked e) \<Longrightarrow> st e j = EXECUTING \<Longrightarrow> st (try_start v i e) j = EXECUTING"
  by (auto simp: try_start_def admissible_def nth_list_update)

lemma start_queued: "j < length (tracked e) \<Longrightarrow> st (try_start v i e) j = QUEUED \<Longrightarrow> st e j = QUEUED"
  by (auto simp: try_start_def nth_list_update split: if_splits)

lemma cancel_where_simps [simp]:
  "live (cancel_where P why e) = live e" "threads (cancel_where P why e) = threads e"
  "length (tracked (cancel_where P why e)) = length (tracked e)"
  "i < length (tracked e) \<Longrightarrow> tracked (cancel_where P why e) ! i
     = (if P (tracked e ! i) then (tracked e ! i)\<lparr>status := CANCELLED, error := Some why\<rparr> else tracked e ! i)"
  by (simp_all add: cancel_where_def)

lemma hand_out_simps [simp]:
  "live (snd (hand_out P f e)) = live e" "threads (snd (hand_out P f e)) = threads e"
  "length (tracked (snd (hand_out P f e))) = length (tracked e)"
  "i < length (tracked e) \<Longrightarrow> tracked (snd (hand_out P f e)) ! i
     = (if P (tracked e ! i) then (tracked e ! i)\<lparr>status := YIELDED\<rparr> else tracked e ! i)"
  by (simp_all add: hand_out_def)

lemma store_simps [simp]:
  "live (store_outcome i out e) = live e" "threads (store_outcome i out e) = threads e"
  "length (tracked (store_outcome i out e)) = length (tracked e)"
  "j < length (tracked e) \<Longrightarrow> tool_call (tracked (store_outcome i out e) ! j) = tool_call (tracked e ! j)"
  "j < length (tracked e) \<Longrightarrow> st (store_outcome i out e) j = (if j = i \<and> st e i \<noteq> CANCELLED then COMPLETED else st e j)"
  by (cases "i < length (tracked e)"; auto simp: store_outcome_def Let_def nth_list_update list_update_beyond split: sum.splits)+

text \<open>An operation that changes no queue and starts nothing.\<close>

lemma quiet_ok:
  assumes ok: "exec_ok v e" and len: "length (tracked e') = length (tracked e)"
    and thr: "threads e' = threads e" and liv: "live e' = live e"
    and same: "\<And>i. i < length (tracked e) \<Longrightarrow> tool_call (tracked e' ! i) = tool_call (tracked e ! i)
      \<and> ((st e' i = QUEUED) = (st e i = QUEUED)) \<and> ((st e' i = EXECUTING) = (st e i = EXECUTING))"
  shows "exec_ok v e'"
proof -
  have "workers_ok e'"
    by (rule workers_frame [of e]) (use assms in \<open>auto simp: exec_ok_def workers_ok_def\<close>)
  moreover have "exclusive v e'"
    by (rule exclusive_frame [of v e]) (use assms in \<open>auto simp: exec_ok_def\<close>)
  moreover have "queue_ok e'"
    using ok len thr same unfolding exec_ok_def queue_ok_def awaited_def by metis
  ultimately show ?thesis by (simp add: exec_ok_def)
qed

text \<open>An operation after which nothing waits in the queue.\<close>

lemma emptied_ok:
  assumes ok: "exec_ok v e" and len: "length (tracked e') = length (tracked e)"
    and thr: "threads e' = threads e" and liv: "distinct (live e')" "set (live e') \<subseteq> set (live e)"
    and same: "\<And>i. i < length (tracked e) \<Longrightarrow> st e' i \<noteq> QUEUED \<and> st e' i \<noteq> EXECUTING"
  shows "exec_ok v e'"
proof -
  have "workers_ok e'"
    by (rule workers_frame [of e]) (use assms in \<open>auto simp: exec_ok_def\<close>)
  moreover have "exclusive v e'" using same len by (auto simp: exclusive_def)
  moreover have "queue_ok e'"
    using ok len thr same unfolding exec_ok_def queue_ok_def by metis
  ultimately show ?thesis by (simp add: exec_ok_def)
qed

lemma abort_ok:
  assumes "exec_ok v e"
  shows "exec_ok v (abort_all why e)"
  by (rule emptied_ok [OF assms]) (use assms in \<open>auto simp: abort_all_def pending_def exec_ok_def workers_ok_def\<close>)

lemma shutdown_ok:
  assumes "exec_ok v e"
  shows "exec_ok v (shutdown begun e)"
  by (rule emptied_ok [OF assms]) (use assms in \<open>auto simp: shutdown_def abort_all_def pending_def exec_ok_def workers_ok_def\<close>)

lemma get_completed_ok:
  assumes "exec_ok v e"
  shows "exec_ok v (snd (get_completed_results e))"
  unfolding get_completed_results_def by (rule quiet_ok [OF assms]) auto

lemma collect_ok:
  assumes "exec_ok v e" "collect e = Some (rs, e1)"
  shows "exec_ok v e1"
proof -
  have e1: "e1 = snd (hand_out (\<lambda>t. status t = COMPLETED \<or> status t = CANCELLED) collected_result e)"
    using assms(2) by (simp add: collect_def split: if_splits)
  show ?thesis unfolding e1 by (rule quiet_ok [OF assms(1)]) auto
qed

lemma enqueue_ok:
  assumes "exec_ok v e"
  shows "exec_ok v (enqueue v c e)"
proof (cases "list_ex (\<lambda>t. dedup_key v (tool_call t) = dedup_key v c) (tracked e)")
  case True
  then show ?thesis using assms by (simp add: enqueue_def)
next
  case False
  then show ?thesis using assms
    by (auto simp: enqueue_def exec_ok_def workers_ok_def exclusive_def queue_ok_def awaited_def nth_append less_Suc_eq)
qed

lemma finish_ok:
  assumes ok: "exec_ok v e"
  shows "exec_ok v (finish i out e)"
proof (cases "i \<in> set (live e)")
  case True
  then have i: "i < length (tracked e)" using ok by (auto simp: exec_ok_def workers_ok_def)
  let ?e = "finish i out e"
  have len: "length (tracked ?e) = length (tracked e)" using True by (simp add: finish_def)
  have sts: "j < length (tracked e) \<Longrightarrow> st ?e j = (if j = i \<and> st e i \<noteq> CANCELLED then COMPLETED else st e j)" for j
    using True by (simp add: finish_def)
  have calls: "j < length (tracked e) \<Longrightarrow> tool_call (tracked ?e ! j) = tool_call (tracked e ! j)" for j
    using True by (simp add: finish_def)
  have d: "distinct (live e)" using ok by (simp add: exec_ok_def workers_ok_def)
  have lv: "live ?e = remove1 i (live e)" using True by (simp add: finish_def)
  have "workers_ok ?e"
    by (rule workers_frame [of e]) (use ok d len sts i in \<open>auto simp: exec_ok_def workers_ok_def lv set_remove1_eq split: if_splits\<close>)
  moreover have "exclusive v ?e"
    by (rule exclusive_frame [of v e]) (use ok len sts calls in \<open>auto simp: exec_ok_def split: if_splits\<close>)
  moreover have "queue_ok ?e"
    using ok True by (auto simp: exec_ok_def queue_ok_def awaited_def finish_def)
  ultimately show ?thesis by (simp add: exec_ok_def)
qed (use ok in \<open>simp add: finish_def\<close>)

text \<open>One critical section of one of the threads.\<close>

lemma awaited_elsewhere:
  assumes "awaited e i" "\<not> (\<exists>j < length (tracked e). st e j = EXECUTING)" "k < length (threads e)"
    and "\<not> (SCAN \<in> set (threads e ! k) \<or> TRY i \<in> set (threads e ! k))"
  shows "\<exists>th \<in> set ((threads e)[k := x]). SCAN \<in> set th \<or> TRY i \<in> set th"
  using assms other_thread [of _ "threads e" k x] unfolding awaited_def by metis

lemma try_queue:
  assumes q: "queue_ok e" and k: "k < length (threads e)" "threads e ! k = TRY j # rest"
  shows "queue_ok ((try_start v j e)\<lparr>threads := (threads e)[k := rest]\<rparr>)" (is "queue_ok ?e")
proof -
  have "rescans th" if "th \<in> set ((threads e)[k := rest])" for th
  proof -
    have "rescans (TRY j # rest)" using q k by (metis nth_mem queue_ok_def)
    then show ?thesis using q that set_update_subset_insert [of "threads e" k rest] by (auto simp: queue_ok_def)
  qed
  moreover have "awaited ?e i" if i: "i < length (tracked e)" "st ?e i = QUEUED" for i
  proof (cases "\<exists>m < length (tracked e). st e m = EXECUTING")
    case True
    then show ?thesis using start_runs by (fastforce simp: awaited_def start_keeps)
  next
    case False
    have wait: "awaited e i" using q i start_queued [of i e v j] by (auto simp: queue_ok_def)
    show ?thesis
    proof (cases "SCAN \<in> set rest \<or> TRY i \<in> set rest")
      case True
      then show ?thesis using k(1) set_update_memI [OF k(1), of rest] by (auto simp: awaited_def)
    next
      case none: False
      show ?thesis
      proof (cases "i = j")
        case True
        then show ?thesis using start_or_busy [of j e v] i start_queued [of i e v j] by (auto simp: awaited_def start_keeps)
      next
        case other: False
        then show ?thesis
          using awaited_elsewhere [OF wait False k(1), of rest] none k(2) by (auto simp: awaited_def)
      qed
    qed
  qed
  ultimately show ?thesis by (simp add: queue_ok_def start_keeps)
qed

lemma scan_queue:
  assumes q: "queue_ok e" and k: "k < length (threads e)" "threads e ! k = SCAN # rest"
  shows "queue_ok (e\<lparr>threads := (threads e)[k := map TRY (queued_calls e) @ rest]\<rparr>)"
proof -
  have mem: "map TRY (queued_calls e) @ rest \<in> set ((threads e)[k := map TRY (queued_calls e) @ rest])"
    using k(1) by (rule set_update_memI)
  have "rescans (SCAN # rest)" using q k by (metis nth_mem queue_ok_def)
  then have "rescans th" if "th \<in> set ((threads e)[k := map TRY (queued_calls e) @ rest])" for th
    using q that set_update_subset_insert [of "threads e" k "map TRY (queued_calls e) @ rest"]
    by (auto simp: queue_ok_def intro!: rescans_append)
  moreover have "\<exists>th \<in> set ((threads e)[k := map TRY (queued_calls e) @ rest]). SCAN \<in> set th \<or> TRY i \<in> set th"
    if "i < length (tracked e)" "st e i = QUEUED" for i
    by (rule bexI [OF _ mem]) (use that in \<open>auto simp: queued_calls_def\<close>)
  ultimately show ?thesis by (simp add: queue_ok_def awaited_def)
qed

lemma cancel_queue:
  assumes q: "queue_ok e" and k: "k < length (threads e)" "threads e ! k = CANCEL_RUNNING why # rest"
    and e: "tracked e' = tracked (cancel_executing why e)" "threads e' = (threads e)[k := rest]"
  shows "queue_ok e'"
proof -
  have mem: "rest \<in> set (threads e')" unfolding e(2) using k(1) by (rule set_update_memI)
  have "rescans (CANCEL_RUNNING why # rest)" using q k by (metis nth_mem queue_ok_def)
  then have r: "SCAN \<in> set rest" "rescans rest" by simp_all
  then have "rescans th" if "th \<in> set (threads e')" for th
    using q that set_update_subset_insert [of "threads e" k rest] by (auto simp: queue_ok_def e(2))
  with r mem show ?thesis by (auto simp: queue_ok_def awaited_def)
qed

lemma threads_frame [simp]:
  "workers_ok (e\<lparr>threads := ths\<rparr>) = workers_ok e" "exclusive v (e\<lparr>threads := ths\<rparr>) = exclusive v e"
  by (simp_all add: workers_ok_def exclusive_def)

lemma advance_ok:
  assumes ok: "exec_ok v e"
  shows "exec_ok v (advance v k e)"
proof (cases "k < length (threads e) \<and> threads e ! k \<noteq> []")
  case True
  then obtain m rest where m: "threads e ! k = m # rest" and k: "k < length (threads e)" by (cases "threads e ! k") auto
  from ok have parts: "workers_ok e" "exclusive v e" "queue_ok e" by (simp_all add: exec_ok_def)
  show ?thesis
  proof (cases m)
    case (TRY j)
    then have "advance v k e = (try_start v j e)\<lparr>threads := (threads e)[k := rest]\<rparr>"
      using k m by (simp add: advance_def start_keeps)
    moreover have "workers_ok (try_start v j e)" "exclusive v (try_start v j e)"
      using parts start_workers start_exclusive by blast+
    ultimately show ?thesis using try_queue [OF parts(3) k, of j rest v] m TRY by (simp add: exec_ok_def)
  next
    case (CANCEL_RUNNING why)
    let ?e = "advance v k e"
    have a: "tracked ?e = tracked (cancel_executing why e)" "threads ?e = (threads e)[k := rest]" "live ?e = live e"
      using k m CANCEL_RUNNING by (simp_all add: advance_def cancel_executing_def cancel_where_def)
    have "workers_ok ?e"
      by (rule workers_frame [of e]) (use parts(1) a in \<open>auto simp: workers_ok_def cancel_executing_def split: if_splits\<close>)
    moreover have "exclusive v ?e"
      by (rule exclusive_frame [of v e]) (use parts(2) a in \<open>auto simp: cancel_executing_def split: if_splits\<close>)
    moreover have "queue_ok ?e" using cancel_queue [OF parts(3) k _ a(1,2)] m CANCEL_RUNNING by simp
    ultimately show ?thesis by (simp add: exec_ok_def)
  next
    case SCAN
    then have "advance v k e = e\<lparr>threads := (threads e)[k := map TRY (queued_calls e) @ rest]\<rparr>"
      using k m by (simp add: advance_def)
    then show ?thesis using parts scan_queue [OF parts(3) k, of rest] m SCAN by (simp add: exec_ok_def)
  qed
next
  case False
  then show ?thesis using ok by (auto simp: advance_def)
qed

lemma process_queue_ok: "exec_ok v e \<Longrightarrow> exec_ok v (e\<lparr>threads := threads e @ [[SCAN]]\<rparr>)"
  by (auto simp: exec_ok_def queue_ok_def awaited_def)

interpretation executor_inv: op_invariant "exec_step v" "exec_ok v" for v
proof
  fix e x assume ok: "exec_ok v e"
  show "exec_ok v (exec_step v e x)"
    by (cases x) (use ok enqueue_ok advance_ok finish_ok process_queue_ok get_completed_ok collect_ok abort_ok shutdown_ok
        in \<open>auto split: option.split\<close>)
qed

lemma new_executor_ok: "exec_ok v (new_executor b)"
  by (simp add: exec_ok_def workers_ok_def exclusive_def queue_ok_def new_executor_def)

end
