(* ===== verification/Executor_Properties.thy ===== *)
theory Executor_Properties
  imports Tool_Executor
begin

text \<open>
  What the streaming executor promises: mutual exclusion of the calls it regards as running, an end of
  every execution without further calls, one answer for each call as long as nothing is cancelled, and
  where cancellation breaks the last two.
\<close>

section \<open>The batches\<close>

text \<open>The reference: a maximal run of safe calls is a batch, and any other call is one by itself.\<close>

function batches :: "surroundings \<Rightarrow> tool_call list \<Rightarrow> tool_call list list" where
  "batches v [] = []"
| "batches v (c # cs) =
     (if concurrency_safe v c then (c # takeWhile (concurrency_safe v) cs) # batches v (dropWhile (concurrency_safe v) cs)
      else [c] # batches v cs)"
  by pat_completeness auto
termination by (relation "measure (length \<circ> snd)") (auto simp: le_imp_less_Suc length_dropWhile_le)

lemma partition_last:
  "b \<noteq> [] \<Longrightarrow> foldl (add_call v) (bs @ [b]) cs
     = bs @ (if concurrency_safe v (hd b) then (b @ takeWhile (concurrency_safe v) cs) # batches v (dropWhile (concurrency_safe v) cs)
             else b # batches v cs)"
proof (induction cs arbitrary: bs b)
  case (Cons c cs)
  consider "concurrency_safe v c" "concurrency_safe v (hd b)" | "concurrency_safe v c" "\<not> concurrency_safe v (hd b)"
    | "\<not> concurrency_safe v c" by blast
  then show ?case
  proof cases
    case 1
    then have "foldl (add_call v) (bs @ [b]) (c # cs) = foldl (add_call v) (bs @ [b @ [c]]) cs" by (simp add: add_call_def)
    with 1 Cons.IH [of "b @ [c]" bs] Cons.prems show ?thesis by simp
  next
    case 2
    then have "foldl (add_call v) (bs @ [b]) (c # cs) = foldl (add_call v) ((bs @ [b]) @ [[c]]) cs" by (simp add: add_call_def)
    with 2 Cons.IH [of "[c]" "bs @ [b]"] show ?thesis by simp
  next
    case 3
    then have "foldl (add_call v) (bs @ [b]) (c # cs) = foldl (add_call v) ((bs @ [b]) @ [[c]]) cs" by (simp add: add_call_def)
    with 3 Cons.IH [of "[c]" "bs @ [b]"] show ?thesis by simp
  qed
qed simp

section \<open>Work that is left\<close>

fun internal :: "executor \<Rightarrow> exec_event \<Rightarrow> bool" where
  "internal e (ADVANCE k) = (k < length (threads e) \<and> threads e ! k \<noteq> [])"
| "internal e (FINISH i out) = (i \<in> set (live e))"
| "internal e _ = False"

fun internal_run :: "surroundings \<Rightarrow> executor \<Rightarrow> exec_event list \<Rightarrow> bool" where
  "internal_run v e [] = True"
| "internal_run v e (x # xs) = (internal e x \<and> internal_run v (exec_step v e x) xs)"

fun cost :: "nat \<Rightarrow> micro \<Rightarrow> nat" where
  "cost n SCAN = Suc n"
| "cost n _ = 1"

definition thread_work :: "nat \<Rightarrow> micro list list \<Rightarrow> nat" where
  "thread_work n ths = sum_list (map (\<lambda>th. sum_list (map (cost n) th)) ths)"

definition queued_count :: "executor \<Rightarrow> nat" where
  "queued_count e = length (filter (\<lambda>t. status t = QUEUED) (tracked e))"

definition work :: "executor \<Rightarrow> nat" where
  "work e = (2 * queued_count e + length (live e)) * (length (tracked e) + 3) + thread_work (length (tracked e)) (threads e)"

lemma thread_work_append [simp]: "thread_work n (a @ b) = thread_work n a + thread_work n b"
  by (simp add: thread_work_def)

lemma thread_work_update:
  "k < length ths \<Longrightarrow> thread_work n (ths[k := x]) + sum_list (map (cost n) (ths ! k))
     = thread_work n ths + sum_list (map (cost n) x)"
proof (induction ths arbitrary: k)
  case (Cons th ths)
  then show ?case by (cases k) (auto simp: thread_work_def)
qed simp

lemma queued_calls_length: "length (queued_calls e) = queued_count e"
proof -
  have "length (filter (\<lambda>i. P (ts ! i)) [0..<length ts]) = length (filter P ts)" for P and ts :: "tracked_tool list"
  proof -
    have "map ((!) ts) (filter (\<lambda>i. P (ts ! i)) [0..<length ts]) = filter P (map ((!) ts) [0..<length ts])"
      by (simp add: filter_map comp_def)
    then show ?thesis by (metis length_map map_nth)
  qed
  then show ?thesis by (simp add: queued_calls_def queued_count_def)
qed

lemma queued_count_le: "queued_count e \<le> length (tracked e)"
  by (simp add: queued_count_def)

lemma filter_update_length:
  "i < length xs \<Longrightarrow> length (filter P (xs[i := y])) + (if P (xs ! i) then 1 else 0) = length (filter P xs) + (if P y then 1 else 0)"
proof (induction xs arbitrary: i)
  case (Cons x xs)
  then show ?case by (cases i) (auto split: if_splits)
qed simp

lemma start_work:
  assumes "try_start v i e \<noteq> e"
  shows "queued_count (try_start v i e) + 1 = queued_count e" "length (live (try_start v i e)) = length (live e) + 1"
proof -
  have i: "i < length (tracked e)" "status (tracked e ! i) = QUEUED"
    and e: "try_start v i e = e\<lparr>tracked := (tracked e)[i := (tracked e ! i)\<lparr>status := EXECUTING\<rparr>], live := live e @ [i]\<rparr>"
    using assms by (auto simp: try_start_def admissible_def split: if_splits)
  show "queued_count (try_start v i e) + 1 = queued_count e"
    using filter_update_length [OF i(1), of "\<lambda>t. status t = QUEUED" "(tracked e ! i)\<lparr>status := EXECUTING\<rparr>"] i(2)
    by (simp add: e queued_count_def)
  show "length (live (try_start v i e)) = length (live e) + 1" by (simp add: e)
qed

lemma cancel_executing_queued [simp]: "queued_count (cancel_executing why e) = queued_count e"
proof -
  have "length (filter (\<lambda>t. status t = QUEUED)
      (map (\<lambda>t. if status t = EXECUTING then t\<lparr>status := CANCELLED, error := Some why\<rparr> else t) ts))
    = length (filter (\<lambda>t. status t = QUEUED) ts)" for ts
    by (induction ts) auto
  then show ?thesis by (simp add: queued_count_def cancel_executing_def cancel_where_def)
qed

lemma work_threads:
  "work (e\<lparr>threads := ths\<rparr>)
     = (2 * queued_count e + length (live e)) * (length (tracked e) + 3) + thread_work (length (tracked e)) ths"
  by (simp add: work_def queued_count_def)

lemma work_advance:
  assumes "k < length (threads e)" "threads e ! k \<noteq> []"
  shows "work (advance v k e) < work e"
proof -
  obtain m rest where m: "threads e ! k = m # rest" using assms(2) by (cases "threads e ! k") auto
  let ?n = "length (tracked e)"
  have upd: "thread_work ?n ((threads e)[k := x]) + (cost ?n m + sum_list (map (cost ?n) rest))
      = thread_work ?n (threads e) + sum_list (map (cost ?n) x)" for x
    using thread_work_update [OF assms(1), of ?n x] m by simp
  show ?thesis
  proof (cases m)
    case (TRY j)
    have a: "advance v k e = (try_start v j e)\<lparr>threads := (threads e)[k := rest]\<rparr>"
      using assms m TRY by (simp add: advance_def start_keeps)
    have u: "thread_work ?n ((threads e)[k := rest]) + 1 = thread_work ?n (threads e)" using upd [of rest] TRY by simp
    show ?thesis
    proof (cases "try_start v j e = e")
      case True
      then have "work (advance v k e) + 1 = work e" using u by (simp add: a work_def queued_count_def)
      then show ?thesis by simp
    next
      case False
      have "2 * queued_count (try_start v j e) + length (live (try_start v j e)) + 1 = 2 * queued_count e + length (live e)"
        using start_work [OF False] by simp
      then have "(2 * queued_count (try_start v j e) + length (live (try_start v j e))) * (?n + 3)
          \<le> (2 * queued_count e + length (live e)) * (?n + 3)" by (intro mult_right_mono) auto
      then show ?thesis using u unfolding a work_threads start_keeps unfolding work_def by linarith
    qed
  next
    case (CANCEL_RUNNING why)
    have a: "advance v k e = (cancel_executing why (e\<lparr>abort_reason := Some why\<rparr>))\<lparr>threads := (threads e)[k := rest]\<rparr>"
      using assms m CANCEL_RUNNING by (simp add: advance_def cancel_executing_def cancel_where_def)
    have "queued_count (advance v k e) = queued_count e"
      unfolding a using cancel_executing_queued [of why "e\<lparr>abort_reason := Some why\<rparr>"] by (simp add: queued_count_def)
    then show ?thesis using upd [of rest] CANCEL_RUNNING
      by (simp add: work_def a cancel_executing_def cancel_where_def)
  next
    case SCAN
    have a: "advance v k e = e\<lparr>threads := (threads e)[k := map TRY (queued_calls e) @ rest]\<rparr>"
      using assms m SCAN by (simp add: advance_def)
    have "sum_list (map (cost ?n) (map TRY (queued_calls e))) = queued_count e"
      by (simp add: comp_def sum_list_triv queued_calls_length [symmetric])
    then have "thread_work ?n ((threads e)[k := map TRY (queued_calls e) @ rest]) < thread_work ?n (threads e)"
      using upd [of "map TRY (queued_calls e) @ rest"] SCAN queued_count_le [of e] by simp
    then show ?thesis by (simp add: a work_def queued_count_def)
  qed
qed

lemma store_queued: "i < length (tracked e) \<Longrightarrow> st e i \<noteq> QUEUED \<Longrightarrow> queued_count (store_outcome i out e) = queued_count e"
  using filter_update_length [of i "tracked e" "\<lambda>t. status t = QUEUED"]
  by (auto simp: store_outcome_def queued_count_def Let_def split: sum.splits)

lemma work_finish:
  assumes "workers_ok e" "i \<in> set (live e)"
  shows "work (finish i out e) < work e"
proof -
  let ?n = "length (tracked e)" and ?L = "length (live e)"
  have i: "i < ?n" "st e i \<noteq> QUEUED" "?L \<noteq> 0" using assms by (auto simp: workers_ok_def)
  have q: "queued_count (finish i out e) = queued_count e"
    using store_queued [OF i(1,2), of out] assms(2) by (simp add: finish_def queued_count_def)
  have "thread_work ?n (threads (finish i out e)) \<le> thread_work ?n (threads e) + (?n + 2)"
    using assms(2) by (simp add: finish_def thread_work_def)
  moreover have "(2 * queued_count e + (?L - 1)) * (?n + 3) + (?n + 3) = (2 * queued_count e + ?L) * (?n + 3)"
    using i(3) by (cases ?L) (simp_all add: algebra_simps)
  moreover have "length (live (finish i out e)) = ?L - 1" "length (tracked (finish i out e)) = ?n"
    using assms(2) by (simp_all add: finish_def length_remove1)
  ultimately show ?thesis using q by (simp add: work_def)
qed

lemma work_step: "exec_ok v e \<Longrightarrow> internal e x \<Longrightarrow> work (exec_step v e x) < work e"
  by (cases x) (auto simp: exec_ok_def intro: work_advance work_finish)

lemma internal_run_work: "exec_ok v e \<Longrightarrow> internal_run v e xs \<Longrightarrow> length xs + work (foldl (exec_step v) e xs) \<le> work e"
proof (induction xs arbitrary: e)
  case (Cons x xs)
  have "exec_ok v (exec_step v e x)" using Cons.prems(1) by (rule executor_inv.step_inv)
  with Cons.IH [of "exec_step v e x"] Cons.prems work_step [of v e x] show ?case by simp
qed simp

lemma idle_has_nothing_pending:
  assumes ok: "exec_ok v e" and idle: "\<And>x. \<not> internal e x"
  shows "pending_count e = 0"
proof -
  have l: "live e = []" using idle [of "FINISH _ (Inl [])"] by (metis internal.simps(2) list.set_intros(1) neq_Nil_conv)
  have "th = []" if "th \<in> set (threads e)" for th
    using idle [of "ADVANCE _"] that by (metis in_set_conv_nth internal.simps(1))
  then have quiet: "\<not> (\<exists>th \<in> set (threads e). SCAN \<in> set th \<or> TRY i \<in> set th)" for i by fastforce
  have "st e i \<noteq> EXECUTING" if "i < length (tracked e)" for i
    using ok that l by (auto simp: exec_ok_def workers_ok_def)
  moreover then have "st e i \<noteq> QUEUED" if "i < length (tracked e)" for i
    using ok that quiet by (auto simp: exec_ok_def queue_ok_def awaited_def)
  ultimately have "\<not> pending t" if "t \<in> set (tracked e)" for t
    using that by (metis in_set_conv_nth pending_def)
  then show ?thesis by (simp add: pending_count_def filter_empty_conv)
qed

section \<open>Executions without cancellation\<close>

text \<open>No abort, no failing shell call, and no exception with an empty text.\<close>

fun calm_event :: "executor \<Rightarrow> exec_event \<Rightarrow> bool" where
  "calm_event e (ABORT_ALL why) = False"
| "calm_event e (SHUTDOWN begun) = False"
| "calm_event e (FINISH i out) = (\<not> bash_failed e i out \<and> out \<noteq> Inl [])"
| "calm_event e _ = True"

fun calm :: "surroundings \<Rightarrow> executor \<Rightarrow> exec_event list \<Rightarrow> bool" where
  "calm v e [] = True"
| "calm v e (x # xs) = (calm_event e x \<and> calm v (exec_step v e x) xs)"

definition answered :: "tracked_tool \<Rightarrow> bool" where
  "answered t \<longleftrightarrow> length (completed_result t) = 1"

definition no_cancel :: "executor \<Rightarrow> bool" where
  "no_cancel e \<longleftrightarrow> (\<forall>t \<in> set (tracked e). status t \<noteq> CANCELLED) \<and> (\<forall>th \<in> set (threads e). \<forall>why. CANCEL_RUNNING why \<notin> set th)"

definition books_ok :: "executor \<Rightarrow> bool" where
  "books_ok e \<longleftrightarrow> (\<forall>i \<in> set (live e). st e i = EXECUTING) \<and> (\<forall>t \<in> set (tracked e). status t = COMPLETED \<longrightarrow> answered t)
     \<and> distinct (map fst (delivered e)) \<and> set (map fst (delivered e)) = {i. i < length (tracked e) \<and> st e i = YIELDED}"

definition calm_ok :: "surroundings \<Rightarrow> executor \<Rightarrow> bool" where
  "calm_ok v e \<longleftrightarrow> exec_ok v e \<and> no_cancel e \<and> books_ok e"

lemma all_tracked: "(\<forall>t \<in> set (tracked e). P t) = (\<forall>i < length (tracked e). P (tracked e ! i))"
  by (simp add: all_set_conv_all_nth)

lemma threads_without_cancel:
  assumes "\<forall>th \<in> set ths. \<forall>why. CANCEL_RUNNING why \<notin> set th" "\<forall>why. CANCEL_RUNNING why \<notin> set x"
  shows "\<forall>th \<in> set (ths[k := x]). \<forall>why. CANCEL_RUNNING why \<notin> set th"
  using assms set_update_subset_insert [of ths k x] by blast

lemma advance_calm:
  assumes "calm_ok v e"
  shows "no_cancel (advance v k e) \<and> books_ok (advance v k e)"
proof (cases "k < length (threads e) \<and> threads e ! k \<noteq> []")
  case True
  then obtain m rest where m: "threads e ! k = m # rest" and k: "k < length (threads e)" by (cases "threads e ! k") auto
  have nc: "no_cancel e" and bk: "books_ok e" and ok: "exec_ok v e" using assms by (auto simp: calm_ok_def)
  have all: "\<forall>why. CANCEL_RUNNING why \<notin> set (m # rest)" using nc m k by (metis no_cancel_def nth_mem)
  show ?thesis
  proof (cases m)
    case (TRY j)
    then have a: "advance v k e = (try_start v j e)\<lparr>threads := (threads e)[k := rest]\<rparr>"
      using k m by (simp add: advance_def start_keeps)
    have "no_cancel (advance v k e)"
      using nc all threads_without_cancel [of "threads e" rest k] unfolding a no_cancel_def all_tracked
      by (auto simp: start_keeps try_start_def nth_list_update)
    moreover have "books_ok (advance v k e)"
      using bk unfolding a books_ok_def all_tracked
      by (auto simp: try_start_def admissible_def nth_list_update answered_def)
    ultimately show ?thesis by blast
  next
    case (CANCEL_RUNNING why)
    then show ?thesis using spec [OF all, of why] by simp
  next
    case SCAN
    then have a: "advance v k e = e\<lparr>threads := (threads e)[k := map TRY (queued_calls e) @ rest]\<rparr>"
      using k m by (simp add: advance_def)
    have "no_cancel (advance v k e)"
      using nc all threads_without_cancel [of "threads e" "map TRY (queued_calls e) @ rest" k] unfolding a no_cancel_def by auto
    then show ?thesis using bk by (simp add: a books_ok_def)
  qed
next
  case False
  then show ?thesis using assms by (auto simp: advance_def calm_ok_def)
qed

lemma enqueue_calm:
  assumes "calm_ok v e"
  shows "no_cancel (enqueue v c e) \<and> books_ok (enqueue v c e)"
  using assms by (auto simp: enqueue_def calm_ok_def no_cancel_def books_ok_def nth_append exec_ok_def workers_ok_def less_Suc_eq)

lemma finish_calm:
  assumes "calm_ok v e" "calm_event e (FINISH i out)"
  shows "no_cancel (finish i out e) \<and> books_ok (finish i out e)"
proof (cases "i \<in> set (live e)")
  case True
  have nc: "no_cancel e" and bk: "books_ok e" and ok: "exec_ok v e" using assms(1) by (auto simp: calm_ok_def)
  have i: "i < length (tracked e)" "st e i = EXECUTING" using True ok bk by (auto simp: exec_ok_def workers_ok_def books_ok_def)
  let ?e = "finish i out e"
  have sts: "st ?e j = (if j = i then COMPLETED else st e j)" if "j < length (tracked e)" for j
    using True that i by (simp add: finish_def)
  have len: "length (tracked ?e) = length (tracked e)" "threads ?e = threads e @ [[SCAN]]" "live ?e = remove1 i (live e)"
      "delivered ?e = delivered e"
    using True assms(2) by (auto simp: finish_def store_outcome_def Let_def)
  have "answered (tracked ?e ! i)"
    using True i assms(2)
    by (cases out) (auto simp: finish_def store_outcome_def answered_def completed_result_def neq_Nil_conv split: option.split)
  moreover have "tracked ?e ! j = tracked e ! j" if "j < length (tracked e)" "j \<noteq> i" for j
    using True that by (simp add: finish_def store_outcome_def Let_def split: sum.split)
  ultimately have "\<forall>j < length (tracked e). st ?e j = COMPLETED \<longrightarrow> answered (tracked ?e ! j)"
    using bk sts unfolding books_ok_def all_tracked by metis
  moreover have "\<forall>j \<in> set (live ?e). st ?e j = EXECUTING"
  proof
    fix j assume "j \<in> set (live ?e)"
    then have "j \<in> set (live e)" "j \<noteq> i" using ok by (auto simp: len exec_ok_def workers_ok_def)
    then show "st ?e j = EXECUTING" using sts [of j] bk ok by (auto simp: books_ok_def exec_ok_def workers_ok_def)
  qed
  moreover have "{j. j < length (tracked e) \<and> st ?e j = YIELDED} = {j. j < length (tracked e) \<and> st e j = YIELDED}"
    using sts i(2) by (intro Collect_cong) (auto split: if_splits)
  ultimately have "books_ok ?e" using bk unfolding books_ok_def all_tracked len by simp
  moreover have "no_cancel ?e" using nc sts unfolding no_cancel_def all_tracked len by auto
  ultimately show ?thesis by blast
next
  case False
  then show ?thesis using assms(1) by (simp add: finish_def calm_ok_def)
qed

lemma delivered_keys:
  assumes "\<And>i. i \<in> set is \<Longrightarrow> length (f i) = 1"
  shows "map fst (concat (map (\<lambda>i. map (Pair i) (f i)) is)) = is"
  using assms
proof (induction "is")
  case (Cons i "is")
  then have "length (f i) = 1" by simp
  then show ?case using Cons by (cases "f i") auto
qed simp

lemma hand_out_calm:
  assumes calm: "calm_ok v e"
    and P: "\<And>t. t \<in> set (tracked e) \<Longrightarrow> P t = (status t = COMPLETED)"
    and res: "\<And>t. t \<in> set (tracked e) \<Longrightarrow> status t = COMPLETED \<Longrightarrow> f t = completed_result t"
  shows "no_cancel (snd (hand_out P f e)) \<and> books_ok (snd (hand_out P f e))"
proof -
  let ?e = "snd (hand_out P f e)" and ?is = "filter (\<lambda>i. P (tracked e ! i)) [0..<length (tracked e)]"
  have nc: "no_cancel e" and bk: "books_ok e" and ok: "exec_ok v e" using calm by (auto simp: calm_ok_def)
  have Pi: "P (tracked e ! i) = (st e i = COMPLETED)" if "i < length (tracked e)" for i using P that by simp
  have one: "length (f (tracked e ! i)) = 1" if "i \<in> set ?is" for i
    using that Pi res bk by (auto simp: books_ok_def answered_def)
  have d: "map fst (delivered ?e) = map fst (delivered e) @ ?is"
    using delivered_keys [of ?is "\<lambda>i. f (tracked e ! i)"] one by (simp add: hand_out_def)
  have sts: "st ?e i = (if st e i = COMPLETED then YIELDED else st e i)" if "i < length (tracked e)" for i
    using that Pi by simp
  have "distinct (map fst (delivered ?e))" using bk Pi unfolding d by (auto simp: books_ok_def)
  moreover have "set (map fst (delivered ?e)) = {i. i < length (tracked e) \<and> st ?e i = YIELDED}"
    using bk Pi sts unfolding d set_append books_ok_def by (auto split: if_splits)
  moreover have "\<forall>i \<in> set (live ?e). st ?e i = EXECUTING"
    using bk ok sts by (auto simp: books_ok_def exec_ok_def workers_ok_def)
  moreover have "\<forall>i < length (tracked e). st ?e i \<noteq> COMPLETED" using sts by simp
  ultimately have "books_ok ?e" by (simp add: books_ok_def all_tracked)
  moreover have "no_cancel ?e" using nc sts unfolding no_cancel_def all_tracked by auto
  ultimately show ?thesis by blast
qed

lemma calm_step:
  assumes calm: "calm_ok v e" and ev: "calm_event e x"
  shows "calm_ok v (exec_step v e x)"
proof -
  have "exec_ok v (exec_step v e x)" using calm executor_inv.step_inv by (simp add: calm_ok_def)
  moreover have "no_cancel (exec_step v e x) \<and> books_ok (exec_step v e x)"
  proof (cases x)
    case (ENQUEUE c) then show ?thesis using enqueue_calm [OF calm] by simp
  next
    case (ADVANCE k) then show ?thesis using advance_calm [OF calm] by simp
  next
    case (FINISH i out) then show ?thesis using finish_calm [OF calm] ev by simp
  next
    case PROCESS_QUEUE
    then show ?thesis using calm by (auto simp: calm_ok_def no_cancel_def books_ok_def)
  next
    case GET_COMPLETED
    have "no_cancel (snd (get_completed_results e)) \<and> books_ok (snd (get_completed_results e))"
      unfolding get_completed_results_def by (rule hand_out_calm [OF calm]) auto
    then show ?thesis using GET_COMPLETED by simp
  next
    case COLLECT
    have "no_cancel (snd (hand_out (\<lambda>t. status t = COMPLETED \<or> status t = CANCELLED) collected_result e))
        \<and> books_ok (snd (hand_out (\<lambda>t. status t = COMPLETED \<or> status t = CANCELLED) collected_result e))"
      by (rule hand_out_calm [OF calm]) (use calm in \<open>auto simp: calm_ok_def no_cancel_def collected_result_def\<close>)
    then show ?thesis using COLLECT calm by (simp add: collect_def calm_ok_def split_beta)
  qed (use ev in simp_all)
  ultimately show ?thesis by (simp add: calm_ok_def)
qed

lemma calm_history: "calm_ok v e \<Longrightarrow> calm v e xs \<Longrightarrow> calm_ok v (foldl (exec_step v) e xs)"
  by (induction xs arbitrary: e) (auto intro: calm_step)

lemma new_executor_calm: "calm_ok v (new_executor b)"
  using new_executor_ok by (simp add: calm_ok_def no_cancel_def books_ok_def new_executor_def)

lemma live_count: "distinct is \<Longrightarrow> set is \<subseteq> {..<n} \<Longrightarrow> length is \<le> n"
  by (metis card_lessThan card_mono distinct_card finite_lessThan)

section \<open>Properties\<close>

definition shell_and_files :: surroundings where
  "shell_and_files = \<lparr>concurrency_safe = (\<lambda>c. call_name c \<noteq> ''Edit''), md5_hex = id\<rparr>"

definition sample_call :: "string \<Rightarrow> string \<Rightarrow> tool_call" where
  "sample_call i n = \<lparr>call_id = i, call_name = n, call_params = ''{}''\<rparr>"

definition good_result :: tool_result where
  "good_result = \<lparr>res_success = True, res_output = ''ok'', res_error = None\<rparr>"

definition bad_result :: tool_result where
  "bad_result = \<lparr>res_success = False, res_output = [], res_error = Some ''exit 1''\<rparr>"

text \<open>A shell call and a search run side by side, an edit waits for both.\<close>

definition three_calls :: "exec_event list" where
  "three_calls = [ENQUEUE (sample_call ''1'' ''Bash''), ENQUEUE (sample_call ''2'' ''Grep''), ENQUEUE (sample_call ''3'' ''Edit''),
     ADVANCE 0, ADVANCE 1, ADVANCE 2]"

text \<open>
  The batches of a turn are the maximal runs of safe calls, and every other call by itself, in the
  order of the calls: the accumulator that looks at the head of the last batch computes the same as the
  recursion that takes a run at a time.
\<close>
theorem partition_is_greedy: "partition_tool_calls v cs = batches v cs"
proof (cases cs)
  case (Cons c cs')
  have "partition_tool_calls v cs = foldl (add_call v) ([] @ [[c]]) cs'" by (simp add: Cons partition_tool_calls_def add_call_def)
  then show ?thesis using partition_last [of "[c]" v "[]" cs'] by (simp add: Cons)
qed (simp add: partition_tool_calls_def)

text \<open>
  C9. Admission excludes: in every state that enqueued calls, workers, aborts and shutdowns can reach,
  whatever the order of the threads, two calls that are executing are both safe beside others.
\<close>
theorem executing_calls_exclude:
  assumes "e = foldl (exec_step v) (new_executor b) xs" "i < length (tracked e)" "j < length (tracked e)" "i \<noteq> j"
    and "status (tracked e ! i) = EXECUTING" "status (tracked e ! j) = EXECUTING"
  shows "concurrency_safe v (tool_call (tracked e ! i)) \<and> concurrency_safe v (tool_call (tracked e ! j))"
  using executor_inv.run_inv [OF new_executor_ok, of v b xs] assms by (auto simp: exec_ok_def exclusive_def)

theorem executing_calls_exclude_witness:
  "let e = foldl (exec_step shell_and_files) (new_executor True) three_calls
   in concurrency_safe shell_and_files (tool_call (tracked e ! 0)) \<and> concurrency_safe shell_and_files (tool_call (tracked e ! 1))"
proof -
  let ?e = "foldl (exec_step shell_and_files) (new_executor True) three_calls"
  have "length (tracked ?e) = 3" "status (tracked ?e ! 0) = EXECUTING" "status (tracked ?e ! 1) = EXECUTING" by code_simp+
  then show ?thesis using executing_calls_exclude [OF refl, of 0 shell_and_files True three_calls 1] by (simp add: Let_def)
qed

text \<open>
  No call is stuck: from every reachable state, an execution of what the threads and the workers have
  left is no longer than a bound computed from the state, and where nothing is left no call is queued or
  executing, so that \<open>collect\<close> returns.
\<close>
theorem executor_settles:
  assumes "e = foldl (exec_step v) (new_executor b) xs" "internal_run v e ys"
  shows "length ys \<le> work e
    \<and> ((\<exists>x. internal (foldl (exec_step v) e ys) x) \<or> collect (foldl (exec_step v) e ys) \<noteq> None)"
proof -
  have ok: "exec_ok v e" unfolding assms(1) by (rule executor_inv.run_inv [OF new_executor_ok])
  then have "exec_ok v (foldl (exec_step v) e ys)" by (rule executor_inv.run_inv)
  then show ?thesis using internal_run_work [OF ok assms(2)] idle_has_nothing_pending by (fastforce simp: collect_def)
qed

theorem executor_settles_witness:
  "length [FINISH 0 (Inr good_result), FINISH 1 (Inl ''boom''), ADVANCE 3, ADVANCE 3, FINISH 2 (Inr good_result)]
   \<le> work (foldl (exec_step shell_and_files) (new_executor True) three_calls)"
proof -
  have "internal_run shell_and_files (foldl (exec_step shell_and_files) (new_executor True) three_calls)
      [FINISH 0 (Inr good_result), FINISH 1 (Inl ''boom''), ADVANCE 3, ADVANCE 3, FINISH 2 (Inr good_result)]" by code_simp
  from executor_settles [OF refl this] show ?thesis by blast
qed

text \<open>
  C10. Each call is answered once: as long as nothing is aborted, no shell call fails and no exception has
  an empty text, no two results handed out are of the same call, the calls with a result handed out are
  exactly the yielded ones, and the workers that really run exclude each other.
\<close>
theorem each_call_answered_once:
  assumes "calm v (new_executor b) xs" "e = foldl (exec_step v) (new_executor b) xs"
  shows "distinct (map fst (delivered e))
    \<and> set (map fst (delivered e)) = {i. i < length (tracked e) \<and> status (tracked e ! i) = YIELDED}
    \<and> (\<forall>i j. i \<in> set (live e) \<longrightarrow> j \<in> set (live e) \<longrightarrow> i \<noteq> j \<longrightarrow> concurrency_safe v (tool_call (tracked e ! i)))"
proof -
  have c: "exclusive v e" "books_ok e" "workers_ok e"
    using calm_history [OF new_executor_calm assms(1)] by (simp_all add: assms(2) calm_ok_def exec_ok_def)
  have run: "status (tracked e ! i) = EXECUTING \<and> i < length (tracked e)" if "i \<in> set (live e)" for i
    using that c(2,3) by (simp add: books_ok_def workers_ok_def)
  have "concurrency_safe v (tool_call (tracked e ! i))" if "i \<in> set (live e)" "j \<in> set (live e)" "i \<noteq> j" for i j
    using run [OF that(1)] run [OF that(2)] that(3) c(1) unfolding exclusive_def by blast
  with c(2) show ?thesis by (simp add: books_ok_def)
qed

theorem each_call_answered_once_witness:
  "distinct (map fst (delivered (foldl (exec_step shell_and_files) (new_executor True)
     (three_calls @ [FINISH 0 (Inr good_result), GET_COMPLETED, FINISH 1 (Inl ''boom''), ADVANCE 3, ADVANCE 3,
       FINISH 2 (Inr good_result), COLLECT]))))"
proof -
  have "calm shell_and_files (new_executor True)
     (three_calls @ [FINISH 0 (Inr good_result), GET_COMPLETED, FINISH 1 (Inl ''boom''), ADVANCE 3, ADVANCE 3,
       FINISH 2 (Inr good_result), COLLECT])" by code_simp
  from each_call_answered_once [OF this refl] show ?thesis by blast
qed

text \<open>
  After a failing shell call the exclusion is only on paper: the search beside it is marked as cancelled
  while its worker goes on, and the edit that was queued starts beside it; it is not cancelled either.
\<close>
theorem cancelled_call_still_runs:
  "let e = foldl (exec_step shell_and_files) (new_executor True)
         (three_calls @ [FINISH 0 (Inr bad_result), ADVANCE 3, ADVANCE 3, ADVANCE 3])
   in live e = [1, 2] \<and> status (tracked e ! 1) = CANCELLED \<and> status (tracked e ! 2) = EXECUTING
     \<and> \<not> concurrency_safe shell_and_files (tool_call (tracked e ! 2))"
  by code_simp

text \<open>
  A cancelled call can be answered twice: once it was collected its status is yielded, so its worker,
  when it comes back, stores its result and makes it completed again.
\<close>
theorem cancelled_call_is_answered_twice:
  "let e = foldl (exec_step shell_and_files) (new_executor True)
         [ENQUEUE (sample_call ''1'' ''Grep''), ADVANCE 0, ABORT_ALL ''stop'', COLLECT, FINISH 0 (Inr good_result), GET_COMPLETED]
   in delivered e = [(0, internal_error ''stop''), (0, good_result)]"
  by code_simp

text \<open>
  An exception with an empty text leaves its call without an answer: \<open>collect\<close> returns one result for
  two calls.
\<close>
theorem silent_exception_loses_answer:
  "let e = foldl (exec_step shell_and_files) (new_executor True)
         [ENQUEUE (sample_call ''1'' ''Grep''), ENQUEUE (sample_call ''2'' ''Read''), ADVANCE 0, ADVANCE 1,
          FINISH 0 (Inl []), FINISH 1 (Inr good_result)]
   in map_option fst (collect e) = Some [good_result] \<and> length (tracked e) = 2"
  by code_simp

end
