(* ===== verification/Phase_Policy.thy ===== *)
theory Phase_Policy
  imports Permission_Rules Json_Values "HOL-Library.List_Lexorder" "HOL-Library.Char_ord"
begin

text \<open>
  \<^verbatim>\<open>core/policy.py\<close>: the policy of a phase of a task, its rules scoped to parameters, the glob matching
  they use (\<open>fnmatch\<close>), the normalisation of paths, the operations that derive one policy from another,
  and the dictionary a policy is stored as. Frozen sets are sets. A parameter is a text, a list whose
  items are shown as texts, or another value with its text and truth. The host of a URL and the
  resolution of symbolic links are parameters.
\<close>

section \<open>Effects and metadata of tools\<close>

datatype tool_effect =
    UNKNOWN | READ_WORKSPACE | WRITE_WORKSPACE | DISCOVER_WORKSPACE | READ_VCS | WRITE_VCS | NETWORK
  | READ_AGENT_STATE | WRITE_AGENT_STATE | PRODUCE_DELIVERABLE | EXECUTE | TEST | DELEGATE_READ_ONLY | DELEGATE_WRITE

definition effect_names :: "(tool_effect \<times> string) list" where
  "effect_names =
     [(UNKNOWN, ''unknown''), (READ_WORKSPACE, ''read_workspace''), (WRITE_WORKSPACE, ''write_workspace''),
      (DISCOVER_WORKSPACE, ''discover_workspace''), (READ_VCS, ''read_vcs''), (WRITE_VCS, ''write_vcs''),
      (NETWORK, ''network''), (READ_AGENT_STATE, ''read_agent_state''), (WRITE_AGENT_STATE, ''write_agent_state''),
      (PRODUCE_DELIVERABLE, ''produce_deliverable''), (EXECUTE, ''execute''), (TEST, ''test''),
      (DELEGATE_READ_ONLY, ''delegate_read_only''), (DELEGATE_WRITE, ''delegate_write'')]"

definition effect_value :: "tool_effect \<Rightarrow> string" where
  "effect_value e = the_default [] (map_of effect_names e)"

definition effect_of :: "string \<Rightarrow> tool_effect option" where
  "effect_of s = map_of (map (\<lambda>(e, n). (n, e)) effect_names) s"

definition read_only_effects :: "tool_effect set" where
  "read_only_effects = {READ_WORKSPACE, DISCOVER_WORKSPACE, READ_VCS, NETWORK, READ_AGENT_STATE, PRODUCE_DELIVERABLE, DELEGATE_READ_ONLY}"

section \<open>Globs\<close>

text \<open>The members of a bracket: ranges and single characters, from the left.\<close>

fun set_ranges :: "string \<Rightarrow> (char \<times> char) list" where
  "set_ranges [] = []"
| "set_ranges (a # d # b # s) = (if d = CHR ''-'' then (a, b) # set_ranges s else (a, a) # set_ranges (d # b # s))"
| "set_ranges (a # s) = (a, a) # set_ranges s"

definition char_code :: "char \<Rightarrow> nat" where
  "char_code c = of_char c"

definition in_ranges :: "(char \<times> char) list \<Rightarrow> char \<Rightarrow> bool" where
  "in_ranges rs c = list_ex (\<lambda>(a, b). char_code a \<le> char_code c \<and> char_code c \<le> char_code b) rs"

definition bracket_matches :: "string \<Rightarrow> char \<Rightarrow> bool" where
  "bracket_matches body c =
     (case body of
        x # rest \<Rightarrow> if x = CHR ''!'' then \<not> in_ranges (set_ranges rest) c else in_ranges (set_ranges body) c
      | [] \<Rightarrow> False)"

text \<open>The body of a bracket and the pattern after it; a \<open>]\<close> that comes first belongs to the body.\<close>

definition until_bracket :: "string \<Rightarrow> (string \<times> string) option" where
  "until_bracket p =
     (let (neg, p1) = (case p of c # r \<Rightarrow> if c = CHR ''!'' then ([c], r) else ([], p) | [] \<Rightarrow> ([], p));
          (first, p2) = (case p1 of c # r \<Rightarrow> if c = CHR '']'' then ([c], r) else ([], p1) | [] \<Rightarrow> ([], p1));
          body = takeWhile (\<lambda>c. c \<noteq> CHR '']'') p2
      in case dropWhile (\<lambda>c. c \<noteq> CHR '']'') p2 of
           [] \<Rightarrow> None
         | c # rest \<Rightarrow> Some (neg @ first @ body, rest))"

datatype glob_item = G_STAR | G_ANY | G_CHAR char | G_SET string

lemma until_bracket_shorter: "until_bracket p = Some (b, r) \<Longrightarrow> length r < length p"
proof -
  assume u: "until_bracket p = Some (b, r)"
  have d: "dropWhile P xs = c # r \<Longrightarrow> length r < length xs" for P c and xs :: string
    by (induction xs) (auto split: if_splits)
  show ?thesis
    using u d unfolding until_bracket_def Let_def
    by (auto split: list.splits if_splits prod.splits dest!: d simp: less_Suc_eq_le intro: less_imp_le less_trans)
qed

function glob_items :: "string \<Rightarrow> glob_item list" where
  "glob_items [] = []"
| "glob_items (c # p) =
     (if c = CHR ''*'' then G_STAR # glob_items p
      else if c = CHR ''?'' then G_ANY # glob_items p
      else if c = CHR ''['' then
        (case until_bracket p of
           None \<Rightarrow> G_CHAR c # glob_items p
         | Some (body, rest) \<Rightarrow> G_SET body # glob_items rest)
      else G_CHAR c # glob_items p)"
  by pat_completeness auto
termination by (relation "measure length") (auto dest: until_bracket_shorter)

fun item_matches :: "glob_item list \<Rightarrow> string \<Rightarrow> bool" where
  "item_matches [] s = (s = [])"
| "item_matches (G_STAR # is) [] = item_matches is []"
| "item_matches (G_STAR # is) (c # s) = (item_matches is (c # s) \<or> item_matches (G_STAR # is) s)"
| "item_matches (G_ANY # is) s = (case s of [] \<Rightarrow> False | c # s' \<Rightarrow> item_matches is s')"
| "item_matches (G_CHAR d # is) s = (case s of [] \<Rightarrow> False | c # s' \<Rightarrow> c = d \<and> item_matches is s')"
| "item_matches (G_SET b # is) s = (case s of [] \<Rightarrow> False | c # s' \<Rightarrow> bracket_matches b c \<and> item_matches is s')"

definition fnmatch :: "string \<Rightarrow> string \<Rightarrow> bool" where
  "fnmatch name pat = item_matches (glob_items pat) name"

section \<open>Rules scoped to parameters\<close>

datatype call_arg = A_TEXT string | A_LIST "string list" string | A_OTHER string bool

type_synonym call_args = "(string, call_arg) dict"

fun arg_text :: "call_arg \<Rightarrow> string" where
  "arg_text (A_TEXT s) = s"
| "arg_text (A_LIST xs s) = s"
| "arg_text (A_OTHER s b) = s"

fun arg_true :: "call_arg \<Rightarrow> bool" where
  "arg_true (A_TEXT s) = (s \<noteq> [])"
| "arg_true (A_LIST xs s) = (xs \<noteq> [])"
| "arg_true (A_OTHER s b) = b"

definition arg_get :: "string \<Rightarrow> call_args \<Rightarrow> call_arg" where
  "arg_get k ps = the_default (A_TEXT []) (dict_get ps k)"

definition arg_or :: "call_arg \<Rightarrow> call_arg \<Rightarrow> call_arg" where
  "arg_or a b = (if arg_true a then a else b)"

record scoped_rule =
  scoped_tool :: string
  command_pattern :: string
  path_pattern :: string
  domain_pattern :: string

definition match_command :: "string \<Rightarrow> call_args \<Rightarrow> string \<Rightarrow> bool" where
  "match_command tool ps pat =
     (if tool \<notin> {''Bash'', ''shell'', ''bash''} then False
      else let cmd = arg_text (arg_or (arg_get ''command'' ps) (arg_get ''cmd'' ps));
               full = (case the_default (A_LIST [] ''[]'') (dict_get ps ''args'') of
                         A_LIST xs s \<Rightarrow> str_strip (cmd @ [space] @ str_join [space] xs)
                       | _ \<Rightarrow> str_strip cmd)
           in fnmatch (str_lower full) (str_lower pat))"

definition forward_slashes :: "string \<Rightarrow> string" where
  "forward_slashes s = map (\<lambda>c. if c = CHR 0x5C then slash else c) s"

definition match_path :: "call_args \<Rightarrow> string \<Rightarrow> bool" where
  "match_path ps pat =
     (let p = arg_or (arg_or (arg_get ''path'' ps) (arg_get ''file_path'' ps)) (arg_get ''target'' ps)
      in if \<not> arg_true p then False else fnmatch (forward_slashes (arg_text p)) pat)"

definition match_domain :: "(string \<Rightarrow> string) \<Rightarrow> call_args \<Rightarrow> string \<Rightarrow> bool" where
  "match_domain host_of ps pat =
     (let url = arg_or (arg_get ''url'' ps) (arg_get ''target_url'' ps)
      in if \<not> arg_true url then False
         else let host = host_of (arg_text url) in host = pat \<or> ends_with host (CHR ''.'' # pat))"

definition scoped_matches :: "(string \<Rightarrow> string) \<Rightarrow> scoped_rule \<Rightarrow> string \<Rightarrow> call_args \<Rightarrow> bool" where
  "scoped_matches host_of r tool ps =
     (if tool \<noteq> scoped_tool r then False
      else if command_pattern r = [] \<and> path_pattern r = [] \<and> domain_pattern r = [] then True
      else if command_pattern r \<noteq> [] then match_command tool ps (command_pattern r)
      else if path_pattern r \<noteq> [] then match_path ps (path_pattern r)
      else match_domain host_of ps (domain_pattern r))"

section \<open>Paths\<close>

definition strip_chars :: "string \<Rightarrow> string \<Rightarrow> string" where
  "strip_chars cs s = rev (dropWhile (\<lambda>c. c \<in> set cs) (rev (dropWhile (\<lambda>c. c \<in> set cs) s)))"

definition path_text :: "string list \<Rightarrow> string" where
  "path_text parts =
     (case parts of
        [] \<Rightarrow> ''.''
      | r # rest \<Rightarrow> if starts_with r [slash] then r @ str_join [slash] rest else str_join [slash] parts)"

definition relative_to :: "string list \<Rightarrow> string list \<Rightarrow> string list option" where
  "relative_to parts base = (if take (length base) parts = base then Some (drop (length base) parts) else None)"

definition quoting :: string where
  "quoting = [CHR 0x60, CHR 0x27, CHR 0x22, CHR '','', CHR ''.'', CHR '';'', CHR '':'']"

definition normalize_repo_path :: "(string \<Rightarrow> string list) \<Rightarrow> string \<Rightarrow> string \<Rightarrow> string" where
  "normalize_repo_path resolve text repo =
     (let n1 = forward_slashes (strip_chars quoting (str_strip text));
          n2 = (if str_lower n1 = ''readme'' then ''README.md'' else n1);
          n3 = (if starts_with n2 [slash]
                then (case relative_to (resolve n2) (resolve repo) of
                        Some parts \<Rightarrow> path_text parts
                      | None \<Rightarrow> path_text (posix_parts n2))
                else n2)
      in dropWhile (\<lambda>c. c \<in> {CHR ''.'', slash}) n3)"

section \<open>The policy of a phase\<close>

record phase_policy =
  allowed_tools :: "string set option"
  denied_tools :: "string set"
  allowed_effects :: "tool_effect set option"
  denied_effects :: "tool_effect set"
  allowed_read_paths :: "string set option"
  allowed_write_paths :: "string set option"
  strict_file_scope :: bool
  policy_notes :: "string list"
  permission_mode :: string
  pre_approved_tools :: "string set"
  scoped_deny_rules :: "scoped_rule list"
  scoped_allow_rules :: "scoped_rule list"

definition default_policy :: phase_policy where
  "default_policy = \<lparr>allowed_tools = None, denied_tools = {}, allowed_effects = None, denied_effects = {},
     allowed_read_paths = None, allowed_write_paths = None, strict_file_scope = False, policy_notes = [],
     permission_mode = [], pre_approved_tools = {}, scoped_deny_rules = [], scoped_allow_rules = []\<rparr>"

definition blocked_by_mode :: "phase_policy \<Rightarrow> string \<Rightarrow> bool" where
  "blocked_by_mode p tool =
     (if permission_mode p = [] then False
      else if permission_mode p = ''plan'' then tool \<in> {''Write'', ''Edit''}
      else if permission_mode p = ''dontAsk'' then (case allowed_tools p of None \<Rightarrow> False | Some ts \<Rightarrow> tool \<notin> ts)
      else False)"

datatype policy_error = NotAList string | NotABool string | NoSuchEffect string | NoAttribute string

text \<open>
  \<open>check_scoped_rules\<close>: the text of a denial reads the field \<open>param_contains\<close>, which a rule does not have.
\<close>

definition check_scoped_rules :: "(string \<Rightarrow> string) \<Rightarrow> phase_policy \<Rightarrow> string \<Rightarrow> call_args \<Rightarrow> policy_error + string option" where
  "check_scoped_rules host_of p tool ps =
     (if list_ex (\<lambda>r. scoped_matches host_of r tool ps) (scoped_deny_rules p) then Inl (NoAttribute ''param_contains'')
      else Inr None)"

definition both_allow :: "'a set option \<Rightarrow> 'a set option \<Rightarrow> 'a set option" where
  "both_allow a b =
     (case a of None \<Rightarrow> b | Some x \<Rightarrow> (case b of None \<Rightarrow> a | Some y \<Rightarrow> Some (x \<inter> y)))"

definition first_occurrences :: "'a list \<Rightarrow> 'a list" where
  "first_occurrences xs = rev (remdups (rev xs))"

definition intersect :: "phase_policy \<Rightarrow> phase_policy \<Rightarrow> phase_policy" where
  "intersect p q = default_policy\<lparr>
     allowed_tools := both_allow (allowed_tools p) (allowed_tools q),
     denied_tools := denied_tools p \<union> denied_tools q,
     allowed_effects := both_allow (allowed_effects p) (allowed_effects q),
     denied_effects := denied_effects p \<union> denied_effects q,
     allowed_read_paths := both_allow (allowed_read_paths p) (allowed_read_paths q),
     allowed_write_paths := both_allow (allowed_write_paths p) (allowed_write_paths q),
     strict_file_scope := strict_file_scope p \<or> strict_file_scope q,
     policy_notes := first_occurrences (policy_notes p @ policy_notes q)\<rparr>"

text \<open>The fields the constructor calls below pass on from the policy they start from.\<close>

definition carried :: "phase_policy \<Rightarrow> phase_policy" where
  "carried p = p\<lparr>permission_mode := [], pre_approved_tools := {}, scoped_deny_rules := [], scoped_allow_rules := []\<rparr>"

definition with_allowed_tools :: "string set \<Rightarrow> phase_policy \<Rightarrow> phase_policy" where
  "with_allowed_tools ts p =
     (carried p)\<lparr>allowed_tools := Some (case allowed_tools p of None \<Rightarrow> ts | Some x \<Rightarrow> ts \<inter> x)\<rparr>"

definition with_pre_approved_tools :: "string set \<Rightarrow> phase_policy \<Rightarrow> phase_policy" where
  "with_pre_approved_tools ts p = (carried p)\<lparr>pre_approved_tools := pre_approved_tools p \<union> ts\<rparr>"

definition with_denied_tools :: "string set \<Rightarrow> phase_policy \<Rightarrow> phase_policy" where
  "with_denied_tools ts p = (carried p)\<lparr>denied_tools := ts \<union> denied_tools p\<rparr>"

definition with_allowed_effects :: "tool_effect set \<Rightarrow> phase_policy \<Rightarrow> phase_policy" where
  "with_allowed_effects es p =
     (carried p)\<lparr>allowed_effects := Some (case allowed_effects p of None \<Rightarrow> es | Some x \<Rightarrow> es \<inter> x)\<rparr>"

section \<open>The stored form\<close>

definition strings_json :: "string set \<Rightarrow> json" where
  "strings_json s = J_ARRAY (map J_STR (sorted_list_of_set s))"

definition values_json :: "string set option \<Rightarrow> json" where
  "values_json v = (case v of None \<Rightarrow> J_NULL | Some s \<Rightarrow> strings_json s)"

definition policy_to_dict :: "phase_policy \<Rightarrow> (string \<times> json) list" where
  "policy_to_dict p =
     [(''allowed_tools'', values_json (allowed_tools p)),
      (''denied_tools'', strings_json (denied_tools p)),
      (''allowed_effects'', values_json (map_option ((`) effect_value) (allowed_effects p))),
      (''denied_effects'', strings_json (effect_value ` denied_effects p)),
      (''allowed_read_paths'', values_json (allowed_read_paths p)),
      (''allowed_write_paths'', values_json (allowed_write_paths p)),
      (''strict_file_scope'', J_BOOL (strict_file_scope p)),
      (''notes'', J_ARRAY (map J_STR (policy_notes p)))]"

definition json_text :: "(json \<Rightarrow> string) \<Rightarrow> json \<Rightarrow> string" where
  "json_text shw j = (case j of J_STR s \<Rightarrow> s | _ \<Rightarrow> shw j)"

definition strings_field :: "(json \<Rightarrow> string) \<Rightarrow> (string \<times> json) list \<Rightarrow> string \<Rightarrow> policy_error + string set option" where
  "strings_field shw d k =
     (case the_default J_NULL (dict_get d k) of
        J_NULL \<Rightarrow> Inr None
      | J_ARRAY xs \<Rightarrow> Inr (Some (set (map (json_text shw) xs)))
      | _ \<Rightarrow> Inl (NotAList k))"

fun effects_all :: "string list \<Rightarrow> policy_error + tool_effect set" where
  "effects_all [] = Inr {}"
| "effects_all (s # ss) =
     (case effect_of s of
        None \<Rightarrow> Inl (NoSuchEffect s)
      | Some e \<Rightarrow> (case effects_all ss of Inl x \<Rightarrow> Inl x | Inr es \<Rightarrow> Inr (insert e es)))"

definition effects_field :: "(json \<Rightarrow> string) \<Rightarrow> (string \<times> json) list \<Rightarrow> string \<Rightarrow> policy_error + tool_effect set option" where
  "effects_field shw d k =
     (case strings_field shw d k of
        Inl x \<Rightarrow> Inl x
      | Inr None \<Rightarrow> Inr None
      | Inr (Some s) \<Rightarrow> (case effects_all (sorted_list_of_set s) of Inl x \<Rightarrow> Inl x | Inr es \<Rightarrow> Inr (Some es)))"

definition then_field :: "'e + 'a \<Rightarrow> ('a \<Rightarrow> 'e + 'b) \<Rightarrow> 'e + 'b" where
  "then_field r f = (case r of Inl x \<Rightarrow> Inl x | Inr a \<Rightarrow> f a)"

definition policy_from_dict :: "(json \<Rightarrow> string) \<Rightarrow> (string \<times> json) list \<Rightarrow> policy_error + phase_policy" where
  "policy_from_dict shw d =
     then_field (case the_default (J_ARRAY []) (dict_get d ''notes'') of
         J_ARRAY xs \<Rightarrow> Inr (map (json_text shw) xs) | _ \<Rightarrow> Inl (NotAList ''notes'')) (\<lambda>ns.
     then_field (case the_default (J_BOOL False) (dict_get d ''strict_file_scope'') of
         J_BOOL b \<Rightarrow> Inr b | _ \<Rightarrow> Inl (NotABool ''strict_file_scope'')) (\<lambda>strict.
     then_field (strings_field shw d ''allowed_tools'') (\<lambda>ats.
     then_field (strings_field shw d ''denied_tools'') (\<lambda>dt.
     then_field (effects_field shw d ''allowed_effects'') (\<lambda>ae.
     then_field (effects_field shw d ''denied_effects'') (\<lambda>de.
     then_field (strings_field shw d ''allowed_read_paths'') (\<lambda>rp.
     then_field (strings_field shw d ''allowed_write_paths'') (\<lambda>wp.
       Inr (default_policy\<lparr>allowed_tools := ats, denied_tools := the_default {} dt, allowed_effects := ae,
         denied_effects := the_default {} de, allowed_read_paths := rp, allowed_write_paths := wp,
         strict_file_scope := strict, policy_notes := ns\<rparr>)))))))))"

section \<open>The policy of a task\<close>

datatype intent = EDIT | ANALYSIS

record completion_policy =
  required_reads :: "string set"
  required_writes :: "string set"
  forbidden_tools :: "string set"
  require_any_write :: bool
  require_any_read :: bool
  completion_strict :: bool

record task_policy =
  planning :: phase_policy
  execution :: phase_policy
  completion :: completion_policy

definition paths_of :: "string set option \<Rightarrow> string set" where
  "paths_of v = the_default {} v"

definition build_task_policy :: "intent \<Rightarrow> string set option \<Rightarrow> string set option \<Rightarrow> task_policy" where
  "build_task_policy i reads writes =
     (let strict = paths_of reads \<noteq> {} \<or> paths_of writes \<noteq> {};
          rp = (if i = EDIT \<and> paths_of writes \<noteq> {} then Some (paths_of reads \<union> paths_of writes) else reads);
          analysis = (i = ANALYSIS);
          required = (if analysis then {} else paths_of writes);
          base = default_policy\<lparr>allowed_read_paths := rp, strict_file_scope := strict\<rparr>
      in \<lparr>planning = base\<lparr>allowed_tools := (if analysis then Some {} else None),
                          allowed_effects := Some (if analysis then {} else read_only_effects)\<rparr>,
          execution = base\<lparr>allowed_effects := (if analysis
                             then Some (if paths_of rp \<noteq> {} then {READ_WORKSPACE, PRODUCE_DELIVERABLE} else read_only_effects)
                             else None),
                           allowed_write_paths := writes\<rparr>,
          completion = \<lparr>required_reads = (if analysis then paths_of rp else {}), required_writes = required, forbidden_tools = {},
            require_any_write = (\<not> analysis \<and> required = {}), require_any_read = (analysis \<and> strict \<and> paths_of rp = {}),
            completion_strict = strict\<rparr>\<rparr>)"

end
