(* ===== verification/Policy_Registry.thy ===== *)
theory Policy_Registry
  imports Phase_Policy
begin

text \<open>
  \<^verbatim>\<open>core/policy_registry.py\<close>: the registry of tools that applies the policy of a phase. A registry is the
  dict of its tools, or a policy layered over another registry; the tools of a layer are fixed when it
  is built, its policy changes when a skill is activated. The regular expressions that find the files
  of a shell command are written out as scanners. The artifact store is ready or not, by a parameter.
  What a call ends with names the reason, not the wording of the message. The arguments of a
  shell call are a list or a text.
\<close>

section \<open>Files of a shell command\<close>

datatype direction = DIR_READ | DIR_WRITE

definition strip_quotes :: "string \<Rightarrow> string" where
  "strip_quotes s = strip_chars [CHR 0x22, CHR 0x27] s"

text \<open>Python's \<open>\d\<close> and \<open>\w\<close>, on the code points below 256.\<close>

definition is_digit :: "char \<Rightarrow> bool" where
  "is_digit c = (48 \<le> char_code c \<and> char_code c \<le> 57)"

definition skip_spaces :: "string \<Rightarrow> string" where
  "skip_spaces s = dropWhile is_space s"

definition non_spaces :: "string \<Rightarrow> string \<times> string" where
  "non_spaces s = (takeWhile (\<lambda>c. \<not> is_space c) s, dropWhile (\<lambda>c. \<not> is_space c) s)"

text \<open>
  \<open>(?:[12]?&?>>?)\s*(\S+)\<close> at the head of a text: the file and what follows. If nothing but white space
  follows \<open>>>\<close>, the second \<open>>\<close> is the file.
\<close>

definition redirect_here :: "string \<Rightarrow> (string \<times> string) option" where
  "redirect_here s =
     (let s1 = (case s of c # r \<Rightarrow> if c = CHR ''1'' \<or> c = CHR ''2'' then r else s | [] \<Rightarrow> s);
          s2 = (case s1 of c # r \<Rightarrow> if c = CHR 0x26 then r else s1 | [] \<Rightarrow> s1)
      in case s2 of
           [] \<Rightarrow> None
         | c # r \<Rightarrow>
             if c \<noteq> CHR ''>'' then None
             else (case r of
                 [] \<Rightarrow> None
               | d # r1 \<Rightarrow>
                   (let (f, rest) = non_spaces (skip_spaces (if d = CHR ''>'' then r1 else r))
                    in if f \<noteq> [] then Some (f, rest)
                       else if d = CHR ''>'' then Some (non_spaces r) else None)))"

lemma non_spaces_length: "non_spaces s = (a, b) \<Longrightarrow> length b \<le> length s"
  by (auto simp: non_spaces_def length_dropWhile_le)

lemma skip_spaces_length: "length (skip_spaces s) \<le> length s"
  by (simp add: skip_spaces_def length_dropWhile_le)

lemma skip_spaces_le: "n \<le> length (skip_spaces s) \<Longrightarrow> n \<le> length s"
  using skip_spaces_length [of s] by (rule le_trans [rotated])

lemma redirect_shorter: "redirect_here s = Some (f, r) \<Longrightarrow> length r < length s"
proof -
  assume "redirect_here s = Some (f, r)"
  then show ?thesis
    by (auto simp: redirect_here_def Let_def split: list.splits if_splits prod.splits dest!: non_spaces_length skip_spaces_le)
qed

function output_redirects :: "string \<Rightarrow> string list" where
  "output_redirects s =
     (case s of
        [] \<Rightarrow> []
      | c # cs \<Rightarrow> (case redirect_here s of None \<Rightarrow> output_redirects cs | Some (f, r) \<Rightarrow> f # output_redirects r))"
  by pat_completeness auto
termination by (relation "measure length") (auto dest: redirect_shorter)

declare output_redirects.simps [simp del]

text \<open>\<open>(?<!\d)<\s*(\S+)\<close>, with the character before the text.\<close>

definition input_here :: "char option \<Rightarrow> string \<Rightarrow> (string \<times> string) option" where
  "input_here prev s =
     (case s of
        [] \<Rightarrow> None
      | c # r \<Rightarrow>
          if c \<noteq> CHR ''<'' \<or> (case prev of None \<Rightarrow> False | Some d \<Rightarrow> is_digit d) then None
          else let (f, rest) = non_spaces (skip_spaces r) in if f \<noteq> [] then Some (f, rest) else None)"

lemma input_shorter: "input_here p s = Some (f, r) \<Longrightarrow> length r < length s"
proof -
  assume "input_here p s = Some (f, r)"
  then show ?thesis
    by (auto simp: input_here_def Let_def split: list.splits if_splits prod.splits dest!: non_spaces_length skip_spaces_le)
qed

function input_redirects :: "char option \<Rightarrow> string \<Rightarrow> string list" where
  "input_redirects prev s =
     (case s of
        [] \<Rightarrow> []
      | c # cs \<Rightarrow>
          (case input_here prev s of
             None \<Rightarrow> input_redirects (Some c) cs
           | Some (f, r) \<Rightarrow> f # input_redirects (Some (last f)) r))"
  by pat_completeness auto
termination by (relation "measure (length \<circ> snd)") (auto dest: input_shorter)

declare input_redirects.simps [simp del]

text \<open>A word boundary between the character before and the text.\<close>

definition boundary :: "char option \<Rightarrow> string \<Rightarrow> bool" where
  "boundary prev s = ((case prev of None \<Rightarrow> False | Some c \<Rightarrow> is_word c) \<noteq> (case s of [] \<Rightarrow> False | c # r \<Rightarrow> is_word c))"

text \<open>\<open>\btee\s+(\S+)\<close>.\<close>

definition tee_here :: "char option \<Rightarrow> string \<Rightarrow> (string \<times> string) option" where
  "tee_here prev s =
     (if boundary prev s \<and> starts_with s ''tee'' \<and> (case drop 3 s of [] \<Rightarrow> False | c # r \<Rightarrow> is_space c)
      then let (f, rest) = non_spaces (skip_spaces (drop 3 s)) in if f \<noteq> [] then Some (f, rest) else None
      else None)"

lemma tee_shorter: "tee_here p s = Some (f, r) \<Longrightarrow> length r < length s"
proof -
  assume h: "tee_here p s = Some (f, r)"
  then have "3 < length s" by (auto simp: tee_here_def split: if_splits list.splits) (metis drop_eq_Nil list.simps(3) not_le)
  moreover have "length r \<le> length (drop 3 s)"
    using h by (auto simp: tee_here_def Let_def split: if_splits prod.splits dest!: non_spaces_length skip_spaces_le)
  ultimately show ?thesis by simp
qed

function tee_targets :: "char option \<Rightarrow> string \<Rightarrow> string list" where
  "tee_targets prev s =
     (case s of
        [] \<Rightarrow> []
      | c # cs \<Rightarrow>
          (case tee_here prev s of
             None \<Rightarrow> tee_targets (Some c) cs
           | Some (f, r) \<Rightarrow> f # tee_targets (Some (last f)) r))"
  by pat_completeness auto
termination by (relation "measure (length \<circ> snd)") (auto dest: tee_shorter)

declare tee_targets.simps [simp del]

text \<open>\<open>\bdd\b.*?\bof=(\S+)\<close>: the nearest \<open>of=\<close> on the same line.\<close>

fun of_file :: "char option \<Rightarrow> string \<Rightarrow> (string \<times> string) option" where
  "of_file prev [] = None"
| "of_file prev (c # cs) =
     (if boundary prev (c # cs) \<and> starts_with (c # cs) ''of='' \<and> fst (non_spaces (drop 3 (c # cs))) \<noteq> []
      then Some (non_spaces (drop 3 (c # cs)))
      else if c = newline then None else of_file (Some c) cs)"

definition dd_here :: "char option \<Rightarrow> string \<Rightarrow> (string \<times> string) option" where
  "dd_here prev s =
     (if boundary prev s \<and> starts_with s ''dd'' \<and> boundary (Some CHR ''d'') (drop 2 s)
      then of_file (Some CHR ''d'') (drop 2 s) else None)"

lemma of_file_shorter: "of_file p s = Some (f, r) \<Longrightarrow> length r < length s"
proof (induction p s rule: of_file.induct)
  case (2 prev c cs)
  show ?case
  proof (cases "boundary prev (c # cs) \<and> starts_with (c # cs) ''of='' \<and> fst (non_spaces (drop 3 (c # cs))) \<noteq> []")
    case True
    then have "non_spaces (drop 2 cs) = (f, r)" using 2(2) by (simp add: numeral_3_eq_3 numeral_2_eq_2)
    then show ?thesis using non_spaces_length [of "drop 2 cs" f r] by simp
  next
    case False
    then have "c \<noteq> newline" "of_file (Some c) cs = Some (f, r)" using 2(2) by (auto split: if_splits)
    then show ?thesis using 2(1) False by auto
  qed
qed simp

lemma dd_shorter: "dd_here p s = Some (f, r) \<Longrightarrow> length r < length s"
  by (auto simp: dd_here_def split: if_splits dest!: of_file_shorter)

function dd_targets :: "char option \<Rightarrow> string \<Rightarrow> string list" where
  "dd_targets prev s =
     (case s of
        [] \<Rightarrow> []
      | c # cs \<Rightarrow>
          (case dd_here prev s of
             None \<Rightarrow> dd_targets (Some c) cs
           | Some (f, r) \<Rightarrow> f # dd_targets (Some (last f)) r))"
  by pat_completeness auto
termination by (relation "measure (length \<circ> snd)") (auto dest: dd_shorter)

declare dd_targets.simps [simp del]

text \<open>The last word of a command that is no flag, before the first redirection.\<close>

definition is_redirection :: "string \<Rightarrow> bool" where
  "is_redirection w \<longleftrightarrow> starts_with w ''>'' \<or> starts_with w ''<'' \<or> starts_with w [CHR 0x7C] \<or> w = ''tee'' \<or> w = ''dd''"

definition last_argument :: "string \<Rightarrow> string list" where
  "last_argument full =
     (let ws = takeWhile (\<lambda>w. \<not> is_redirection w) (str_words full)
      in case filter (\<lambda>w. \<not> starts_with w ''-'') (rev (drop 1 ws)) of [] \<Rightarrow> [] | w # r \<Rightarrow> [strip_chars [CHR 0x27] (strip_chars [CHR 0x22] w)])"

definition read_commands :: "string list" where
  "read_commands = [''cat'', ''head'', ''tail'', ''less'', ''more'', ''wc'']"

definition destructive_commands :: "string list" where
  "destructive_commands = [''rm'', ''rmdir'', ''chmod'', ''chown'', ''mv'', ''cp'']"

definition shell_targets :: "string \<Rightarrow> string list \<Rightarrow> (string \<times> direction) list" where
  "shell_targets command args =
     (let full = command @ [space] @ str_join [space] args;
          dev = (\<lambda>f. starts_with f ''/dev/'');
          base = (case str_words command of [] \<Rightarrow> [] | w # r \<Rightarrow> w)
      in map (\<lambda>f. (f, DIR_WRITE)) (filter (\<lambda>f. f \<noteq> [] \<and> \<not> starts_with f ''('' \<and> \<not> dev f) (map strip_quotes (output_redirects full)))
         @ map (\<lambda>f. (f, DIR_READ)) (filter (\<lambda>f. f \<noteq> [] \<and> \<not> dev f) (map strip_quotes (input_redirects None full)))
         @ map (\<lambda>f. (f, DIR_WRITE)) (filter (\<lambda>f. f \<noteq> [] \<and> \<not> starts_with f ''-'') (map strip_quotes (tee_targets None full)))
         @ map (\<lambda>f. (f, DIR_WRITE)) (filter (\<lambda>f. f \<noteq> [] \<and> \<not> dev f) (map strip_quotes (dd_targets None full)))
         @ (if base \<in> set read_commands then map (\<lambda>f. (f, DIR_READ)) (last_argument full) else [])
         @ (if base \<in> set destructive_commands then map (\<lambda>f. (f, DIR_WRITE)) (last_argument full) else []))"

section \<open>The registry\<close>

datatype path_access = NO_PATH | PATH_READ | PATH_WRITE | PATH_DISCOVER | PATH_DIFF | WORKSPACE_WIDE

record tool_meta =
  effects :: "tool_effect set"
  path_access :: path_access
  path_parameter :: string
  needs_artifact_store :: bool

type_synonym tool_table = "(string, tool_meta) dict"

record layer =
  policy :: phase_policy
  skill_base :: phase_policy
  repo_path :: string
  base_allowed :: "string set option"
  layer_tools :: tool_table
  overrides :: "(string, string) dict"

datatype registry = Base tool_table | Layered layer registry

record policy_env =
  host_of :: "string \<Rightarrow> string"
  resolve_path :: "string \<Rightarrow> string list"
  store_ready :: bool

fun tools_of :: "registry \<Rightarrow> tool_table" where
  "tools_of (Base d) = d"
| "tools_of (Layered l b) = layer_tools l"

definition in_opt :: "'a \<Rightarrow> 'a set option \<Rightarrow> bool" where
  "in_opt x v = (case v of None \<Rightarrow> True | Some s \<Rightarrow> x \<in> s)"

definition scope_hides :: "phase_policy \<Rightarrow> tool_meta \<Rightarrow> bool" where
  "scope_hides p m \<longleftrightarrow> strict_file_scope p \<and>
     (UNKNOWN \<in> effects m
      \<or> effects m \<inter> {NETWORK, READ_AGENT_STATE, WRITE_AGENT_STATE} \<noteq> {}
      \<or> (allowed_read_paths p \<noteq> None \<and> DISCOVER_WORKSPACE \<in> effects m)
      \<or> (allowed_write_paths p \<noteq> None \<and> path_access m = WORKSPACE_WIDE))"

definition tool_visible :: "phase_policy \<Rightarrow> string set option \<Rightarrow> registry \<Rightarrow> string \<Rightarrow> bool" where
  "tool_visible p allowed b name =
     (if \<not> in_opt name allowed then False
      else if \<not> in_opt name (allowed_tools p) then False
      else if name \<in> denied_tools p then False
      else case dict_get (tools_of b) name of
             None \<Rightarrow> False
           | Some m \<Rightarrow>
               (case allowed_effects p of None \<Rightarrow> True | Some es \<Rightarrow> effects m \<subseteq> es)
               \<and> effects m \<inter> denied_effects p = {} \<and> \<not> scope_hides p m)"

definition tool_enabled :: "policy_env \<Rightarrow> registry \<Rightarrow> string \<Rightarrow> bool" where
  "tool_enabled v b name =
     (case dict_get (tools_of b) name of
        None \<Rightarrow> False
      | Some m \<Rightarrow> if needs_artifact_store m then store_ready v else True)"

definition layer_over :: "registry \<Rightarrow> phase_policy \<Rightarrow> string \<Rightarrow> string set option \<Rightarrow> registry" where
  "layer_over b p repo allowed =
     Layered \<lparr>policy = p, skill_base = p, repo_path = repo, base_allowed = allowed,
              layer_tools = filter (\<lambda>(n, m). tool_visible p allowed b n) (tools_of b), overrides = []\<rparr> b"

fun tool_names :: "policy_env \<Rightarrow> registry \<Rightarrow> string list" where
  "tool_names v (Base d) = dict_keys d"
| "tool_names v (Layered l b) =
     filter (\<lambda>n. tool_visible (policy l) (base_allowed l) b n \<and> tool_enabled v b n) (dict_keys (layer_tools l))"

datatype refusal =
    UnknownTool | BlockedInPhase | NotAvailable | DeniedTool | DiffNeedsPath
  | PathDenied string string | BashReadDenied string | BashWriteDenied string

definition check_path :: "policy_env \<Rightarrow> string \<Rightarrow> call_arg \<Rightarrow> string set option \<Rightarrow> string \<Rightarrow> refusal option" where
  "check_path v repo given allowed action =
     (case allowed of
        None \<Rightarrow> None
      | Some paths \<Rightarrow>
          (let requested = normalize_repo_path (resolve_path v) (if arg_true given then arg_text given else []) repo
           in if requested \<in> paths then None else Some (PathDenied requested action)))"

fun bash_check :: "policy_env \<Rightarrow> string \<Rightarrow> direction \<Rightarrow> string set option \<Rightarrow> (string \<times> direction) list \<Rightarrow> string option" where
  "bash_check v repo d allowed [] = None"
| "bash_check v repo d allowed ((f, e) # ts) =
     (let n = normalize_repo_path (resolve_path v) f repo
      in if e = d \<and> \<not> in_opt n allowed then Some n else bash_check v repo d allowed ts)"

definition shell_scope :: "policy_env \<Rightarrow> layer \<Rightarrow> call_args \<Rightarrow> refusal option" where
  "shell_scope v l ps =
     (let cmd = arg_text (arg_or (arg_get ''command'' ps) (A_TEXT []));
          args = (case arg_or (the_default (A_LIST [] ''[]'') (dict_get ps ''args'')) (A_LIST [] ''[]'') of
                    A_LIST xs s \<Rightarrow> xs | A_TEXT s \<Rightarrow> map (\<lambda>c. [c]) s | A_OTHER s b \<Rightarrow> []);
          targets = shell_targets cmd args
      in case bash_check v (repo_path l) DIR_READ (allowed_read_paths (policy l)) targets of
           Some n \<Rightarrow> Some (BashReadDenied n)
         | None \<Rightarrow> map_option BashWriteDenied (bash_check v (repo_path l) DIR_WRITE (allowed_write_paths (policy l)) targets))"

definition nonempty_or :: "'a set option \<Rightarrow> 'a set option \<Rightarrow> 'a set option" where
  "nonempty_or a b = (case a of None \<Rightarrow> b | Some s \<Rightarrow> if s = {} then b else a)"

definition path_scope :: "policy_env \<Rightarrow> layer \<Rightarrow> string \<Rightarrow> tool_meta \<Rightarrow> call_args \<Rightarrow> refusal option" where
  "path_scope v l name m ps =
     (let p = policy l;
          given = (if path_parameter m = [] then A_TEXT [] else arg_get (path_parameter m) ps)
      in if path_access m = PATH_READ then check_path v (repo_path l) given (allowed_read_paths p) ''read''
         else if path_access m = PATH_WRITE then check_path v (repo_path l) given (allowed_write_paths p) ''write''
         else if path_access m = PATH_DIFF \<and> strict_file_scope p then
           (if \<not> arg_true given then Some DiffNeedsPath
            else check_path v (repo_path l) given (nonempty_or (allowed_write_paths p) (allowed_read_paths p)) ''diff'')
         else if path_access m = PATH_DISCOVER \<and> allowed_read_paths p \<noteq> None then
           check_path v (repo_path l) given (allowed_read_paths p) ''search''
         else if name = ''Bash'' \<and> strict_file_scope p then shell_scope v l ps
         else None)"

definition check_tool_call :: "policy_env \<Rightarrow> layer \<Rightarrow> registry \<Rightarrow> string \<Rightarrow> call_args \<Rightarrow> policy_error + refusal option" where
  "check_tool_call v l b name ps =
     (case check_scoped_rules (host_of v) (policy l) name ps of
        Inl x \<Rightarrow> Inl x
      | Inr _ \<Rightarrow> Inr
          (if dict_get (layer_tools l) name = None
           then Some (if name \<in> set (tool_names v b) then BlockedInPhase else UnknownTool)
           else if \<not> tool_enabled v b name then Some NotAvailable
           else if name \<in> denied_tools (policy l) then Some DeniedTool
           else path_scope v l name
             (the_default \<lparr>effects = {UNKNOWN}, path_access = NO_PATH, path_parameter = [], needs_artifact_store = False\<rparr>
                (dict_get (tools_of b) name)) ps))"

datatype call_end = RAISES policy_error | BLOCKED refusal | UNKNOWN_TO_BASE | REACHES_TOOL

text \<open>\<open>execute_tool\<close> through every layer, down to the tool itself.\<close>

fun execute_tool :: "policy_env \<Rightarrow> registry \<Rightarrow> string \<Rightarrow> call_args \<Rightarrow> call_end" where
  "execute_tool v (Base d) name ps = (if dict_get d name = None then UNKNOWN_TO_BASE else REACHES_TOOL)"
| "execute_tool v (Layered l b) name ps =
     (case check_tool_call v l b name ps of
        Inl x \<Rightarrow> RAISES x
      | Inr (Some r) \<Rightarrow> BLOCKED r
      | Inr None \<Rightarrow> execute_tool v b name ps)"

section \<open>Skills\<close>

record skill_modifier =
  skill_allowed :: "string set"
  skill_disallowed :: "string set"
  skill_model :: string
  skill_effort :: string
  skill_context :: string

definition skill_policy :: "skill_modifier \<Rightarrow> phase_policy \<Rightarrow> phase_policy" where
  "skill_policy k p =
     (let p1 = (if skill_allowed k \<noteq> {} then with_pre_approved_tools (skill_allowed k) p else p)
      in if skill_disallowed k \<noteq> {} then with_denied_tools (skill_disallowed k) p1 else p1)"

definition modifier_overrides :: "skill_modifier \<Rightarrow> (string \<times> string) list" where
  "modifier_overrides k = filter (\<lambda>(n, x). x \<noteq> [])
     [(''model'', skill_model k), (''effort'', skill_effort k), (''context'', skill_context k)]"

definition apply_modifier :: "skill_modifier \<Rightarrow> layer \<Rightarrow> layer" where
  "apply_modifier k l = l\<lparr>policy := skill_policy k (skill_base l),
     overrides := fold (\<lambda>(n, x) d. dict_set n x d) (modifier_overrides k) (overrides l)\<rparr>"

text \<open>A registry derived from another one changes its owner too; the owner comes second.\<close>

definition apply_skill_modifier :: "skill_modifier \<Rightarrow> layer \<times> layer option \<Rightarrow> layer \<times> layer option" where
  "apply_skill_modifier k s = (apply_modifier k (fst s), map_option (apply_modifier k) (snd s))"

definition restore_layer :: "layer \<Rightarrow> layer" where
  "restore_layer l = l\<lparr>policy := skill_base l, overrides := []\<rparr>"

definition deactivate_skill_modifier :: "layer \<times> layer option \<Rightarrow> layer \<times> layer option" where
  "deactivate_skill_modifier s = (restore_layer (fst s), map_option restore_layer (snd s))"

definition skill_runtime_overrides :: "layer \<times> layer option \<Rightarrow> (string, string) dict" where
  "skill_runtime_overrides s = overrides (the_default (fst s) (snd s))"

section \<open>Derived registries\<close>

text \<open>The methods that build a registry with a changed policy on the same base.\<close>

definition derive :: "registry \<Rightarrow> (phase_policy \<Rightarrow> phase_policy) \<Rightarrow> string set option \<Rightarrow> registry" where
  "derive r f allowed = (case r of Base d \<Rightarrow> r | Layered l b \<Rightarrow> layer_over b (f (policy l)) (repo_path l) allowed)"

definition registry_with_allowed_tools :: "string set \<Rightarrow> registry \<Rightarrow> registry" where
  "registry_with_allowed_tools ts r = derive r (with_allowed_tools ts) (Some ts)"

definition allowed_of :: "registry \<Rightarrow> string set option" where
  "allowed_of r = (case r of Base d \<Rightarrow> None | Layered l b \<Rightarrow> base_allowed l)"

definition registry_with_pre_approved :: "string set \<Rightarrow> registry \<Rightarrow> registry" where
  "registry_with_pre_approved ts r = derive r (with_pre_approved_tools ts) (allowed_of r)"

definition registry_with_disallowed :: "string set \<Rightarrow> registry \<Rightarrow> registry" where
  "registry_with_disallowed ts r = derive r (with_denied_tools ts) (allowed_of r)"

definition with_skill_restrictions :: "skill_modifier \<Rightarrow> registry \<Rightarrow> registry" where
  "with_skill_restrictions k r =
     (let r1 = (if skill_allowed k \<noteq> {} then registry_with_pre_approved (skill_allowed k) r else r)
      in if skill_disallowed k \<noteq> {} then registry_with_disallowed (skill_disallowed k) r1 else r1)"

definition with_phase_policy :: "policy_env \<Rightarrow> phase_policy \<Rightarrow> registry \<Rightarrow> registry" where
  "with_phase_policy v p r =
     layer_over r p (case r of Base d \<Rightarrow> [] | Layered l b \<Rightarrow> repo_path l) (Some (set (tool_names v r)))"

end
