(* ===== verification/Policy_Properties.thy ===== *)
theory Policy_Properties
  imports Policy_Registry Posix_Path
begin

text \<open>
  What the policy of a phase guarantees for the calls that reach a tool through any number of layers, and
  where the code does not keep what it promises: rules that are dropped or raise, paths outside the
  workspace that are normalised into the scope, files of a shell command that are overlooked.
\<close>

section \<open>Registries as they are built\<close>

fun layers :: "registry \<Rightarrow> (layer \<times> registry) list" where
  "layers (Base d) = []"
| "layers (Layered l b) = (l, b) # layers b"

text \<open>The tools of a layer are the ones its first policy shows of its base.\<close>

fun well_built :: "registry \<Rightarrow> bool" where
  "well_built (Base d) = True"
| "well_built (Layered l b) =
     (layer_tools l = filter (\<lambda>(n, m). tool_visible (skill_base l) (base_allowed l) b n) (tools_of b) \<and> well_built b)"

lemma layer_over_built: "well_built b \<Longrightarrow> well_built (layer_over b p repo allowed)"
  by (simp add: layer_over_def)

lemma modifier_built: "well_built (Layered l b) \<Longrightarrow> well_built (Layered (apply_modifier k l) b)"
  by (simp add: apply_modifier_def)

lemma restore_built: "well_built (Layered l b) \<Longrightarrow> well_built (Layered (restore_layer l) b)"
  by (simp add: restore_layer_def)

lemma map_of_filter_key: "map_of (filter (\<lambda>(n, m). P n) d) k = (if P k then map_of d k else None)"
  by (induction d) auto

lemma layer_lookup:
  assumes "well_built (Layered l b)" "dict_get (layer_tools l) name = Some m"
  shows "tool_visible (skill_base l) (base_allowed l) b name" "dict_get (tools_of b) name = Some m"
  using assms by (auto simp: map_of_filter_key split: if_splits)

section \<open>A call that reaches its tool\<close>

lemma passed_check:
  assumes "check_tool_call v l b name ps = Inr None"
  shows "\<not> list_ex (\<lambda>r. scoped_matches (host_of v) r name ps) (scoped_deny_rules (policy l))"
    and "dict_get (layer_tools l) name \<noteq> None" "name \<notin> denied_tools (policy l)" "tool_enabled v b name"
    and "path_scope v l name (the_default \<lparr>effects = {UNKNOWN}, path_access = NO_PATH, path_parameter = [], needs_artifact_store = False\<rparr>
           (dict_get (tools_of b) name)) ps = None"
  using assms by (auto simp: check_tool_call_def check_scoped_rules_def split: if_splits sum.splits)

lemma reaches_layers:
  assumes "execute_tool v r name ps = REACHES_TOOL" "(l, b) \<in> set (layers r)"
  shows "check_tool_call v l b name ps = Inr None"
  using assms by (induction r) (auto split: sum.splits option.splits)

lemma built_layers: "well_built r \<Longrightarrow> (l, b) \<in> set (layers r) \<Longrightarrow> well_built (Layered l b)"
  by (induction r) auto

lemma check_path_within:
  "check_path v repo x (Some paths) act = None
   \<longleftrightarrow> normalize_repo_path (resolve_path v) (if arg_true x then arg_text x else []) repo \<in> paths"
  by (simp add: check_path_def Let_def)

section \<open>Visibility\<close>

lemma both_allow_subset: "both_allow a b = Some s \<Longrightarrow> (\<forall>x \<in> s. in_opt x a \<and> in_opt x b)"
  by (auto simp: both_allow_def in_opt_def split: option.splits)






text \<open>The scope of files under an intersection.\<close>

lemma intersect_paths [simp]:
  "allowed_read_paths (intersect p q) = both_allow (allowed_read_paths p) (allowed_read_paths q)"
  "allowed_write_paths (intersect p q) = both_allow (allowed_write_paths p) (allowed_write_paths q)"
  "strict_file_scope (intersect p q) = (strict_file_scope p \<or> strict_file_scope q)"
  by (simp_all add: intersect_def)





lemma check_path_free [simp]: "check_path v repo x None act = None"
  by (simp add: check_path_def)





section \<open>The stored form\<close>

lemma sorted_strings: "finite s \<Longrightarrow> set (sorted_list_of_set s) = s"
  by simp

lemma strings_field_values:
  "the_default J_NULL (dict_get d k) = values_json v \<Longrightarrow> (\<forall>s. v = Some s \<longrightarrow> finite s) \<Longrightarrow> strings_field shw d k = Inr v"
  by (auto simp: strings_field_def values_json_def strings_json_def json_text_def comp_def split: option.splits)

lemma effect_names_inverse: "effect_of (effect_value e) = Some e"
  by (cases e) (simp_all add: effect_of_def effect_value_def effect_names_def)

lemma effects_all_list:
  assumes "set ss = effect_value ` es"
  shows "effects_all ss = Inr es"
proof -
  have inj: "effect_value a = effect_value b \<longleftrightarrow> a = b" for a b by (metis effect_names_inverse option.inject)
  have all: "effects_all ss = Inr {e. effect_value e \<in> set ss}" if "set ss \<subseteq> range effect_value" for ss
    using that
  proof (induction ss)
    case (Cons s ss)
    then obtain e where "s = effect_value e" by auto
    then show ?case using Cons inj by (auto simp: effect_names_inverse)
  qed simp
  have "effects_all ss = Inr {e. effect_value e \<in> set ss}" by (rule all) (use assms in auto)
  moreover have "{e. effect_value e \<in> set ss} = es" using assms inj by auto
  ultimately show ?thesis by simp
qed

lemma finite_effects [simp]: "finite (es :: tool_effect set)"
proof -
  have "x \<in> fst ` set effect_names" for x by (cases x) (simp_all add: effect_names_def)
  then have "(UNIV :: tool_effect set) \<subseteq> fst ` set effect_names" by blast
  then show ?thesis by (metis finite_imageI finite_set finite_subset subset_UNIV)
qed

lemma effects_field_values:
  "the_default J_NULL (dict_get d k) = values_json (map_option ((`) effect_value) v) \<Longrightarrow> effects_field shw d k = Inr v"
  using strings_field_values [of d k "map_option ((`) effect_value) v" shw]
  by (cases v) (auto simp: effects_field_def effects_all_list)

section \<open>Globs without wildcards\<close>

lemma plain_items: "list_all (\<lambda>c. c \<notin> {CHR ''*'', CHR ''?'', CHR ''[''}) pat \<Longrightarrow> glob_items pat = map G_CHAR pat"
  by (induction pat) auto

lemma chars_match: "item_matches (map G_CHAR p) s = (s = p)"
  by (induction p arbitrary: s) (auto split: list.split)

section \<open>Skills\<close>

lemma modifiers_keep_base: "skill_base (foldl (\<lambda>l k. apply_modifier k l) l ks) = skill_base l"
  by (induction ks arbitrary: l) (simp_all add: apply_modifier_def)

section \<open>Properties\<close>

text \<open>A file system without symbolic links.\<close>

definition sample_env :: policy_env where
  "sample_env = \<lparr>host_of = id, resolve_path = (\<lambda>p. [slash] # norm_components p), store_ready = False\<rparr>"

definition edit_tool :: tool_meta where
  "edit_tool = \<lparr>effects = {READ_WORKSPACE, WRITE_WORKSPACE}, path_access = PATH_WRITE, path_parameter = ''path'', needs_artifact_store = False\<rparr>"

definition bash_tool :: tool_meta where
  "bash_tool = \<lparr>effects = {EXECUTE}, path_access = NO_PATH, path_parameter = [], needs_artifact_store = False\<rparr>"

definition sample_tools :: tool_table where
  "sample_tools = [(''Edit'', edit_tool), (''Bash'', bash_tool)]"

definition scoped_policy :: phase_policy where
  "scoped_policy = default_policy\<lparr>allowed_write_paths := Some {''notes.txt''}, strict_file_scope := True\<rparr>"

definition sample_registry :: registry where
  "sample_registry = layer_over (Base sample_tools) scoped_policy ''/repo'' None"

text \<open>
  C5. A call that reaches its tool passed every layer: in each, the first policy showed the tool, the
  present policy does not deny it, no scoped deny rule matched, the tool is enabled, and a path it writes
  is, as normalised, one of the paths the policy lets it write.
\<close>
theorem reached_tool_passed_every_layer:
  assumes "well_built r" "execute_tool v r name ps = REACHES_TOOL" "(l, b) \<in> set (layers r)"
  shows "tool_visible (skill_base l) (base_allowed l) b name \<and> name \<notin> denied_tools (policy l) \<and> tool_enabled v b name
    \<and> \<not> list_ex (\<lambda>r. scoped_matches (host_of v) r name ps) (scoped_deny_rules (policy l))
    \<and> (\<forall>m paths. dict_get (tools_of b) name = Some m \<longrightarrow> path_access m = PATH_WRITE \<longrightarrow> path_parameter m \<noteq> [] \<longrightarrow>
         allowed_write_paths (policy l) = Some paths \<longrightarrow>
         normalize_repo_path (resolve_path v)
           (if arg_true (arg_get (path_parameter m) ps) then arg_text (arg_get (path_parameter m) ps) else []) (repo_path l) \<in> paths)"
proof -
  have c: "check_tool_call v l b name ps = Inr None" using assms(2,3) by (rule reaches_layers)
  have w: "well_built (Layered l b)" using assms(1,3) by (rule built_layers)
  obtain m where m: "dict_get (layer_tools l) name = Some m" using passed_check(2) [OF c] by auto
  note t = layer_lookup [OF w m]
  have "path_scope v l name m ps = None" using passed_check(5) [OF c] t(2) by simp
  then have "path_access m = PATH_WRITE \<longrightarrow> path_parameter m \<noteq> [] \<longrightarrow> allowed_write_paths (policy l) = Some paths \<longrightarrow>
      normalize_repo_path (resolve_path v)
        (if arg_true (arg_get (path_parameter m) ps) then arg_text (arg_get (path_parameter m) ps) else []) (repo_path l) \<in> paths" for paths
    by (auto simp: path_scope_def Let_def check_path_within)
  then show ?thesis using passed_check [OF c] t by auto
qed

theorem reached_tool_passed_every_layer_witness:
  "\<exists>l b. (l, b) \<in> set (layers sample_registry) \<and> tool_visible (skill_base l) (base_allowed l) b ''Edit''"
proof -
  let ?l = "case sample_registry of Layered l b \<Rightarrow> l" and ?b = "case sample_registry of Layered l b \<Rightarrow> b"
  have m: "(?l, ?b) \<in> set (layers sample_registry)" by (simp add: sample_registry_def layer_over_def)
  have "well_built sample_registry" by (simp add: sample_registry_def layer_over_def)
  moreover have "execute_tool sample_env sample_registry ''Edit'' [(''path'', A_TEXT ''notes.txt'')] = REACHES_TOOL" by code_simp
  ultimately show ?thesis using reached_tool_passed_every_layer [OF _ _ m] m by blast
qed


definition sample_layer :: layer where
  "sample_layer = \<lparr>policy = scoped_policy, skill_base = scoped_policy, repo_path = ''/repo'', base_allowed = None,
     layer_tools = sample_tools, overrides = []\<rparr>"


text \<open>
  Where it does widen: two policies that let write different files, and read the same one, have an intersection that
  lets write none; the empty set counts as no restriction for the tool that shows differences, which then takes the
  paths that may be read, and shows the file that both policies refuse to show.
\<close>

definition diff_tool :: tool_meta where
  "diff_tool = \<lparr>effects = {READ_WORKSPACE}, path_access = PATH_DIFF, path_parameter = ''path'', needs_artifact_store = False\<rparr>"

definition writes_only :: "string \<Rightarrow> phase_policy" where
  "writes_only f = default_policy\<lparr>allowed_read_paths := Some {''key.txt''}, allowed_write_paths := Some {f}, strict_file_scope := True\<rparr>"

theorem intersection_widens_diff:
  "path_scope sample_env (sample_layer\<lparr>policy := intersect (writes_only ''a.txt'') (writes_only ''b.txt'')\<rparr>) ''GitDiff'' diff_tool
       [(''path'', A_TEXT ''key.txt'')] = None
   \<and> path_scope sample_env (sample_layer\<lparr>policy := writes_only ''a.txt''\<rparr>) ''GitDiff'' diff_tool [(''path'', A_TEXT ''key.txt'')] \<noteq> None
   \<and> path_scope sample_env (sample_layer\<lparr>policy := writes_only ''b.txt''\<rparr>) ''GitDiff'' diff_tool [(''path'', A_TEXT ''key.txt'')] \<noteq> None"
  by (intro conjI; code_simp)

text \<open>
  Planning only reads: whatever the paths of a task, under its policy for planning no tool is shown
  that has an effect outside the read-only ones, and none at all when the task is an analysis.
\<close>
theorem planning_only_reads:
  assumes "tool_visible (planning (build_task_policy i reads writes)) al b n"
  shows "i = EDIT \<and> (\<exists>m. dict_get (tools_of b) n = Some m \<and> effects m \<subseteq> read_only_effects)"
  using assms by (cases i) (auto simp: tool_visible_def build_task_policy_def Let_def in_opt_def default_policy_def split: if_splits option.splits)

theorem planning_only_reads_witness:
  "\<exists>m. dict_get [(''Read'', \<lparr>effects = {READ_WORKSPACE}, path_access = PATH_READ, path_parameter = ''path'', needs_artifact_store = False\<rparr>)]
     ''Read'' = Some m \<and> effects m \<subseteq> read_only_effects"
proof -
  have "tool_visible (planning (build_task_policy EDIT None None)) None
     (Base [(''Read'', \<lparr>effects = {READ_WORKSPACE}, path_access = PATH_READ, path_parameter = ''path'', needs_artifact_store = False\<rparr>)]) ''Read''"
    by code_simp
  from planning_only_reads [OF this] show ?thesis by (simp only: tools_of.simps)
qed

text \<open>
  Every derived policy forgets the scoped rules: intersecting with another policy, narrowing the tools
  or the effects, denying tools or approving some in advance all give a policy under which no scoped deny
  rule is consulted, though the intersection is documented not to escalate.
\<close>
theorem derived_policies_drop_scoped_rules:
  "check_scoped_rules h (intersect p q) t ps = Inr None \<and> check_scoped_rules h (with_denied_tools ts p) t ps = Inr None
   \<and> check_scoped_rules h (with_allowed_tools ts p) t ps = Inr None \<and> check_scoped_rules h (with_pre_approved_tools ts p) t ps = Inr None
   \<and> check_scoped_rules h (with_allowed_effects es p) t ps = Inr None
   \<and> permission_mode (intersect p q) = [] \<and> permission_mode (with_denied_tools ts p) = []"
  by (simp add: check_scoped_rules_def intersect_def default_policy_def with_denied_tools_def with_allowed_tools_def
      with_pre_approved_tools_def with_allowed_effects_def carried_def)

text \<open>
  A scoped deny rule that matches does not deny: the text of the refusal reads a field the rule does not
  have, so the call ends with an exception.
\<close>
theorem scoped_denial_raises:
  assumes "r \<in> set (scoped_deny_rules (policy l))" "scoped_matches (host_of v) r name ps"
  shows "execute_tool v (Layered l b) name ps = RAISES (NoAttribute ''param_contains'')"
  using assms by (auto simp: check_tool_call_def check_scoped_rules_def list_ex_iff)

theorem scoped_denial_raises_witness:
  "execute_tool sample_env
     (layer_over (Base sample_tools) (default_policy\<lparr>scoped_deny_rules := [\<lparr>scoped_tool = ''Bash'', command_pattern = ''rm *'', path_pattern = [], domain_pattern = []\<rparr>]\<rparr>) [] None)
     ''Bash'' [(''command'', A_TEXT ''rm -rf x'')] = RAISES (NoAttribute ''param_contains'')"
  unfolding layer_over_def
  by (rule scoped_denial_raises [of "\<lparr>scoped_tool = ''Bash'', command_pattern = ''rm *'', path_pattern = [], domain_pattern = []\<rparr>"])
    (simp, code_simp)

text \<open>
  The scope of files can be left through the parent directory: leading dots and slashes are dropped
  when a path is normalised, so that a file outside the repository is taken for the file of that name in
  it, and a hidden file for one that is not hidden.
\<close>
theorem parent_directories_are_forgotten:
  "check_path sample_env ''/repo'' (A_TEXT ''../../notes.txt'') (Some {''notes.txt''}) ''write'' = None
   \<and> check_path sample_env ''/repo'' (A_TEXT ''/notes.txt'') (Some {''notes.txt''}) ''write'' = None
   \<and> check_path sample_env ''/repo'' (A_TEXT ''.notes.txt'') (Some {''notes.txt''}) ''write'' = None"
  by code_simp

text \<open>
  The strict scope checks one file of a shell command: \<open>rm\<close> may name any file before the last one,
  and a command that is not among the ten known ones, like \<open>touch\<close>, may name any file.
\<close>
theorem shell_scope_overlooks_files:
  "execute_tool sample_env sample_registry ''Bash'' [(''command'', A_TEXT ''rm secret.txt notes.txt'')] = REACHES_TOOL
   \<and> execute_tool sample_env sample_registry ''Bash'' [(''command'', A_TEXT ''touch secret.txt'')] = REACHES_TOOL
   \<and> execute_tool sample_env sample_registry ''Bash'' [(''command'', A_TEXT ''rm secret.txt'')] = BLOCKED (BashWriteDenied ''secret.txt'')
   \<and> execute_tool sample_env sample_registry ''Bash'' [(''command'', A_TEXT ''echo a>secret.txt'')] = BLOCKED (BashWriteDenied ''secret.txt'')"
  by code_simp

text \<open>
  A policy that is stored and loaded is the same policy but for its permission mode, its tools approved
  in advance and its scoped rules, which the dictionary does not hold.
\<close>
theorem policy_dict_roundtrip:
  assumes "finite (denied_tools p)" "\<forall>s \<in> {allowed_tools p, allowed_read_paths p, allowed_write_paths p}. finite (the_default {} s)"
  shows "policy_from_dict shw (policy_to_dict p) = Inr (carried p)"
proof -
  have fin: "allowed_tools p = Some s \<or> allowed_read_paths p = Some s \<or> allowed_write_paths p = Some s \<Longrightarrow> finite s" for s
    using assms(2) by auto
  have none: "strings_json s = values_json (Some s)" for s by (simp add: values_json_def)
  have d: "strings_field shw (policy_to_dict p) ''allowed_tools'' = Inr (allowed_tools p)"
    "strings_field shw (policy_to_dict p) ''denied_tools'' = Inr (Some (denied_tools p))"
    "strings_field shw (policy_to_dict p) ''allowed_read_paths'' = Inr (allowed_read_paths p)"
    "strings_field shw (policy_to_dict p) ''allowed_write_paths'' = Inr (allowed_write_paths p)"
    by (rule strings_field_values; use fin assms(1) in \<open>simp add: policy_to_dict_def none\<close>)+
  have e: "effects_field shw (policy_to_dict p) ''allowed_effects'' = Inr (allowed_effects p)"
    "effects_field shw (policy_to_dict p) ''denied_effects'' = Inr (Some (denied_effects p))"
    by (rule effects_field_values; simp add: policy_to_dict_def none)+
  have n: "the_default (J_ARRAY []) (dict_get (policy_to_dict p) ''notes'') = J_ARRAY (map J_STR (policy_notes p))"
    "the_default (J_BOOL False) (dict_get (policy_to_dict p) ''strict_file_scope'') = J_BOOL (strict_file_scope p)"
    by (simp_all add: policy_to_dict_def)
  show ?thesis unfolding policy_from_dict_def d e n
    by (simp add: then_field_def default_policy_def carried_def json_text_def comp_def)
qed

theorem policy_dict_roundtrip_witness:
  "policy_from_dict (\<lambda>j. []) (policy_to_dict (scoped_policy\<lparr>permission_mode := ''plan''\<rparr>)) = Inr scoped_policy"
proof -
  have "policy_from_dict (\<lambda>j. []) (policy_to_dict (scoped_policy\<lparr>permission_mode := ''plan''\<rparr>))
      = Inr (carried (scoped_policy\<lparr>permission_mode := ''plan''\<rparr>))"
    by (rule policy_dict_roundtrip) (simp_all add: scoped_policy_def default_policy_def)
  then show ?thesis by (simp add: carried_def scoped_policy_def default_policy_def)
qed

text \<open>
  Skills do not accumulate in the policy: after any sequence of modifiers the policy is that of the last
  one on the policy before the skills, and deactivating restores it; but a skill with both lists loses the
  tools it approves, and what an earlier skill chose for the model stays.
\<close>
theorem skill_policies_do_not_accumulate:
  "policy (apply_modifier k (foldl (\<lambda>l k. apply_modifier k l) l ks)) = skill_policy k (skill_base l)
   \<and> policy (restore_layer (foldl (\<lambda>l k. apply_modifier k l) l ks)) = skill_base l
   \<and> pre_approved_tools (skill_policy \<lparr>skill_allowed = {''Read''}, skill_disallowed = {''Bash''}, skill_model = ''m'', skill_effort = [], skill_context = []\<rparr> p) = {}
   \<and> overrides (apply_modifier \<lparr>skill_allowed = {}, skill_disallowed = {}, skill_model = [], skill_effort = [], skill_context = []\<rparr> l) = overrides l"
  using modifiers_keep_base [of l ks]
  by (simp add: apply_modifier_def restore_layer_def skill_policy_def with_denied_tools_def with_pre_approved_tools_def carried_def modifier_overrides_def)

text \<open>
  A glob without wildcards matches its own text and nothing else.
\<close>
theorem plain_glob_is_equality:
  assumes "list_all (\<lambda>c. c \<notin> {CHR ''*'', CHR ''?'', CHR ''[''}) pat"
  shows "fnmatch name pat = (name = pat)"
  using plain_items [OF assms] chars_match by (simp add: fnmatch_def)

theorem plain_glob_is_equality_witness: "fnmatch ''src/a.py'' ''src/a.py'' = (''src/a.py'' = ''src/a.py'')"
  by (rule plain_glob_is_equality) simp

end
