(* ===== verification/Tool_Execution.thy ===== *)
theory Tool_Execution
  imports Permission_Pipeline
begin

text \<open>
  \<^verbatim>\<open>core/tool_execution.py\<close>: one logical tool call with its retries, through validation, availability,
  budget, the permission pipeline of \<^verbatim>\<open>hitl/\<close>, the capacity of the governor and the hooks after it, and
  \<^verbatim>\<open>agent/tool_availability_guard.py\<close>, which says what is available. The validator of JSON schemas, the
  tool, the governor's answers and the dispatcher of the hooks are parameters, by the number of the
  attempt. What happens is recorded in a log, in the order of the code; the recorder of evidence and the
  times of the attempts are left out.
\<close>

section \<open>Availability\<close>

datatype availability_state = AVAILABLE | UNAVAILABLE

record availability =
  av_name :: string
  av_state :: availability_state
  av_reason :: string

type_synonym guard = "(string, availability) dict"

definition register_tool :: "string \<Rightarrow> guard \<Rightarrow> guard" where
  "register_tool n g = dict_set n \<lparr>av_name = n, av_state = AVAILABLE, av_reason = []\<rparr> g"

definition register_bulk :: "string list \<Rightarrow> guard \<Rightarrow> guard" where
  "register_bulk ns g = foldl (\<lambda>g n. register_tool n g) g ns"

definition mark_unavailable :: "string \<Rightarrow> string \<Rightarrow> guard \<Rightarrow> guard" where
  "mark_unavailable n why g = dict_set n \<lparr>av_name = n, av_state = UNAVAILABLE, av_reason = why\<rparr> g"

definition mark_available :: "string \<Rightarrow> guard \<Rightarrow> guard" where
  "mark_available n g = dict_set n \<lparr>av_name = n, av_state = AVAILABLE, av_reason = []\<rparr> g"

definition state_for :: "string \<Rightarrow> guard \<Rightarrow> availability_state" where
  "state_for n g = (case dict_get g n of None \<Rightarrow> AVAILABLE | Some a \<Rightarrow> av_state a)"

definition get_reason :: "string \<Rightarrow> guard \<Rightarrow> string" where
  "get_reason n g = (case dict_get g n of None \<Rightarrow> [] | Some a \<Rightarrow> av_reason a)"

text \<open>\<open>None\<close> lets the call pass; otherwise the reason for the block.\<close>

definition intercept :: "string \<Rightarrow> guard \<Rightarrow> string option" where
  "intercept n g =
     (case dict_get g n of
        None \<Rightarrow> None
      | Some a \<Rightarrow> if av_state a = AVAILABLE then None else Some (av_reason a))"

definition active_tool_names :: "guard \<Rightarrow> string set" where
  "active_tool_names g = av_name ` set (filter (\<lambda>a. av_state a = AVAILABLE) (dict_values g))"

definition unavailable_summary :: "guard \<Rightarrow> (string \<times> string) list" where
  "unavailable_summary g = map (\<lambda>a. (av_name a, av_reason a)) (filter (\<lambda>a. av_state a = UNAVAILABLE) (dict_values g))"

section \<open>Results and retries\<close>

datatype error_kind =
    TIMEOUT | INTERRUPTED | ENVIRONMENT_UNAVAILABLE | PROCESS_FAILED | PERMISSION_DENIED | NOT_FOUND
  | INTERNAL | INVALID_PARAMS | TOOL_UNAVAILABLE

record tool_error =
  kind :: error_kind
  may_retry :: bool

record exec_result =
  success :: bool
  out_text :: string
  error_text :: "string option"
  tool_error :: "tool_error option"
  attachments :: "string list"
  metadata :: "(string, string) dict"
  data :: "string option"

definition from_error :: "error_kind \<Rightarrow> string \<Rightarrow> exec_result" where
  "from_error k d = \<lparr>success = False, out_text = [], error_text = Some d,
     tool_error = Some \<lparr>kind = k, may_retry = False\<rparr>, attachments = [], metadata = [], data = None\<rparr>"

datatype retry_mode = NEVER | AUTOMATIC | APPROVAL

record retry_policy =
  retry_mode :: retry_mode
  max_attempts :: nat
  base_delay_ms :: nat
  max_delay_ms :: nat
  retryable :: "error_kind set"

definition valid_policy :: "retry_policy \<Rightarrow> bool" where
  "valid_policy p \<longleftrightarrow> max_attempts p \<ge> 1 \<and> base_delay_ms p \<le> max_delay_ms p"

definition default_retries :: "retry_mode \<Rightarrow> nat \<Rightarrow> retry_policy" where
  "default_retries m n = \<lparr>retry_mode = m, max_attempts = n, base_delay_ms = 250, max_delay_ms = 4000,
     retryable = {TIMEOUT, TOOL_UNAVAILABLE, ENVIRONMENT_UNAVAILABLE}\<rparr>"

definition policy_for :: "retry_policy option \<Rightarrow> tool \<Rightarrow> params \<Rightarrow> retry_policy" where
  "policy_for configured t ps =
     (case configured of
        Some p \<Rightarrow> p
      | None \<Rightarrow> if read_only t ps then default_retries AUTOMATIC 3 else default_retries APPROVAL 2)"

definition should_retry :: "exec_result \<Rightarrow> retry_policy \<Rightarrow> nat \<Rightarrow> bool" where
  "should_retry r p attempt =
     (if attempt \<ge> max_attempts p \<or> retry_mode p = NEVER then False
      else case tool_error r of
             None \<Rightarrow> False
           | Some e \<Rightarrow> may_retry e \<and> kind e \<in> retryable p)"

section \<open>The surroundings of a call\<close>

datatype new_output = KEEP | TEXT string | FIELDS "string option" "(string \<times> string) list option" "string option"

record hook_answer =
  hook_attachments :: "string list"
  updated_output :: new_output

record surroundings =
  sha :: "string \<Rightarrow> string"
  clock :: "nat \<Rightarrow> time"
  schema_error :: "params \<Rightarrow> string option"
  availability_table :: "guard option"
  budget_exhausted :: "string option"
  governed :: bool
  render :: "result_reason \<Rightarrow> string"
  retry_reason :: "nat \<Rightarrow> string"
  refusal :: "nat \<Rightarrow> string option"
  run_tool :: "nat \<Rightarrow> params \<Rightarrow> string + exec_result"
  after_hook :: "nat \<Rightarrow> params \<Rightarrow> exec_result \<Rightarrow> hook_answer option"

datatype action =
    ASKED nat bool pipeline permission_result
  | ADMITTED nat
  | RAN nat params
  | RELEASED nat
  | SLEPT nat

record attempt_fact =
  fact_attempt :: nat
  fact_success :: bool
  fact_error :: "error_kind option"

record exec_state =
  permissions :: "pipeline option"
  log :: "action list"
  facts :: "attempt_fact list"

definition write_log :: "action list \<Rightarrow> exec_state \<Rightarrow> exec_state" where
  "write_log as s = s\<lparr>log := log s @ as\<rparr>"

definition add_fact :: "nat \<Rightarrow> exec_result \<Rightarrow> exec_state \<Rightarrow> exec_state" where
  "add_fact n r s = s\<lparr>facts := facts s @
     [\<lparr>fact_attempt = n, fact_success = success r, fact_error = map_option kind (tool_error r)\<rparr>]\<rparr>"

section \<open>One attempt\<close>

datatype authorization = AUTH_RAISES | REFUSED exec_result | CLEARED params

definition authorize ::
  "surroundings \<Rightarrow> tool \<Rightarrow> params \<Rightarrow> string \<Rightarrow> bool \<Rightarrow> nat \<Rightarrow> exec_state \<Rightarrow> authorization \<times> exec_state" where
  "authorize v t ps thought force n s =
     (case permissions s of
        Some p \<Rightarrow>
          (case check (sha v) (clock v n) t ps thought force (if force then retry_reason v n else []) p of
             None \<Rightarrow> (AUTH_RAISES, s)
           | Some (r, p') \<Rightarrow>
               (let s1 = write_log [ASKED n force p r] (s\<lparr>permissions := Some p'\<rparr>)
                in if decision r = P_DENY
                   then (REFUSED (from_error PERMISSION_DENIED
                           (''Tool '' @ str_quoted (tool_name t) @ '' denied: '' @ render v (res_reason r) @ (if feedback r \<noteq> [] then '' Feedback: '' @ feedback r else []))), s1)
                   else (CLEARED (updated_params r), s1)))
      | None \<Rightarrow> if force then (REFUSED (from_error PERMISSION_DENIED ''Interactive retry approval is unavailable.''), s)
                else (CLEARED [], s))"

definition from_tool :: "tool \<Rightarrow> string + exec_result \<Rightarrow> exec_result" where
  "from_tool t x = (case x of Inl e \<Rightarrow> from_error INTERNAL (''Tool '' @ str_quoted (tool_name t) @ '' raised an unexpected error: '' @ e) | Inr r \<Rightarrow> r)"

definition execute_once :: "surroundings \<Rightarrow> tool \<Rightarrow> nat \<Rightarrow> params \<Rightarrow> exec_state \<Rightarrow> exec_result \<times> exec_state" where
  "execute_once v t n ps s =
     (if \<not> governed v then (from_tool t (run_tool v n ps), write_log [RAN n ps] s)
      else case refusal v n of
             Some why \<Rightarrow> (from_error TOOL_UNAVAILABLE (''Tool capacity '' @ why), s)
           | None \<Rightarrow> (from_tool t (run_tool v n ps), write_log [ADMITTED n, RAN n ps, RELEASED n] s))"

definition post_hook :: "surroundings \<Rightarrow> nat \<Rightarrow> params \<Rightarrow> exec_result \<Rightarrow> exec_result" where
  "post_hook v n ps r =
     (case after_hook v n ps r of
        None \<Rightarrow> r
      | Some h \<Rightarrow>
          (let r1 = r\<lparr>attachments := attachments r @ hook_attachments h\<rparr>
           in case updated_output h of
                KEEP \<Rightarrow> r1
              | TEXT x \<Rightarrow> r1\<lparr>out_text := x\<rparr>
              | FIELDS x m d \<Rightarrow>
                  r1\<lparr>out_text := the_default (out_text r1) x,
                     metadata := (case m of None \<Rightarrow> metadata r1 | Some kvs \<Rightarrow> foldl (\<lambda>d kv. dict_set (fst kv) (snd kv) d) (metadata r1) kvs),
                     data := (case d of None \<Rightarrow> data r1 | Some x \<Rightarrow> Some x)\<rparr>))"

section \<open>The loop\<close>

datatype loop_end = LOOP_RAISES | LOOP_ENDS "exec_result option" exec_state

fun run_attempts ::
  "surroundings \<Rightarrow> tool \<Rightarrow> params \<Rightarrow> string \<Rightarrow> retry_policy \<Rightarrow> nat \<Rightarrow> nat \<Rightarrow> nat \<Rightarrow> exec_result option \<Rightarrow> exec_state \<Rightarrow> loop_end" where
  "run_attempts v t ps thought p 0 n delay final s = LOOP_ENDS final s"
| "run_attempts v t ps thought p (Suc left) n delay final s =
     (case authorize v t ps thought (n > 1 \<and> retry_mode p = APPROVAL) n s of
        (AUTH_RAISES, s1) \<Rightarrow> LOOP_RAISES
      | (REFUSED r, s1) \<Rightarrow> LOOP_ENDS (Some r) (add_fact n r s1)
      | (CLEARED upd, s1) \<Rightarrow>
          (let actual = merge_params ps upd
           in case schema_error v actual of
                Some e \<Rightarrow> (let r = from_error INVALID_PARAMS e in LOOP_ENDS (Some r) (add_fact n r s1))
              | None \<Rightarrow>
                  (let (r0, s2) = execute_once v t n actual s1; r = post_hook v n actual r0; s3 = add_fact n r s2
                   in if success r \<or> \<not> should_retry r p n then LOOP_ENDS (Some r) s3
                      else run_attempts v t ps thought p left (Suc n) (min (max_delay_ms p) (max (delay * 2) 1)) (Some r)
                             (if delay = 0 then s3 else write_log [SLEPT delay] s3))))"

datatype exec_end = EXEC_RAISES | TURNED_AWAY exec_result | ENDED exec_result nat exec_state

definition execute :: "surroundings \<Rightarrow> retry_policy option \<Rightarrow> tool \<Rightarrow> params \<Rightarrow> string \<Rightarrow> exec_state \<Rightarrow> exec_end" where
  "execute v configured t ps thought s =
     (case schema_error v ps of
        Some e \<Rightarrow> TURNED_AWAY (from_error INVALID_PARAMS e)
      | None \<Rightarrow>
          (case (case availability_table v of None \<Rightarrow> None | Some g \<Rightarrow> intercept (tool_name t) g) of
             Some why \<Rightarrow> TURNED_AWAY (from_error TOOL_UNAVAILABLE (''Tool '' @ str_quoted (tool_name t) @ '' blocked: '' @ why))
           | None \<Rightarrow>
               (case budget_exhausted v of
                  Some why \<Rightarrow> TURNED_AWAY (from_error TOOL_UNAVAILABLE (or_else why ''Budget exhausted''))
                | None \<Rightarrow>
                    (let p = policy_for configured t ps
                     in case run_attempts v t ps thought p (max_attempts p) 1 (base_delay_ms p) None s of
                          LOOP_RAISES \<Rightarrow> EXEC_RAISES
                        | LOOP_ENDS None s1 \<Rightarrow> EXEC_RAISES
                        | LOOP_ENDS (Some r) s1 \<Rightarrow> ENDED r (length (facts s1)) s1))))"

section \<open>The loop keeps what every attempt keeps\<close>

text \<open>\<open>B n\<close> holds before attempt \<open>n\<close>, \<open>A n\<close> after it.\<close>

lemma run_attempts_inv:
  assumes refused: "\<And>n s r s1. B n s \<Longrightarrow> authorize v t ps th (n > 1 \<and> retry_mode p = APPROVAL) n s = (REFUSED r, s1)
      \<Longrightarrow> A n (add_fact n r s1)"
    and bad: "\<And>n s upd s1 r. B n s \<Longrightarrow> authorize v t ps th (n > 1 \<and> retry_mode p = APPROVAL) n s = (CLEARED upd, s1)
      \<Longrightarrow> A n (add_fact n r s1)"
    and run: "\<And>n s upd s1 r0 s2 r. B n s \<Longrightarrow> authorize v t ps th (n > 1 \<and> retry_mode p = APPROVAL) n s = (CLEARED upd, s1)
      \<Longrightarrow> schema_error v (merge_params ps upd) = None \<Longrightarrow> execute_once v t n (merge_params ps upd) s1 = (r0, s2)
      \<Longrightarrow> A n (add_fact n r s2)"
    and again: "\<And>n s d. A n s \<Longrightarrow> n < max_attempts p \<Longrightarrow> retry_mode p \<noteq> NEVER \<Longrightarrow> d \<le> max_delay_ms p
      \<Longrightarrow> B (Suc n) s \<and> B (Suc n) (write_log [SLEPT d] s)"
  shows "B n s \<Longrightarrow> delay \<le> max_delay_ms p \<Longrightarrow> n + left = Suc (max_attempts p) \<Longrightarrow> 0 < left
    \<Longrightarrow> run_attempts v t ps th p left n delay final s = LOOP_ENDS res s'
    \<Longrightarrow> \<exists>r m. res = Some r \<and> m \<le> max_attempts p \<and> A m s'"
proof (induction left arbitrary: n delay final s)
  case (Suc left)
  obtain a s1 where a: "authorize v t ps th (n > 1 \<and> retry_mode p = APPROVAL) n s = (a, s1)" by (metis surj_pair)
  have n: "n \<le> max_attempts p" using Suc.prems(3) by simp
  show ?case
  proof (cases a)
    case AUTH_RAISES
    then show ?thesis using Suc.prems(5) a by simp
  next
    case (REFUSED r)
    then show ?thesis using Suc.prems(5) a refused [OF Suc.prems(1)] n by auto
  next
    case (CLEARED upd)
    note a' = a [unfolded CLEARED]
    show ?thesis
    proof (cases "schema_error v (merge_params ps upd)")
      case (Some e)
      then show ?thesis using Suc.prems(5) a CLEARED bad [OF Suc.prems(1) a'] n by (auto simp: Let_def)
    next
      case None
      obtain r0 s2 where x: "execute_once v t n (merge_params ps upd) s1 = (r0, s2)" by (metis surj_pair)
      let ?r = "post_hook v n (merge_params ps upd) r0" let ?s3 = "add_fact n ?r s2"
      have s3: "A n ?s3" by (rule run [OF Suc.prems(1) a' None x])
      show ?thesis
      proof (cases "success ?r \<or> \<not> should_retry ?r p n")
        case True
        then show ?thesis using Suc.prems(5) a CLEARED None x s3 n by (auto simp: Let_def)
      next
        case False
        then have step: "run_attempts v t ps th p left (Suc n) (min (max_delay_ms p) (max (delay * 2) 1)) (Some ?r)
            (if delay = 0 then ?s3 else write_log [SLEPT delay] ?s3) = LOOP_ENDS res s'"
          using Suc.prems(5) a CLEARED None x by (simp add: Let_def)
        have lt: "n < max_attempts p" "retry_mode p \<noteq> NEVER"
          using False by (auto simp: should_retry_def split: if_splits)
        have "B (Suc n) (if delay = 0 then ?s3 else write_log [SLEPT delay] ?s3)"
          using again [OF s3 lt Suc.prems(2)] by simp
        from Suc.IH [OF this _ _ _ step] show ?thesis using lt(1) Suc.prems(3) by simp
      qed
    qed
  qed
qed simp

lemma execute_ends:
  assumes "execute v conf t ps th s = ENDED r n s'"
  shows "run_attempts v t ps th (policy_for conf t ps) (max_attempts (policy_for conf t ps)) 1
        (base_delay_ms (policy_for conf t ps)) None s = LOOP_ENDS (Some r) s' \<and> n = length (facts s')"
  using assms by (auto simp: execute_def Let_def split: option.splits loop_end.splits)

definition is_run :: "action \<Rightarrow> bool" where
  "is_run x \<longleftrightarrow> (case x of RAN n ps \<Rightarrow> True | _ \<Rightarrow> False)"

definition runs :: "exec_state \<Rightarrow> nat" where
  "runs s = length (filter is_run (log s))"

definition slots :: "exec_state \<Rightarrow> nat list \<times> nat list" where
  "slots s = (List.map_filter (\<lambda>x. case x of ADMITTED n \<Rightarrow> Some n | _ \<Rightarrow> None) (log s),
              List.map_filter (\<lambda>x. case x of RELEASED n \<Rightarrow> Some n | _ \<Rightarrow> None) (log s))"

definition sleeps :: "exec_state \<Rightarrow> nat set" where
  "sleeps s = {d. SLEPT d \<in> set (log s)}"

lemma log_facts [simp]:
  "runs (add_fact n r s) = runs s" "slots (add_fact n r s) = slots s" "sleeps (add_fact n r s) = sleeps s"
  "log (add_fact n r s) = log s" "permissions (add_fact n r s) = permissions s"
  "length (facts (add_fact n r s)) = Suc (length (facts s))"
  "facts (write_log as s) = facts s" "log (write_log as s) = log s @ as" "permissions (write_log as s) = permissions s"
  "runs (write_log [SLEPT d] s) = runs s" "slots (write_log [SLEPT d] s) = slots s"
  "sleeps (write_log [SLEPT d] s) = insert d (sleeps s)"
  by (auto simp: runs_def slots_def sleeps_def add_fact_def write_log_def is_run_def List.map_filter_def)

lemma authorize_log:
  assumes "authorize v t ps th force n s = (a, s1)" "a \<noteq> AUTH_RAISES"
  shows "runs s1 = runs s" "slots s1 = slots s" "sleeps s1 = sleeps s" "facts s1 = facts s"
    "permissions s = None \<longleftrightarrow> permissions s1 = None" "permissions s = None \<Longrightarrow> a = CLEARED u \<Longrightarrow> \<not> force"
  using assms by (auto simp: authorize_def Let_def runs_def slots_def sleeps_def write_log_def is_run_def
      List.map_filter_def split: option.splits prod.splits if_splits)

lemma authorize_cleared:
  assumes "authorize v t ps th force n s = (CLEARED u, s1)" "permissions s = Some p"
  shows "\<exists>r p'. check (sha v) (clock v n) t ps th force (if force then retry_reason v n else []) p = Some (r, p')
    \<and> decision r \<noteq> P_DENY \<and> u = updated_params r \<and> log s1 = log s @ [ASKED n force p r] \<and> permissions s1 = Some p'"
  using assms by (auto simp: authorize_def Let_def write_log_def split: option.splits prod.splits if_splits)

lemma authorize_keeps:
  assumes "authorize v t ps th force n s = (a, s1)" "a \<noteq> AUTH_RAISES"
  shows "\<exists>as. log s1 = log s @ as \<and> (\<forall>x\<in>set as. \<not> is_run x)"
  using assms by (auto simp: authorize_def Let_def write_log_def is_run_def split: option.splits prod.splits if_splits)

lemma execute_once_log:
  assumes "execute_once v t n ps s = (r, s1)"
  shows "runs s1 \<le> Suc (runs s)" "fst (slots s) = snd (slots s) \<Longrightarrow> fst (slots s1) = snd (slots s1)"
    "sleeps s1 = sleeps s" "facts s1 = facts s" "permissions s1 = permissions s"
    "\<exists>as. log s1 = log s @ as \<and> (\<forall>a qs. RAN a qs \<in> set as \<longrightarrow> a = n \<and> qs = ps)"
  using assms by (auto simp: execute_once_def runs_def slots_def sleeps_def write_log_def is_run_def
      List.map_filter_def split: option.splits if_splits)

end
