(* ===== verification/Execution_Properties.thy ===== *)
theory Execution_Properties
  imports Tool_Execution Permission_Properties
begin

text \<open>
  What \<^verbatim>\<open>core/tool_execution.py\<close> guarantees: no attempt runs but under the answer of the permission pipeline,
  the number of attempts and their waiting are bounded, and every slot taken is given back.
\<close>

section \<open>Invariants of the attempts\<close>

definition answered :: "surroundings \<Rightarrow> retry_policy \<Rightarrow> tool \<Rightarrow> params \<Rightarrow> string \<Rightarrow> nat \<Rightarrow> params \<Rightarrow> action list \<Rightarrow> bool" where
  "answered v p t ps th a qs as \<longleftrightarrow>
     (\<exists>pl r p'. ASKED a (a > 1 \<and> retry_mode p = APPROVAL) pl r \<in> set as
        \<and> check (sha v) (clock v a) t ps th (a > 1 \<and> retry_mode p = APPROVAL)
            (if a > 1 \<and> retry_mode p = APPROVAL then retry_reason v a else []) pl = Some (r, p')
        \<and> decision r = P_ALLOW \<and> qs = executed ps r \<and> schema_error v qs = None)"

definition all_answered :: "surroundings \<Rightarrow> retry_policy \<Rightarrow> tool \<Rightarrow> params \<Rightarrow> string \<Rightarrow> exec_state \<Rightarrow> bool" where
  "all_answered v p t ps th s \<longleftrightarrow> permissions s \<noteq> None
     \<and> (\<forall>a qs. RAN a qs \<in> set (log s) \<longrightarrow> answered v p t ps th a qs (log s))"

lemma answered_more: "answered v p t ps th a qs as \<Longrightarrow> answered v p t ps th a qs (as @ bs)"
  unfolding answered_def set_append by blast

lemma all_answered_fact [simp]: "all_answered v p t ps th (add_fact n r s) = all_answered v p t ps th s"
  by (simp add: all_answered_def)

lemma all_answered_sleep [simp]: "all_answered v p t ps th s \<Longrightarrow> all_answered v p t ps th (write_log [SLEPT d] s)"
  by (auto simp: all_answered_def intro: answered_more)

lemma all_answered_ask:
  assumes "all_answered v p t ps th s" "authorize v t ps th force n s = (a, s1)" "a \<noteq> AUTH_RAISES"
  shows "all_answered v p t ps th s1"
proof -
  obtain as where as: "log s1 = log s @ as" "\<forall>x\<in>set as. \<not> is_run x" using authorize_keeps assms by blast
  have "permissions s1 \<noteq> None" using assms authorize_log(5) by (metis all_answered_def)
  moreover have "answered v p t ps th b qs (log s1)" if r: "RAN b qs \<in> set (log s1)" for b qs
  proof -
    have "RAN b qs \<in> set (log s)" using r as by (auto simp: is_run_def)
    then show ?thesis using assms(1) as by (auto simp: all_answered_def intro: answered_more)
  qed
  ultimately show ?thesis by (simp add: all_answered_def)
qed

lemma all_answered_run:
  assumes inv: "all_answered v p t ps th s"
    and auth: "authorize v t ps th (n > 1 \<and> retry_mode p = APPROVAL) n s = (CLEARED u, s1)"
    and ok: "schema_error v (merge_params ps u) = None"
    and run: "execute_once v t n (merge_params ps u) s1 = (r0, s2)"
  shows "all_answered v p t ps th s2"
proof -
  have s1: "all_answered v p t ps th s1" by (rule all_answered_ask [OF inv auth]) simp
  obtain pl where pl: "permissions s = Some pl" using inv by (auto simp: all_answered_def)
  obtain r p' where c: "check (sha v) (clock v n) t ps th (n > 1 \<and> retry_mode p = APPROVAL)
        (if n > 1 \<and> retry_mode p = APPROVAL then retry_reason v n else []) pl = Some (r, p')"
      "decision r \<noteq> P_DENY" "u = updated_params r" "log s1 = log s @ [ASKED n (n > 1 \<and> retry_mode p = APPROVAL) pl r]"
    using authorize_cleared [OF auth pl] by blast
  obtain as where as: "log s2 = log s1 @ as" "\<forall>a qs. RAN a qs \<in> set as \<longrightarrow> a = n \<and> qs = merge_params ps u"
    using execute_once_log(6) [OF run] by blast
  have "decision r = P_ALLOW" using c(2) by (cases "decision r") auto
  then have new: "answered v p t ps th n (merge_params ps u) (log s2)"
    unfolding answered_def using c ok as(1) by (intro exI [of _ pl] exI [of _ r] exI [of _ p']) (simp add: executed_def)
  have "answered v p t ps th a qs (log s2)" if "RAN a qs \<in> set (log s2)" for a qs
  proof (cases "RAN a qs \<in> set as")
    case True
    then show ?thesis using as(2) new by simp
  next
    case False
    then have "RAN a qs \<in> set (log s1)" using that as(1) by simp
    then show ?thesis using s1 as(1) by (auto simp: all_answered_def intro: answered_more)
  qed
  moreover have "permissions s2 \<noteq> None" using execute_once_log(5) [OF run] s1 by (simp add: all_answered_def)
  ultimately show ?thesis by (simp add: all_answered_def)
qed

lemma execute_answered:
  assumes "execute v conf t ps th s = ENDED r n s'" "valid_policy (policy_for conf t ps)"
    "log s = []" "permissions s \<noteq> None"
  shows "all_answered v (policy_for conf t ps) t ps th s'"
proof -
  let ?p = "policy_for conf t ps"
  have "\<exists>r' m. Some r = Some r' \<and> m \<le> max_attempts ?p \<and> all_answered v ?p t ps th s'"
  proof (rule run_attempts_inv [where B = "\<lambda>n. all_answered v ?p t ps th" and A = "\<lambda>n. all_answered v ?p t ps th"])
    show "run_attempts v t ps th ?p (max_attempts ?p) 1 (base_delay_ms ?p) None s = LOOP_ENDS (Some r) s'"
      using execute_ends [OF assms(1)] by simp
  qed (use assms in \<open>auto simp: all_answered_def [of v ?p t ps th s] valid_policy_def dest: all_answered_ask all_answered_run\<close>)
  then show ?thesis by simp
qed

text \<open>Without a pipeline nobody is asked.\<close>

definition unasked :: "surroundings \<Rightarrow> retry_policy \<Rightarrow> params \<Rightarrow> exec_state \<Rightarrow> bool" where
  "unasked v p ps s \<longleftrightarrow> permissions s = None
     \<and> (\<forall>a qs. RAN a qs \<in> set (log s) \<longrightarrow> qs = ps \<and> schema_error v ps = None \<and> \<not> (a > 1 \<and> retry_mode p = APPROVAL))"

lemma unasked_fact [simp]: "unasked v p ps (add_fact n r s) = unasked v p ps s"
  by (simp add: unasked_def)

lemma unasked_sleep [simp]: "unasked v p ps (write_log [SLEPT d] s) = unasked v p ps s"
  by (auto simp: unasked_def)

lemma unasked_ask:
  assumes "unasked v p ps s" "authorize v t ps th force n s = (a, s1)"
  shows "unasked v p ps s1"
  using assms by (auto simp: unasked_def authorize_def split: if_splits)

lemma unasked_run:
  assumes u: "unasked v p ps s"
    and auth: "authorize v t ps th (n > 1 \<and> retry_mode p = APPROVAL) n s = (CLEARED upd, s1)"
    and ok: "schema_error v (merge_params ps upd) = None"
    and run: "execute_once v t n (merge_params ps upd) s1 = (r0, s2)"
  shows "unasked v p ps s2"
proof -
  have none: "\<not> (n > 1 \<and> retry_mode p = APPROVAL)" "merge_params ps upd = ps"
    using u auth by (auto simp: unasked_def authorize_def merge_params_def split: if_splits)
  obtain as where as: "log s2 = log s1 @ as" "\<forall>a qs. RAN a qs \<in> set as \<longrightarrow> a = n \<and> qs = ps"
    using execute_once_log(6) [OF run] none(2) by auto
  show ?thesis
    using unasked_ask [OF u auth] as none ok execute_once_log(5) [OF run] by (auto simp: unasked_def)
qed

lemma execute_unasked:
  assumes "execute v conf t ps th s = ENDED r n s'" "valid_policy (policy_for conf t ps)"
    "log s = []" "permissions s = None"
  shows "unasked v (policy_for conf t ps) ps s'"
proof -
  let ?p = "policy_for conf t ps"
  have "\<exists>r' m. Some r = Some r' \<and> m \<le> max_attempts ?p \<and> unasked v ?p ps s'"
  proof (rule run_attempts_inv [where B = "\<lambda>n. unasked v ?p ps" and A = "\<lambda>n. unasked v ?p ps"])
    show "run_attempts v t ps th ?p (max_attempts ?p) 1 (base_delay_ms ?p) None s = LOOP_ENDS (Some r) s'"
      using execute_ends [OF assms(1)] by simp
  qed (use assms in \<open>auto simp: unasked_def [of v ?p ps s] valid_policy_def dest: unasked_ask unasked_run\<close>)
  then show ?thesis by simp
qed

text \<open>The bounds of the loop, before and after attempt \<open>n\<close>.\<close>

definition bounded_before :: "retry_policy \<Rightarrow> bool \<Rightarrow> nat \<Rightarrow> exec_state \<Rightarrow> bool" where
  "bounded_before p blind n s \<longleftrightarrow> Suc (length (facts s)) = n \<and> runs s < n \<and> fst (slots s) = snd (slots s)
     \<and> (\<forall>d\<in>sleeps s. d \<le> max_delay_ms p) \<and> (n > 1 \<longrightarrow> retry_mode p \<noteq> NEVER) \<and> blind = (permissions s = None)
     \<and> (blind \<and> retry_mode p = APPROVAL \<longrightarrow> runs s \<le> 1)"

definition bounded_after :: "retry_policy \<Rightarrow> bool \<Rightarrow> nat \<Rightarrow> exec_state \<Rightarrow> bool" where
  "bounded_after p blind n s \<longleftrightarrow> length (facts s) = n \<and> runs s \<le> n \<and> fst (slots s) = snd (slots s)
     \<and> (\<forall>d\<in>sleeps s. d \<le> max_delay_ms p) \<and> (n > 1 \<longrightarrow> retry_mode p \<noteq> NEVER) \<and> blind = (permissions s = None)
     \<and> (blind \<and> retry_mode p = APPROVAL \<longrightarrow> runs s \<le> 1)"

lemma execute_bounded:
  assumes "execute v conf t ps th s = ENDED r n s'" "valid_policy (policy_for conf t ps)" "log s = []" "facts s = []"
  shows "n \<le> max_attempts (policy_for conf t ps) \<and> bounded_after (policy_for conf t ps) (permissions s = None) n s'"
proof -
  let ?p = "policy_for conf t ps"
  let ?B = "bounded_before ?p (permissions s = None)" and ?A = "bounded_after ?p (permissions s = None)"
  have e: "run_attempts v t ps th ?p (max_attempts ?p) 1 (base_delay_ms ?p) None s = LOOP_ENDS (Some r) s'"
      "n = length (facts s')" using execute_ends [OF assms(1)] by auto
  have "\<exists>r' m. Some r = Some r' \<and> m \<le> max_attempts ?p \<and> ?A m s'"
  proof (rule run_attempts_inv [where B = ?B and A = ?A, OF _ _ _ _ _ _ _ _ e(1)])
    fix n s0 r s1 assume b: "?B n s0" and a: "authorize v t ps th (n > 1 \<and> retry_mode ?p = APPROVAL) n s0 = (REFUSED r, s1)"
    then show "?A n (add_fact n r s1)"
      using authorize_log(1-5) [OF a] by (auto simp: bounded_before_def bounded_after_def)
  next
    fix n s0 u r s1 assume b: "?B n s0" and a: "authorize v t ps th (n > 1 \<and> retry_mode ?p = APPROVAL) n s0 = (CLEARED u, s1)"
    then show "?A n (add_fact n r s1)"
      using authorize_log(1-5) [OF a] by (auto simp: bounded_before_def bounded_after_def)
  next
    fix n s0 u s1 r0 s2 r assume b: "?B n s0"
      and a: "authorize v t ps th (n > 1 \<and> retry_mode ?p = APPROVAL) n s0 = (CLEARED u, s1)"
      and x: "execute_once v t n (merge_params ps u) s1 = (r0, s2)"
    have one: "permissions s = None \<Longrightarrow> retry_mode ?p = APPROVAL \<Longrightarrow> \<not> n > 1"
      using authorize_log(6) [OF a] b by (auto simp: bounded_before_def)
    show "?A n (add_fact n r s2)"
      using authorize_log(1-5) [OF a] execute_once_log(1-5) [OF x] b one
      by (auto simp: bounded_before_def bounded_after_def)
  next
    fix n s0 d assume "?A n s0" "retry_mode ?p \<noteq> NEVER" "d \<le> max_delay_ms ?p"
    then show "?B (Suc n) s0 \<and> ?B (Suc n) (write_log [SLEPT d] s0)"
      by (auto simp: bounded_before_def bounded_after_def)
  next
    show "?B 1 s" using assms(3,4) by (simp add: bounded_before_def runs_def slots_def sleeps_def List.map_filter_def)
  qed (use assms(2) in \<open>auto simp: valid_policy_def\<close>)
  then show ?thesis using e(2) by (auto simp: bounded_after_def)
qed

section \<open>Witnesses\<close>

definition sample_surroundings :: "nat \<Rightarrow> surroundings" where
  "sample_surroundings k =
     \<lparr>sha = id, clock = (\<lambda>n. 0), schema_error = (\<lambda>ps. None), availability_table = Some [], budget_exhausted = None,
      governed = True, render = (\<lambda>r. []), retry_reason = (\<lambda>n. []), refusal = (\<lambda>n. None),
      run_tool = (\<lambda>n ps. Inr (if n = k then (from_error INTERNAL [])\<lparr>success := True\<rparr>
        else (from_error TIMEOUT [])\<lparr>tool_error := Some \<lparr>kind = TIMEOUT, may_retry = True\<rparr>\<rparr>)),
      after_hook = (\<lambda>n ps r. None)\<rparr>"

definition blank_state :: "pipeline option \<Rightarrow> exec_state" where
  "blank_state p = \<lparr>permissions = p, log = [], facts = []\<rparr>"

lemma write_runs:
  "\<exists>r s'. execute (sample_surroundings 1) None (sample_tool ''Write'' False) write_call [] (blank_state (Some sample_pipeline))
      = ENDED r 1 s' \<and> RAN 1 write_call \<in> set (log s')"
proof -
  define v t where "v = sample_surroundings 1" and "t = sample_tool ''Write'' False"
  obtain p' where c: "check id 0 t write_call [] False [] sample_pipeline = Some (write_result, p')"
    using write_check t_def by blast
  have m: "merge_params write_call (updated_params write_result) = write_call"
    using write_executed by (simp add: executed_def)
  define q where "q = policy_for None t write_call"
  have two: "max_attempts q = Suc (Suc 0)" by (simp add: q_def policy_for_def default_retries_def t_def sample_tool_def)
  let ?s1 = "write_log [ASKED (Suc 0) False sample_pipeline write_result] (blank_state (Some p'))"
  have auth: "authorize v t write_call [] False (Suc 0) (blank_state (Some sample_pipeline))
      = (CLEARED (updated_params write_result), ?s1)"
    using c by (simp add: authorize_def v_def sample_surroundings_def blank_state_def write_allowed_result write_log_def)
  have once: "execute_once v t (Suc 0) write_call s0
      = ((from_error INTERNAL [])\<lparr>success := True\<rparr>, write_log [ADMITTED (Suc 0), RAN (Suc 0) write_call, RELEASED (Suc 0)] s0)" for s0
    by (simp add: execute_once_def v_def sample_surroundings_def from_tool_def)
  have v: "post_hook v n qs r = r" "schema_error v qs = None" "availability_table v = Some []" "budget_exhausted v = None"
      "intercept a [] = None" for n qs r a
    by (simp_all add: post_hook_def v_def sample_surroundings_def intercept_def)
  have loop: "run_attempts v t write_call [] q (Suc (Suc 0)) (Suc 0) d None (blank_state (Some sample_pipeline))
      = LOOP_ENDS (Some ((from_error INTERNAL [])\<lparr>success := True\<rparr>))
          (add_fact (Suc 0) ((from_error INTERNAL [])\<lparr>success := True\<rparr>)
             (write_log [ADMITTED (Suc 0), RAN (Suc 0) write_call, RELEASED (Suc 0)] ?s1))" for d
    by (simp add: auth m once v Let_def)
  show ?thesis
    unfolding v_def [symmetric] t_def [symmetric]
    by (simp add: execute_def v q_def [symmetric] two loop Let_def del: run_attempts.simps) (simp add: blank_state_def)
qed

section \<open>Properties\<close>

text \<open>
  C6. With a permission pipeline attached, every run of the tool was asked for: the pipeline, checked at that
  attempt for the parameters of the call, allowed it, the parameters of the run are those of the call with the
  updates of the answer, the validator accepts them and so does the tool's own check, and no deny rule matches
  them, unless the question was forced (a repeated attempt under \<open>APPROVAL\<close>, or a tool that needs interaction) or a
  trust accumulator and a dispatcher are both attached. Without a pipeline, which is the default, nobody is asked:
  every run is on the validated parameters of the call, and none is a repetition under \<open>APPROVAL\<close>.
\<close>

theorem every_run_is_authorized:
  assumes "execute v conf t ps th s = ENDED r n s'" "valid_policy (policy_for conf t ps)"
    "log s = []" "RAN a qs \<in> set (log s')"
  shows "case permissions s of
      None \<Rightarrow> qs = ps \<and> schema_error v ps = None \<and> \<not> (a > 1 \<and> retry_mode (policy_for conf t ps) = APPROVAL)
    | Some pl0 \<Rightarrow> \<exists>pl res force p'. ASKED a force pl res \<in> set (log s')
        \<and> force = (a > 1 \<and> retry_mode (policy_for conf t ps) = APPROVAL)
        \<and> check (sha v) (clock v a) t ps th force (if force then retry_reason v a else []) pl = Some (res, p')
        \<and> decision res = P_ALLOW \<and> qs = executed ps res
        \<and> schema_error v qs = None \<and> layer1_validate t qs = None \<and> total_denials pl < 20
        \<and> (trust_acc pl = None \<or> dispatcher pl = None \<longrightarrow> forced t force \<or> undenied pl t qs)"
proof (cases "permissions s")
  case None
  have "unasked v (policy_for conf t ps) ps s'" by (rule execute_unasked [OF assms(1-3) None])
  then show ?thesis using assms(4) unfolding None option.case unasked_def by blast
next
  case (Some pl0)
  let ?force = "a > 1 \<and> retry_mode (policy_for conf t ps) = APPROVAL"
  have "answered v (policy_for conf t ps) t ps th a qs (log s')"
    using execute_answered [OF assms(1-3)] Some assms(4) by (simp add: all_answered_def)
  then obtain pl res p' where "ASKED a ?force pl res \<in> set (log s')"
      "decision res = P_ALLOW" "qs = executed ps res" "schema_error v qs = None"
      and c: "check (sha v) (clock v a) t ps th ?force (if ?force then retry_reason v a else []) pl = Some (res, p')"
    unfolding answered_def by blast
  note facts = this and allow = check_allow [OF c this(2)]
  have "\<exists>pl res force p'. ASKED a force pl res \<in> set (log s') \<and> force = ?force
        \<and> check (sha v) (clock v a) t ps th force (if force then retry_reason v a else []) pl = Some (res, p')
        \<and> decision res = P_ALLOW \<and> qs = executed ps res
        \<and> schema_error v qs = None \<and> layer1_validate t qs = None \<and> total_denials pl < 20
        \<and> (trust_acc pl = None \<or> dispatcher pl = None \<longrightarrow> forced t force \<or> undenied pl t qs)"
    by (rule exI [of _ pl], rule exI [of _ res], rule exI [of _ ?force], rule exI [of _ p']) (use facts allow in auto)
  then show ?thesis using Some by simp
qed

lemma every_run_is_authorized_witness:
  "\<exists>r s' pl res. execute (sample_surroundings 1) None (sample_tool ''Write'' False) write_call [] (blank_state (Some sample_pipeline))
      = ENDED r 1 s' \<and> RAN 1 write_call \<in> set (log s') \<and> ASKED 1 False pl res \<in> set (log s')
    \<and> decision res = P_ALLOW \<and> write_call = executed write_call res"
proof -
  obtain r s' where e: "execute (sample_surroundings 1) None (sample_tool ''Write'' False) write_call [] (blank_state (Some sample_pipeline))
      = ENDED r 1 s'" and m: "RAN 1 write_call \<in> set (log s')" using write_runs by blast
  have v: "valid_policy (policy_for None (sample_tool ''Write'' False) write_call)"
    by (simp add: policy_for_def default_retries_def valid_policy_def)
  have s: "log (blank_state (Some sample_pipeline)) = []" "permissions (blank_state (Some sample_pipeline)) = Some sample_pipeline"
    by (simp_all add: blank_state_def)
  obtain pl res force p' where f: "ASKED 1 force pl res \<in> set (log s')" "force = (1 > (1 :: nat) \<and> retry_mode (policy_for None
      (sample_tool ''Write'' False) write_call) = APPROVAL)" "decision res = P_ALLOW" "write_call = executed write_call res"
    using every_run_is_authorized [OF e v s(1) m] unfolding s(2) option.case by blast
  have "\<not> force" using f(2) by simp
  then have "ASKED 1 False pl res \<in> set (log s')" using f(1) by simp
  then show ?thesis using e m f(3,4) by blast
qed

text \<open>
  C23. The loop of attempts is bounded: with a valid policy there are at most \<open>max_attempts\<close> of them,
  each runs the tool at most once, one only under \<open>NEVER\<close> and, under \<open>APPROVAL\<close> with nobody to ask, one
  run only; every slot admitted is released, in order, whether the tool returns or raises, and no wait is longer
  than the maximal delay.
\<close>

theorem attempts_are_bounded:
  assumes "execute v conf t ps th s = ENDED r n s'" "valid_policy (policy_for conf t ps)" "log s = []" "facts s = []"
  shows "n \<le> max_attempts (policy_for conf t ps) \<and> runs s' \<le> n
    \<and> (retry_mode (policy_for conf t ps) = NEVER \<longrightarrow> n \<le> 1)
    \<and> (permissions s = None \<and> retry_mode (policy_for conf t ps) = APPROVAL \<longrightarrow> runs s' \<le> 1)
    \<and> fst (slots s') = snd (slots s') \<and> (\<forall>d\<in>sleeps s'. d \<le> max_delay_ms (policy_for conf t ps))"
  using execute_bounded [OF assms] by (auto simp: bounded_after_def)

lemma attempts_are_bounded_witness:
  "\<exists>r s'. execute (sample_surroundings 1) None (sample_tool ''Write'' False) write_call [] (blank_state (Some sample_pipeline))
     = ENDED r 1 s' \<and> runs s' \<le> 1"
proof -
  obtain r s' where e: "execute (sample_surroundings 1) None (sample_tool ''Write'' False) write_call [] (blank_state (Some sample_pipeline))
      = ENDED r 1 s'" using write_runs by blast
  have v: "valid_policy (policy_for None (sample_tool ''Write'' False) write_call)"
    by (simp add: policy_for_def default_retries_def valid_policy_def)
  from attempts_are_bounded [OF e v] e show ?thesis by (auto simp: blank_state_def)
qed

lemma hook_keeps_error [simp]:
  "tool_error (post_hook v n ps r) = tool_error r" "success (post_hook v n ps r) = success r"
  by (auto simp: post_hook_def Let_def split: option.splits new_output.splits)

text \<open>
  What the default policy calls retryable is never retried when the boundary itself reports it: a call
  refused by the governor, or a tool that raises, ends the loop at the attempt it happens, although
  the default lists \<open>unavailable\<close>, because \<open>from_error\<close> builds results that must not be retried.
\<close>

theorem boundary_errors_are_final:
  assumes "governed v \<and> refusal v n = Some why \<or> refusal v n = None \<and> run_tool v n qs = Inl exc"
  shows "\<not> should_retry (post_hook v n qs (fst (execute_once v t n qs s))) p n"
  using assms by (auto simp: should_retry_def execute_once_def from_tool_def from_error_def split: option.splits)

lemma boundary_errors_are_final_witness:
  "\<not> should_retry (fst (execute_once ((sample_surroundings 1)\<lparr>refusal := (\<lambda>n. Some ''timeout'')\<rparr>) (sample_tool ''Read'' True) 1 [] (blank_state None)))
     (default_retries AUTOMATIC 3) 1"
proof -
  let ?v = "(sample_surroundings 1)\<lparr>refusal := (\<lambda>n. Some ''timeout'')\<rparr>"
  have "post_hook ?v 1 [] r = r" for r by (simp add: post_hook_def sample_surroundings_def)
  then show ?thesis
    using boundary_errors_are_final [of ?v 1 "''timeout''" "[]" "[]" "sample_tool ''Read'' True" "blank_state None" "default_retries AUTOMATIC 3"]
    by (simp add: sample_surroundings_def)
qed

end
