(* ===== verification/Approvals.thy ===== *)
theory Approvals
  imports Permission_Pipeline
begin

text \<open>
  \<^verbatim>\<open>server/services/approval_broker.py\<close>: calls that wait for the answer of a user, and
  \<^verbatim>\<open>application/approvals/approval_coordinator.py\<close>. The broker is shared by the threads of the agent, the handlers
  of HTTP and the cancellation of a session; a step is what one of them does between two points where
  another may run. \<open>resolve\<close> looks the request up under the lock and writes the answer and sets the event without it,
  so it is three steps. An event that is not possible in a state leaves it as it is. Identifiers are drawn
  fresh by \<^verbatim>\<open>uuid4\<close>: a request with an identifier in use is not possible.
\<close>

section \<open>The state\<close>

datatype wait_phase =
    WAITING
  | WOKEN bool
  | REMOVED bool
  | ANSWERED prompt_decision

record waiter =
  w_phase :: wait_phase
  w_decision :: "prompt_decision option"
  w_event :: bool
  w_timeout :: string

record resolver =
  rs_id :: string
  rs_decision :: prompt_decision
  rs_assigned :: bool

record broker =
  pending :: "string list"
  waiters :: "(string, waiter) dict"
  resolvers :: "resolver list"
  acks :: "(string \<times> prompt_decision \<times> bool) list"

definition empty_broker :: broker where
  "empty_broker = \<lparr>pending = [], waiters = [], resolvers = [], acks = []\<rparr>"

definition deny_with :: "string \<Rightarrow> prompt_decision" where
  "deny_with why = \<lparr>pd_action = PROMPT_DENY, pd_note = why, pd_rule = None, pd_updated = [], pd_wait_ms = 0\<rparr>"

definition timed_out :: "string \<Rightarrow> prompt_decision" where
  "timed_out secs = deny_with (''Approval timed out after '' @ secs @ ''s'')"

definition session_cancelled :: prompt_decision where
  "session_cancelled = deny_with ''Session cancelled''"

definition set_waiter :: "string \<Rightarrow> (waiter \<Rightarrow> waiter) \<Rightarrow> broker \<Rightarrow> broker" where
  "set_waiter i f b =
     (case dict_get (waiters b) i of None \<Rightarrow> b | Some w \<Rightarrow> b\<lparr>waiters := dict_set i (f w) (waiters b)\<rparr>)"

section \<open>The agent's thread\<close>

definition request :: "string \<Rightarrow> string \<Rightarrow> broker \<Rightarrow> broker" where
  "request i secs b =
     (if dict_get (waiters b) i \<noteq> None then b
      else b\<lparr>pending := pending b @ [i],
             waiters := dict_set i \<lparr>w_phase = WAITING, w_decision = None, w_event = False, w_timeout = secs\<rparr> (waiters b)\<rparr>)"

text \<open>\<^verbatim>\<open>event.wait\<close> returns true when the event is set, and may return false at any time, for a wait whose
  time is over returns false even when the event is set before the thread goes on.\<close>

definition wake :: "string \<Rightarrow> bool \<Rightarrow> broker \<Rightarrow> broker" where
  "wake i signaled b =
     set_waiter i (\<lambda>w. if w_phase w = WAITING \<and> (signaled \<longrightarrow> w_event w) then w\<lparr>w_phase := WOKEN signaled\<rparr> else w) b"

definition leave :: "string \<Rightarrow> broker \<Rightarrow> broker" where
  "leave i b =
     (case dict_get (waiters b) i of
        None \<Rightarrow> b
      | Some w \<Rightarrow>
          (case w_phase w of
             WOKEN s \<Rightarrow> b\<lparr>pending := remove1 i (pending b), waiters := dict_set i (w\<lparr>w_phase := REMOVED s\<rparr>) (waiters b)\<rparr>
           | _ \<Rightarrow> b))"

definition answer_of :: "waiter \<Rightarrow> bool \<Rightarrow> prompt_decision" where
  "answer_of w signaled =
     (case w_decision w of
        Some d \<Rightarrow> d
      | None \<Rightarrow> if \<not> signaled then timed_out (w_timeout w) else deny_with [])"

definition give_answer :: "string \<Rightarrow> broker \<Rightarrow> broker" where
  "give_answer i b =
     set_waiter i (\<lambda>w. case w_phase w of REMOVED s \<Rightarrow> w\<lparr>w_phase := ANSWERED (answer_of w s)\<rparr> | _ \<Rightarrow> w) b"

section \<open>Resolving and cancelling\<close>

definition look_up :: "string \<Rightarrow> prompt_decision \<Rightarrow> broker \<Rightarrow> broker" where
  "look_up i d b =
     (if i \<in> set (pending b) then b\<lparr>resolvers := resolvers b @ [\<lparr>rs_id = i, rs_decision = d, rs_assigned = False\<rparr>]\<rparr>
      else b\<lparr>acks := acks b @ [(i, d, False)]\<rparr>)"

definition assign :: "nat \<Rightarrow> broker \<Rightarrow> broker" where
  "assign k b =
     (if k < length (resolvers b) \<and> \<not> rs_assigned (resolvers b ! k)
      then (let r = resolvers b ! k
            in set_waiter (rs_id r) (\<lambda>w. w\<lparr>w_decision := Some (rs_decision r)\<rparr>)
                 (b\<lparr>resolvers := (resolvers b)[k := r\<lparr>rs_assigned := True\<rparr>]\<rparr>))
      else b)"

definition signal :: "nat \<Rightarrow> broker \<Rightarrow> broker" where
  "signal k b =
     (if k < length (resolvers b) \<and> rs_assigned (resolvers b ! k)
      then (let r = resolvers b ! k
            in set_waiter (rs_id r) (\<lambda>w. w\<lparr>w_event := True\<rparr>)
                 (b\<lparr>resolvers := take k (resolvers b) @ drop (Suc k) (resolvers b),
                    acks := acks b @ [(rs_id r, rs_decision r, True)]\<rparr>))
      else b)"

definition cancel_pending :: "broker \<Rightarrow> nat \<times> broker" where
  "cancel_pending b =
     (length (pending b),
      (foldl (\<lambda>b i. set_waiter i (\<lambda>w. w\<lparr>w_decision := Some session_cancelled, w_event := True\<rparr>) b) b (pending b))
        \<lparr>pending := []\<rparr>)"

definition pending_count :: "broker \<Rightarrow> nat" where
  "pending_count b = length (pending b)"

section \<open>Interleavings\<close>

datatype broker_event =
    REQUEST string string
  | WAKE string bool
  | LEAVE string
  | ANSWER string
  | LOOK_UP string prompt_decision
  | ASSIGN nat
  | SIGNAL nat
  | CANCEL

definition broker_step :: "broker \<Rightarrow> broker_event \<Rightarrow> broker" where
  "broker_step b e =
     (case e of
        REQUEST i secs \<Rightarrow> request i secs b
      | WAKE i s \<Rightarrow> wake i s b
      | LEAVE i \<Rightarrow> leave i b
      | ANSWER i \<Rightarrow> give_answer i b
      | LOOK_UP i d \<Rightarrow> look_up i d b
      | ASSIGN k \<Rightarrow> assign k b
      | SIGNAL k \<Rightarrow> signal k b
      | CANCEL \<Rightarrow> snd (cancel_pending b))"

definition after :: "broker_event list \<Rightarrow> broker" where
  "after es = foldl broker_step empty_broker es"

definition waiter_of :: "string \<Rightarrow> broker \<Rightarrow> waiter option" where
  "waiter_of i b = dict_get (waiters b) i"

lemma set_waiter_of [simp]:
  "waiter_of j (set_waiter i f b) = (if j = i then map_option f (waiter_of j b) else waiter_of j b)"
  "pending (set_waiter i f b) = pending b" "resolvers (set_waiter i f b) = resolvers b" "acks (set_waiter i f b) = acks b"
  by (auto simp: set_waiter_def waiter_of_def dict_simps split: option.splits)

lemma waiter_of_update [simp]:
  "waiter_of j (b\<lparr>pending := p\<rparr>) = waiter_of j b" "waiter_of j (b\<lparr>resolvers := rs\<rparr>) = waiter_of j b"
  "waiter_of j (b\<lparr>acks := as\<rparr>) = waiter_of j b"
  "waiter_of j (b\<lparr>waiters := dict_set i w (waiters b)\<rparr>) = (if j = i then Some w else waiter_of j b)"
  by (auto simp: waiter_of_def dict_simps)

lemma cancel_all:
  fixes b :: broker
  shows "waiter_of j (foldl (\<lambda>b i. set_waiter i (\<lambda>w. w\<lparr>w_decision := Some session_cancelled, w_event := True\<rparr>) b) b is)
     = (if j \<in> set is then map_option (\<lambda>w. w\<lparr>w_decision := Some session_cancelled, w_event := True\<rparr>) (waiter_of j b)
        else waiter_of j b)
   \<and> resolvers (foldl (\<lambda>b i. set_waiter i (\<lambda>w. w\<lparr>w_decision := Some session_cancelled, w_event := True\<rparr>) b) b is) = resolvers b
   \<and> acks (foldl (\<lambda>b i. set_waiter i (\<lambda>w. w\<lparr>w_decision := Some session_cancelled, w_event := True\<rparr>) b) b is) = acks b"
  by (induction "is" arbitrary: b) (auto simp: option.map_comp comp_def)

lemma cancel_simps [simp]:
  "waiter_of j (snd (cancel_pending b)) =
     (if j \<in> set (pending b) then map_option (\<lambda>w. w\<lparr>w_decision := Some session_cancelled, w_event := True\<rparr>) (waiter_of j b)
      else waiter_of j b)"
  "pending (snd (cancel_pending b)) = []" "resolvers (snd (cancel_pending b)) = resolvers b"
  "acks (snd (cancel_pending b)) = acks b"
  using cancel_all [of j b "pending b"] by (simp_all add: cancel_pending_def)

section \<open>What holds of every waiter\<close>

definition is_open :: "waiter \<Rightarrow> bool" where
  "is_open w \<longleftrightarrow> (case w_phase w of WAITING \<Rightarrow> True | WOKEN s \<Rightarrow> True | _ \<Rightarrow> False)"

definition signaled_of :: "waiter \<Rightarrow> bool option" where
  "signaled_of w = (case w_phase w of WOKEN s \<Rightarrow> Some s | REMOVED s \<Rightarrow> Some s | _ \<Rightarrow> None)"

definition given :: "broker_event list \<Rightarrow> string \<Rightarrow> prompt_decision \<Rightarrow> bool" where
  "given es i d \<longleftrightarrow> LOOK_UP i d \<in> set es \<or> d = session_cancelled \<and> CANCEL \<in> set es"

definition waiter_ok :: "broker_event list \<Rightarrow> string \<Rightarrow> bool \<Rightarrow> waiter \<Rightarrow> bool" where
  "waiter_ok es i p w \<longleftrightarrow>
     (if p then is_open w else is_open w \<longrightarrow> w_event w)
     \<and> (w_event w \<or> signaled_of w = Some True \<longrightarrow> w_decision w \<noteq> None)
     \<and> (\<forall>d. w_decision w = Some d \<longrightarrow> given es i d)
     \<and> (signaled_of w = Some False \<longrightarrow> WAKE i False \<in> set es)
     \<and> (\<forall>d. w_phase w = ANSWERED d \<longrightarrow> given es i d \<or> d = timed_out (w_timeout w) \<and> WAKE i False \<in> set es)"

definition broker_ok :: "broker_event list \<Rightarrow> broker \<Rightarrow> bool" where
  "broker_ok es b \<longleftrightarrow> distinct (pending b)
     \<and> (\<forall>i\<in>set (pending b). waiter_of i b \<noteq> None)
     \<and> (\<forall>i w. waiter_of i b = Some w \<longrightarrow> waiter_ok es i (i \<in> set (pending b)) w)
     \<and> (\<forall>r\<in>set (resolvers b). LOOK_UP (rs_id r) (rs_decision r) \<in> set es
          \<and> (\<exists>w. waiter_of (rs_id r) b = Some w \<and> (rs_assigned r \<longrightarrow> w_decision w \<noteq> None)))"

lemma given_snoc: "given es i d \<Longrightarrow> given (es @ [e]) i d"
  by (auto simp: given_def)

lemma waiter_ok_snoc: "waiter_ok es i p w \<Longrightarrow> waiter_ok (es @ [e]) i p w"
  by (auto simp: waiter_ok_def given_snoc)

lemma broker_ok_snoc: "broker_ok es b \<Longrightarrow> broker_ok (es @ [e]) b"
  unfolding broker_ok_def by (auto simp: waiter_ok_snoc)

lemma ok_request:
  assumes "broker_ok es b"
  shows "broker_ok es (request i secs b)"
proof (cases "waiter_of i b")
  case (Some w)
  then show ?thesis using assms by (simp add: request_def waiter_of_def)
next
  case None
  let ?w = "\<lparr>w_phase = WAITING, w_decision = None, w_event = False, w_timeout = secs\<rparr>"
  have new: "i \<notin> set (pending b)" "\<And>r. r \<in> set (resolvers b) \<Longrightarrow> rs_id r \<noteq> i"
    using assms None unfolding broker_ok_def by fastforce+
  have "waiter_of j (request i secs b) = (if j = i then Some ?w else waiter_of j b)" for j
    using None by (simp add: request_def waiter_of_def dict_simps)
  moreover have "pending (request i secs b) = pending b @ [i]" "resolvers (request i secs b) = resolvers b"
    using None by (simp_all add: request_def waiter_of_def)
  moreover have "waiter_ok es i True ?w" by (simp add: waiter_ok_def is_open_def signaled_of_def)
  ultimately show ?thesis using assms new unfolding broker_ok_def by auto
qed

text \<open>Steps that change one waiter and leave the list of pending requests.\<close>

lemma ok_set_waiter:
  assumes "broker_ok es b"
    and "\<And>w. waiter_of i b = Some w \<Longrightarrow> waiter_ok es i (i \<in> set (pending b)) w
      \<Longrightarrow> waiter_ok es i (i \<in> set (pending b)) (f w) \<and> (w_decision w \<noteq> None \<longrightarrow> w_decision (f w) \<noteq> None)"
  shows "broker_ok es (set_waiter i f b)"
  using assms unfolding broker_ok_def by (auto 0 4)

lemma ok_wake: "broker_ok es b \<Longrightarrow> broker_ok (es @ [WAKE i s]) (wake i s b)"
  unfolding wake_def
  by (rule ok_set_waiter, erule broker_ok_snoc) (auto simp: waiter_ok_def is_open_def signaled_of_def)

lemma ok_answer: "broker_ok es b \<Longrightarrow> broker_ok es (give_answer i b)"
  unfolding give_answer_def
  by (rule ok_set_waiter)
    (auto simp: waiter_ok_def is_open_def signaled_of_def answer_of_def split: wait_phase.splits option.splits if_splits)

lemma ok_leave:
  assumes "broker_ok es b"
  shows "broker_ok es (leave i b)"
proof (cases "waiter_of i b")
  case None
  then show ?thesis using assms by (simp add: leave_def waiter_of_def)
next
  case (Some w)
  have d: "distinct (pending b)" using assms by (simp add: broker_ok_def)
  have w: "waiter_ok es i (i \<in> set (pending b)) w" using assms Some by (simp add: broker_ok_def)
  show ?thesis
  proof (cases "\<exists>s. w_phase w = WOKEN s")
    case True
    then obtain s where s: "w_phase w = WOKEN s" by blast
    have "waiter_ok es i False (w\<lparr>w_phase := REMOVED s\<rparr>)"
      using w s by (auto simp: waiter_ok_def is_open_def signaled_of_def split: if_splits)
    moreover have "waiter_of j (leave i b) = (if j = i then Some (w\<lparr>w_phase := REMOVED s\<rparr>) else waiter_of j b)" for j
      using Some s by (simp add: leave_def waiter_of_def dict_simps)
    moreover have "pending (leave i b) = remove1 i (pending b)" "resolvers (leave i b) = resolvers b"
      using Some s by (simp_all add: leave_def waiter_of_def)
    ultimately show ?thesis using assms Some d unfolding broker_ok_def by auto
  next
    case False
    then show ?thesis using assms Some by (auto simp: leave_def waiter_of_def split: wait_phase.splits)
  qed
qed

lemma ok_look_up: "broker_ok es b \<Longrightarrow> broker_ok (es @ [LOOK_UP i d]) (look_up i d b)"
  using broker_ok_snoc [of es b "LOOK_UP i d"] unfolding broker_ok_def look_up_def by auto

lemma ok_resolvers:
  assumes "broker_ok es b" "set rs \<subseteq> insert r (set (resolvers b))" "LOOK_UP (rs_id r) (rs_decision r) \<in> set es"
    "\<exists>w. waiter_of (rs_id r) b = Some w \<and> w_decision w \<noteq> None"
  shows "broker_ok es (b\<lparr>resolvers := rs\<rparr>)"
proof -
  have "LOOK_UP (rs_id x) (rs_decision x) \<in> set es \<and> (\<exists>w. waiter_of (rs_id x) b = Some w \<and> (rs_assigned x \<longrightarrow> w_decision w \<noteq> None))"
    if "x \<in> set rs" for x
    using that assms unfolding broker_ok_def by (cases "x = r") blast+
  then show ?thesis using assms(1) unfolding broker_ok_def by simp
qed

lemma ok_assign:
  assumes "broker_ok es b"
  shows "broker_ok es (assign k b)"
proof (cases "k < length (resolvers b) \<and> \<not> rs_assigned (resolvers b ! k)")
  case True
  let ?r = "resolvers b ! k"
  let ?b1 = "set_waiter (rs_id ?r) (\<lambda>w. w\<lparr>w_decision := Some (rs_decision ?r)\<rparr>) b"
  have r: "?r \<in> set (resolvers b)" using True by simp
  then have asked: "LOOK_UP (rs_id ?r) (rs_decision ?r) \<in> set es"
      and there: "\<exists>w. waiter_of (rs_id ?r) b = Some w" using assms by (auto simp: broker_ok_def)
  have "broker_ok es ?b1"
    by (rule ok_set_waiter [OF assms]) (use asked in \<open>auto simp: waiter_ok_def given_def is_open_def signaled_of_def\<close>)
  moreover have "set ((resolvers b)[k := ?r\<lparr>rs_assigned := True\<rparr>]) \<subseteq> insert (?r\<lparr>rs_assigned := True\<rparr>) (set (resolvers b))"
    by (rule set_update_subset_insert)
  moreover have "\<exists>w. waiter_of (rs_id ?r) ?b1 = Some w \<and> w_decision w \<noteq> None" using there by auto
  ultimately have "broker_ok es (?b1\<lparr>resolvers := (resolvers b)[k := ?r\<lparr>rs_assigned := True\<rparr>]\<rparr>)"
    using asked by (intro ok_resolvers [where r = "?r\<lparr>rs_assigned := True\<rparr>"]) simp_all
  moreover have "assign k b = ?b1\<lparr>resolvers := (resolvers b)[k := ?r\<lparr>rs_assigned := True\<rparr>]\<rparr>"
    using True by (simp add: assign_def Let_def set_waiter_def split: option.splits)
  ultimately show ?thesis by simp
qed (use assms in \<open>auto simp: assign_def\<close>)

lemma ok_signal:
  assumes "broker_ok es b"
  shows "broker_ok es (signal k b)"
proof (cases "k < length (resolvers b) \<and> rs_assigned (resolvers b ! k)")
  case True
  let ?r = "resolvers b ! k"
  let ?b1 = "b\<lparr>resolvers := take k (resolvers b) @ drop (Suc k) (resolvers b), acks := acks b @ [(rs_id ?r, rs_decision ?r, True)]\<rparr>"
  have "?r \<in> set (resolvers b)" using True by simp
  then obtain w where w: "waiter_of (rs_id ?r) b = Some w" "w_decision w \<noteq> None"
    using assms True by (auto simp: broker_ok_def)
  have "set (resolvers ?b1) \<subseteq> set (resolvers b)" using set_take_subset set_drop_subset by fastforce
  then have rs: "r \<in> set (resolvers ?b1) \<Longrightarrow> r \<in> set (resolvers b)" for r by blast
  have "broker_ok es ?b1"
    unfolding broker_ok_def
  proof (intro conjI ballI)
    fix r assume "r \<in> set (resolvers ?b1)"
    from rs [OF this] show "LOOK_UP (rs_id r) (rs_decision r) \<in> set es"
      and "\<exists>w. waiter_of (rs_id r) ?b1 = Some w \<and> (rs_assigned r \<longrightarrow> w_decision w \<noteq> None)"
      using assms unfolding broker_ok_def by auto
  qed (use assms in \<open>simp_all add: broker_ok_def\<close>)
  then have "broker_ok es (set_waiter (rs_id ?r) (\<lambda>w. w\<lparr>w_event := True\<rparr>) ?b1)"
    by (rule ok_set_waiter) (use w in \<open>auto simp: waiter_ok_def is_open_def signaled_of_def\<close>)
  then show ?thesis using True by (simp add: signal_def Let_def)
qed (use assms in \<open>auto simp: signal_def\<close>)

lemma ok_cancel_all:
  assumes "broker_ok es b"
  shows "broker_ok (es @ [CANCEL]) (snd (cancel_pending b))"
proof -
  note old = broker_ok_snoc [OF assms, of CANCEL]
  have each: "waiter_of i b = Some v \<Longrightarrow> waiter_ok (es @ [CANCEL]) i (i \<in> set (pending b)) v" for i v
    using old unfolding broker_ok_def by blast
  have rs: "r \<in> set (resolvers b) \<Longrightarrow> LOOK_UP (rs_id r) (rs_decision r) \<in> set (es @ [CANCEL])
      \<and> (\<exists>w. waiter_of (rs_id r) b = Some w \<and> (rs_assigned r \<longrightarrow> w_decision w \<noteq> None))" for r
    using old unfolding broker_ok_def by blast
  have "waiter_ok (es @ [CANCEL]) i False w" if w: "waiter_of i (snd (cancel_pending b)) = Some w" for i w
  proof (cases "i \<in> set (pending b)")
    case True
    then obtain v where v: "waiter_of i b = Some v" "w = v\<lparr>w_decision := Some session_cancelled, w_event := True\<rparr>"
      using w by auto
    then show ?thesis using each [OF v(1)] True by (simp add: waiter_ok_def given_def is_open_def signaled_of_def)
  next
    case False
    then have "waiter_of i b = Some w" using w by simp
    from each [OF this] False show ?thesis by simp
  qed
  moreover have "\<exists>w. waiter_of (rs_id r) (snd (cancel_pending b)) = Some w \<and> (rs_assigned r \<longrightarrow> w_decision w \<noteq> None)"
    if r: "r \<in> set (resolvers b)" for r
  proof -
    obtain w where "waiter_of (rs_id r) b = Some w" "rs_assigned r \<longrightarrow> w_decision w \<noteq> None" using rs [OF r] by blast
    then show ?thesis by (cases "rs_id r \<in> set (pending b)") auto
  qed
  moreover have "LOOK_UP (rs_id r) (rs_decision r) \<in> set (es @ [CANCEL])" if "r \<in> set (resolvers b)" for r
    using rs [OF that] by blast
  ultimately show ?thesis unfolding broker_ok_def cancel_simps(2,3) by (intro conjI ballI allI impI) (simp_all del: cancel_simps(1))
qed

lemma broker_ok_after: "broker_ok es (after es)"
proof (induction es rule: rev_induct)
  case Nil
  then show ?case by (simp add: after_def empty_broker_def broker_ok_def waiter_of_def)
next
  case (snoc e es)
  have "after (es @ [e]) = broker_step (after es) e" by (simp add: after_def)
  then show ?case
    using snoc ok_wake ok_look_up ok_cancel_all ok_request ok_leave ok_answer ok_assign ok_signal broker_ok_snoc
    by (cases e) (simp_all add: broker_step_def)
qed

section \<open>The coordinator of approvals\<close>

datatype approval_decision = APPROVED | DENIED

record approval_result =
  ar_decision :: approval_decision
  ar_reason :: string
  ar_by :: string
  ar_tool_name :: string
  ar_tool_use :: string

record coordinator =
  co_pending :: "(string, string \<times> string) dict"
  history :: "approval_result list"

definition request_approval :: "string \<Rightarrow> string \<Rightarrow> string \<Rightarrow> coordinator \<Rightarrow> coordinator" where
  "request_approval name i why c = c\<lparr>co_pending := dict_set i (name, why) (co_pending c)\<rparr>"

definition decide_approval :: "approval_decision \<Rightarrow> string \<Rightarrow> string \<Rightarrow> string \<Rightarrow> coordinator \<Rightarrow> approval_result \<times> coordinator" where
  "decide_approval d i by_whom why c =
     (let r = \<lparr>ar_decision = d, ar_reason = why, ar_by = by_whom, ar_tool_name = [], ar_tool_use = i\<rparr>
      in (r, c\<lparr>co_pending := dict_del i (co_pending c), history := history c @ [r]\<rparr>))"

definition approve :: "string \<Rightarrow> string \<Rightarrow> string \<Rightarrow> coordinator \<Rightarrow> approval_result \<times> coordinator" where
  "approve i by_whom why c = decide_approval APPROVED i by_whom why c"

definition deny :: "string \<Rightarrow> string \<Rightarrow> string \<Rightarrow> coordinator \<Rightarrow> approval_result \<times> coordinator" where
  "deny i why by_whom c = decide_approval DENIED i by_whom why c"

definition is_pending :: "string \<Rightarrow> coordinator \<Rightarrow> bool" where
  "is_pending i c \<longleftrightarrow> dict_get (co_pending c) i \<noteq> None"

section \<open>Properties\<close>

text \<open>
  C20. Nobody but a user allows a call: whatever the interleaving of the agents' threads, the handlers of HTTP and
  the cancellation of the session, a waiting call that is answered with anything but a denial is answered with a
  decision somebody gave for that very request; a denial is one that was given, the cancellation of the session
  or a timeout after which the wait returned false.
\<close>

theorem approval_was_given:
  assumes "waiter_of i (after es) = Some w" "w_phase w = ANSWERED d"
  shows "if pd_action d \<noteq> PROMPT_DENY then LOOK_UP i d \<in> set es
    else LOOK_UP i d \<in> set es \<or> d = session_cancelled \<and> CANCEL \<in> set es
      \<or> d = timed_out (w_timeout w) \<and> WAKE i False \<in> set es"
proof -
  have "given es i d \<or> d = timed_out (w_timeout w) \<and> WAKE i False \<in> set es"
    using broker_ok_after [of es] assms by (auto simp: broker_ok_def waiter_ok_def)
  then show ?thesis by (auto simp: given_def timed_out_def session_cancelled_def deny_with_def)
qed

definition allowed_once :: prompt_decision where
  "allowed_once = \<lparr>pd_action = ALLOW_ONCE, pd_note = [], pd_rule = None, pd_updated = [], pd_wait_ms = 0\<rparr>"

lemmas broker_run = after_def empty_broker_def broker_step_def request_def wake_def leave_def give_answer_def look_up_def
  assign_def signal_def cancel_pending_def set_waiter_def answer_of_def waiter_of_def Let_def

lemma approval_was_given_witness:
  "let es = [REQUEST ''a'' ''60'', LOOK_UP ''a'' allowed_once, ASSIGN 0, SIGNAL 0, WAKE ''a'' True, LEAVE ''a'', ANSWER ''a'']
   in map_option w_phase (waiter_of ''a'' (after es)) = Some (ANSWERED allowed_once) \<and> LOOK_UP ''a'' allowed_once \<in> set es"
proof -
  let ?es = "[REQUEST ''a'' ''60'', LOOK_UP ''a'' allowed_once, ASSIGN 0, SIGNAL 0, WAKE ''a'' True, LEAVE ''a'', ANSWER ''a'']"
  have w: "waiter_of ''a'' (after ?es) = Some \<lparr>w_phase = ANSWERED allowed_once, w_decision = Some allowed_once,
      w_event = True, w_timeout = ''60''\<rparr>"
    by (simp add: broker_run)
  from approval_was_given [OF this] have "LOOK_UP ''a'' allowed_once \<in> set ?es" by (simp add: allowed_once_def)
  with w show ?thesis unfolding Let_def by simp
qed

text \<open>
  Cancelling leaves nobody waiting: afterwards no request is pending, and every thread that still waits
  has its event set and a decision to return, so that its next three steps end the wait; the answer of one that was
  pending is the cancellation.
\<close>

theorem cancel_ends_every_wait:
  assumes "waiter_of i (after (es @ [CANCEL])) = Some w" "w_phase w = WAITING"
  shows "pending (after (es @ [CANCEL])) = []
    \<and> (\<exists>d w'. waiter_of i (after (es @ [CANCEL, WAKE i True, LEAVE i, ANSWER i])) = Some w' \<and> w_phase w' = ANSWERED d
         \<and> given (es @ [CANCEL]) i d \<and> (i \<in> set (pending (after es)) \<longrightarrow> d = session_cancelled))"
proof -
  let ?b = "after (es @ [CANCEL])"
  have b: "?b = snd (cancel_pending (after es))" by (simp add: after_def broker_step_def)
  have none: "pending ?b = []" by (simp add: b)
  have "waiter_ok (es @ [CANCEL]) i False w"
    using broker_ok_after [of "es @ [CANCEL]"] assms(1) none by (auto simp: broker_ok_def)
  then obtain d where d: "w_event w" "w_decision w = Some d" "given (es @ [CANCEL]) i d"
    using assms(2) by (auto simp: waiter_ok_def is_open_def)
  have "after (es @ [CANCEL, WAKE i True, LEAVE i, ANSWER i]) = give_answer i (leave i (wake i True ?b))"
    by (simp add: after_def broker_step_def)
  moreover have "waiter_of i (give_answer i (leave i (wake i True ?b))) = Some (w\<lparr>w_phase := ANSWERED d\<rparr>)"
    using assms d by (simp add: give_answer_def leave_def wake_def set_waiter_def waiter_of_def dict_simps answer_of_def)
  moreover have "d = session_cancelled" if "i \<in> set (pending (after es))"
    using assms(1) d(2) that unfolding b by auto
  ultimately show ?thesis using none d(3) by auto
qed

lemma cancel_ends_every_wait_witness:
  "pending (after ([REQUEST ''a'' ''60''] @ [CANCEL])) = []"
proof -
  have "waiter_of ''a'' (after ([REQUEST ''a'' ''60''] @ [CANCEL])) = Some \<lparr>w_phase = WAITING,
      w_decision = Some session_cancelled, w_event = True, w_timeout = ''60''\<rparr>"
    by (simp add: broker_run)
  from cancel_ends_every_wait [OF this] show ?thesis by simp
qed

text \<open>
  A cancelled request can be allowed: a handler that looked the request up before the cancellation writes
  its decision over the one of the cancellation, and the thread that was woken by the cancellation
  returns it.
\<close>

theorem cancelled_request_is_allowed:
  "waiter_of i (after [REQUEST i secs, LOOK_UP i d, CANCEL, WAKE i True, ASSIGN 0, LEAVE i, ANSWER i])
     = Some \<lparr>w_phase = ANSWERED d, w_decision = Some d, w_event = True, w_timeout = secs\<rparr>"
  by (simp add: broker_run)

text \<open>
  A decision can be acknowledged and lost: the handler finds the request while the wait runs out, the thread
  answers with the timeout, and \<open>resolve\<close> returns true for a decision nobody reads.
\<close>

theorem acknowledged_decision_is_lost:
  "let b = after [REQUEST i secs, LOOK_UP i d, WAKE i False, LEAVE i, ANSWER i, ASSIGN 0, SIGNAL 0]
   in acks b = [(i, d, True)] \<and> map_option w_phase (waiter_of i b) = Some (ANSWERED (timed_out secs))"
  by (simp add: broker_run)

text \<open>
  The coordinator approves what was never requested: \<open>approve\<close> looks at no pending request, and neither keeps
  the name of the tool.
\<close>

theorem unrequested_call_is_approved:
  "let (r, c') = approve i who why c
   in ar_decision r = APPROVED \<and> ar_tool_name r = [] \<and> history c' = history c @ [r] \<and> is_pending i c' = False"
  by (simp add: approve_def decide_approval_def is_pending_def Let_def dict_simps)

end
