(* ===== verification/Delegation_Store.thy ===== *)
theory Delegation_Store
  imports Grace_Prelude "HOL-Library.Char_ord" "HOL-Library.List_Lexorder" "HOL-Library.Product_Lexorder"
begin

text \<open>
  The delegation tables of \<^verbatim>\<open>agent/session/session_store.py\<close>: runs, their tasks with dependencies on each other,
  the change of a task under a condition on its status, the replacement of a part of the graph for a retry, and the
  convergence of a run with its one terminal event. A method is one transaction, so one step on the tables;
  an exception rolls it back and is a value. Times and fresh identifiers are arguments. The texts of a run that
  are only stored (topology, reason, budget) and the resource facts of a task are left out.
\<close>

section \<open>Rows\<close>

datatype task_status =
    T_QUEUED | T_RUNNING | T_COMPLETED | T_PARTIAL | T_FAILED | T_CANCELLED | T_INTERRUPTED
  | T_NO_FINDINGS | T_BUDGET_EXHAUSTED | T_REJECTED | T_SUPERSEDED

datatype integration =
    NOT_REQUIRED | I_PENDING | I_APPLYING | I_APPLIED | I_DISCARDED | I_RETAINED | I_CONFLICT | I_STALE
  | I_CONTRACT_VIOLATION

record task_body =
  agent_type :: string
  purpose :: string
  goal :: string
  prompt :: string
  scope :: "string list"
  expected_files :: "string list"
  write_files :: "string list"

record d_task =
  t_id :: string
  t_run :: string
  t_child :: "string option"
  t_generation :: nat
  t_body :: task_body
  t_deps :: "string list"
  t_required :: bool
  t_status :: task_status
  t_report :: "string option"
  t_error :: string
  t_retry :: nat
  t_max :: nat
  t_supersedes :: "string option"
  t_integration :: integration
  t_integration_error :: string
  t_created :: time
  t_started :: "time option"
  t_completed :: "time option"

datatype run_status = D_RUNNING | D_COMPLETED | D_PARTIAL | D_FAILED | D_CANCELLED

record d_run =
  r_id :: string
  r_session :: string
  r_parent_run :: string
  r_status :: run_status
  r_phase :: string
  r_synthesis :: "string option"
  r_verification :: "string option"
  r_team :: bool
  r_version :: nat
  r_created :: time
  r_interrupted :: "time option"
  r_completed :: "time option"

record terminal_event =
  e_session :: string
  e_parent_run :: string
  e_run :: string
  e_version :: nat
  e_status :: run_status
  e_phase :: string
  e_reports :: nat

record d_store =
  sessions :: "string list"
  d_runs :: "d_run list"
  d_tasks :: "d_task list"
  d_events :: "terminal_event list"

datatype d_error =
    UNKNOWN_PARENT string
  | UNKNOWN_RUN string
  | UNKNOWN_TASK string
  | INTEGRITY_ERROR
  | INVALID_RETRY_BUDGET
  | NOT_RETRYABLE
  | NOT_INCOMPLETE
  | NOTHING_INTERRUPTED
  | SEED_NOT_EFFECTIVE
  | UNRESOLVED_WORKTREES "string list"
  | RETRIES_EXHAUSTED string
  | GRAPH_CYCLE
  | ALREADY_SUPERSEDED string
  | CANNOT_CLAIM string
  | INVALID_TERMINAL_STATUS
  | CHANGED_BEFORE_FINALIZATION string

section \<open>Reading\<close>

definition get_run :: "string \<Rightarrow> d_store \<Rightarrow> d_run option" where
  "get_run i db = find (\<lambda>r. r_id r = i) (d_runs db)"

definition get_task :: "string \<Rightarrow> d_store \<Rightarrow> d_task option" where
  "get_task i db = find (\<lambda>t. t_id t = i) (d_tasks db)"

definition task_order :: "d_task \<Rightarrow> time \<times> string" where
  "task_order t = (t_created t, t_id t)"

definition list_tasks :: "string \<Rightarrow> d_store \<Rightarrow> d_task list" where
  "list_tasks i db = sort_key task_order (filter (\<lambda>t. t_run t = i) (d_tasks db))"

definition list_runs :: "string \<Rightarrow> d_store \<Rightarrow> d_run list" where
  "list_runs s db = sort_key (\<lambda>r. (r_created r, r_id r)) (filter (\<lambda>r. r_session r = s) (d_runs db))"

definition task_for_child :: "string \<Rightarrow> d_store \<Rightarrow> d_task option" where
  "task_for_child c db =
     (case rev (sort_key t_created (filter (\<lambda>t. t_child t = Some c) (d_tasks db))) of [] \<Rightarrow> None | t # ts \<Rightarrow> Some t)"

definition effective :: "d_task list \<Rightarrow> d_task list" where
  "effective ts = filter (\<lambda>t. t_status t \<noteq> T_SUPERSEDED) ts"

section \<open>Runs and tasks\<close>

definition put_run :: "(d_run \<Rightarrow> d_run) \<Rightarrow> string \<Rightarrow> d_store \<Rightarrow> d_store" where
  "put_run f i db = db\<lparr>d_runs := map (\<lambda>r. if r_id r = i then f r else r) (d_runs db)\<rparr>"

definition put_task :: "(d_task \<Rightarrow> d_task) \<Rightarrow> string \<Rightarrow> d_store \<Rightarrow> d_store" where
  "put_task f i db = db\<lparr>d_tasks := map (\<lambda>t. if t_id t = i then f t else t) (d_tasks db)\<rparr>"

definition insert_task :: "d_task \<Rightarrow> d_store \<Rightarrow> d_error + d_store" where
  "insert_task t db =
     (if get_task (t_id t) db \<noteq> None then Inl INTEGRITY_ERROR else Inr (db\<lparr>d_tasks := d_tasks db @ [t]\<rparr>))"

definition create_run :: "time \<Rightarrow> string \<Rightarrow> string \<Rightarrow> string \<Rightarrow> bool \<Rightarrow> d_store \<Rightarrow> d_error + d_store" where
  "create_run now i parent parent_run team db =
     (if parent \<notin> set (sessions db) then Inl (UNKNOWN_PARENT parent)
      else if get_run i db \<noteq> None then Inl INTEGRITY_ERROR
      else Inr (db\<lparr>d_runs := d_runs db @
             [\<lparr>r_id = i, r_session = parent, r_parent_run = parent_run, r_status = D_RUNNING, r_phase = ''executing'',
               r_synthesis = None, r_verification = None, r_team = team, r_version = 0, r_created = now,
               r_interrupted = None, r_completed = None\<rparr>]\<rparr>))"

definition queued_task ::
  "time \<Rightarrow> string \<Rightarrow> string \<Rightarrow> task_body \<Rightarrow> string list \<Rightarrow> bool \<Rightarrow> nat \<Rightarrow> nat \<Rightarrow> string option \<Rightarrow> d_task" where
  "queued_task now i run body deps required retry max_retries supersedes =
     \<lparr>t_id = i, t_run = run, t_child = None, t_generation = 0, t_body = body, t_deps = deps, t_required = required,
      t_status = T_QUEUED, t_report = None, t_error = [], t_retry = retry, t_max = max_retries,
      t_supersedes = supersedes, t_integration = NOT_REQUIRED, t_integration_error = [], t_created = now,
      t_started = None, t_completed = None\<rparr>"

definition incomplete_statuses :: "task_status set" where
  "incomplete_statuses = {T_FAILED, T_CANCELLED, T_INTERRUPTED, T_PARTIAL, T_BUDGET_EXHAUSTED}"

definition superseded_by_any :: "string \<Rightarrow> d_store \<Rightarrow> bool" where
  "superseded_by_any i db \<longleftrightarrow> list_ex (\<lambda>t. t_supersedes t = Some i) (d_tasks db)"

definition mark_superseded :: "time \<Rightarrow> d_task \<Rightarrow> d_task" where
  "mark_superseded now t =
     t\<lparr>t_status := T_SUPERSEDED, t_completed := (case t_completed t of None \<Rightarrow> Some now | Some c \<Rightarrow> Some c)\<rparr>"

definition restart_run :: "d_run \<Rightarrow> d_run" where
  "restart_run r = r\<lparr>r_status := D_RUNNING, r_phase := ''executing'', r_version := r_version r + 1, r_completed := None\<rparr>"

definition create_task ::
  "time \<Rightarrow> string \<Rightarrow> string \<Rightarrow> task_body \<Rightarrow> string list \<Rightarrow> bool \<Rightarrow> int \<Rightarrow> int \<Rightarrow> string option \<Rightarrow> d_store \<Rightarrow> d_error + d_store" where
  "create_task now i run body deps required retry max_retries supersedes db =
     (if retry < 0 \<or> max_retries < 0 \<or> retry > max_retries then Inl INVALID_RETRY_BUDGET
      else if get_run run db = None then Inl (UNKNOWN_RUN run)
      else
        (let new = queued_task now i run body deps required (nat retry) (nat max_retries) supersedes
         in case supersedes of
              None \<Rightarrow> insert_task new db
            | Some old \<Rightarrow>
                (case get_task old db of
                   None \<Rightarrow> Inl NOT_RETRYABLE
                 | Some t \<Rightarrow>
                     if t_run t = run \<and> t_status t \<in> incomplete_statuses \<and> \<not> superseded_by_any old db
                     then (case insert_task new (put_task (mark_superseded now) old db) of
                             Inl e \<Rightarrow> Inl e
                           | Inr db' \<Rightarrow> Inr (put_run restart_run run db'))
                     else Inl NOT_RETRYABLE)))"

definition task_terminal :: "task_status \<Rightarrow> bool" where
  "task_terminal s \<longleftrightarrow> s \<notin> {T_QUEUED, T_RUNNING}"

record task_update =
  u_status :: task_status
  u_child :: "string option"
  u_generation :: "nat option"
  u_report :: "string option"
  u_error :: string
  u_integration :: "integration option"
  u_integration_error :: string
  u_expected :: "task_status list"

definition coalesce :: "'a option \<Rightarrow> 'a \<Rightarrow> 'a" where
  "coalesce x y = (case x of Some v \<Rightarrow> v | None \<Rightarrow> y)"

definition apply_update :: "time \<Rightarrow> task_update \<Rightarrow> d_task \<Rightarrow> d_task" where
  "apply_update now u t =
     t\<lparr>t_child := (case u_child u of Some c \<Rightarrow> Some c | None \<Rightarrow> t_child t),
       t_generation := coalesce (u_generation u) (t_generation t),
       t_status := u_status u,
       t_report := (case u_report u of Some r \<Rightarrow> Some r | None \<Rightarrow> t_report t),
       t_error := u_error u,
       t_integration := coalesce (u_integration u) (t_integration t),
       t_integration_error := u_integration_error u,
       t_started := (if u_status u = T_RUNNING then Some (coalesce (t_started t) now) else t_started t),
       t_completed := (if task_terminal (u_status u) then Some now else t_completed t)\<rparr>"

text \<open>The result says whether the row was changed.\<close>

definition update_task :: "time \<Rightarrow> string \<Rightarrow> task_update \<Rightarrow> d_store \<Rightarrow> d_error + (bool \<times> d_store)" where
  "update_task now i u db =
     (case get_task i db of
        None \<Rightarrow> Inl (UNKNOWN_TASK i)
      | Some t \<Rightarrow>
          if u_expected u = [] \<or> t_status t \<in> set (u_expected u) then Inr (True, put_task (apply_update now u) i db)
          else Inr (False, db))"

section \<open>Replacing a part of the graph\<close>

text \<open>One pass over the rows, then passes until nothing is added.\<close>

definition spread :: "d_task list \<Rightarrow> string set \<Rightarrow> string set" where
  "spread rows A = foldl (\<lambda>A t. if t_id t \<notin> A \<and> set (t_deps t) \<inter> A \<noteq> {} then insert (t_id t) A else A) A rows"

lemma spread_grows: "A \<subseteq> spread rows A"
proof (induction rows arbitrary: A)
  case (Cons t rows)
  have "insert (t_id t) A \<subseteq> spread rows (insert (t_id t) A)" by (rule Cons)
  then show ?case using Cons [of A] by (auto simp: spread_def)
qed (simp add: spread_def)

lemma spread_within: "spread rows A \<subseteq> A \<union> t_id ` set rows"
proof (induction rows arbitrary: A)
  case (Cons t rows)
  then show ?case using Cons [of A] Cons [of "insert (t_id t) A"] by (auto simp: spread_def)
qed (simp add: spread_def)

function affected :: "d_task list \<Rightarrow> string set \<Rightarrow> string set" where
  "affected rows A = (if spread rows A = A then A else affected rows (spread rows A))"
  by pat_completeness auto
termination
proof (relation "measure (\<lambda>(rows, A). card (t_id ` set rows - A))", simp, clarsimp)
  fix rows A assume ne: "spread rows A \<noteq> A"
  have "t_id ` set rows - spread rows A \<subset> t_id ` set rows - A"
    using ne spread_grows [of A rows] spread_within [of rows A] by blast
  then show "card (t_id ` set rows - spread rows A) < card (t_id ` set rows - A)"
    by (intro psubset_card_mono) auto
qed

declare affected.simps [simp del]

text \<open>The affected tasks, consumers after what they consume, each layer in the order of the identifiers.\<close>

definition ready_ids :: "d_task list \<Rightarrow> string list" where
  "ready_ids rem = sort (map t_id (filter (\<lambda>t. set (t_deps t) \<inter> t_id ` set rem = {}) rem))"

lemma ready_ids_in: "i \<in> set (ready_ids rem) \<Longrightarrow> i \<in> t_id ` set rem"
  by (auto simp: ready_ids_def)

function order_tasks :: "d_task list \<Rightarrow> string list option" where
  "order_tasks rem =
     (if rem = [] then Some []
      else if ready_ids rem = [] then None
      else map_option ((@) (ready_ids rem)) (order_tasks (filter (\<lambda>t. t_id t \<notin> set (ready_ids rem)) rem)))"
  by pat_completeness auto
termination
proof (relation "measure length", simp)
  fix rem :: "d_task list" assume "rem \<noteq> []" and "ready_ids rem \<noteq> []"
  then obtain t where "t \<in> set rem" "t_id t \<in> set (ready_ids rem)"
    using ready_ids_in by (metis image_iff list.set_intros(1) neq_Nil_conv)
  then show "(filter (\<lambda>t. t_id t \<notin> set (ready_ids rem)) rem, rem) \<in> measure length"
    by (auto intro: length_filter_less)
qed

declare order_tasks.simps [simp del]

fun first_exhausted :: "d_task list \<Rightarrow> string option" where
  "first_exhausted [] = None"
| "first_exhausted (t # ts) = (if t_retry t + 1 > t_max t then Some (t_id t) else first_exhausted ts)"

definition replace_one ::
  "time \<Rightarrow> string \<Rightarrow> (string \<Rightarrow> string option) \<Rightarrow> d_task \<Rightarrow> d_store \<Rightarrow> d_error + d_store" where
  "replace_one now run new t db =
     (if superseded_by_any (t_id t) db then Inl (ALREADY_SUPERSEDED (t_id t))
      else case get_task (t_id t) db of
             None \<Rightarrow> Inl (CANNOT_CLAIM (t_id t))
           | Some cur \<Rightarrow>
               if t_status cur = T_SUPERSEDED then Inl (CANNOT_CLAIM (t_id t))
               else insert_task
                      (queued_task now (coalesce (new (t_id t)) (t_id t)) run (t_body t)
                         (map (\<lambda>d. coalesce (new d) d) (t_deps t)) (t_required t) (t_retry t + 1) (t_max t) (Some (t_id t)))
                      (put_task (mark_superseded now) (t_id t) db))"

definition restart_afresh :: "d_run \<Rightarrow> d_run" where
  "restart_afresh r = r\<lparr>r_status := D_RUNNING, r_phase := ''executing'', r_synthesis := None, r_verification := None,
     r_version := r_version r + 1, r_interrupted := None, r_completed := None\<rparr>"

fun all_steps :: "('a \<Rightarrow> 's \<Rightarrow> 'e + 's) \<Rightarrow> 'a list \<Rightarrow> 's \<Rightarrow> 'e + 's" where
  "all_steps f [] s = Inr s"
| "all_steps f (x # xs) s = (case f x s of Inl e \<Rightarrow> Inl e | Inr s' \<Rightarrow> all_steps f xs s')"

definition replace_subgraph ::
  "time \<Rightarrow> (string \<Rightarrow> nat \<Rightarrow> string) \<Rightarrow> string \<Rightarrow> string set \<Rightarrow> d_store \<Rightarrow> d_error + (string list \<times> d_store)" where
  "replace_subgraph now fresh run seeds db =
     (case get_run run db of
        None \<Rightarrow> Inl (UNKNOWN_RUN run)
      | Some r \<Rightarrow>
          (let rows = effective (list_tasks run db); ids = t_id ` set rows
           in if seeds = {} \<or> \<not> seeds \<subseteq> ids then Inl SEED_NOT_EFFECTIVE
              else
                (let hit = filter (\<lambda>t. t_id t \<in> affected rows seeds) rows;
                     open_trees = sort (map t_id (filter (\<lambda>t. t_integration t \<in> {I_PENDING, I_RETAINED}) hit))
                 in if open_trees \<noteq> [] then Inl (UNRESOLVED_WORKTREES open_trees)
                    else case first_exhausted (sort_key t_id hit) of
                           Some i \<Rightarrow> Inl (RETRIES_EXHAUSTED i)
                         | None \<Rightarrow>
                             (case order_tasks hit of
                                None \<Rightarrow> Inl GRAPH_CYCLE
                              | Some ordered \<Rightarrow>
                                  (let new = map_of (map (\<lambda>t. (t_id t, fresh (t_id t) (t_retry t + 1))) hit);
                                       olds = map (\<lambda>i. the (find (\<lambda>t. t_id t = i) hit)) ordered
                                   in case all_steps (replace_one now run new) olds db of
                                        Inl e \<Rightarrow> Inl e
                                      | Inr db' \<Rightarrow>
                                          Inr (map (\<lambda>i. coalesce (new i) i) ordered, put_run restart_afresh run db'))))))"

definition prepare_retry ::
  "time \<Rightarrow> (string \<Rightarrow> nat \<Rightarrow> string) \<Rightarrow> string \<Rightarrow> d_store \<Rightarrow> d_error + (string list \<times> d_store)" where
  "prepare_retry now fresh i db =
     (case get_task i db of
        None \<Rightarrow> Inl (UNKNOWN_TASK i)
      | Some t \<Rightarrow>
          if t_status t \<in> incomplete_statuses then replace_subgraph now fresh (t_run t) {i} db
          else Inl NOT_INCOMPLETE)"

definition prepare_resume ::
  "time \<Rightarrow> (string \<Rightarrow> nat \<Rightarrow> string) \<Rightarrow> string \<Rightarrow> d_store \<Rightarrow> d_error + (string list \<times> d_store)" where
  "prepare_resume now fresh run db =
     (case get_run run db of
        None \<Rightarrow> Inl (UNKNOWN_RUN run)
      | Some r \<Rightarrow>
          (let seeds = t_id ` set (filter (\<lambda>t. t_status t = T_INTERRUPTED) (list_tasks run db))
           in if seeds = {} then Inl NOTHING_INTERRUPTED else replace_subgraph now fresh run seeds db))"

section \<open>The end of a run\<close>

definition run_terminal :: "run_status \<Rightarrow> bool" where
  "run_terminal s \<longleftrightarrow> s \<noteq> D_RUNNING"

definition transition_run ::
  "time \<Rightarrow> string \<Rightarrow> run_status \<Rightarrow> string \<Rightarrow> run_status list \<Rightarrow> nat option \<Rightarrow> string option \<Rightarrow> string option \<Rightarrow> d_store \<Rightarrow> bool \<times> d_store" where
  "transition_run now i st ph expected version synthesis verification db =
     (case get_run i db of
        None \<Rightarrow> (False, db)
      | Some r \<Rightarrow>
          if (expected = [] \<or> r_status r \<in> set expected) \<and> (version = None \<or> version = Some (r_version r))
          then (True, put_run (\<lambda>r. r\<lparr>r_status := st, r_phase := ph,
                   r_synthesis := (case synthesis of Some x \<Rightarrow> Some x | None \<Rightarrow> r_synthesis r),
                   r_verification := (case verification of Some x \<Rightarrow> Some x | None \<Rightarrow> r_verification r),
                   r_version := r_version r + 1,
                   r_completed := (if run_terminal st then Some now else None)\<rparr>) i db)
          else (False, db))"

definition finalize_run ::
  "time \<Rightarrow> string \<Rightarrow> run_status \<Rightarrow> string \<Rightarrow> nat \<Rightarrow> nat \<Rightarrow> string option \<Rightarrow> d_store \<Rightarrow> d_error + (terminal_event option \<times> d_store)" where
  "finalize_run now i st ph version reports verification db =
     (if \<not> run_terminal st then Inl INVALID_TERMINAL_STATUS
      else case get_run i db of
             None \<Rightarrow> Inl (UNKNOWN_RUN i)
           | Some r \<Rightarrow>
               if r_version r \<noteq> version \<or> run_terminal (r_status r) then Inr (None, db)
               else
                 (let e = \<lparr>e_session = r_session r, e_parent_run = r_parent_run r, e_run = i, e_version = version + 1,
                           e_status = st, e_phase = ph, e_reports = reports\<rparr>;
                      db1 = put_run (\<lambda>r. r\<lparr>r_status := st, r_phase := ph,
                              r_verification := (case verification of Some x \<Rightarrow> Some x | None \<Rightarrow> r_verification r),
                              r_version := version + 1, r_completed := Some now\<rparr>) i db
                  in Inr (Some e, db1\<lparr>d_events := d_events db1 @ [e]\<rparr>)))"

definition phase_of :: "run_status \<Rightarrow> string" where
  "phase_of st =
     (case st of
        D_RUNNING \<Rightarrow> ''running'' | D_COMPLETED \<Rightarrow> ''completed'' | D_PARTIAL \<Rightarrow> ''partial''
      | D_FAILED \<Rightarrow> ''failed'' | D_CANCELLED \<Rightarrow> ''cancelled'')"

definition complete_run :: "time \<Rightarrow> string \<Rightarrow> run_status \<Rightarrow> d_store \<Rightarrow> d_error + d_store" where
  "complete_run now i st db =
     (case get_run i db of
        None \<Rightarrow> Inl (UNKNOWN_RUN i)
      | Some r \<Rightarrow>
          if run_terminal (r_status r) then Inr db
          else case finalize_run now i st (phase_of st) (r_version r) (length (list_tasks i db)) None db of
                 Inl e \<Rightarrow> Inl e
               | Inr (Some e, db') \<Rightarrow> Inr db'
               | Inr (None, db') \<Rightarrow> Inl (CHANGED_BEFORE_FINALIZATION i))"

definition settled_statuses :: "task_status set" where
  "settled_statuses = {T_COMPLETED, T_PARTIAL, T_FAILED, T_CANCELLED, T_INTERRUPTED, T_NO_FINDINGS,
     T_BUDGET_EXHAUSTED, T_REJECTED}"

definition success_statuses :: "task_status set" where
  "success_statuses = {T_COMPLETED, T_NO_FINDINGS}"

definition verdict :: "string option \<Rightarrow> d_task list \<Rightarrow> run_status \<times> string" where
  "verdict verification ts =
     (if list_ex (\<lambda>t. t_status t \<notin> settled_statuses) ts then (D_RUNNING, ''executing'')
      else if list_ex (\<lambda>t. t_integration t \<in> {I_PENDING, I_APPLYING}) ts then (D_RUNNING, ''awaiting_integration'')
      else if list_ex (\<lambda>t. t_required t \<and> t_status t \<notin> success_statuses) ts
           \<or> list_ex (\<lambda>t. t_required t \<and>
               t_integration t \<in> {I_DISCARDED, I_RETAINED, I_CONFLICT, I_STALE, I_CONTRACT_VIOLATION}) ts
      then (D_PARTIAL, ''partial'')
      else if list_ex (\<lambda>t. t_integration t = I_APPLIED) ts \<and> verification \<noteq> Some ''passed''
      then if verification = Some ''failed'' then (D_PARTIAL, ''verification_failed'')
           else (D_RUNNING, ''awaiting_verification'')
      else (D_COMPLETED, ''completed''))"

definition reconcile_run :: "time \<Rightarrow> string \<Rightarrow> d_store \<Rightarrow> d_error + d_store" where
  "reconcile_run now i db =
     (case get_run i db of
        None \<Rightarrow> Inl (UNKNOWN_RUN i)
      | Some r \<Rightarrow>
          if r_status r = D_CANCELLED then Inr db
          else if list_tasks i db = [] then map_sum id snd (finalize_run now i D_FAILED ''failed'' (r_version r) 0 None db)
          else
            (let ts = effective (list_tasks i db); (st, ph) = verdict (r_verification r) ts
             in if run_terminal st
                then map_sum id snd (finalize_run now i st ph (r_version r)
                       (length (filter (\<lambda>t. t_status t \<in> settled_statuses) ts)) None db)
                else Inr (snd (transition_run now i st ph [] (Some (r_version r)) None None db))))"

section \<open>Recovery after a restart\<close>

definition interrupt_task :: "time \<Rightarrow> d_task \<Rightarrow> d_task" where
  "interrupt_task now t =
     t\<lparr>t_status := T_INTERRUPTED, t_error := ''Runtime restarted'',
       t_completed := (case t_completed t of None \<Rightarrow> Some now | Some c \<Rightarrow> Some c)\<rparr>"

definition in_flight :: "string \<Rightarrow> d_task \<Rightarrow> bool" where
  "in_flight i t \<longleftrightarrow> t_run t = i \<and> t_status t \<in> {T_QUEUED, T_RUNNING}"

definition interrupt_run :: "time \<Rightarrow> string \<Rightarrow> d_store \<Rightarrow> d_store" where
  "interrupt_run now i db =
     put_run (\<lambda>r. if r_status r = D_RUNNING
         then r\<lparr>r_status := D_PARTIAL, r_phase := ''recovery_required'', r_version := r_version r + 1,
                r_interrupted := Some now, r_completed := Some now\<rparr> else r) i
       (db\<lparr>d_tasks := map (\<lambda>t. if in_flight i t then interrupt_task now t else t) (d_tasks db)\<rparr>)"

definition reconcile_interrupted :: "time \<Rightarrow> d_store \<Rightarrow> d_error + (string list \<times> d_store)" where
  "reconcile_interrupted now db =
     (let runs = map r_id (filter (\<lambda>r. \<not> r_team r \<and> r_status r = D_RUNNING) (d_runs db));
          hit = filter (\<lambda>i. list_ex (in_flight i) (d_tasks db)) runs;
          stable = filter (\<lambda>i. \<not> list_ex (in_flight i) (d_tasks db)) runs
      in map_sum id (Pair hit) (all_steps (reconcile_run now) stable (foldl (\<lambda>db i. interrupt_run now i db) db hit)))"

end
