(* ===== verification/Delegation_Scheduler.thy ===== *)
theory Delegation_Scheduler
  imports Delegation_Store "HOL-Library.Monad_Syntax"
begin

text \<open>
  \<^verbatim>\<open>agent/session/delegation_scheduler.py\<close>: the queued tasks of a run are executed in waves, each when what it depends on
  has succeeded; tasks that depend on something failed or missing fail. The child that executes a task is a
  parameter: what its run reports and whether it told the scheduler that it was created. The workers of a wave
  change their own rows only, so that a wave is the sequence of its tasks (\<open>execute_one_commutes\<close> in
  \<open>Delegation_Properties\<close>). The loop goes on while tasks are queued, and may not end. Events for the client
  and the prompt of the child are left out.
\<close>

section \<open>Capacity\<close>

record worker_slots =
  enforcing :: bool
  slot_limit :: nat
  available :: nat

definition governor_max_concurrent :: "worker_slots option \<Rightarrow> nat \<Rightarrow> nat" where
  "governor_max_concurrent g fallback =
     (case g of
        None \<Rightarrow> fallback
      | Some w \<Rightarrow> if enforcing w \<and> slot_limit w > 0 then min (max 1 (available w)) fallback else fallback)"

section \<open>Children\<close>

datatype report_status = REPORT_COMPLETED | REPORT_PARTIAL | REPORT_FAILED | REPORT_CANCELLED

fun status_of_report :: "report_status \<Rightarrow> task_status" where
  "status_of_report REPORT_COMPLETED = T_COMPLETED"
| "status_of_report REPORT_PARTIAL = T_PARTIAL"
| "status_of_report REPORT_FAILED = T_FAILED"
| "status_of_report REPORT_CANCELLED = T_CANCELLED"

datatype child_end =
    CHILD_RETURNS string report_status string string bool
  | CHILD_RAISES string

record surroundings =
  setup_fails :: "string \<Rightarrow> bool"
  created_child :: "string \<Rightarrow> (string \<times> nat) option"
  child_end :: "string \<Rightarrow> child_end"
  slots :: "worker_slots option"
  max_concurrent :: nat
  max_wave_fanout :: nat
  moment :: time

datatype s_error =
    STORE_ERROR d_error
  | OUTSIDE_PARENT
  | SETUP_FAILED string
  | NO_READY_TASKS
  | EMPTY_WAVES

definition started_update :: "string \<Rightarrow> nat \<Rightarrow> task_update" where
  "started_update c g =
     \<lparr>u_status = T_RUNNING, u_child = Some c, u_generation = Some g, u_report = None, u_error = [],
      u_integration = None, u_integration_error = [], u_expected = [T_QUEUED]\<rparr>"

definition reported_update :: "string \<Rightarrow> nat \<Rightarrow> report_status \<Rightarrow> string \<Rightarrow> string \<Rightarrow> bool \<Rightarrow> task_update" where
  "reported_update c g st summary err preserved =
     \<lparr>u_status = status_of_report st, u_child = Some c, u_generation = Some g, u_report = Some summary, u_error = err,
      u_integration = Some (if preserved then I_PENDING else NOT_REQUIRED), u_integration_error = [],
      u_expected = [T_RUNNING]\<rparr>"

definition failed_update :: "string \<Rightarrow> string \<Rightarrow> task_status list \<Rightarrow> task_update" where
  "failed_update summary err expected =
     \<lparr>u_status = T_FAILED, u_child = None, u_generation = None, u_report = Some summary, u_error = err,
      u_integration = None, u_integration_error = [], u_expected = expected\<rparr>"

section \<open>One task\<close>

definition execute_one :: "surroundings \<Rightarrow> d_task \<Rightarrow> d_store \<Rightarrow> s_error + d_store" where
  "execute_one v t db =
     (if setup_fails v (t_id t) then Inl (SETUP_FAILED (t_id t))
      else
        (case (case created_child v (t_id t) of
                 None \<Rightarrow> Inr (0, db)
               | Some (c, g) \<Rightarrow> map_sum id (\<lambda>x. (g, snd x)) (update_task (moment v) (t_id t) (started_update c g) db)) of
           Inl e \<Rightarrow> Inl (STORE_ERROR e)
         | Inr (g, db1) \<Rightarrow>
             map_sum STORE_ERROR snd
               (update_task (moment v) (t_id t)
                  (case child_end v (t_id t) of
                     CHILD_RETURNS c st summary err preserved \<Rightarrow> reported_update c g st summary err preserved
                   | CHILD_RAISES err \<Rightarrow> failed_update (''Worker failed: '' @ err) err [T_QUEUED, T_RUNNING])
                  db1)))"

section \<open>Which tasks are ready\<close>

datatype readiness = BLOCKED string | READY | WAITS

definition readiness_of :: "d_task list \<Rightarrow> d_task \<Rightarrow> readiness" where
  "readiness_of tasks t =
     (let found = map (\<lambda>i. find (\<lambda>x. t_id x = i) tasks) (t_deps t); states = map t_status (List.map_filter id found)
      in if None \<in> set found then BLOCKED ''Dependency record is unavailable''
         else if list_ex (\<lambda>s. s \<in> settled_statuses \<and> s \<notin> success_statuses) states then BLOCKED ''Dependency incomplete''
         else if list_all (\<lambda>s. s \<in> success_statuses) states then READY
         else WAITS)"

definition queued_of :: "string \<Rightarrow> d_store \<Rightarrow> d_task list" where
  "queued_of run db = filter (\<lambda>t. t_status t = T_QUEUED) (effective (list_tasks run db))"

fun reason_of :: "readiness \<Rightarrow> string option" where
  "reason_of (BLOCKED why) = Some why"
| "reason_of r = None"

definition blocked_of :: "string \<Rightarrow> d_store \<Rightarrow> (d_task \<times> string) list" where
  "blocked_of run db =
     (let R = readiness_of (effective (list_tasks run db))
      in map (\<lambda>t. (t, the (reason_of (R t)))) (filter (\<lambda>t. reason_of (R t) \<noteq> None) (queued_of run db)))"

definition ready_of :: "string \<Rightarrow> d_store \<Rightarrow> d_task list" where
  "ready_of run db = filter (\<lambda>t. readiness_of (effective (list_tasks run db)) t = READY) (queued_of run db)"

definition block_task :: "surroundings \<Rightarrow> d_task \<times> string \<Rightarrow> d_store \<Rightarrow> s_error + d_store" where
  "block_task v x db =
     map_sum STORE_ERROR snd (update_task (moment v) (t_id (fst x)) (failed_update (snd x) (snd x) [T_QUEUED]) db)"

section \<open>The loop\<close>

fun waves :: "nat \<Rightarrow> 'a list \<Rightarrow> 'a list list" where
  "waves 0 xs = []"
| "waves (Suc k) [] = []"
| "waves (Suc k) (x # xs) = (x # take k xs) # waves (Suc k) (drop k xs)"

definition wave_limit :: "surroundings \<Rightarrow> nat" where
  "wave_limit v = min (max_wave_fanout v) (governor_max_concurrent (slots v) (max_concurrent v))"

datatype pass_end =
    PASS_DONE
  | PASS_RAISES s_error
  | PASS_AGAIN d_store "string list"

definition one_pass :: "surroundings \<Rightarrow> string \<Rightarrow> d_store \<Rightarrow> pass_end" where
  "one_pass v run db =
     (if queued_of run db = [] then PASS_DONE
      else
        (let blocked = blocked_of run db; ready = ready_of run db
         in case all_steps (block_task v) blocked db of
              Inl e \<Rightarrow> PASS_RAISES e
            | Inr db1 \<Rightarrow>
                if ready = [] then if blocked \<noteq> [] then PASS_AGAIN db1 [] else PASS_RAISES NO_READY_TASKS
                else if wave_limit v = 0 then PASS_RAISES EMPTY_WAVES
                else (case all_steps (all_steps (execute_one v)) (waves (wave_limit v) ready) db1 of
                        Inl e \<Rightarrow> PASS_RAISES e
                      | Inr db2 \<Rightarrow> PASS_AGAIN db2 (map t_id ready))))"

text \<open>The result is the tables and the tasks that were executed, in order; \<open>None\<close> is a loop that does not end.\<close>

partial_function (option) schedule ::
  "surroundings \<Rightarrow> string \<Rightarrow> d_store \<Rightarrow> string list \<Rightarrow> (s_error + (d_store \<times> string list)) option" where
  "schedule v run db done_ids =
     (case one_pass v run db of
        PASS_DONE \<Rightarrow> Some (Inr (db, done_ids))
      | PASS_RAISES e \<Rightarrow> Some (Inl e)
      | PASS_AGAIN db' ids \<Rightarrow> schedule v run db' (done_ids @ ids))"

definition execute :: "surroundings \<Rightarrow> string \<Rightarrow> string \<Rightarrow> d_store \<Rightarrow> (s_error + d_store) option" where
  "execute v parent run db =
     (case get_run run db of
        None \<Rightarrow> Some (Inl OUTSIDE_PARENT)
      | Some r \<Rightarrow>
          if r_session r \<noteq> parent then Some (Inl OUTSIDE_PARENT)
          else (case schedule v run db [] of
                  None \<Rightarrow> None
                | Some (Inl e) \<Rightarrow> Some (Inl e)
                | Some (Inr (db', ids)) \<Rightarrow> Some (map_sum STORE_ERROR id (reconcile_run (moment v) run db'))))"

end
