(* ===== verification/Delegation_Properties.thy ===== *)
theory Delegation_Properties
  imports Delegation_Scheduler
begin

text \<open>
  What the delegation tables and their scheduler guarantee: tasks run after what they depend on, the loop ends, a
  retry replaces exactly the seeds and their consumers and keeps the graph whole, and no run has two
  terminal events of one version.
\<close>

section \<open>Rows by identifier\<close>

definition task_ids :: "d_store \<Rightarrow> string list" where
  "task_ids db = map t_id (d_tasks db)"

definition live :: "string \<Rightarrow> d_store \<Rightarrow> d_task set" where
  "live run db = {t \<in> set (d_tasks db). t_run t = run \<and> t_status t \<noteq> T_SUPERSEDED}"

lemma effective_list [simp]: "set (effective (list_tasks run db)) = live run db"
  by (auto simp: effective_def list_tasks_def live_def)

lemma get_task_none: "get_task i db = None \<longleftrightarrow> i \<notin> set (task_ids db)"
  by (auto simp: get_task_def task_ids_def find_None_iff)

lemma get_task_some: "get_task i db = Some t \<Longrightarrow> t \<in> set (d_tasks db) \<and> t_id t = i"
  by (auto simp: get_task_def find_Some_iff)

lemma same_id: "distinct (task_ids db) \<Longrightarrow> t \<in> set (d_tasks db) \<Longrightarrow> x \<in> set (d_tasks db) \<Longrightarrow> t_id t = t_id x \<Longrightarrow> t = x"
  unfolding task_ids_def by (metis distinct_map inj_onD)

lemma get_task_row: "distinct (task_ids db) \<Longrightarrow> t \<in> set (d_tasks db) \<Longrightarrow> get_task (t_id t) db = Some t"
  using get_task_none [of "t_id t" db] get_task_some same_id
  by (metis image_eqI list.set_map not_Some_eq task_ids_def)

lemma put_task_simps [simp]:
  "d_tasks (put_task f i db) = map (\<lambda>t. if t_id t = i then f t else t) (d_tasks db)"
  "d_runs (put_task f i db) = d_runs db" "d_events (put_task f i db) = d_events db" "sessions (put_task f i db) = sessions db"
  by (simp_all add: put_task_def)

lemma put_task_ids [simp]: "(\<And>t. t_id (f t) = t_id t) \<Longrightarrow> task_ids (put_task f i db) = task_ids db"
  by (auto simp: task_ids_def comp_def)

lemma apply_update_keeps [simp]:
  "t_id (apply_update now u t) = t_id t" "t_run (apply_update now u t) = t_run t" "t_deps (apply_update now u t) = t_deps t"
  "t_status (apply_update now u t) = u_status u" "t_created (apply_update now u t) = t_created t"
  by (simp_all add: apply_update_def)

section \<open>What one execution does to its row\<close>

definition exec_row :: "surroundings \<Rightarrow> d_task \<Rightarrow> d_task" where
  "exec_row v t =
     (case created_child v (t_id t) of
        Some (c, g) \<Rightarrow>
          apply_update (moment v)
            (case child_end v (t_id t) of
               CHILD_RETURNS ch st summary err preserved \<Rightarrow> reported_update ch g st summary err preserved
             | CHILD_RAISES err \<Rightarrow> failed_update (''Worker failed: '' @ err) err [T_QUEUED, T_RUNNING])
            (apply_update (moment v) (started_update c g) t)
      | None \<Rightarrow>
          (case child_end v (t_id t) of
             CHILD_RETURNS ch st summary err preserved \<Rightarrow> t
           | CHILD_RAISES err \<Rightarrow> apply_update (moment v) (failed_update (''Worker failed: '' @ err) err [T_QUEUED, T_RUNNING]) t))"

definition block_row :: "surroundings \<Rightarrow> string \<Rightarrow> d_task \<Rightarrow> d_task" where
  "block_row v why t = apply_update (moment v) (failed_update why why [T_QUEUED]) t"

definition is_queued :: "string \<Rightarrow> d_store \<Rightarrow> bool" where
  "is_queued i db \<longleftrightarrow> (\<exists>t\<in>set (d_tasks db). t_id t = i \<and> t_status t = T_QUEUED)"

lemma put_one_row:
  assumes "distinct (task_ids db)" "t \<in> set (d_tasks db)" "f t = g t"
  shows "put_task f (t_id t) db = put_task g (t_id t) db"
proof -
  have "map (\<lambda>x. if t_id x = t_id t then f x else x) (d_tasks db) = map (\<lambda>x. if t_id x = t_id t then g x else x) (d_tasks db)"
    by (rule map_cong) (use same_id [OF assms(1) _ assms(2)] assms(3) in auto)
  then show ?thesis by (simp add: put_task_def)
qed

lemma update_task_row:
  assumes "distinct (task_ids db)" "t \<in> set (d_tasks db)"
  shows "update_task now (t_id t) u db =
    Inr (if u_expected u = [] \<or> t_status t \<in> set (u_expected u) then (True, put_task (apply_update now u) (t_id t) db) else (False, db))"
  using get_task_row [OF assms] by (simp add: update_task_def)

lemma put_task_id: "distinct (task_ids db) \<Longrightarrow> t \<in> set (d_tasks db) \<Longrightarrow> f t = t \<Longrightarrow> put_task f (t_id t) db = db"
proof -
  assume a: "distinct (task_ids db)" "t \<in> set (d_tasks db)" "f t = t"
  have "map (\<lambda>x. if t_id x = t_id t then f x else x) (d_tasks db) = d_tasks db"
    by (rule map_idI) (use a same_id [OF a(1)] in auto)
  then show ?thesis by (simp add: put_task_def)
qed

lemma status_update [simp]:
  "u_status (started_update c g) = T_RUNNING" "u_status (failed_update s e x) = T_FAILED"
  "u_status (reported_update c g st s e p) = status_of_report st"
  "u_expected (started_update c g) = [T_QUEUED]" "u_expected (failed_update s e x) = x"
  "u_expected (reported_update c g st s e p) = [T_RUNNING]"
  by (simp_all add: started_update_def failed_update_def reported_update_def)

lemma execute_one_row:
  assumes "distinct (task_ids db)" "x \<in> set (d_tasks db)" "t_id x = t_id t" "t_status x = T_QUEUED" "\<not> setup_fails v (t_id t)"
  shows "execute_one v t db = Inr (put_task (exec_row v) (t_id t) db)"
proof (cases "created_child v (t_id t)")
  case None
  have up: "update_task (moment v) (t_id t) u db
      = Inr (if u_expected u = [] \<or> t_status x \<in> set (u_expected u) then (True, put_task (apply_update (moment v) u) (t_id t) db) else (False, db))" for u
    using update_task_row [OF assms(1,2)] assms(3) by simp
  show ?thesis
  proof (cases "child_end v (t_id t)")
    case (CHILD_RETURNS c st summary err preserved)
    then have "exec_row v x = x" using None assms(3) by (simp add: exec_row_def)
    then show ?thesis using None CHILD_RETURNS assms put_task_id [OF assms(1,2)] by (simp add: execute_one_def up)
  next
    case (CHILD_RAISES err)
    let ?u = "failed_update (''Worker failed: '' @ err) err [T_QUEUED, T_RUNNING]"
    have "exec_row v x = apply_update (moment v) ?u x" using None CHILD_RAISES assms(3) by (simp add: exec_row_def)
    then have "put_task (exec_row v) (t_id t) db = put_task (apply_update (moment v) ?u) (t_id t) db"
      using put_one_row [OF assms(1,2), of "exec_row v"] assms(3) by simp
    then show ?thesis using None CHILD_RAISES assms by (simp add: execute_one_def up)
  qed
next
  case (Some cg)
  obtain c g where cg: "cg = (c, g)" by fastforce
  let ?x = "apply_update (moment v) (started_update c g) x"
  let ?db = "put_task (apply_update (moment v) (started_update c g)) (t_id t) db"
  have start: "update_task (moment v) (t_id t) (started_update c g) db = Inr (True, ?db)"
    using update_task_row [OF assms(1,2)] assms(3,4) by simp
  have x: "?x \<in> set (d_tasks ?db)" using assms(2,3) by auto
  have d: "distinct (task_ids ?db)" using assms(1) by simp
  have up: "update_task (moment v) (t_id t) u ?db
      = Inr (if u_expected u = [] \<or> T_RUNNING \<in> set (u_expected u) then (True, put_task (apply_update (moment v) u) (t_id t) ?db) else (False, ?db))" for u
    using update_task_row [OF d x] assms(3) by simp
  have two: "put_task f (t_id t) (put_task h (t_id t) db) = put_task (\<lambda>t. f (h t)) (t_id t) db" if "\<And>t. t_id (h t) = t_id t" for f h
    using that by (simp add: put_task_def comp_def)
  define u where "u = (case child_end v (t_id t) of
      CHILD_RETURNS ch st summary err preserved \<Rightarrow> reported_update ch g st summary err preserved
    | CHILD_RAISES err \<Rightarrow> failed_update (''Worker failed: '' @ err) err [T_QUEUED, T_RUNNING])"
  have exp: "T_RUNNING \<in> set (u_expected u)" by (simp add: u_def split: child_end.splits)
  have "exec_row v x = apply_update (moment v) u ?x" using Some cg assms(3) by (simp add: exec_row_def u_def)
  then have "put_task (exec_row v) (t_id t) db = put_task (apply_update (moment v) u) (t_id t) ?db"
    using put_one_row [OF assms(1,2), of "exec_row v" "\<lambda>t. apply_update (moment v) u (apply_update (moment v) (started_update c g) t)"]
      assms(3) by (simp add: two)
  then show ?thesis using Some cg assms(5) start up [of u] exp by (simp add: execute_one_def u_def)
qed

lemma block_task_row:
  assumes "distinct (task_ids db)" "x \<in> set (d_tasks db)" "t_id x = t_id t" "t_status x = T_QUEUED"
  shows "block_task v (t, why) db = Inr (put_task (block_row v why) (t_id t) db)"
  using update_task_row [OF assms(1,2)] assms(3,4) by (simp add: block_task_def block_row_def [abs_def])

lemma exec_row_keeps [simp]:
  "t_id (exec_row v t) = t_id t" "t_run (exec_row v t) = t_run t" "t_deps (exec_row v t) = t_deps t"
  by (auto simp: exec_row_def split: option.splits child_end.splits)

lemma block_row_keeps [simp]:
  "t_id (block_row v w t) = t_id t" "t_run (block_row v w t) = t_run t" "t_deps (block_row v w t) = t_deps t"
  "t_status (block_row v w t) = T_FAILED"
  by (simp_all add: block_row_def)

lemma report_settles [simp]: "status_of_report st \<in> settled_statuses" "T_FAILED \<in> settled_statuses"
  by (cases st) (simp_all add: settled_statuses_def)

lemma exec_row_status: "exec_row v t = t \<or> t_status (exec_row v t) \<in> settled_statuses"
  by (auto simp: exec_row_def split: option.splits child_end.splits)

lemma exec_row_settles: "created_child v (t_id t) \<noteq> None \<Longrightarrow> t_status (exec_row v t) \<in> settled_statuses"
  by (auto simp: exec_row_def split: option.splits child_end.splits)

section \<open>Steps on different rows\<close>

lemma all_steps_concat: "all_steps (all_steps f) xss s = all_steps f (concat xss) s"
proof (induction xss arbitrary: s)
  case (Cons xs xss)
  have "all_steps f (xs @ ys) s = (case all_steps f xs s of Inl e \<Rightarrow> Inl e | Inr s' \<Rightarrow> all_steps f ys s')" for ys s
    by (induction xs arbitrary: s) (auto split: sum.splits)
  then show ?case using Cons by (simp split: sum.splits)
qed simp

lemma concat_waves: "0 < k \<Longrightarrow> concat (waves k xs) = xs"
  by (induction k xs rule: waves.induct) auto

definition row_after :: "('x \<Rightarrow> string) \<Rightarrow> ('x \<Rightarrow> d_task \<Rightarrow> d_task) \<Rightarrow> 'x list \<Rightarrow> d_task \<Rightarrow> d_task" where
  "row_after k g xs t = (case find (\<lambda>x. k x = t_id t) xs of None \<Rightarrow> t | Some x \<Rightarrow> g x t)"

lemma find_none: "i \<notin> k ` set xs \<Longrightarrow> find (\<lambda>y. k y = i) xs = None"
  by (induction xs) auto

lemma row_after_nil [simp]: "row_after k g [] = (\<lambda>t. t)"
  by (rule ext) (simp add: row_after_def)

lemma all_steps_rows:
  assumes step: "\<And>x db. x \<in> set xs \<Longrightarrow> distinct (task_ids db) \<Longrightarrow> is_queued (k x) db \<Longrightarrow> f x db = Inr (put_task (g x) (k x) db)"
    and id: "\<And>x t. t_id (g x t) = t_id t"
  shows "distinct (map k xs) \<Longrightarrow> distinct (task_ids db) \<Longrightarrow> (\<And>x. x \<in> set xs \<Longrightarrow> is_queued (k x) db)
    \<Longrightarrow> all_steps f xs db = Inr (db\<lparr>d_tasks := map (row_after k g xs) (d_tasks db)\<rparr>)"
  using step
proof (induction xs arbitrary: db)
  case Nil
  then show ?case by (simp add: row_after_def [abs_def])
next
  case (Cons x xs)
  let ?db = "put_task (g x) (k x) db"
  have one: "f x db = Inr ?db" using Cons.prems by simp
  have q: "is_queued (k y) ?db" if "y \<in> set xs" for y
  proof -
    have "is_queued (k y) db" using Cons.prems(3) that by simp
    then obtain t where "t \<in> set (d_tasks db)" "t_id t = k y" "t_status t = T_QUEUED" by (auto simp: is_queued_def)
    moreover have "k y \<noteq> k x" using Cons.prems(1) that by (metis distinct.simps(2) image_eqI list.set_map list.simps(9))
    ultimately show ?thesis by (force simp: is_queued_def)
  qed
  have "all_steps f xs ?db = Inr (?db\<lparr>d_tasks := map (row_after k g xs) (d_tasks ?db)\<rparr>)"
    by (rule Cons.IH) (use Cons.prems q id in auto)
  moreover have "row_after k g xs (if t_id t = k x then g x t else t) = row_after k g (x # xs) t" for t
  proof (cases "t_id t = k x")
    case True
    then have "find (\<lambda>y. k y = t_id t) xs = None" using Cons.prems(1) by (intro find_none) simp
    then show ?thesis using True id by (simp add: row_after_def)
  qed (auto simp: row_after_def)
  ultimately show ?case using one by (simp add: put_task_def comp_def)
qed

lemma all_steps_each: "all_steps f xs s = Inr s' \<Longrightarrow> x \<in> set xs \<Longrightarrow> \<exists>s1 s2. f x s1 = Inr s2"
  by (induction xs arbitrary: s) (auto split: sum.splits)

section \<open>One pass\<close>

lemma queued_set: "set (queued_of run db) = {t \<in> live run db. t_status t = T_QUEUED}"
  by (auto simp: queued_of_def)

lemma ready_set: "set (ready_of run db)
    = {t \<in> live run db. t_status t = T_QUEUED \<and> readiness_of (effective (list_tasks run db)) t = READY}"
  by (auto simp: ready_of_def queued_set)

lemma reason_iff: "reason_of r = Some why \<longleftrightarrow> r = BLOCKED why"
  by (cases r) auto

lemma blocked_set: "(t, why) \<in> set (blocked_of run db)
    \<longleftrightarrow> t \<in> live run db \<and> t_status t = T_QUEUED \<and> readiness_of (effective (list_tasks run db)) t = BLOCKED why"
proof -
  have "(t, why) \<in> set (blocked_of run db) \<longleftrightarrow> t \<in> set (queued_of run db)
      \<and> reason_of (readiness_of (effective (list_tasks run db)) t) = Some why"
    by (auto simp: blocked_of_def Let_def)
  then show ?thesis by (simp add: queued_set reason_iff)
qed

lemma ids_distinct:
  assumes "distinct (task_ids db)"
  shows "distinct (map t_id (queued_of run db))" "distinct (map t_id (ready_of run db))"
    "distinct (map (\<lambda>x. t_id (fst x)) (blocked_of run db))"
proof -
  have d: "distinct (d_tasks db)" using assms by (simp add: task_ids_def distinct_map)
  have i: "inj_on t_id (set (d_tasks db))" using assms by (simp add: task_ids_def distinct_map)
  have q: "distinct (queued_of run db)" using d by (simp add: queued_of_def effective_def list_tasks_def)
  have sub: "set (queued_of run db) \<subseteq> set (d_tasks db)" by (auto simp: queued_set live_def)
  show one: "distinct (map t_id (queued_of run db))" using q inj_on_subset [OF i sub] by (simp add: distinct_map)
  show "distinct (map t_id (ready_of run db))" using one by (simp add: ready_of_def distinct_map_filter)
  have "map (\<lambda>x. t_id (fst x)) (blocked_of run db)
      = map t_id (filter (\<lambda>t. reason_of (readiness_of (effective (list_tasks run db)) t) \<noteq> None) (queued_of run db))"
    by (simp add: blocked_of_def Let_def comp_def)
  then show "distinct (map (\<lambda>x. t_id (fst x)) (blocked_of run db))" using one by (simp add: distinct_map_filter)
qed

definition pass_row :: "surroundings \<Rightarrow> string \<Rightarrow> d_store \<Rightarrow> d_task \<Rightarrow> d_task" where
  "pass_row v run db t =
     row_after t_id (\<lambda>x. exec_row v) (ready_of run db)
       (row_after (\<lambda>x. t_id (fst x)) (\<lambda>x. block_row v (snd x)) (blocked_of run db) t)"

lemma blocking:
  assumes "distinct (task_ids db)"
  shows "all_steps (block_task v) (blocked_of run db) db
    = Inr (db\<lparr>d_tasks := map (row_after (\<lambda>x. t_id (fst x)) (\<lambda>x. block_row v (snd x)) (blocked_of run db)) (d_tasks db)\<rparr>)"
proof (rule all_steps_rows)
  fix x db' assume q: "distinct (task_ids db')" "is_queued (t_id (fst (x :: d_task \<times> string))) db'"
  then obtain t where "t \<in> set (d_tasks db')" "t_id t = t_id (fst x)" "t_status t = T_QUEUED" by (auto simp: is_queued_def)
  from block_task_row [OF q(1) this, of v "snd x"]
  show "block_task v x db' = Inr (put_task (block_row v (snd x)) (t_id (fst x)) db')" by simp
next
  fix x assume "x \<in> set (blocked_of run db)"
  then show "is_queued (t_id (fst x)) db" using blocked_set [of "fst x" "snd x" run db] by (auto simp: is_queued_def live_def)
next
  show "distinct (map (\<lambda>x. t_id (fst x)) (blocked_of run db))" by (rule ids_distinct(3) [OF assms])
qed (simp_all add: assms)

lemma find_by_id: "distinct (map k xs) \<Longrightarrow> x \<in> set xs \<Longrightarrow> find (\<lambda>y. k y = k x) xs = Some x"
  by (induction xs) auto

lemma row_after_in:
  assumes "distinct (map k xs)" "x \<in> set xs" "k x = t_id t"
  shows "row_after k g xs t = g x t"
  using find_by_id [OF assms(1,2)] assms(3) by (simp add: row_after_def)

lemma row_after_out: "t_id t \<notin> k ` set xs \<Longrightarrow> row_after k g xs t = t"
  by (simp add: row_after_def find_none)

text \<open>The row a pass leaves, by what its task was.\<close>

lemma pass_row_cases:
  assumes "distinct (task_ids db)" "t \<in> set (d_tasks db)"
  shows "(t, why) \<in> set (blocked_of run db) \<Longrightarrow> pass_row v run db t = block_row v why t"
    and "t \<in> set (ready_of run db) \<Longrightarrow> pass_row v run db t = exec_row v t"
    and "t \<notin> set (ready_of run db) \<Longrightarrow> t \<notin> fst ` set (blocked_of run db) \<Longrightarrow> pass_row v run db t = t"
proof -
  note d = ids_distinct [OF assms(1)]
  have ready: "t_id t \<in> t_id ` set (ready_of run db) \<longleftrightarrow> t \<in> set (ready_of run db)"
    using same_id [OF assms(1) assms(2)] ready_set [of run db] by (auto simp: live_def)
  have fsts: "fst ` set (blocked_of run db) \<subseteq> set (d_tasks db)" using blocked_set [of _ _ run db] by (force simp: live_def)
  have blocked: "t_id t \<in> (\<lambda>x. t_id (fst x)) ` set (blocked_of run db) \<longleftrightarrow> t \<in> fst ` set (blocked_of run db)"
  proof
    assume "t_id t \<in> (\<lambda>x. t_id (fst x)) ` set (blocked_of run db)"
    then obtain x where x: "x \<in> set (blocked_of run db)" "t_id t = t_id (fst x)" by blast
    then have "t = fst x" using same_id [OF assms] fsts by blast
    then show "t \<in> fst ` set (blocked_of run db)" using x(1) by blast
  qed blast
  have apart: "t \<in> set (ready_of run db) \<Longrightarrow> t \<notin> fst ` set (blocked_of run db)"
    using ready_set [of run db] blocked_set [of _ _ run db] by force
  show "pass_row v run db t = block_row v why t" if "(t, why) \<in> set (blocked_of run db)"
  proof -
    have "t \<notin> set (ready_of run db)" using apart that by force
    then show ?thesis using row_after_in [OF d(3) that, of t "\<lambda>x. block_row v (snd x)"]
        row_after_out [of "block_row v why t" t_id "ready_of run db" "\<lambda>x. exec_row v"] ready by (simp add: pass_row_def)
  qed
  show "pass_row v run db t = exec_row v t" if "t \<in> set (ready_of run db)"
    using row_after_in [OF d(2) that refl, of "\<lambda>x. exec_row v"] blocked apart [OF that]
      row_after_out [of t "\<lambda>x. t_id (fst x)" "blocked_of run db" "\<lambda>x. block_row v (snd x)"] by (simp add: pass_row_def)
  show "pass_row v run db t = t" if "t \<notin> set (ready_of run db)" "t \<notin> fst ` set (blocked_of run db)"
    using that ready blocked row_after_out [of t t_id "ready_of run db" "\<lambda>x. exec_row v"]
      row_after_out [of t "\<lambda>x. t_id (fst x)" "blocked_of run db" "\<lambda>x. block_row v (snd x)"] by (simp add: pass_row_def)
qed

definition after_pass :: "surroundings \<Rightarrow> string \<Rightarrow> d_store \<Rightarrow> d_store" where
  "after_pass v run db = db\<lparr>d_tasks := map (pass_row v run db) (d_tasks db)\<rparr>"

lemma still_queued:
  assumes "distinct (task_ids db)" "t \<in> set (ready_of run db)"
  shows "is_queued (t_id t) (db\<lparr>d_tasks := map (row_after (\<lambda>x. t_id (fst x)) (\<lambda>x. block_row v (snd x)) (blocked_of run db)) (d_tasks db)\<rparr>)"
proof -
  have t: "t \<in> set (d_tasks db)" "t_status t = T_QUEUED" using assms(2) by (auto simp: ready_set live_def)
  have "t_id t \<notin> (\<lambda>x. t_id (fst x)) ` set (blocked_of run db)"
  proof
    assume "t_id t \<in> (\<lambda>x. t_id (fst x)) ` set (blocked_of run db)"
    then obtain x why where x: "(x, why) \<in> set (blocked_of run db)" "t_id t = t_id x" by force
    then have "t = x" using same_id [OF assms(1) t(1), of x] blocked_set [of x why run db] by (simp add: live_def)
    then show False using x(1) assms(2) by (simp add: blocked_set ready_set)
  qed
  then have "row_after (\<lambda>x. t_id (fst x)) (\<lambda>x. block_row v (snd x)) (blocked_of run db) t = t" by (rule row_after_out)
  then have "t \<in> row_after (\<lambda>x. t_id (fst x)) (\<lambda>x. block_row v (snd x)) (blocked_of run db) ` set (d_tasks db)"
    using t(1) by (metis imageI)
  then show ?thesis using t(2) by (auto simp: is_queued_def)
qed

lemma row_after_id [simp]: "(\<And>x t. t_id (g x t) = t_id t) \<Longrightarrow> t_id (row_after k g xs t) = t_id t"
  by (simp add: row_after_def split: option.splits)

lemma executing:
  assumes "distinct (task_ids db)" "\<And>t. t \<in> set (ready_of run db) \<Longrightarrow> \<not> setup_fails v (t_id t)"
  shows "all_steps (execute_one v) (ready_of run db)
      (db\<lparr>d_tasks := map (row_after (\<lambda>x. t_id (fst x)) (\<lambda>x. block_row v (snd x)) (blocked_of run db)) (d_tasks db)\<rparr>)
    = Inr (after_pass v run db)"
proof -
  let ?db = "db\<lparr>d_tasks := map (row_after (\<lambda>x. t_id (fst x)) (\<lambda>x. block_row v (snd x)) (blocked_of run db)) (d_tasks db)\<rparr>"
  have "all_steps (execute_one v) (ready_of run db) ?db
      = Inr (?db\<lparr>d_tasks := map (row_after t_id (\<lambda>x. exec_row v) (ready_of run db)) (d_tasks ?db)\<rparr>)"
  proof (rule all_steps_rows)
    fix x db' assume x: "x \<in> set (ready_of run db)" "distinct (task_ids db')" "is_queued (t_id (x :: d_task)) db'"
    then obtain t where "t \<in> set (d_tasks db')" "t_id t = t_id x" "t_status t = T_QUEUED" by (auto simp: is_queued_def)
    from execute_one_row [OF x(2) this assms(2) [OF x(1)]]
    show "execute_one v x db' = Inr (put_task (exec_row v) (t_id x) db')" .
  next
    show "distinct (task_ids ?db)" using assms(1) by (simp add: task_ids_def comp_def)
  qed (use ids_distinct [OF assms(1)] still_queued [OF assms(1)] in auto)
  then show ?thesis by (simp add: after_pass_def pass_row_def [abs_def] comp_def)
qed

lemma pass_again:
  assumes "distinct (task_ids db)" "one_pass v run db = PASS_AGAIN db' ids"
  shows "db' = after_pass v run db \<and> ids = map t_id (ready_of run db)"
proof (cases "ready_of run db = []")
  case True
  have "after_pass v run db = db\<lparr>d_tasks := map (row_after (\<lambda>x. t_id (fst x)) (\<lambda>x. block_row v (snd x)) (blocked_of run db)) (d_tasks db)\<rparr>"
    by (simp add: after_pass_def pass_row_def [abs_def] True row_after_def [of t_id])
  then show ?thesis
    using assms(2) True by (auto simp: one_pass_def Let_def blocking [OF assms(1)] split: if_splits)
next
  case False
  then have w: "wave_limit v > 0" and q: "queued_of run db \<noteq> []"
    using assms(2) by (auto simp: one_pass_def Let_def blocking [OF assms(1)] split: if_splits)
  have waves: "all_steps (all_steps (execute_one v)) (waves (wave_limit v) (ready_of run db)) d = all_steps (execute_one v) (ready_of run db) d" for d
    by (simp add: all_steps_concat concat_waves [OF w])
  have again: "(case all_steps (execute_one v) (ready_of run db)
        (db\<lparr>d_tasks := map (row_after (\<lambda>x. t_id (fst x)) (\<lambda>x. block_row v (snd x)) (blocked_of run db)) (d_tasks db)\<rparr>) of
      Inl e \<Rightarrow> PASS_RAISES e | Inr db2 \<Rightarrow> PASS_AGAIN db2 (map t_id (ready_of run db))) = PASS_AGAIN db' ids"
    using assms(2) False w q by (simp add: one_pass_def Let_def blocking [OF assms(1)] waves)
  then obtain db2 where e: "all_steps (execute_one v) (ready_of run db)
        (db\<lparr>d_tasks := map (row_after (\<lambda>x. t_id (fst x)) (\<lambda>x. block_row v (snd x)) (blocked_of run db)) (d_tasks db)\<rparr>) = Inr db2"
    by (auto split: sum.splits)
  have "\<not> setup_fails v (t_id t)" if "t \<in> set (ready_of run db)" for t
    using all_steps_each [OF e that] by (auto simp: execute_one_def)
  from executing [OF assms(1) this] show ?thesis using again by simp
qed

lemma after_pass_ids [simp]: "task_ids (after_pass v run db) = task_ids db"
  by (simp add: task_ids_def after_pass_def comp_def pass_row_def)

section \<open>Readiness\<close>

lemma find_id_some: "find (\<lambda>x. t_id x = i) xs = Some x \<Longrightarrow> x \<in> set xs \<and> t_id x = i"
  by (induction xs) (auto split: if_splits)

lemma find_id_none: "find (\<lambda>x. t_id x = i) xs = None \<longleftrightarrow> i \<notin> t_id ` set xs"
  by (induction xs) auto

lemma find_live:
  assumes "distinct (task_ids db)"
  shows "find (\<lambda>x. t_id x = i) (effective (list_tasks run db)) = Some x \<longleftrightarrow> x \<in> live run db \<and> t_id x = i"
proof
  assume "find (\<lambda>x. t_id x = i) (effective (list_tasks run db)) = Some x"
  from find_id_some [OF this] show "x \<in> live run db \<and> t_id x = i" by simp
next
  assume x: "x \<in> live run db \<and> t_id x = i"
  then have "i \<in> t_id ` set (effective (list_tasks run db))" by auto
  then obtain y where y: "find (\<lambda>x. t_id x = i) (effective (list_tasks run db)) = Some y"
    using find_id_none [of i "effective (list_tasks run db)"] by auto
  from find_id_some [OF this] have "y \<in> live run db \<and> t_id y = i" by simp
  then show "find (\<lambda>x. t_id x = i) (effective (list_tasks run db)) = Some x"
    using y x same_id [OF assms, of x y] by (simp add: live_def)
qed

lemma find_live_none: "find (\<lambda>x. t_id x = i) (effective (list_tasks run db)) = None \<longleftrightarrow> i \<notin> t_id ` live run db"
  by (simp add: find_id_none)

definition dep_states :: "string \<Rightarrow> d_store \<Rightarrow> d_task \<Rightarrow> task_status set" where
  "dep_states run db t = {t_status x | x. x \<in> live run db \<and> t_id x \<in> set (t_deps t)}"

lemma readiness_rule:
  assumes "distinct (task_ids db)"
  shows "readiness_of (effective (list_tasks run db)) t =
    (if \<not> set (t_deps t) \<subseteq> t_id ` live run db then BLOCKED ''Dependency record is unavailable''
     else if dep_states run db t \<inter> (settled_statuses - success_statuses) \<noteq> {} then BLOCKED ''Dependency incomplete''
     else if dep_states run db t \<subseteq> success_statuses then READY else WAITS)"
proof -
  let ?find = "\<lambda>i. find (\<lambda>x. t_id x = i) (effective (list_tasks run db))"
  have none: "None \<in> set (map ?find (t_deps t)) \<longleftrightarrow> \<not> set (t_deps t) \<subseteq> t_id ` live run db"
  proof -
    have "None \<in> set (map ?find (t_deps t)) \<longleftrightarrow> (\<exists>i\<in>set (t_deps t). ?find i = None)" by (auto simp: image_iff eq_commute)
    then show ?thesis unfolding find_live_none by blast
  qed
  have opts: "set (List.map_filter id ys) = {y. Some y \<in> set ys}" for ys :: "d_task option list"
    by (induction ys) (auto simp: List.map_filter_def)
  have "Some x \<in> set (map ?find (t_deps t)) \<longleftrightarrow> (\<exists>i\<in>set (t_deps t). ?find i = Some x)" for x
    by (auto simp: image_iff eq_commute)
  then have "set (List.map_filter id (map ?find (t_deps t))) = {x. x \<in> live run db \<and> t_id x \<in> set (t_deps t)}"
    unfolding opts find_live [OF assms] by blast
  then have states: "set (map t_status (List.map_filter id (map ?find (t_deps t)))) = dep_states run db t"
    by (auto simp: dep_states_def)
  show ?thesis unfolding readiness_of_def Let_def none list_ex_iff list_all_iff states by auto
qed

lemma ready_deps:
  assumes "distinct (task_ids db)" "t \<in> set (ready_of run db)" "d \<in> set (t_deps t)"
  shows "\<exists>x\<in>live run db. t_id x = d \<and> t_status x \<in> success_statuses"
proof -
  have r: "readiness_of (effective (list_tasks run db)) t = READY" using assms(2) by (simp add: ready_set)
  then have "set (t_deps t) \<subseteq> t_id ` live run db" "dep_states run db t \<subseteq> success_statuses"
    by (auto simp: readiness_rule [OF assms(1)] split: if_splits)
  then show ?thesis using assms(3) by (force simp: dep_states_def)
qed

section \<open>What a pass keeps\<close>

lemma pass_row_keeps [simp]:
  "t_id (pass_row v run db t) = t_id t" "t_run (pass_row v run db t) = t_run t" "t_deps (pass_row v run db t) = t_deps t"
proof -
  have "t_run (row_after k g xs t) = t_run t" if "\<And>x t. t_run (g x t) = t_run t" for k :: "'x \<Rightarrow> string" and g xs t
    using that by (simp add: row_after_def split: option.splits)
  moreover have "t_deps (row_after k g xs t) = t_deps t" if "\<And>x t. t_deps (g x t) = t_deps t" for k :: "'x \<Rightarrow> string" and g xs t
    using that by (simp add: row_after_def split: option.splits)
  ultimately show "t_id (pass_row v run db t) = t_id t" "t_run (pass_row v run db t) = t_run t" "t_deps (pass_row v run db t) = t_deps t"
    by (simp_all add: pass_row_def row_after_def split: option.splits)
qed

lemma pass_row_status:
  assumes "distinct (task_ids db)" "t \<in> set (d_tasks db)"
  shows "t_status t \<noteq> T_QUEUED \<Longrightarrow> pass_row v run db t = t"
    and "pass_row v run db t = t \<or> t_status (pass_row v run db t) \<in> settled_statuses"
    and "t \<in> fst ` set (blocked_of run db) \<union> set (ready_of run db) \<Longrightarrow> created_child v (t_id t) \<noteq> None
      \<Longrightarrow> t_status (pass_row v run db t) \<in> settled_statuses"
proof -
  note c = pass_row_cases [OF assms, where v = v and run = run]
  have b: "t \<in> fst ` set (blocked_of run db) \<Longrightarrow> \<exists>why. pass_row v run db t = block_row v why t" using c(1) by force
  show "pass_row v run db t = t" if "t_status t \<noteq> T_QUEUED"
    by (rule c(3)) (use that in \<open>auto simp: ready_set blocked_set\<close>)
  show "pass_row v run db t = t \<or> t_status (pass_row v run db t) \<in> settled_statuses"
    using b c(2,3) exec_row_status [of v t] by (metis block_row_keeps(4) report_settles(2))
  show "t_status (pass_row v run db t) \<in> settled_statuses"
    if "t \<in> fst ` set (blocked_of run db) \<union> set (ready_of run db)" "created_child v (t_id t) \<noteq> None"
    using that b c(2) exec_row_settles [of v t] by (metis Un_iff block_row_keeps(4) report_settles(2))
qed

lemma settled_live [simp]: "T_SUPERSEDED \<notin> settled_statuses" "T_QUEUED \<notin> settled_statuses" "T_RUNNING \<notin> settled_statuses"
  "success_statuses \<subseteq> settled_statuses"
  by (auto simp: settled_statuses_def success_statuses_def)

lemma live_after_pass:
  assumes "distinct (task_ids db)"
  shows "live run (after_pass v run db) = pass_row v run db ` live run db"
proof -
  have "t_status (pass_row v run db t) = T_SUPERSEDED \<longleftrightarrow> t_status t = T_SUPERSEDED" if "t \<in> set (d_tasks db)" for t
    using pass_row_status(1,2) [OF assms that, of v run] by (cases "t_status t = T_QUEUED") auto
  then show ?thesis by (auto simp: live_def after_pass_def)
qed

definition ran_after :: "string \<Rightarrow> d_store \<Rightarrow> string list \<Rightarrow> bool" where
  "ran_after run db ids \<longleftrightarrow>
     (\<forall>i\<in>set ids. \<exists>t\<in>live run db. t_id t = i
        \<and> (\<forall>d\<in>set (t_deps t). \<exists>x\<in>live run db. t_id x = d \<and> t_status x \<in> success_statuses))"

lemma ran_after_pass:
  assumes "distinct (task_ids db)" "ran_after run db ids"
  shows "ran_after run (after_pass v run db) (ids @ map t_id (ready_of run db))"
proof -
  let ?p = "pass_row v run db"
  have keep: "\<exists>x\<in>?p ` live run db. t_id x = d \<and> t_status x \<in> success_statuses"
    if dep: "\<exists>x\<in>live run db. t_id x = d \<and> t_status x \<in> success_statuses" for d
  proof -
    obtain x where x: "x \<in> live run db" "t_id x = d" "t_status x \<in> success_statuses" using dep by blast
    then have "?p x = x" using pass_row_status(1) [OF assms(1), of x] by (auto simp: live_def success_statuses_def)
    then show ?thesis using x by force
  qed
  have "\<exists>t\<in>live run db. t_id t = i \<and> (\<forall>d\<in>set (t_deps t). \<exists>x\<in>live run db. t_id x = d \<and> t_status x \<in> success_statuses)"
    if i: "i \<in> set (ids @ map t_id (ready_of run db))" for i
  proof (cases "i \<in> set ids")
    case False
    then obtain t where "t \<in> set (ready_of run db)" "t_id t = i" using i by auto
    then show ?thesis using ready_deps [OF assms(1)] by (auto simp: ready_set)
  qed (use assms(2) in \<open>simp add: ran_after_def\<close>)
  note old = this
  show ?thesis unfolding ran_after_def live_after_pass [OF assms(1)]
  proof
    fix i assume "i \<in> set (ids @ map t_id (ready_of run db))"
    from old [OF this] obtain t where t: "t \<in> live run db" "t_id t = i"
      "\<forall>d\<in>set (t_deps t). \<exists>x\<in>live run db. t_id x = d \<and> t_status x \<in> success_statuses" by blast
    then have "\<forall>d\<in>set (t_deps (?p t)). \<exists>x\<in>?p ` live run db. t_id x = d \<and> t_status x \<in> success_statuses"
      using keep by (metis pass_row_keeps(3))
    moreover have "?p t \<in> ?p ` live run db" "t_id (?p t) = i" using t by auto
    ultimately show "\<exists>t\<in>?p ` live run db. t_id t = i
        \<and> (\<forall>d\<in>set (t_deps t). \<exists>x\<in>?p ` live run db. t_id x = d \<and> t_status x \<in> success_statuses)"
      by blast
  qed
qed

section \<open>The loop\<close>

lemma schedule_induct [consumes 1, case_names step]:
  assumes "schedule v run db ids = Some r"
    and "\<And>sched v run db ids r. (\<And>v run db ids r. sched v run db ids = Some r \<Longrightarrow> P v run db ids r)
      \<Longrightarrow> (case one_pass v run db of
            PASS_DONE \<Rightarrow> Some (Inr (db, ids))
          | PASS_RAISES e \<Rightarrow> Some (Inl e)
          | PASS_AGAIN db' ids' \<Rightarrow> sched v run db' (ids @ ids')) = Some r \<Longrightarrow> P v run db ids r"
  shows "P v run db ids r"
  by (rule schedule.raw_induct [of P, OF _ assms(1)]) (rule assms(2))

lemma schedule_keeps:
  assumes "schedule v run db ids = Some r" "distinct (task_ids db)" "ran_after run db ids"
  shows "\<forall>db' ids'. r = Inr (db', ids') \<longrightarrow> ran_after run db' ids'"
  using assms
proof (induction rule: schedule_induct)
  case (step sched v run db ids r)
  show ?case
  proof (cases "one_pass v run db")
    case (PASS_AGAIN db1 ids1)
    then have p: "db1 = after_pass v run db" "ids1 = map t_id (ready_of run db)" using pass_again [OF step.prems(1)] by auto
    have "sched v run db1 (ids @ ids1) = Some r" using step.hyps PASS_AGAIN by simp
    from step.IH [OF this] show ?thesis using p step.prems ran_after_pass [OF step.prems] by simp
  qed (use step in auto)
qed

text \<open>A graph is whole when every dependency of an effective task is an effective task of the run.\<close>

definition whole :: "string \<Rightarrow> d_store \<Rightarrow> bool" where
  "whole run db \<longleftrightarrow> (\<forall>t\<in>live run db. set (t_deps t) \<subseteq> t_id ` live run db)"

definition ranked :: "(string \<Rightarrow> nat) \<Rightarrow> string \<Rightarrow> d_store \<Rightarrow> bool" where
  "ranked rank run db \<longleftrightarrow> (\<forall>t\<in>live run db. \<forall>d\<in>set (t_deps t). rank d < rank (t_id t))"

definition at_rest :: "string \<Rightarrow> d_store \<Rightarrow> bool" where
  "at_rest run db \<longleftrightarrow> (\<forall>t\<in>live run db. t_status t \<noteq> T_RUNNING)"

lemma some_progress:
  assumes "distinct (task_ids db)" "whole run db" "ranked rank run db" "at_rest run db" "queued_of run db \<noteq> []"
  shows "blocked_of run db \<noteq> [] \<or> ready_of run db \<noteq> []"
proof -
  let ?Q = "set (queued_of run db)"
  obtain t where t: "t \<in> ?Q" and least: "\<And>x. x \<in> ?Q \<Longrightarrow> rank (t_id t) \<le> rank (t_id x)"
    using assms(5) arg_min_if_finite(1,2) [of ?Q "\<lambda>t. rank (t_id t)"] by (metis List.finite_set not_le set_empty)
  have live: "t \<in> live run db" using t by (simp add: queued_set)
  have deps: "set (t_deps t) \<subseteq> t_id ` live run db" using assms(2) live by (simp add: whole_def)
  have "s \<in> settled_statuses" if dep: "s \<in> dep_states run db t" for s
  proof -
    obtain x where x: "x \<in> live run db" "t_id x \<in> set (t_deps t)" "s = t_status x" using dep by (auto simp: dep_states_def)
    have "rank (t_id x) < rank (t_id t)" using assms(3) live x(2) by (simp add: ranked_def)
    then have "x \<notin> ?Q" using least [of x] by auto
    then have "s \<noteq> T_QUEUED" "s \<noteq> T_RUNNING" "s \<noteq> T_SUPERSEDED"
      using x assms(4) by (auto simp: queued_set at_rest_def live_def)
    then show ?thesis by (cases s) (simp_all add: settled_statuses_def)
  qed
  then have "readiness_of (effective (list_tasks run db)) t \<noteq> WAITS"
    using deps by (auto simp: readiness_rule [OF assms(1)])
  moreover have "t_status t = T_QUEUED" using t by (simp add: queued_set)
  ultimately consider why where "(t, why) \<in> set (blocked_of run db)" | "t \<in> set (ready_of run db)"
    using live unfolding blocked_set ready_set by (cases "readiness_of (effective (list_tasks run db)) t") auto
  then show ?thesis by cases auto
qed

lemma graph_after_pass:
  assumes "distinct (task_ids db)"
  shows "whole run db \<Longrightarrow> whole run (after_pass v run db)"
    and "ranked rank run db \<Longrightarrow> ranked rank run (after_pass v run db)"
    and "at_rest run db \<Longrightarrow> at_rest run (after_pass v run db)"
proof -
  have ids: "t_id ` live run (after_pass v run db) = t_id ` live run db"
    by (simp add: live_after_pass [OF assms] image_image)
  show "whole run db \<Longrightarrow> whole run (after_pass v run db)"
    unfolding whole_def ids by (simp add: live_after_pass [OF assms])
  show "ranked rank run db \<Longrightarrow> ranked rank run (after_pass v run db)"
    by (simp add: ranked_def live_after_pass [OF assms])
  show "at_rest run (after_pass v run db)" if rest: "at_rest run db"
  proof -
    have "t_status (pass_row v run db t) \<noteq> T_RUNNING" if "t \<in> live run db" for t
      using pass_row_status(2) [OF assms, of t v run] rest that by (auto simp: live_def at_rest_def)
    then show ?thesis by (simp add: at_rest_def live_after_pass [OF assms])
  qed
qed

lemma fewer_queued:
  assumes "distinct (task_ids db)" "\<forall>t\<in>live run db. created_child v (t_id t) \<noteq> None"
    "blocked_of run db \<noteq> [] \<or> ready_of run db \<noteq> []"
  shows "t_id ` set (queued_of run (after_pass v run db)) \<subset> t_id ` set (queued_of run db)"
    and "set (map t_id (ready_of run db)) \<inter> t_id ` set (queued_of run (after_pass v run db)) = {}"
proof -
  let ?p = "pass_row v run db" and ?hit = "fst ` set (blocked_of run db) \<union> set (ready_of run db)"
  have hitq: "?hit \<subseteq> set (queued_of run db)" by (auto simp: queued_set ready_set blocked_set)
  have left: "t \<in> set (queued_of run db) \<and> t \<notin> ?hit" if "t \<in> live run db" "t_status (?p t) = T_QUEUED" for t
  proof -
    have t: "t \<in> set (d_tasks db)" using that by (simp add: live_def)
    have "t_status t = T_QUEUED" using that pass_row_status(1) [OF assms(1) t, of v run] by force
    moreover have "t \<notin> ?hit" using pass_row_status(3) [OF assms(1) t, of run v] that assms(2) by force
    ultimately show ?thesis using that by (simp add: queued_set)
  qed
  have after: "t_id ` set (queued_of run (after_pass v run db)) \<subseteq> t_id ` (set (queued_of run db) - ?hit)"
    using left by (force simp: queued_set [of run "after_pass v run db"] live_after_pass [OF assms(1)])
  have inj: "inj_on t_id (set (queued_of run db))" using ids_distinct(1) [OF assms(1)] by (simp add: distinct_map)
  have apart: "t_id ` ?hit \<inter> t_id ` (set (queued_of run db) - ?hit) = {}"
    using inj_on_image_Int [OF inj hitq, of "set (queued_of run db) - ?hit"] by simp
  obtain t where "t \<in> ?hit" using assms(3) by (metis Un_iff image_eqI list.set_intros(1) neq_Nil_conv)
  then have "t_id t \<in> t_id ` ?hit" "t_id t \<in> t_id ` set (queued_of run db)" using hitq by auto
  then have "t_id t \<notin> t_id ` set (queued_of run (after_pass v run db))" using apart after by (meson disjoint_iff subsetD)
  then show "t_id ` set (queued_of run (after_pass v run db)) \<subset> t_id ` set (queued_of run db)"
    using subset_trans [OF after image_mono [OF Diff_subset]] \<open>t_id t \<in> t_id ` set (queued_of run db)\<close>
    by (intro psubsetI notI) (assumption, simp)
  show "set (map t_id (ready_of run db)) \<inter> t_id ` set (queued_of run (after_pass v run db)) = {}"
  proof -
    have "set (map t_id (ready_of run db)) \<subseteq> t_id ` ?hit" unfolding set_map by (rule image_mono) simp
    then show ?thesis using Int_mono [OF _ after] apart by (metis subset_empty)
  qed
qed

lemma pass_goes_on:
  assumes "distinct (task_ids db)" "whole run db" "ranked rank run db" "at_rest run db"
    "\<forall>t\<in>live run db. \<not> setup_fails v (t_id t)" "wave_limit v > 0"
  shows "one_pass v run db = (if queued_of run db = [] then PASS_DONE else PASS_AGAIN (after_pass v run db) (map t_id (ready_of run db)))"
proof (cases "queued_of run db = []")
  case False
  note some = some_progress [OF assms(1-4) False]
  have no: "t \<in> set (ready_of run db) \<Longrightarrow> \<not> setup_fails v (t_id t)" for t using assms(5) by (simp add: ready_set)
  note exec = executing [OF assms(1), of run v, OF no]
  show ?thesis
  proof (cases "ready_of run db = []")
    case True
    then show ?thesis using some False exec by (simp add: one_pass_def Let_def blocking [OF assms(1)])
  next
    case more: False
    then show ?thesis using False exec assms(6)
      by (simp add: one_pass_def Let_def blocking [OF assms(1)] all_steps_concat concat_waves)
  qed
qed (simp add: one_pass_def)

lemma schedule_ends:
  assumes "distinct (task_ids db)" "whole run db" "ranked rank run db" "at_rest run db" "wave_limit v > 0"
    "\<forall>t\<in>live run db. \<not> setup_fails v (t_id t) \<and> created_child v (t_id t) \<noteq> None"
    "distinct ids" "set ids \<inter> t_id ` set (queued_of run db) = {}"
  shows "\<exists>db' ids'. schedule v run db ids = Some (Inr (db', ids')) \<and> distinct ids' \<and> queued_of run db' = []
    \<and> at_rest run db' \<and> t_id ` live run db' = t_id ` live run db"
  using assms
proof (induction "card (t_id ` set (queued_of run db))" arbitrary: db ids rule: less_induct)
  case less
  note pass = pass_goes_on [OF less.prems(1-4)]
  show ?case
  proof (cases "queued_of run db = []")
    case True
    then show ?thesis using pass less.prems by (simp add: schedule.simps)
  next
    case False
    let ?db = "after_pass v run db" and ?ids = "ids @ map t_id (ready_of run db)"
    have created: "\<forall>t\<in>live run db. created_child v (t_id t) \<noteq> None" using less.prems(6) by simp
    note fewer = fewer_queued [OF less.prems(1) created some_progress [OF less.prems(1-4) False]]
    have "card (t_id ` set (queued_of run ?db)) < card (t_id ` set (queued_of run db))"
      using fewer(1) by (intro psubset_card_mono) auto
    moreover have "\<forall>t\<in>live run ?db. \<not> setup_fails v (t_id t) \<and> created_child v (t_id t) \<noteq> None"
      using less.prems(6) by (simp add: live_after_pass [OF less.prems(1)])
    moreover have "distinct ?ids"
      using less.prems(7,8) ids_distinct(2) [OF less.prems(1), of run] by (auto simp: ready_of_def)
    moreover have "set ?ids \<inter> t_id ` set (queued_of run ?db) = {}"
      using fewer(2) psubset_imp_subset [OF fewer(1)] less.prems(8) unfolding set_append by blast
    ultimately have "\<exists>db' ids'. schedule v run ?db ?ids = Some (Inr (db', ids')) \<and> distinct ids' \<and> queued_of run db' = []
        \<and> at_rest run db' \<and> t_id ` live run db' = t_id ` live run ?db"
      using less.prems(1,5) graph_after_pass [OF less.prems(1)] less.prems(2-4) by (intro less.hyps) simp_all
    moreover have "schedule v run db ids = schedule v run ?db ?ids"
      using pass less.prems(5,6) False by (subst schedule.simps) simp
    moreover have "t_id ` live run ?db = t_id ` live run db"
      by (simp add: live_after_pass [OF less.prems(1)] image_image)
    ultimately show ?thesis by simp
  qed
qed

section \<open>Witnesses\<close>

definition sample_body :: task_body where
  "sample_body = \<lparr>agent_type = ''reviewer'', purpose = ''analysis'', goal = ''g'', prompt = ''p'', scope = [],
     expected_files = [], write_files = []\<rparr>"

definition sample_d_run :: d_run where
  "sample_d_run = \<lparr>r_id = ''r'', r_session = ''s'', r_parent_run = ''p'', r_status = D_RUNNING, r_phase = ''executing'',
     r_synthesis = None, r_verification = None, r_team = False, r_version = 0, r_created = 0, r_interrupted = None,
     r_completed = None\<rparr>"

definition chain_store :: "task_status \<Rightarrow> d_store" where
  "chain_store st = \<lparr>sessions = [''s''], d_runs = [sample_d_run],
     d_tasks = [(queued_task 1 ''a'' ''r'' sample_body [] True 0 1 None)\<lparr>t_status := st\<rparr>,
                queued_task 2 ''b'' ''r'' sample_body [''a''] True 0 1 None], d_events = []\<rparr>"

definition good_children :: surroundings where
  "good_children = \<lparr>setup_fails = (\<lambda>i. False), created_child = (\<lambda>i. Some (''child-'' @ i, 1)),
     child_end = (\<lambda>i. CHILD_RETURNS (''child-'' @ i) REPORT_COMPLETED ''ok'' [] False), slots = None,
     max_concurrent = 2, max_wave_fanout = 2, moment = 3\<rparr>"

definition silent_children :: surroundings where
  "silent_children = good_children\<lparr>created_child := (\<lambda>i. None)\<rparr>"

lemma chain_live: "st \<noteq> T_SUPERSEDED \<Longrightarrow> live ''r'' (chain_store st) = set (d_tasks (chain_store st))"
  by (auto simp: live_def chain_store_def queued_task_def)

lemma chain_facts:
  "distinct (task_ids (chain_store st))" "st \<noteq> T_SUPERSEDED \<Longrightarrow> whole ''r'' (chain_store st)"
  by (auto simp: task_ids_def whole_def chain_live) (auto simp: chain_store_def queued_task_def)

lemma chain_ranked: "st \<noteq> T_SUPERSEDED \<Longrightarrow> ranked (\<lambda>i. if i = ''b'' then 1 else 0) ''r'' (chain_store st)"
  unfolding ranked_def chain_live by (simp add: chain_store_def queued_task_def)

lemma chain_rest: "at_rest ''r'' (chain_store T_QUEUED)"
  unfolding at_rest_def by (simp add: chain_live) (simp add: chain_store_def queued_task_def)

lemma good_wave: "wave_limit good_children > 0" "wave_limit silent_children > 0"
  by (simp_all add: wave_limit_def good_children_def silent_children_def governor_max_concurrent_def)

lemma schedule_appends:
  assumes "schedule v run db ids = Some r"
  shows "\<forall>db' ids'. r = Inr (db', ids') \<longrightarrow> (\<exists>more. ids' = ids @ more)"
  using assms
proof (induction rule: schedule_induct)
  case (step sched v run db ids r)
  then show ?case by (auto split: pass_end.splits) fastforce
qed

lemma chain_first: "case one_pass good_children ''r'' (chain_store T_QUEUED) of PASS_AGAIN d is \<Rightarrow> is = [''a''] | _ \<Rightarrow> False"
  by code_simp

lemma chain_created:
  "\<forall>t\<in>live ''r'' (chain_store st). \<not> setup_fails good_children (t_id t) \<and> created_child good_children (t_id t) \<noteq> None"
  by (simp add: good_children_def)

section \<open>Properties\<close>

text \<open>
  C11. A task is executed only after what it depends on: when the loop has ended, every task it executed is
  an effective task of the run all of whose dependencies are effective tasks that succeeded.
\<close>

theorem tasks_run_after_dependencies:
  assumes "schedule v run db [] = Some (Inr (db', ids))" "distinct (task_ids db)" "i \<in> set ids"
  shows "\<exists>t\<in>live run db'. t_id t = i
    \<and> (\<forall>d\<in>set (t_deps t). \<exists>x\<in>live run db'. t_id x = d \<and> t_status x \<in> {T_COMPLETED, T_NO_FINDINGS})"
  using schedule_keeps [OF assms(1,2)] assms(3) by (auto simp: ran_after_def success_statuses_def)

lemma tasks_run_after_dependencies_witness:
  "\<exists>db' ids. schedule good_children ''r'' (chain_store T_QUEUED) [] = Some (Inr (db', ids)) \<and> ''a'' \<in> set ids
    \<and> (\<exists>t\<in>live ''r'' db'. t_id t = ''a'' \<and> (\<forall>d\<in>set (t_deps t). \<exists>x\<in>live ''r'' db'. t_id x = d \<and> t_status x \<in> {T_COMPLETED, T_NO_FINDINGS}))"
proof -
  let ?db = "chain_store T_QUEUED"
  obtain db' ids where s: "schedule good_children ''r'' ?db [] = Some (Inr (db', ids))"
    using schedule_ends [OF chain_facts(1,2) chain_ranked chain_rest good_wave(1) chain_created, of "[]"] by auto
  obtain d where "one_pass good_children ''r'' ?db = PASS_AGAIN d [''a'']"
    using chain_first by (auto split: pass_end.splits)
  then have "schedule good_children ''r'' d [''a''] = Some (Inr (db', ids))" using s by (simp add: schedule.simps [of _ _ ?db])
  then have a: "''a'' \<in> set ids" using schedule_appends by fastforce
  show ?thesis by (intro exI conjI) (rule s, rule a, rule tasks_run_after_dependencies [OF s chain_facts(1) a])
qed

text \<open>
  C12. The scheduler ends: on a graph that is whole and has no cycle, with nothing running elsewhere, when every child
  tells that it was created, the loop ends without an error, every task has been executed at most once, and none of
  the run is queued or running.
\<close>

theorem scheduler_ends:
  assumes "distinct (task_ids db)" "whole run db" "ranked rank run db" "at_rest run db" "wave_limit v > 0"
    "\<forall>t\<in>live run db. \<not> setup_fails v (t_id t) \<and> created_child v (t_id t) \<noteq> None"
  shows "\<exists>db' ids. schedule v run db [] = Some (Inr (db', ids)) \<and> distinct ids
    \<and> t_id ` live run db' = t_id ` live run db \<and> (\<forall>t\<in>live run db'. task_terminal (t_status t))"
proof -
  obtain db' ids where s: "schedule v run db [] = Some (Inr (db', ids))" "distinct ids" "queued_of run db' = []"
      "at_rest run db'" "t_id ` live run db' = t_id ` live run db"
    using schedule_ends [OF assms, of "[]"] by auto
  have "set (queued_of run db') = {}" using s(3) by simp
  then have "\<forall>t\<in>live run db'. task_terminal (t_status t)"
    using s(4) unfolding queued_set at_rest_def task_terminal_def by blast
  then show ?thesis using s by blast
qed

lemma scheduler_ends_witness:
  "\<exists>db' ids. schedule good_children ''r'' (chain_store T_QUEUED) [] = Some (Inr (db', ids)) \<and> distinct ids
     \<and> t_id ` live ''r'' db' = {''a'', ''b''}"
proof -
  have "t_id ` live ''r'' (chain_store T_QUEUED) = {''a'', ''b''}"
    by (simp add: chain_live) (simp add: chain_store_def queued_task_def)
  then show ?thesis
    using scheduler_ends [OF chain_facts(1,2) chain_ranked chain_rest good_wave(1) chain_created] by auto
qed

text \<open>
  C33. A run whose children do not report their creation never ends: a task that was ready stays queued when its
  child returned without the callback having marked it as running, is ready again in the next pass and executed
  again, for ever.
\<close>

theorem unreported_children_run_forever:
  assumes "distinct (task_ids db)" "ready_of run db \<noteq> []" "blocked_of run db = []" "wave_limit v > 0"
    "\<forall>t\<in>set (ready_of run db). \<not> setup_fails v (t_id t) \<and> created_child v (t_id t) = None
       \<and> (\<exists>c st summary err p. child_end v (t_id t) = CHILD_RETURNS c st summary err p)"
  shows "schedule v run db ids = None"
proof -
  have same: "pass_row v run db t = t" if "t \<in> set (d_tasks db)" for t
  proof (cases "t \<in> set (ready_of run db)")
    case True
    then have "exec_row v t = t" using assms(5) by (auto simp: exec_row_def)
    then show ?thesis using pass_row_cases(2) [OF assms(1) that True] by simp
  next
    case False
    then show ?thesis using pass_row_cases(3) [OF assms(1) that False] assms(3) by simp
  qed
  then have "after_pass v run db = db" by (simp add: after_pass_def map_idI)
  moreover have "queued_of run db \<noteq> []" using assms(2) by (auto simp: ready_of_def)
  ultimately have p: "one_pass v run db = PASS_AGAIN db (map t_id (ready_of run db))"
    using assms(2-5) executing [OF assms(1), of run v]
    by (simp add: one_pass_def Let_def blocking [OF assms(1)] all_steps_concat concat_waves)
  have "\<not> (v' = v \<and> run' = run \<and> d = db)" if "schedule v' run' d is = Some r" for v' run' d "is" r
    using that
  proof (induction rule: schedule_induct)
    case (step sched v' run' d js r)
    show ?case
    proof
      assume eq: "v' = v \<and> run' = run \<and> d = db"
      then have "sched v run db (js @ map t_id (ready_of run db)) = Some r" using step.hyps p by simp
      from step.IH [OF this] show False by simp
    qed
  qed
  then show ?thesis by (metis not_None_eq)
qed

lemma chain_ready: "ready_of ''r'' (chain_store T_QUEUED) \<noteq> [] \<and> blocked_of ''r'' (chain_store T_QUEUED) = []"
  by code_simp

lemma unreported_children_run_forever_witness: "schedule silent_children ''r'' (chain_store T_QUEUED) [] = None"
  by (rule unreported_children_run_forever [OF chain_facts(1)])
    (use chain_ready good_wave(2) in \<open>auto simp: silent_children_def good_children_def\<close>)

text \<open>
  The order within a wave does not matter: two tasks with different identifiers whose rows are queued
  leave the same tables whichever is executed first.
\<close>

theorem execute_one_commutes:
  assumes "distinct (task_ids db)" "t_id t \<noteq> t_id x" "is_queued (t_id t) db" "is_queued (t_id x) db"
    "\<not> setup_fails v (t_id t)" "\<not> setup_fails v (t_id x)"
  shows "all_steps (execute_one v) [t, x] db = all_steps (execute_one v) [x, t] db
    \<and> (\<exists>db'. all_steps (execute_one v) [t, x] db = Inr db')"
proof -
  have one: "execute_one v y d = Inr (put_task (exec_row v) (t_id y) d)"
    if "distinct (task_ids d)" "is_queued (t_id y) d" "\<not> setup_fails v (t_id y)" for y :: d_task and d
    using execute_one_row [OF that(1) _ _ _ that(3)] that(2) by (auto simp: is_queued_def)
  have other: "is_queued i (put_task (exec_row v) j d)" if "i \<noteq> j" "is_queued i d" for i j d
    using that by (force simp: is_queued_def)
  let ?P = "\<lambda>y. put_task (exec_row v) (t_id (y :: d_task))"
  have two: "all_steps (execute_one v) [y, z] db = Inr (?P z (?P y db))"
    if "t_id y \<noteq> t_id z" "is_queued (t_id y) db" "is_queued (t_id z) db" "\<not> setup_fails v (t_id y)" "\<not> setup_fails v (t_id z)" for y z
  proof -
    have "execute_one v z (?P y db) = Inr (?P z (?P y db))"
      using one [of "?P y db" z] other [of "t_id z" "t_id y" db] that assms(1) by simp
    then show ?thesis using one [OF assms(1) that(2,4)] by simp
  qed
  have "?P x (?P t db) = ?P t (?P x db)" using assms(2) by (auto simp: put_task_def)
  then show ?thesis using two [of t x] two [of x t] assms by simp
qed

lemma execute_one_commutes_witness:
  "\<exists>db'. all_steps (execute_one good_children) (d_tasks (chain_store T_QUEUED)) (chain_store T_QUEUED) = Inr db'"
proof -
  obtain t x where tx: "d_tasks (chain_store T_QUEUED) = [t, x]" "t_id t \<noteq> t_id x"
      "t_status t = T_QUEUED" "t_status x = T_QUEUED"
    by (simp add: chain_store_def queued_task_def)
  have "is_queued (t_id t) (chain_store T_QUEUED)" "is_queued (t_id x) (chain_store T_QUEUED)"
    using tx by (auto simp: is_queued_def)
  moreover have "\<not> setup_fails good_children i" for i by (simp add: good_children_def)
  ultimately show ?thesis unfolding tx(1)
    using execute_one_commutes [OF chain_facts(1) tx(2), of T_QUEUED good_children] by blast
qed

end
