(* ===== verification/Delegation_Retry.thy ===== *)
theory Delegation_Retry
  imports Delegation_Properties
begin

text \<open>
  Retries on the delegation tables: what is affected, how the affected tasks are replaced, and that the
  graph stays fit for the scheduler; and the terminal events of a run over every history of its operations.
\<close>

section \<open>What is affected\<close>

definition consumes :: "d_task list \<Rightarrow> string set \<Rightarrow> bool" where
  "consumes rows A \<longleftrightarrow> (\<forall>t\<in>set rows. set (t_deps t) \<inter> A \<noteq> {} \<longrightarrow> t_id t \<in> A)"

lemma spread_fixed: "spread rows A = A \<Longrightarrow> consumes rows A"
proof (induction rows arbitrary: A)
  case (Cons t rows)
  let ?A = "if t_id t \<notin> A \<and> set (t_deps t) \<inter> A \<noteq> {} then insert (t_id t) A else A"
  have s: "spread rows ?A = A" using Cons.prems by (simp add: spread_def)
  have "?A \<subseteq> A" using spread_grows [of ?A rows] s by simp
  then have c: "\<not> (t_id t \<notin> A \<and> set (t_deps t) \<inter> A \<noteq> {})" by (rule contrapos_pn) simp
  then have eq: "?A = A" by (rule if_not_P)
  have "spread rows A = A" using s unfolding eq .
  from Cons.IH [OF this] have "consumes rows A" .
  then show ?case using c by (auto simp: consumes_def)
qed (simp add: consumes_def)

lemma spread_least: "A \<subseteq> B \<Longrightarrow> consumes rows B \<Longrightarrow> spread rows A \<subseteq> B"
proof (induction rows arbitrary: A)
  case (Cons t rows)
  have "(if t_id t \<notin> A \<and> set (t_deps t) \<inter> A \<noteq> {} then insert (t_id t) A else A) \<subseteq> B"
    using Cons.prems by (auto simp: consumes_def)
  moreover have "consumes rows B" using Cons.prems(2) by (simp add: consumes_def)
  ultimately show ?case using Cons.IH by (simp add: spread_def)
qed (simp add: spread_def)

lemma affected_closed: "A \<subseteq> affected rows A \<and> consumes rows (affected rows A)"
proof (induction rows A rule: affected.induct)
  case (1 rows A)
  show ?case
  proof (cases "spread rows A = A")
    case True
    then show ?thesis using spread_fixed by (subst (1 2) affected.simps) simp
  next
    case False
    then show ?thesis using 1 spread_grows [of A rows] by (subst (1 2) affected.simps) auto
  qed
qed

lemma affected_least: "A \<subseteq> B \<Longrightarrow> consumes rows B \<Longrightarrow> affected rows A \<subseteq> B"
proof (induction rows A rule: affected.induct)
  case (1 rows A)
  then show ?case using spread_least [OF 1(2,3)] by (subst affected.simps) simp
qed

lemma order_tasks_set: "order_tasks rem = Some is \<Longrightarrow> set is = t_id ` set rem"
proof (induction rem arbitrary: "is" rule: order_tasks.induct)
  case (1 rem)
  show ?case
  proof (cases "rem = [] \<or> ready_ids rem = []")
    case True
    then show ?thesis using 1(2) by (subst (asm) order_tasks.simps) (auto split: if_splits)
  next
    case False
    let ?rest = "filter (\<lambda>t. t_id t \<notin> set (ready_ids rem)) rem"
    obtain js where js: "order_tasks ?rest = Some js" "is = ready_ids rem @ js"
      using 1(2) False by (subst (asm) order_tasks.simps) auto
    have "set js = t_id ` set ?rest" using 1(1) False js(1) by blast
    then show ?thesis using js(2) ready_ids_in [of _ rem] by auto
  qed
qed

lemma order_tasks_distinct: "order_tasks rem = Some is \<Longrightarrow> distinct (map t_id rem) \<Longrightarrow> distinct is"
proof (induction rem arbitrary: "is" rule: order_tasks.induct)
  case (1 rem)
  show ?case
  proof (cases "rem = [] \<or> ready_ids rem = []")
    case True
    then show ?thesis using 1(2) by (subst (asm) order_tasks.simps) (auto split: if_splits)
  next
    case False
    let ?rest = "filter (\<lambda>t. t_id t \<notin> set (ready_ids rem)) rem"
    obtain js where js: "order_tasks ?rest = Some js" "is = ready_ids rem @ js"
      using 1(2) False by (subst (asm) order_tasks.simps) auto
    have "distinct js" using 1(1) [OF _ _ js(1)] False 1(3) by (simp add: distinct_map_filter)
    moreover have "set (ready_ids rem) \<inter> set js = {}" using order_tasks_set [OF js(1)] by auto
    moreover have "distinct (ready_ids rem)" using 1(3) by (simp add: ready_ids_def distinct_map_filter)
    ultimately show ?thesis using js(2) by simp
  qed
qed

section \<open>Replacing\<close>

definition replacement :: "time \<Rightarrow> string \<Rightarrow> (string \<Rightarrow> string option) \<Rightarrow> d_task \<Rightarrow> d_task" where
  "replacement now run new t =
     queued_task now (coalesce (new (t_id t)) (t_id t)) run (t_body t) (map (\<lambda>d. coalesce (new d) d) (t_deps t))
       (t_required t) (t_retry t + 1) (t_max t) (Some (t_id t))"

lemma mark_superseded_keeps [simp]:
  "t_id (mark_superseded now t) = t_id t" "t_run (mark_superseded now t) = t_run t" "t_deps (mark_superseded now t) = t_deps t"
  "t_status (mark_superseded now t) = T_SUPERSEDED" "t_supersedes (mark_superseded now t) = t_supersedes t"
  "t_retry (mark_superseded now t) = t_retry t" "t_max (mark_superseded now t) = t_max t"
  by (simp_all add: mark_superseded_def)

lemma replacement_fields [simp]:
  "t_id (replacement now run new t) = coalesce (new (t_id t)) (t_id t)" "t_run (replacement now run new t) = run"
  "t_deps (replacement now run new t) = map (\<lambda>d. coalesce (new d) d) (t_deps t)" "t_status (replacement now run new t) = T_QUEUED"
  "t_supersedes (replacement now run new t) = Some (t_id t)" "t_retry (replacement now run new t) = t_retry t + 1"
  "t_max (replacement now run new t) = t_max t"
  by (simp_all add: replacement_def queued_task_def)

lemma replace_one_rows:
  assumes "replace_one now run new t db = Inr db'"
  shows "d_tasks db' = map (\<lambda>x. if t_id x = t_id t then mark_superseded now x else x) (d_tasks db) @ [replacement now run new t]
    \<and> t_id (replacement now run new t) \<notin> set (task_ids db) \<and> t_id t \<in> set (task_ids db)
    \<and> d_runs db' = d_runs db \<and> d_events db' = d_events db \<and> sessions db' = sessions db
    \<and> \<not> superseded_by_any (t_id t) db"
proof -
  obtain cur where c: "get_task (t_id t) db = Some cur" "\<not> superseded_by_any (t_id t) db"
      and ins: "insert_task (replacement now run new t) (put_task (mark_superseded now) (t_id t) db) = Inr db'"
    using assms by (auto simp: replace_one_def replacement_def split: if_splits option.splits)
  have "t_id t \<in> set (task_ids db)" using c(1) get_task_none [of "t_id t" db] by simp
  then show ?thesis using c(2) ins by (auto simp: insert_task_def get_task_none split: if_splits)
qed

lemma all_replaced:
  assumes "all_steps (replace_one now run new) ts db = Inr db'" "distinct (map t_id ts)" "t_id ` set ts \<subseteq> set (task_ids db)"
  shows "d_tasks db' = map (\<lambda>x. if t_id x \<in> t_id ` set ts then mark_superseded now x else x) (d_tasks db)
      @ map (replacement now run new) ts
    \<and> d_runs db' = d_runs db \<and> d_events db' = d_events db \<and> sessions db' = sessions db
    \<and> (distinct (task_ids db) \<longrightarrow> distinct (task_ids db'))
    \<and> (\<forall>t\<in>set ts. \<not> superseded_by_any (t_id t) db)"
  using assms
proof (induction ts arbitrary: db)
  case Nil
  then show ?case by simp
next
  case (Cons t ts)
  then obtain db1 where one: "replace_one now run new t db = Inr db1" and rest: "all_steps (replace_one now run new) ts db1 = Inr db'"
    by (auto split: sum.splits)
  note r = replace_one_rows [OF one]
  have new: "coalesce (new (t_id t)) (t_id t) \<notin> t_id ` set ts" using r Cons.prems(3) by auto
  have ids: "task_ids db1 = task_ids db @ [coalesce (new (t_id t)) (t_id t)]"
    using r by (auto simp: task_ids_def comp_def)
  have "d_tasks db' = map (\<lambda>x. if t_id x \<in> t_id ` set ts then mark_superseded now x else x) (d_tasks db1)
      @ map (replacement now run new) ts
    \<and> d_runs db' = d_runs db1 \<and> d_events db' = d_events db1 \<and> sessions db' = sessions db1
    \<and> (distinct (task_ids db1) \<longrightarrow> distinct (task_ids db')) \<and> (\<forall>t\<in>set ts. \<not> superseded_by_any (t_id t) db1)"
    by (rule Cons.IH [OF rest]) (use Cons.prems ids in auto)
  moreover have "distinct (task_ids db) \<Longrightarrow> distinct (task_ids db1)" using r ids by simp
  moreover have "superseded_by_any i db \<Longrightarrow> superseded_by_any i db1" for i
  proof -
    assume "superseded_by_any i db"
    then obtain x where x: "x \<in> set (d_tasks db)" "t_supersedes x = Some i" by (auto simp: superseded_by_any_def list_ex_iff)
    let ?x = "if t_id x = t_id t then mark_superseded now x else x"
    have "?x \<in> set (d_tasks db1)" "t_supersedes ?x = Some i" using r x by auto
    then show "superseded_by_any i db1" unfolding superseded_by_any_def list_ex_iff by blast
  qed
  ultimately show ?case using r new Cons.prems(2) by (auto simp: comp_def)
qed

section \<open>The whole replacement\<close>

lemma map_of_ids:
  assumes "distinct (map t_id xs)" "t \<in> set xs"
  shows "map_of (map (\<lambda>t. (t_id t, f t)) xs) (t_id t) = Some (f t)"
  by (rule map_of_is_SomeI) (use assms in \<open>auto simp: comp_def\<close>)

lemma map_of_no_id: "i \<notin> t_id ` set xs \<Longrightarrow> map_of (map (\<lambda>t. (t_id t, f t)) xs) i = None"
  by (induction xs) auto

lemma replace_parts:
  assumes "replace_subgraph now fresh run seeds db = Inr (ids, db')" "distinct (task_ids db)"
  obtains new :: "string \<Rightarrow> string option" and ts :: "d_task list" where
    "set ts = {t \<in> live run db. t_id t \<in> affected (effective (list_tasks run db)) seeds}"
    "distinct (map t_id ts)" "seeds \<subseteq> t_id ` live run db" "seeds \<noteq> {}"
    "\<And>i. i \<notin> t_id ` set ts \<Longrightarrow> new i = None" "\<And>t. t \<in> set ts \<Longrightarrow> new (t_id t) = Some (fresh (t_id t) (t_retry t + 1))"
    "\<And>t. t \<in> set ts \<Longrightarrow> t_retry t < t_max t" "\<And>t. t \<in> set ts \<Longrightarrow> t_integration t \<notin> {I_PENDING, I_RETAINED}"
    "d_tasks db' = map (\<lambda>x. if t_id x \<in> t_id ` set ts then mark_superseded now x else x) (d_tasks db)
       @ map (replacement now run new) ts"
    "distinct (task_ids db')" "ids = map (\<lambda>t. fresh (t_id t) (t_retry t + 1)) ts"
    "d_runs db' = map (\<lambda>r. if r_id r = run then restart_afresh r else r) (d_runs db)" "d_events db' = d_events db"
proof -
  let ?rows = "effective (list_tasks run db)"
  define hit where "hit = filter (\<lambda>t. t_id t \<in> affected ?rows seeds) ?rows"
  define new where "new = map_of (map (\<lambda>t. (t_id t, fresh (t_id t) (t_retry t + 1))) hit)"
  obtain ordered db1 where ordered: "order_tasks hit = Some ordered" and seeds: "seeds \<noteq> {}" "seeds \<subseteq> t_id ` live run db"
    and trees: "sort (map t_id (filter (\<lambda>t. t_integration t \<in> {I_PENDING, I_RETAINED}) hit)) = []"
    and retries: "first_exhausted (sort_key t_id hit) = None"
    and steps: "all_steps (replace_one now run new) (map (\<lambda>i. the (find (\<lambda>t. t_id t = i) hit)) ordered) db = Inr db1"
    and res: "ids = map (\<lambda>i. coalesce (new i) i) ordered" "db' = put_run restart_afresh run db1"
    using assms(1) by (auto simp: replace_subgraph_def Let_def hit_def new_def split: option.splits if_splits sum.splits)
  define ts where "ts = map (\<lambda>i. the (find (\<lambda>t. t_id t = i) hit)) ordered"
  have steps: "all_steps (replace_one now run new) ts db = Inr db1" using steps by (simp add: ts_def)
  have dd: "distinct (map t_id hit)"
  proof -
    have "distinct (d_tasks db)" "inj_on t_id (set (d_tasks db))" using assms(2) by (simp_all add: task_ids_def distinct_map)
    moreover have "set hit \<subseteq> set (d_tasks db)" by (auto simp: live_def hit_def)
    ultimately show ?thesis by (auto simp: hit_def distinct_map effective_def list_tasks_def intro: inj_on_subset)
  qed
  have found: "find (\<lambda>t. t_id t = t_id x) hit = Some x" if "x \<in> set hit" for x
    using find_by_id [OF dd that] .
  have os: "set ordered = t_id ` set hit" "distinct ordered"
    using order_tasks_set [OF ordered] order_tasks_distinct [OF ordered dd] by auto
  have pick: "map t_id ts = ordered" "set ts = set hit"
  proof -
    have picked: "\<exists>x\<in>set hit. t_id x = i \<and> the (find (\<lambda>t. t_id t = i) hit) = x" if "i \<in> set ordered" for i
      using that os(1) found by fastforce
    have "map (t_id \<circ> (\<lambda>i. the (find (\<lambda>t. t_id t = i) hit))) ordered = ordered"
      by (rule map_idI) (use picked in fastforce)
    then show "map t_id ts = ordered" by (simp add: ts_def)
    have "x \<in> set ts" if x: "x \<in> set hit" for x
    proof -
      have "t_id x \<in> set ordered" unfolding os(1) using x by (rule imageI)
      moreover have "x = the (find (\<lambda>t. t_id t = t_id x) hit)" unfolding found [OF x] by simp
      ultimately show ?thesis unfolding ts_def set_map by (rule rev_image_eqI)
    qed
    moreover have "x \<in> set hit" if x: "x \<in> set ts" for x
    proof -
      obtain i where "i \<in> set ordered" "x = the (find (\<lambda>t. t_id t = i) hit)" using x unfolding ts_def set_map by blast
      then show ?thesis using picked by metis
    qed
    ultimately show "set ts = set hit" by blast
  qed
  have sub: "t_id ` set ts \<subseteq> set (task_ids db)" unfolding pick(2) by (auto simp: live_def task_ids_def hit_def)
  note all = all_replaced [OF steps _ sub, unfolded pick(1), OF os(2)]
  have new: "new (t_id t) = Some (fresh (t_id t) (t_retry t + 1))" if "t \<in> set hit" for t
    unfolding new_def by (rule map_of_ids [OF dd that])
  have none: "new i = None" if "i \<notin> t_id ` set hit" for i unfolding new_def by (rule map_of_no_id [OF that])
  have exhausted: "first_exhausted xs = None \<Longrightarrow> \<forall>t\<in>set xs. t_retry t < t_max t" for xs
    by (induction xs) (auto split: if_splits)
  show thesis
  proof (rule that [of ts new])
    show "set ts = {t \<in> live run db. t_id t \<in> affected ?rows seeds}" unfolding pick(2) by (auto simp: hit_def)
    show "distinct (map t_id ts)" using pick(1) os(2) by simp
    show "ids = map (\<lambda>t. fresh (t_id t) (t_retry t + 1)) ts"
    proof -
      have "ids = map (\<lambda>i. coalesce (new i) i) (map t_id ts)" unfolding pick(1) by (rule res(1))
      moreover have "coalesce (new (t_id t)) (t_id t) = fresh (t_id t) (t_retry t + 1)" if "t \<in> set ts" for t
        using new [of t] that unfolding pick(2) by (simp add: coalesce_def)
      ultimately show ?thesis by (simp cong: map_cong)
    qed
    show "d_runs db' = map (\<lambda>r. if r_id r = run then restart_afresh r else r) (d_runs db)"
      using res(2) all by (simp add: put_run_def)
    show "d_events db' = d_events db" using res(2) all by (simp add: put_run_def)
    show "d_tasks db' = map (\<lambda>x. if t_id x \<in> t_id ` set ts then mark_superseded now x else x) (d_tasks db)
       @ map (replacement now run new) ts" using res(2) all by (simp add: put_run_def)
    have "task_ids db' = task_ids db1" by (simp add: res(2) put_run_def task_ids_def)
    then show "distinct (task_ids db')" using all assms(2) by simp
    show "t_retry t < t_max t" if "t \<in> set ts" for t using exhausted [OF retries] that pick(2) by simp
    show "t_integration t \<notin> {I_PENDING, I_RETAINED}" if "t \<in> set ts" for t
    proof
      assume "t_integration t \<in> {I_PENDING, I_RETAINED}"
      then have "t_id t \<in> set (sort (map t_id (filter (\<lambda>t. t_integration t \<in> {I_PENDING, I_RETAINED}) hit)))"
        using that pick(2) by auto
      then show False unfolding trees by simp
    qed
    show "new i = None" if "i \<notin> t_id ` set ts" for i using none [of i] that unfolding pick(2) by simp
    show "new (t_id t) = Some (fresh (t_id t) (t_retry t + 1))" if "t \<in> set ts" for t using new that pick(2) by simp
  qed (use seeds in auto)
qed

section \<open>The graph after a retry\<close>

text \<open>
  What became of a task: an affected one has a queued replacement with a new identifier, which depends on what
  became of its dependencies; any other is still there as it was, and depends on nothing that was replaced.
\<close>

definition moved_along :: "(string \<Rightarrow> string) \<Rightarrow> string set \<Rightarrow> string \<Rightarrow> d_store \<Rightarrow> d_store \<Rightarrow> d_task \<Rightarrow> bool" where
  "moved_along moved A run db db' t \<longleftrightarrow>
     (if t_id t \<in> A
      then moved (t_id t) \<notin> set (task_ids db)
        \<and> (\<exists>n\<in>live run db'. t_id n = moved (t_id t) \<and> t_supersedes n = Some (t_id t) \<and> t_status n = T_QUEUED
              \<and> t_deps n = map moved (t_deps t))
      else moved (t_id t) = t_id t \<and> t \<in> live run db' \<and> t_deps t = map moved (t_deps t))"

lemma retry_graph:
  assumes "replace_subgraph now fresh run seeds db = Inr (ids, db')" "distinct (task_ids db)" "whole run db" "ranked rank run db"
  shows "whole run db' \<and> (\<exists>rank'. ranked rank' run db') \<and> (at_rest run db \<longrightarrow> at_rest run db')
    \<and> {t \<in> set (d_tasks db'). t_status t = T_RUNNING} \<subseteq> set (d_tasks db)
    \<and> (\<exists>moved. t_id ` live run db' = moved ` t_id ` live run db
          \<and> (\<forall>t\<in>live run db. moved_along moved (affected (effective (list_tasks run db)) seeds) run db db' t))"
proof -
  obtain new ts where ts: "set ts = {t \<in> live run db. t_id t \<in> affected (effective (list_tasks run db)) seeds}"
      and new: "\<And>i. i \<notin> t_id ` set ts \<Longrightarrow> new i = None"
        "\<And>t. t \<in> set ts \<Longrightarrow> new (t_id t) = Some (fresh (t_id t) (t_retry t + 1))"
      and rows: "d_tasks db' = map (\<lambda>x. if t_id x \<in> t_id ` set ts then mark_superseded now x else x) (d_tasks db)
         @ map (replacement now run new) ts" and d: "distinct (task_ids db')"
    by (rule replace_parts [OF assms(1,2)]) (rule that; assumption)
  define nid where "nid t = fresh (t_id t) (t_retry t + 1)" for t :: d_task
  have hit: "t_id t \<in> t_id ` set ts \<longleftrightarrow> t \<in> set ts" if "t \<in> set (d_tasks db)" for t
    using same_id [OF assms(2) that] unfolding ts live_def by blast
  have live': "live run db' = (live run db - set ts) \<union> replacement now run new ` set ts"
  proof -
    have "(\<lambda>x. if t_id x \<in> t_id ` set ts then mark_superseded now x else x) ` set (d_tasks db)
        = (\<lambda>x. if x \<in> set ts then mark_superseded now x else x) ` set (d_tasks db)"
      by (rule image_cong) (use hit in auto)
    then have all: "set (d_tasks db') = (\<lambda>x. if x \<in> set ts then mark_superseded now x else x) ` set (d_tasks db)
        \<union> replacement now run new ` set ts" unfolding rows by simp
    show ?thesis unfolding live_def all by (auto split: if_splits)
  qed
  have rid: "t_id (replacement now run new t) = nid t" if "t \<in> set ts" for t using new(2) that by (simp add: nid_def coalesce_def)
  have ids': "t_id ` live run db' = t_id ` (live run db - set ts) \<union> nid ` set ts"
    unfolding live' image_Un image_image using rid by simp
  have "distinct (map nid ts)" "set (map nid ts) \<inter> set (task_ids db) = {}"
  proof -
    have "map (t_id \<circ> replacement now run new) ts = map nid ts" using rid by simp
    moreover have "t_id \<circ> (\<lambda>x. if t_id x \<in> t_id ` set ts then mark_superseded now x else x) = t_id" by auto
    ultimately have "task_ids db' = task_ids db @ map nid ts" unfolding task_ids_def rows by (simp del: image_iff)
    then show "distinct (map nid ts)" "set (map nid ts) \<inter> set (task_ids db) = {}" using d by auto
  qed
  note nid = this
  have outside: "set (t_deps t) \<inter> t_id ` set ts = {}" if t: "t \<in> live run db - set ts" for t
  proof -
    have "consumes (effective (list_tasks run db)) (affected (effective (list_tasks run db)) seeds)" using affected_closed by blast
    moreover have "t_id t \<notin> affected (effective (list_tasks run db)) seeds" using t unfolding ts by blast
    ultimately have "set (t_deps t) \<inter> affected (effective (list_tasks run db)) seeds = {}"
      using t unfolding consumes_def effective_list by blast
    then show ?thesis unfolding ts by blast
  qed
  have kept: "d \<in> t_id ` (live run db - set ts)" if "d \<in> t_id ` live run db" "d \<notin> t_id ` set ts" for d using that by blast
  define target where "target d = coalesce (new d) d" for d
  have target: "d \<in> t_id ` set ts \<Longrightarrow> \<exists>x\<in>set ts. t_id x = d \<and> target d = nid x" "d \<notin> t_id ` set ts \<Longrightarrow> target d = d" for d
    using new(1) [of d] new(2) by (auto simp: target_def coalesce_def nid_def)
  have deps': "t_deps (replacement now run new t) = map target (t_deps t)" for t by (simp add: target_def)
  have whole': "set (t_deps t) \<subseteq> t_id ` live run db'" if "t \<in> live run db'" for t
  proof -
    from that consider "t \<in> live run db - set ts" | x where "x \<in> set ts" "t = replacement now run new x" unfolding live' by blast
    then show ?thesis
    proof cases
      case 1
      then have "set (t_deps t) \<subseteq> t_id ` live run db" using assms(3) by (simp add: whole_def)
      then show ?thesis using outside [OF 1] kept unfolding ids' by blast
    next
      case 2
      have x: "set (t_deps x) \<subseteq> t_id ` live run db" using assms(3) 2(1) by (simp add: whole_def ts)
      have "target e \<in> t_id ` live run db'" if "e \<in> set (t_deps x)" for e
        using target [of e] kept [of e] x that unfolding ids' by (cases "e \<in> t_id ` set ts") auto
      then show ?thesis unfolding 2(2) deps' by auto
    qed
  qed
  define rank' where "rank' i = (case find (\<lambda>t. nid t = i) ts of Some t \<Rightarrow> rank (t_id t) | None \<Rightarrow> rank i)" for i
  have rank_new: "rank' (nid t) = rank (t_id t)" if "t \<in> set ts" for t
    using find_by_id [OF nid(1) that] by (simp add: rank'_def)
  have rank_old: "rank' i = rank i" if "i \<in> set (task_ids db)" for i
  proof -
    have "i \<notin> nid ` set ts" using that nid(2) by auto
    then show ?thesis by (simp add: rank'_def find_none)
  qed
  have in_ids: "t_id ` live run db \<subseteq> set (task_ids db)" by (auto simp: live_def task_ids_def)
  have rank_target: "rank' (target e) = rank e" if "e \<in> t_id ` live run db" for e
    using target [of e] rank_new rank_old that in_ids by (cases "e \<in> t_id ` set ts") auto
  have "rank' e < rank' (t_id t)" if t: "t \<in> live run db'" and e: "e \<in> set (t_deps t)" for t e
  proof -
    from t consider "t \<in> live run db - set ts" | x where "x \<in> set ts" "t = replacement now run new x" unfolding live' by blast
    then show ?thesis
    proof cases
      case 1
      then have "rank e < rank (t_id t)" "e \<in> t_id ` live run db" "t_id t \<in> t_id ` live run db"
        using assms(3,4) e by (auto simp: ranked_def whole_def)
      then show ?thesis using rank_old [of e] rank_old [of "t_id t"] subsetD [OF in_ids] by simp
    next
      case 2
      then obtain g where g: "g \<in> set (t_deps x)" "e = target g" using e deps' by auto
      have "x \<in> live run db" using 2(1) by (simp add: ts)
      then have "rank g < rank (t_id x)" "g \<in> t_id ` live run db" using assms(3,4) g(1) by (auto simp: ranked_def whole_def)
      then show ?thesis using rank_target g(2) rank_new [OF 2(1)] rid [OF 2(1)] 2(2) by simp
    qed
  qed
  moreover have "at_rest run db \<longrightarrow> at_rest run db'" unfolding at_rest_def live' by auto
  moreover have "{t \<in> set (d_tasks db'). t_status t = T_RUNNING} \<subseteq> set (d_tasks db)"
    unfolding rows by (auto split: if_splits)
  moreover have "t_id ` live run db' = target ` t_id ` live run db"
  proof -
    have sub: "set ts \<subseteq> live run db" unfolding ts by blast
    have "target ` t_id ` set ts = nid ` set ts"
      unfolding image_image by (rule image_cong) (use new(2) in \<open>auto simp: target_def coalesce_def nid_def\<close>)
    moreover have "target ` t_id ` (live run db - set ts) = t_id ` (live run db - set ts)"
    proof -
      have "target (t_id t) = t_id t" if t: "t \<in> live run db - set ts" for t
        using target(2) hit [of t] t by (auto simp: live_def)
      then show ?thesis unfolding image_image by (rule image_cong [OF refl])
    qed
    moreover have "live run db = (live run db - set ts) \<union> set ts" using sub by blast
    ultimately show ?thesis unfolding ids' by (metis image_Un)
  qed
  moreover have "moved_along target (affected (effective (list_tasks run db)) seeds) run db db' t"
    if t: "t \<in> live run db" for t
  proof (cases "t \<in> set ts")
    case True
    then have n: "replacement now run new t \<in> live run db'" unfolding live' by blast
    have "target (t_id t) = nid t" using True new(2) by (simp add: target_def coalesce_def nid_def)
    moreover have "nid t \<notin> set (task_ids db)" using nid(2) True by auto
    moreover have "t_id t \<in> affected (effective (list_tasks run db)) seeds" using True by (simp add: ts)
    moreover have "t_supersedes (replacement now run new t) = Some (t_id t)" "t_status (replacement now run new t) = T_QUEUED"
      by simp_all
    ultimately show ?thesis
      using n rid [OF True] deps' [of t] unfolding moved_along_def by metis
  next
    case False
    then have out: "t_id t \<notin> affected (effective (list_tasks run db)) seeds" using t by (simp add: ts)
    have "target d = d" if "d \<in> set (t_deps t)" for d using outside [of t] t False that target(2) by blast
    then have "map target (t_deps t) = t_deps t" by (simp add: map_idI)
    moreover have "target (t_id t) = t_id t" using hit [of t] t False target(2) by (auto simp: live_def)
    ultimately show ?thesis using t False out unfolding moved_along_def live' by simp
  qed
  ultimately show ?thesis using whole' unfolding whole_def ranked_def by blast
qed

section \<open>Histories of the tables\<close>

datatype store_op =
    CREATE_RUN time string string string bool
  | CREATE_TASK time string string task_body "string list" bool int int "string option"
  | UPDATE_TASK time string task_update
  | RETRY time "string \<Rightarrow> nat \<Rightarrow> string" string
  | RESUME time "string \<Rightarrow> nat \<Rightarrow> string" string
  | TRANSITION time string run_status string "run_status list" "nat option" "string option" "string option"
  | FINALIZE time string run_status string nat nat "string option"
  | COMPLETE time string run_status
  | RECONCILE time string
  | RECOVER time

definition store_op :: "d_store \<Rightarrow> store_op \<Rightarrow> d_error + d_store" where
  "store_op db x =
     (case x of
        CREATE_RUN now i parent prun team \<Rightarrow> create_run now i parent prun team db
      | CREATE_TASK now i run body deps req retry mx old \<Rightarrow> create_task now i run body deps req retry mx old db
      | UPDATE_TASK now i u \<Rightarrow> map_sum id snd (update_task now i u db)
      | RETRY now fresh i \<Rightarrow> map_sum id snd (prepare_retry now fresh i db)
      | RESUME now fresh run \<Rightarrow> map_sum id snd (prepare_resume now fresh run db)
      | TRANSITION now i st ph ex ver syn veri \<Rightarrow> Inr (snd (transition_run now i st ph ex ver syn veri db))
      | FINALIZE now i st ph ver n veri \<Rightarrow> map_sum id snd (finalize_run now i st ph ver n veri db)
      | COMPLETE now i st \<Rightarrow> complete_run now i st db
      | RECONCILE now i \<Rightarrow> reconcile_run now i db
      | RECOVER now \<Rightarrow> map_sum id snd (reconcile_interrupted now db))"

text \<open>A raising operation is rolled back.\<close>

definition store_step :: "d_store \<Rightarrow> store_op \<Rightarrow> d_store" where
  "store_step db x = (case store_op db x of Inl e \<Rightarrow> db | Inr db' \<Rightarrow> db')"

definition fresh_store :: "string list \<Rightarrow> d_store" where
  "fresh_store ss = \<lparr>sessions = ss, d_runs = [], d_tasks = [], d_events = []\<rparr>"

definition events_ok :: "d_store \<Rightarrow> bool" where
  "events_ok db \<longleftrightarrow> distinct (map (\<lambda>e. (e_run e, e_version e)) (d_events db))
     \<and> (\<forall>e\<in>set (d_events db). e_run e \<in> r_id ` set (d_runs db)
          \<and> (\<forall>r\<in>set (d_runs db). r_id r = e_run e \<longrightarrow> e_version e \<le> r_version r))
     \<and> distinct (map r_id (d_runs db)) \<and> distinct (task_ids db)"

lemma events_ok_cong: "d_runs db' = d_runs db \<Longrightarrow> d_events db' = d_events db \<Longrightarrow> distinct (task_ids db') \<Longrightarrow> events_ok db \<Longrightarrow> events_ok db'"
  by (simp add: events_ok_def)

lemma events_ok_put_run:
  assumes "events_ok db" "\<And>r. r_id (f r) = r_id r" "\<And>r. r_version r \<le> r_version (f r)"
  shows "events_ok (put_run f i db)"
proof -
  have "map r_id (d_runs (put_run f i db)) = map r_id (d_runs db)" using assms(2) by (simp add: put_run_def)
  moreover have "e_version e \<le> r_version r'"
    if e: "e \<in> set (d_events db)" and r: "r' \<in> set (d_runs (put_run f i db))" "r_id r' = e_run e" for e r'
  proof -
    obtain r where "r \<in> set (d_runs db)" "r' = (if r_id r = i then f r else r)" using r(1) by (auto simp: put_run_def)
    moreover have "r_id r = e_run e" using calculation(2) r(2) assms(2) by (simp split: if_splits)
    ultimately have "e_version e \<le> r_version r" "r_version r \<le> r_version r'"
      using assms(1,3) e unfolding events_ok_def by auto
    then show ?thesis by (rule order_trans)
  qed
  moreover have "d_events (put_run f i db) = d_events db" "task_ids (put_run f i db) = task_ids db"
    by (simp_all add: put_run_def task_ids_def)
  moreover have "e_run e \<in> r_id ` set (d_runs (put_run f i db))" if "e \<in> set (d_events db)" for e
  proof -
    have "e_run e \<in> set (map r_id (d_runs db))" using assms(1) that by (simp add: events_ok_def)
    then show ?thesis unfolding calculation(1) [symmetric] by simp
  qed
  ultimately show ?thesis using assms(1) unfolding events_ok_def by simp
qed

lemma events_ok_insert: "events_ok db \<Longrightarrow> insert_task t db = Inr db' \<Longrightarrow> events_ok db'"
  by (auto simp: insert_task_def events_ok_def task_ids_def get_task_none split: if_splits)

lemma events_ok_put_task: "events_ok db \<Longrightarrow> (\<And>t. t_id (f t) = t_id t) \<Longrightarrow> events_ok (put_task f i db)"
  by (rule events_ok_cong [where db = db]) (auto simp: events_ok_def)

lemma get_run_some: "get_run i db = Some r \<Longrightarrow> r \<in> set (d_runs db) \<and> r_id r = i"
  by (auto simp: get_run_def find_Some_iff)

lemma get_run_none: "get_run i db = None \<longleftrightarrow> i \<notin> r_id ` set (d_runs db)"
  by (auto simp: get_run_def find_None_iff)

lemma finalize_ok:
  assumes "events_ok db" "finalize_run now i st ph ver n veri db = Inr (e, db')"
  shows "events_ok db'"
proof (cases e)
  case None
  then show ?thesis using assms by (auto simp: finalize_run_def Let_def split: if_splits option.splits)
next
  case (Some ev)
  then obtain r where r: "get_run i db = Some r" "r_version r = ver"
    and ev: "e_run ev = i" "e_version ev = ver + 1"
    and db': "db' = (put_run (\<lambda>r. r\<lparr>r_status := st, r_phase := ph,
        r_verification := (case veri of Some x \<Rightarrow> Some x | None \<Rightarrow> r_verification r),
        r_version := ver + 1, r_completed := Some now\<rparr>) i db)\<lparr>d_events := d_events db @ [ev]\<rparr>"
    using assms(2) by (auto simp: finalize_run_def Let_def put_run_def split: if_splits option.splits)
  have inj: "inj_on r_id (set (d_runs db))" using assms(1) by (simp add: events_ok_def distinct_map)
  have same: "x = r" if "x \<in> set (d_runs db)" "r_id x = i" for x
    using inj_onD [OF inj _ that(1)] that(2) get_run_some [OF r(1)] by simp
  let ?f = "\<lambda>x. if r_id x = i then r\<lparr>r_status := st, r_phase := ph,
        r_verification := (case veri of Some x \<Rightarrow> Some x | None \<Rightarrow> r_verification r),
        r_version := ver + 1, r_completed := Some now\<rparr> else x"
  have runs: "d_runs db' = map ?f (d_runs db)"
    unfolding db' put_run_def by (auto dest: same)
  have rid: "r_id r = i" using get_run_some [OF r(1)] by simp
  have ids: "map r_id (d_runs db') = map r_id (d_runs db)" unfolding runs by (simp add: rid)
  have evs: "d_events db' = d_events db @ [ev]" "task_ids db' = task_ids db" unfolding db' by (simp_all add: put_run_def task_ids_def)
  have old: "e_version x \<le> ver" if "x \<in> set (d_events db)" "e_run x = i" for x
    using assms(1) that get_run_some [OF r(1)] r(2) unfolding events_ok_def by force
  have "(i, ver + 1) \<notin> set (map (\<lambda>e. (e_run e, e_version e)) (d_events db))" using old by fastforce
  moreover have "e_version x \<le> r_version y"
    if x: "x \<in> set (d_events db @ [ev])" and y: "y \<in> set (d_runs db')" "r_id y = e_run x" for x y
  proof -
    obtain z where z: "z \<in> set (d_runs db)" "y = ?f z" using y(1) runs by auto
    show ?thesis
    proof (cases "r_id z = i")
      case True
      then have "e_run x = i" using y(2) z(2) rid by simp
      then show ?thesis using x old [of x] ev z True by auto
    next
      case False
      then have "x \<in> set (d_events db)" using x y(2) z(2) ev(1) by auto
      then show ?thesis using assms(1) z y(2) False unfolding events_ok_def by simp
    qed
  qed
  moreover have "e_run x \<in> r_id ` set (d_runs db')" if "x \<in> set (d_events db @ [ev])" for x
  proof -
    have "i \<in> r_id ` set (d_runs db)" using get_run_none [of i db] r(1) by simp
    then have "e_run x \<in> set (map r_id (d_runs db))"
      using that assms(1) ev(1) unfolding events_ok_def by (cases "x = ev") simp_all
    then show ?thesis unfolding ids [symmetric] by simp
  qed
  ultimately show ?thesis using assms(1) ev unfolding events_ok_def evs ids by simp
qed

lemma transition_ok: "events_ok db \<Longrightarrow> events_ok (snd (transition_run now i st ph ex ver syn veri db))"
  by (auto simp: transition_run_def split: option.splits intro!: events_ok_put_run)

lemma create_task_ok:
  assumes "events_ok db" "create_task now i run body deps req retry mx old db = Inr db'"
  shows "events_ok db'"
proof (cases old)
  case None
  then show ?thesis using assms by (auto simp: create_task_def Let_def split: if_splits intro: events_ok_insert)
next
  case (Some o')
  then obtain db1 where "insert_task (queued_task now i run body deps req (nat retry) (nat mx) old)
        (put_task (mark_superseded now) o' db) = Inr db1" "db' = put_run restart_run run db1"
    using assms(2) by (auto simp: create_task_def Let_def split: if_splits option.splits sum.splits)
  moreover have "events_ok (put_task (mark_superseded now) o' db)" by (rule events_ok_put_task [OF assms(1)]) simp
  ultimately show ?thesis using events_ok_insert events_ok_put_run [of db1 restart_run run] by (simp add: restart_run_def)
qed

lemma create_run_ok: "events_ok db \<Longrightarrow> create_run now i parent prun team db = Inr db' \<Longrightarrow> events_ok db'"
  by (auto simp: create_run_def events_ok_def task_ids_def get_run_none split: if_splits)

lemma update_ok: "events_ok db \<Longrightarrow> update_task now i u db = Inr (b, db') \<Longrightarrow> events_ok db'"
  by (auto simp: update_task_def split: option.splits if_splits intro!: events_ok_put_task)

lemma replace_ok:
  assumes "events_ok db" "replace_subgraph now fresh run seeds db = Inr (ids, db')"
  shows "events_ok db'"
proof -
  have d: "distinct (task_ids db)" using assms(1) by (simp add: events_ok_def)
  have runs: "d_runs db' = d_runs (put_run restart_afresh run db)" and evs: "d_events db' = d_events db" and d': "distinct (task_ids db')"
    by (rule replace_parts [OF assms(2) d], simp add: put_run_def)+
  have "events_ok (put_run restart_afresh run db)"
    by (rule events_ok_put_run [OF assms(1)]) (simp_all add: restart_afresh_def)
  then show ?thesis by (rule events_ok_cong [rotated 3]) (use runs evs d' in \<open>simp_all add: put_run_def\<close>)
qed

lemma complete_ok: "events_ok db \<Longrightarrow> complete_run now i st db = Inr db' \<Longrightarrow> events_ok db'"
  by (auto simp: complete_run_def split: option.splits if_splits sum.splits dest: finalize_ok)

lemma map_sum_Inr: "map_sum id snd x = Inr y \<longleftrightarrow> (\<exists>a. x = Inr (a, y))"
  by (cases x) auto

lemma reconcile_ok: "events_ok db \<Longrightarrow> reconcile_run now i db = Inr db' \<Longrightarrow> events_ok db'"
  by (auto simp: reconcile_run_def Let_def map_sum_Inr split: option.splits if_splits prod.splits
      dest: finalize_ok intro: transition_ok)

lemma all_steps_inv: "(\<And>x s s'. P s \<Longrightarrow> f x s = Inr s' \<Longrightarrow> P s') \<Longrightarrow> P s \<Longrightarrow> all_steps f xs s = Inr s' \<Longrightarrow> P s'"
  by (induction xs arbitrary: s) (auto split: sum.splits)

lemma interrupt_ok:
  assumes "events_ok db"
  shows "events_ok (interrupt_run now i db)"
proof -
  let ?db = "db\<lparr>d_tasks := map (\<lambda>t. if in_flight i t then interrupt_task now t else t) (d_tasks db)\<rparr>"
  have "task_ids ?db = task_ids db" by (auto simp: task_ids_def interrupt_task_def)
  then have "events_ok ?db" using assms by (simp add: events_ok_def)
  then show ?thesis unfolding interrupt_run_def by (rule events_ok_put_run) simp_all
qed

lemma recover_ok:
  assumes "events_ok db" "reconcile_interrupted now db = Inr (is, db')"
  shows "events_ok db'"
proof -
  have f: "events_ok (foldl (\<lambda>db i. interrupt_run now i db) db js)" for js
    using assms(1) by (induction js rule: rev_induct) (auto intro: interrupt_ok)
  have split: "map_sum id (Pair h) x = Inr (is, db') \<Longrightarrow> x = Inr db' \<and> is = h" for h and x :: "d_error + d_store"
    by (cases x) auto
  note steps = conjunct1 [OF split [OF assms(2) [unfolded reconcile_interrupted_def Let_def]]]
  show ?thesis by (rule all_steps_inv [of events_ok "reconcile_run now", OF reconcile_ok f steps])
qed

lemma prepare_retry_ok: "events_ok db \<Longrightarrow> prepare_retry now fresh i db = Inr (ids, db') \<Longrightarrow> events_ok db'"
  unfolding prepare_retry_def by (auto split: option.splits if_splits dest: replace_ok)

lemma prepare_resume_ok: "events_ok db \<Longrightarrow> prepare_resume now fresh i db = Inr (ids, db') \<Longrightarrow> events_ok db'"
  unfolding prepare_resume_def Let_def by (auto split: option.splits if_splits dest: replace_ok)

interpretation delegation_store: op_invariant store_step events_ok
proof
  fix db x assume ok: "events_ok db"
  have "events_ok db'" if "store_op db x = Inr db'" for db'
    using that ok by (cases x)
      (auto simp: store_op_def map_sum_Inr intro: create_run_ok create_task_ok update_ok prepare_retry_ok prepare_resume_ok transition_ok
        finalize_ok complete_ok reconcile_ok recover_ok)
  then show "events_ok (store_step db x)" using ok by (simp add: store_step_def split: sum.splits)
qed

section \<open>Witnesses\<close>

lemma chain_retry:
  "\<exists>db'. replace_subgraph 9 (\<lambda>i n. i @ ''-retry'') ''r'' {''a''} (chain_store T_FAILED) = Inr ([''a-retry'', ''b-retry''], db')"
proof -
  have "map_sum id fst (replace_subgraph 9 (\<lambda>i n. i @ ''-retry'') ''r'' {''a''} (chain_store T_FAILED)) = Inr [''a-retry'', ''b-retry'']"
    by code_simp
  then show ?thesis by (cases "replace_subgraph 9 (\<lambda>i n. i @ ''-retry'') ''r'' {''a''} (chain_store T_FAILED)") auto
qed

section \<open>Properties\<close>

text \<open>
  C21. A retry replaces the seeds and what consumes them, and nothing else: the affected tasks are the least set
  that holds the seeds and every effective task that depends on one of it; the rows of all others are untouched, each
  affected row is superseded, and has one queued replacement, with one more retry, within the bound of the task.
\<close>

theorem retry_replaces_consumers:
  assumes "replace_subgraph now fresh run seeds db = Inr (ids, db')" "distinct (task_ids db)"
  shows "\<exists>A. seeds \<subseteq> A \<and> consumes (effective (list_tasks run db)) A
      \<and> (\<forall>B. seeds \<subseteq> B \<longrightarrow> consumes (effective (list_tasks run db)) B \<longrightarrow> A \<subseteq> B)
      \<and> (\<forall>t\<in>set (d_tasks db).
           if t \<in> live run db \<and> t_id t \<in> A
           then mark_superseded now t \<in> set (d_tasks db')
             \<and> (\<exists>n\<in>set (d_tasks db'). t_id n \<in> set ids \<and> t_supersedes n = Some (t_id t) \<and> t_status n = T_QUEUED
                  \<and> t_retry n = t_retry t + 1 \<and> t_retry n \<le> t_max t)
           else t \<in> set (d_tasks db'))
      \<and> length (d_tasks db') = length (d_tasks db) + length ids"
proof -
  let ?rows = "effective (list_tasks run db)"
  obtain new ts where ts: "set ts = {t \<in> live run db. t_id t \<in> affected ?rows seeds}"
      and fresh: "\<And>t. t \<in> set ts \<Longrightarrow> new (t_id t) = Some (fresh (t_id t) (t_retry t + 1))"
      and retry: "\<And>t. t \<in> set ts \<Longrightarrow> t_retry t < t_max t"
      and rows: "d_tasks db' = map (\<lambda>x. if t_id x \<in> t_id ` set ts then mark_superseded now x else x) (d_tasks db)
         @ map (replacement now run new) ts" and ids: "ids = map (\<lambda>t. fresh (t_id t) (t_retry t + 1)) ts"
    by (rule replace_parts [OF assms]) (rule that; assumption)
  have hit: "t_id t \<in> t_id ` set ts \<longleftrightarrow> t \<in> set ts" if "t \<in> set (d_tasks db)" for t
    using same_id [OF assms(2) that] unfolding ts live_def by blast
  have each: "if t \<in> live run db \<and> t_id t \<in> affected ?rows seeds
      then mark_superseded now t \<in> set (d_tasks db')
        \<and> (\<exists>n\<in>set (d_tasks db'). t_id n \<in> set ids \<and> t_supersedes n = Some (t_id t) \<and> t_status n = T_QUEUED
             \<and> t_retry n = t_retry t + 1 \<and> t_retry n \<le> t_max t)
      else t \<in> set (d_tasks db')" if t: "t \<in> set (d_tasks db)" for t
  proof (cases "t \<in> set ts")
    case True
    have "mark_superseded now t \<in> set (d_tasks db')" unfolding rows using True t by force
    moreover have "replacement now run new t \<in> set (d_tasks db')" unfolding rows using True by simp
    moreover have "t_id (replacement now run new t) \<in> set ids" using fresh [OF True] True by (simp add: ids coalesce_def)
    moreover have "t \<in> live run db \<and> t_id t \<in> affected ?rows seeds" using True unfolding ts by simp
    moreover have "t_retry (replacement now run new t) \<le> t_max t" using retry [OF True] by simp
    ultimately show ?thesis
      by (simp only: if_True simp_thms) (intro conjI bexI [of _ "replacement now run new t"]; simp)
  next
    case False
    then have "t \<in> set (d_tasks db')" unfolding rows using t hit [OF t] by force
    moreover have "\<not> (t \<in> live run db \<and> t_id t \<in> affected ?rows seeds)" using False unfolding ts by simp
    ultimately show ?thesis by (simp only: if_False)
  qed
  have len: "length (d_tasks db') = length (d_tasks db) + length ids" by (simp add: rows ids)
  show ?thesis
    by (rule exI [of _ "affected ?rows seeds"], intro conjI ballI allI impI)
      (rule affected_closed [THEN conjunct1] affected_closed [THEN conjunct2] affected_least each len; assumption?)+
qed

lemma retry_replaces_consumers_witness:
  "\<exists>db'. replace_subgraph 9 (\<lambda>i n. i @ ''-retry'') ''r'' {''a''} (chain_store T_FAILED) = Inr ([''a-retry'', ''b-retry''], db')
     \<and> length (d_tasks db') = length (d_tasks (chain_store T_FAILED)) + 2"
proof -
  obtain db' where r: "replace_subgraph 9 (\<lambda>i n. i @ ''-retry'') ''r'' {''a''} (chain_store T_FAILED) = Inr ([''a-retry'', ''b-retry''], db')"
    using chain_retry by blast
  have "length (d_tasks db') = length (d_tasks (chain_store T_FAILED)) + length [''a-retry'', ''b-retry'']"
    using retry_replaces_consumers [OF r chain_facts(1)] by blast
  then show ?thesis using r by simp
qed

text \<open>
  C13. A retry leaves a graph the scheduler can finish: when every dependency of an effective task is an effective task
  and there is no cycle, both hold afterwards, and the identifiers stay distinct. The dependencies move to the
  replacements: each affected task has a queued replacement with a new identifier, whose dependencies are what became
  of the dependencies of the old one, in their order; every other effective task is unchanged and depends on nothing that was
  replaced; and there are no other effective tasks. Every running task was running before, as it is.
\<close>

theorem retry_keeps_graph:
  assumes "replace_subgraph now fresh run seeds db = Inr (ids, db')" "distinct (task_ids db)" "whole run db" "ranked rank run db"
  shows "distinct (task_ids db') \<and> whole run db' \<and> (\<exists>rank'. ranked rank' run db') \<and> (at_rest run db \<longrightarrow> at_rest run db')
    \<and> {t \<in> set (d_tasks db'). t_status t = T_RUNNING} \<subseteq> set (d_tasks db)
    \<and> (\<exists>moved. t_id ` live run db' = moved ` t_id ` live run db
          \<and> (\<forall>t\<in>live run db. moved_along moved (affected (effective (list_tasks run db)) seeds) run db db' t))"
proof -
  have "distinct (task_ids db')" by (rule replace_parts [OF assms(1,2)])
  then show ?thesis using retry_graph [OF assms] by blast
qed

lemma retry_keeps_graph_witness:
  "\<exists>db' rank. replace_subgraph 9 (\<lambda>i n. i @ ''-retry'') ''r'' {''a''} (chain_store T_FAILED) = Inr ([''a-retry'', ''b-retry''], db')
     \<and> whole ''r'' db' \<and> ranked rank ''r'' db'"
proof -
  obtain db' where r: "replace_subgraph 9 (\<lambda>i n. i @ ''-retry'') ''r'' {''a''} (chain_store T_FAILED) = Inr ([''a-retry'', ''b-retry''], db')"
    using chain_retry by blast
  show ?thesis using retry_keeps_graph [OF r chain_facts(1,2) chain_ranked] r by blast
qed

text \<open>
  C22. A version of a run ends at most once: over every history of creations, changes, retries, transitions,
  finalizations, reconciliations and restarts, no two terminal events have the same run and version, and none
  has a version the run has not reached.
\<close>

theorem terminal_events_are_distinct:
  "(let db = foldl store_step (fresh_store ss) ops
    in distinct (map (\<lambda>e. (e_run e, e_version e)) (d_events db))
       \<and> list_all (\<lambda>e. list_ex (\<lambda>r. r_id r = e_run e \<and> e_version e \<le> r_version r) (d_runs db)) (d_events db))"
proof -
  have "events_ok (foldl store_step (fresh_store ss) ops)"
    by (rule delegation_store.run_inv) (simp add: events_ok_def fresh_store_def task_ids_def)
  then show ?thesis unfolding events_ok_def Let_def list_all_iff list_ex_iff by fastforce
qed

text \<open>
  A restart ends a run without a terminal event: a run with tasks in flight becomes partial and nothing is
  published; reconciling it afterwards publishes nothing either, for it is already terminal.
\<close>

theorem restart_publishes_nothing:
  "let db = snd (the (case reconcile_interrupted 9 (chain_store T_RUNNING) of Inr x \<Rightarrow> Some x | Inl e \<Rightarrow> None))
   in map r_status (d_runs db) = [D_PARTIAL] \<and> d_events db = []
     \<and> (case reconcile_run 10 ''r'' db of Inr db' \<Rightarrow> d_events db' = [] | Inl e \<Rightarrow> False)"
  by code_simp

text \<open>
  Replacing a single task strands its consumers: \<open>create_task\<close> with a superseded task leaves their dependencies
  on the old identifier, which is no effective task any more, so that the scheduler fails them.
\<close>

theorem single_replacement_strands_consumers:
  "(case create_task 5 ''c'' ''r'' sample_body [] True 1 1 (Some ''a'') (chain_store T_FAILED) of
      Inr db \<Rightarrow> map (\<lambda>x. (t_id (fst x), snd x)) (blocked_of ''r'' db) = [(''b'', ''Dependency record is unavailable'')]
        \<and> map t_id (ready_of ''r'' db) = [''c'']
    | Inl e \<Rightarrow> False)"
  by code_simp

end
