(* ===== verification/Call_Validation.thy ===== *)
theory Call_Validation
  imports Json_Values
begin

text \<open>
  \<^verbatim>\<open>core/schema_validator.py\<close> and \<^verbatim>\<open>llm/tool_call_validator.py\<close>: the coercion of parameters a model has written as
  strings, and the check of the calls of one action before any of them runs. The library \<^verbatim>\<open>jsonschema\<close> is a parameter:
  the violations of coerced parameters, or the message of a broken schema; so are the conversion of a text
  to a float and the text of parameters that is compared for duplicates.
\<close>

section \<open>Integers from text\<close>

definition digit_of :: "char \<Rightarrow> nat option" where
  "digit_of c = (let n = of_char c :: nat in if 48 \<le> n \<and> n \<le> 57 then Some (n - 48) else None)"

text \<open>Digits with single underscores between them.\<close>

fun scan_digits :: "nat \<Rightarrow> bool \<Rightarrow> string \<Rightarrow> nat option" where
  "scan_digits n prev [] = (if prev then Some n else None)"
| "scan_digits n prev (c # cs) =
     (case digit_of c of
        Some d \<Rightarrow> scan_digits (10 * n + d) True cs
      | None \<Rightarrow> if c = CHR ''_'' \<and> prev then scan_digits n False cs else None)"

definition max_int_digits :: nat where "max_int_digits = 4300"

definition py_int_of :: "string \<Rightarrow> int option" where
  "py_int_of s =
     (let t = str_strip s;
          (neg, body) = (case t of [] \<Rightarrow> (False, [])
             | c # cs \<Rightarrow> if c = CHR ''-'' then (True, cs) else if c = CHR ''+'' then (False, cs) else (False, t))
      in if length (filter (\<lambda>c. digit_of c \<noteq> None) body) > max_int_digits then None
         else map_option (\<lambda>n. if neg then - int n else int n) (scan_digits 0 False body))"

section \<open>Coercion\<close>

record prop_schema =
  type_name :: string
  const_value :: "py_value option"

definition no_schema :: prop_schema where
  "no_schema = \<lparr>type_name = [], const_value = None\<rparr>"

type_synonym float_reader = "string \<Rightarrow> py_float option"

definition or_value :: "py_value \<Rightarrow> 'a option \<Rightarrow> ('a \<Rightarrow> py_value) \<Rightarrow> py_value" where
  "or_value v x f = (case x of None \<Rightarrow> v | Some y \<Rightarrow> f y)"

definition coerce_const :: "float_reader \<Rightarrow> string \<Rightarrow> py_value option \<Rightarrow> py_value" where
  "coerce_const fl s c =
     (case c of
        Some (PY_BOOL b) \<Rightarrow> or_value (PY_STR s) (py_int_of s) PY_INT
      | Some (PY_INT i) \<Rightarrow> or_value (PY_STR s) (py_int_of s) PY_INT
      | Some (PY_FLOAT x) \<Rightarrow> or_value (PY_STR s) (fl s) PY_FLOAT
      | _ \<Rightarrow> PY_STR s)"

definition coerce_value :: "float_reader \<Rightarrow> py_value \<Rightarrow> prop_schema \<Rightarrow> py_value" where
  "coerce_value fl v p =
     (case v of
        PY_STR s \<Rightarrow>
          if type_name p = ''integer'' then or_value v (py_int_of s) PY_INT
          else if type_name p = ''number'' then or_value v (fl s) PY_FLOAT
          else if type_name p = ''boolean''
          then if str_lower s \<in> {''true'', ''1'', ''yes''} then PY_BOOL True
               else if str_lower s \<in> {''false'', ''0'', ''no'', []} then PY_BOOL False
               else v
          else if type_name p = ''null'' \<and> str_lower s \<in> {''null'', ''none'', []} then PY_NONE
          else coerce_const fl s (const_value p)
      | _ \<Rightarrow> v)"

section \<open>Parsing parameters\<close>

type_synonym call_params = "(string, py_value) dict"

record violation =
  v_path :: "string list"
  v_message :: string
  v_schema_path :: string
  v_keyword :: string

record schema =
  properties :: "(string, prop_schema) dict"
  check_params :: "call_params \<Rightarrow> string + violation list"

record parse_result =
  is_valid :: bool
  errors :: "violation list"
  coerced_params :: "call_params option"

definition coerce_params :: "float_reader \<Rightarrow> schema \<Rightarrow> call_params \<Rightarrow> call_params" where
  "coerce_params fl s ps =
     map (\<lambda>(k, v). (k, coerce_value fl v (the_default no_schema (dict_get (properties s) k)))) ps"

definition safe_parse :: "float_reader \<Rightarrow> schema \<Rightarrow> call_params \<Rightarrow> parse_result" where
  "safe_parse fl s ps =
     (let coerced = coerce_params fl s ps
      in case check_params s coerced of
           Inl msg \<Rightarrow> \<lparr>is_valid = False,
             errors = [\<lparr>v_path = [], v_message = ''Schema error: '' @ msg, v_schema_path = ''/'', v_keyword = ''schema''\<rparr>],
             coerced_params = None\<rparr>
         | Inr [] \<Rightarrow> \<lparr>is_valid = True, errors = [], coerced_params = Some coerced\<rparr>
         | Inr vs \<Rightarrow> \<lparr>is_valid = False, errors = vs, coerced_params = None\<rparr>)"

definition path_text :: "string list \<Rightarrow> string" where
  "path_text p = ''/'' @ str_join ''/'' p"

definition error_line :: "violation \<Rightarrow> string" where
  "error_line e =
     (if v_keyword e = ''required''
      then ''  - Missing required parameter ''
        @ str_quoted (case split_on (CHR 0x27) (v_message e) of x # f # xs \<Rightarrow> f | _ \<Rightarrow> path_text (v_path e))
        @ ''. Please retry with the required parameter.''
      else ''  - '' @ path_text (v_path e) @ '': '' @ v_message e)"

definition format_errors :: "violation list \<Rightarrow> string" where
  "format_errors es = str_join [CHR 0x0A] (''Tool call validation failed:'' # map error_line es)"

section \<open>The calls of an action\<close>

definition py_isdigit :: "string \<Rightarrow> bool" where
  "py_isdigit s \<longleftrightarrow> s \<noteq> [] \<and> list_all (\<lambda>c. digit_of c \<noteq> None \<or> c \<in> {CHR 0xB2, CHR 0xB3, CHR 0xB9}) s"

definition legacy_path :: "violation \<Rightarrow> string" where
  "legacy_path e = ''params'' @ concat (map (\<lambda>part. if py_isdigit part then ''['' @ part @ '']'' else ''.'' @ part)
     (filter (\<lambda>part. part \<noteq> []) (split_on (CHR ''/'') (path_text (v_path e)))))"

definition feedback :: "violation list \<Rightarrow> string" where
  "feedback es =
     (let paths = map legacy_path (filter (\<lambda>e. path_text (v_path e) \<noteq> ''/'') es)
      in format_errors es
         @ (if paths \<noteq> [] then CHR 0x0A # ''  Parameter paths: '' @ str_join '', '' paths else []))"

record tool_call =
  call_name :: string
  call_params :: "call_params option"

datatype call_check =
    CALLS_VALID
  | UNKNOWN_TOOL string "string list"
  | INVALID_PARAMS string string
  | DUPLICATE_CALL string

text \<open>A tool without parameters in its schema is not checked; parameters that are \<open>None\<close> are a value that is not
  an object, missing or empty ones are the empty object.\<close>

type_synonym schemas = "(string, schema option) dict"

fun check_each :: "float_reader \<Rightarrow> schemas \<Rightarrow> tool_call list \<Rightarrow> call_check" where
  "check_each fl ss [] = CALLS_VALID"
| "check_each fl ss (c # cs) =
     (case dict_get ss (call_name c) of
        None \<Rightarrow> UNKNOWN_TOOL (call_name c) (sort (dict_keys ss))
      | Some s \<Rightarrow>
          (case call_params c of
             None \<Rightarrow> INVALID_PARAMS (call_name c) ''parameters must be an object''
           | Some ps \<Rightarrow>
               (case s of
                  None \<Rightarrow> check_each fl ss cs
                | Some sch \<Rightarrow>
                    (let r = safe_parse fl sch ps
                     in if is_valid r then check_each fl ss cs
                        else INVALID_PARAMS (call_name c) (feedback (errors r))))))"

fun find_duplicate :: "(tool_call \<Rightarrow> string) \<Rightarrow> (string \<times> string) set \<Rightarrow> tool_call list \<Rightarrow> string option" where
  "find_duplicate shown seen [] = None"
| "find_duplicate shown seen (c # cs) =
     (if (call_name c, shown c) \<in> seen then Some (call_name c)
      else find_duplicate shown (insert (call_name c, shown c) seen) cs)"

definition validate_tool_calls :: "float_reader \<Rightarrow> (tool_call \<Rightarrow> string) \<Rightarrow> schemas \<Rightarrow> tool_call list \<Rightarrow> call_check" where
  "validate_tool_calls fl shown ss cs =
     (case check_each fl ss cs of
        CALLS_VALID \<Rightarrow>
          if length cs > 1
          then (case find_duplicate shown {} cs of None \<Rightarrow> CALLS_VALID | Some n \<Rightarrow> DUPLICATE_CALL n)
          else CALLS_VALID
      | r \<Rightarrow> r)"

section \<open>Lemmas\<close>

definition digit_char :: "nat \<Rightarrow> char" where
  "digit_char d = char_of (48 + d)"

fun show_nat :: "nat \<Rightarrow> string" where
  "show_nat n = (if n < 10 then [digit_char n] else show_nat (n div 10) @ [digit_char (n mod 10)])"

definition show_int :: "int \<Rightarrow> string" where
  "show_int i = (if i < 0 then CHR ''-'' # show_nat (nat (- i)) else show_nat (nat i))"

declare show_nat.simps [simp del]

lemma digit_of_char [simp]: "d < 10 \<Longrightarrow> digit_of (digit_char d) = Some d"
  by (simp add: digit_of_def digit_char_def)

lemma scan_snoc: "scan_digits m b xs = Some k \<Longrightarrow> d < 10 \<Longrightarrow> scan_digits m b (xs @ [digit_char d]) = Some (10 * k + d)"
  by (induction m b xs rule: scan_digits.induct) (auto split: option.splits if_splits)

lemma scan_show: "scan_digits 0 False (show_nat n) = Some n"
proof (induction n rule: show_nat.induct)
  case (1 n)
  show ?case
  proof (cases "n < 10")
    case False
    then have "scan_digits 0 False (show_nat (n div 10)) = Some (n div 10)" using 1 by simp
    from scan_snoc [OF this, of "n mod 10"] show ?thesis using False by (subst show_nat.simps) simp
  qed (subst show_nat.simps, simp)
qed

lemma digits_shown: "c \<in> set (show_nat n) \<Longrightarrow> \<exists>d < 10. c = digit_char d"
proof (induction n rule: show_nat.induct)
  case (1 n)
  show ?case
  proof (cases "n < 10")
    case True
    then show ?thesis using 1(2) by (subst (asm) show_nat.simps) auto
  next
    case False
    from 1(2) have "c \<in> set (show_nat (n div 10)) \<or> c = digit_char (n mod 10)"
      using False by (subst (asm) show_nat.simps) auto
    moreover have "n mod 10 < 10" by simp
    ultimately show ?thesis using 1(1) [OF False] by blast
  qed
qed

lemma digit_plain:
  assumes "d < 10"
  shows "\<not> is_space (digit_char d) \<and> digit_char d \<noteq> CHR ''-'' \<and> digit_char d \<noteq> CHR ''+''"
proof -
  have "of_char (digit_char d) = 48 + d" using assms by (simp add: digit_char_def)
  then have "\<not> is_space (digit_char d)" using assms by (simp add: is_space_def Let_def)
  moreover have "digit_of (CHR ''-'') = None" "digit_of (CHR ''+'') = None" by code_simp+
  ultimately show ?thesis using digit_of_char [OF assms] by auto
qed

lemma show_nonempty [simp]: "show_nat n \<noteq> []"
  by (subst show_nat.simps) simp

lemma strip_plain: "\<forall>c\<in>set s. \<not> is_space c \<Longrightarrow> str_strip s = s"
proof -
  assume "\<forall>c\<in>set s. \<not> is_space c"
  moreover have "dropWhile is_space t = t" if "\<forall>c\<in>set t. \<not> is_space c" for t using that by (cases t) auto
  from this [of s] this [of "rev s"] calculation show ?thesis by (simp add: str_strip_def)
qed

lemma check_each_valid: "check_each fl ss cs = CALLS_VALID \<longleftrightarrow>
  (\<forall>c\<in>set cs. \<exists>s ps. dict_get ss (call_name c) = Some s \<and> call_params c = Some ps
     \<and> (\<forall>sch. s = Some sch \<longrightarrow> is_valid (safe_parse fl sch ps)))"
  by (induction cs) (auto simp: Let_def split: option.splits)

lemma find_duplicate_none: "find_duplicate shown seen cs = None \<longleftrightarrow>
  distinct (map (\<lambda>c. (call_name c, shown c)) cs) \<and> set (map (\<lambda>c. (call_name c, shown c)) cs) \<inter> seen = {}"
proof (induction cs arbitrary: seen)
  case (Cons c cs)
  show ?case unfolding find_duplicate.simps list.map distinct.simps
    using Cons [of "insert (call_name c, shown c) seen"] by (simp del: set_map) blast
qed simp

section \<open>Properties\<close>

text \<open>
  Coercion keeps or reaches the declared type: a value is left as it is, or a string has become a value
  of the type its property declares (an integer, a number, a boolean, null), or, without one of these types, a number
  like the constant of the property; coercing twice is coercing once.
\<close>

theorem coercion_is_typed:
  "coerce_value fl (coerce_value fl v p) p = coerce_value fl v p
   \<and> (coerce_value fl v p \<noteq> v \<longrightarrow> (\<exists>s. v = PY_STR s) \<and>
        (case coerce_value fl v p of
           PY_INT i \<Rightarrow> type_name p = ''integer'' \<or> (\<exists>c. const_value p = Some c \<and> (case c of PY_INT _ \<Rightarrow> True | PY_BOOL _ \<Rightarrow> True | _ \<Rightarrow> False))
         | PY_FLOAT x \<Rightarrow> type_name p = ''number'' \<or> (\<exists>c. const_value p = Some (PY_FLOAT c))
         | PY_BOOL b \<Rightarrow> type_name p = ''boolean''
         | PY_NONE \<Rightarrow> type_name p = ''null''
         | _ \<Rightarrow> False))"
proof (cases v)
  case (PY_STR s)
  then show ?thesis
    by (cases "py_int_of s"; cases "fl s"; cases "const_value p")
      (auto simp: coerce_value_def coerce_const_def or_value_def split: py_value.splits)
qed (auto simp: coerce_value_def)

lemma coercion_is_typed_witness:
  "coerce_value (\<lambda>s. None) (PY_STR '' 1_0 '') \<lparr>type_name = ''integer'', const_value = None\<rparr> = PY_INT 10
   \<and> coerce_value (\<lambda>s. None) (PY_INT 10) \<lparr>type_name = ''integer'', const_value = None\<rparr> = PY_INT 10"
proof -
  have "coerce_value (\<lambda>s. None) (PY_STR '' 1_0 '') \<lparr>type_name = ''integer'', const_value = None\<rparr> = PY_INT 10" by code_simp
  then show ?thesis
    using coercion_is_typed [of "\<lambda>s. None" "PY_STR '' 1_0 ''" "\<lparr>type_name = ''integer'', const_value = None\<rparr>"] by simp
qed

text \<open>
  An integer survives being written as a string: the decimal text of an integer of at most 4300
  digits is coerced back to it when the property declares an integer.
\<close>

theorem integer_text_roundtrip:
  assumes "type_name p = ''integer''" "length (show_nat (nat \<bar>i\<bar>)) \<le> 4300"
  shows "coerce_value fl (PY_STR (show_int i)) p = PY_INT i"
proof -
  let ?ds = "show_nat (nat \<bar>i\<bar>)"
  have plain: "c \<in> set ?ds \<Longrightarrow> \<not> is_space c \<and> c \<noteq> CHR ''-'' \<and> c \<noteq> CHR ''+''" for c
    using digits_shown digit_plain by metis
  have "\<forall>c\<in>set (show_int i). \<not> is_space c"
    using plain by (auto simp: show_int_def is_space_def abs_if split: if_splits)
  then have strip: "str_strip (show_int i) = show_int i" by (rule strip_plain)
  obtain c cs where c: "?ds = c # cs" using show_nonempty by (meson neq_Nil_conv)
  have few: "length (filter (\<lambda>c. digit_of c \<noteq> None) ?ds) \<le> max_int_digits"
    unfolding max_int_digits_def by (rule le_trans [OF length_filter_le assms(2)])
  have "c \<noteq> CHR ''-''" "c \<noteq> CHR ''+''" using plain [of c] c by auto
  then have "py_int_of (show_int i) = Some i"
    using few scan_show [of "nat \<bar>i\<bar>"] c strip
    by (auto simp: py_int_of_def show_int_def Let_def not_less abs_if split: if_splits)
  then show ?thesis using assms(1) by (simp add: coerce_value_def or_value_def)
qed

lemma integer_text_roundtrip_witness:
  "coerce_value (\<lambda>s. None) (PY_STR ''-305'') \<lparr>type_name = ''integer'', const_value = None\<rparr> = PY_INT (- 305)"
proof -
  have s: "show_int (- 305) = ''-305''" "length (show_nat (nat \<bar>- 305 :: int\<bar>)) \<le> 4300" by code_simp+
  show ?thesis using integer_text_roundtrip [of "\<lparr>type_name = ''integer'', const_value = None\<rparr>" "- 305" "\<lambda>s. None"] s by simp
qed

text \<open>
  The calls of an action are accepted together or not at all: they are valid exactly when each names
  a known tool and has an object of parameters that, coerced, have no violation of its schema, and no two are
  the same call.
\<close>

theorem calls_are_valid_iff:
  "validate_tool_calls fl shown ss cs = CALLS_VALID \<longleftrightarrow>
     list_all (\<lambda>c. case dict_get ss (call_name c) of
         None \<Rightarrow> False
       | Some None \<Rightarrow> call_params c \<noteq> None
       | Some (Some sch) \<Rightarrow> (case call_params c of None \<Rightarrow> False | Some ps \<Rightarrow> check_params sch (coerce_params fl sch ps) = Inr [])) cs
     \<and> distinct (map (\<lambda>c. (call_name c, shown c)) cs)"
proof -
  have valid: "is_valid (safe_parse fl sch ps) \<longleftrightarrow> check_params sch (coerce_params fl sch ps) = Inr []" for sch ps
    by (auto simp: safe_parse_def Let_def split: sum.splits list.splits)
  have each: "check_each fl ss cs = CALLS_VALID \<longleftrightarrow> list_all (\<lambda>c. case dict_get ss (call_name c) of
         None \<Rightarrow> False
       | Some None \<Rightarrow> call_params c \<noteq> None
       | Some (Some sch) \<Rightarrow> (case call_params c of None \<Rightarrow> False | Some ps \<Rightarrow> check_params sch (coerce_params fl sch ps) = Inr [])) cs"
    unfolding check_each_valid list_all_iff by (rule ball_cong [OF refl]) (auto simp: valid split: option.splits)
  have "length cs \<le> 1 \<Longrightarrow> distinct (map (\<lambda>c. (call_name c, shown c)) cs)" by (cases cs) auto
  moreover have "find_duplicate shown {} cs = None \<longleftrightarrow> distinct (map (\<lambda>c. (call_name c, shown c)) cs)"
    by (simp add: find_duplicate_none)
  ultimately show ?thesis
    unfolding each [symmetric] validate_tool_calls_def
    by (cases "check_each fl ss cs"; cases "find_duplicate shown {} cs") (auto simp: not_less)
qed

text \<open>
  A valid call need not conform to its schema: only the verdict on the coerced parameters is returned, and the
  call keeps what the model wrote, so that a tool that declares an integer can be given a string.
\<close>

theorem valid_call_keeps_its_strings:
  "let typed = (\<lambda>ps. if list_ex (\<lambda>(k, v). case v of PY_STR s \<Rightarrow> True | _ \<Rightarrow> False) ps
        then Inr [\<lparr>v_path = [''n''], v_message = ''not an integer'', v_schema_path = ''type'', v_keyword = ''type''\<rparr>] else Inr []);
       sch = \<lparr>properties = [(''n'', \<lparr>type_name = ''integer'', const_value = None\<rparr>)], check_params = typed\<rparr>;
       ps = [(''n'', PY_STR ''5'')]
   in validate_tool_calls (\<lambda>s. None) (\<lambda>c. []) [(''t'', Some sch)] [\<lparr>call_name = ''t'', call_params = Some ps\<rparr>] = CALLS_VALID
     \<and> check_params sch ps \<noteq> Inr []"
  by code_simp

end
