(* ===== verification/Spec2Isabelle.thy ===== *)
theory Spec2Isabelle
  imports Circuit_Breaker Exec_Budget Task_Machine Workspace_Lease Outbox_Store Owner_Lease
    Outbox_Relay Permission_Rules Trust Permission_Properties Hook_Dispatch Conversation
    Guarded_Run Message_Store Workflow Scoped_Bus Bounded_Channel Governor_Properties
    Provider_Governor Cancel_Tree Run_Coordinator Executor_Properties Policy_Properties
    Execution_Properties Approvals Delegation_Retry Call_Validation
begin

text \<open>
  A model of the core of Grace Code, an agent that runs tools for a language model. All paths are
  below \<^verbatim>\<open>src/\<close>.

  The program. A run (\<^verbatim>\<open>runtime_core/native_step_loop.py\<close>) asks the model for its next action, turn
  by turn; the tool calls of an action go through a gate (\<^verbatim>\<open>composition/runtime_composition.py\<close>) that
  asks the hooks of the user (\<^verbatim>\<open>hook_core/\<close>) and then the permission pipeline of the session
  (\<^verbatim>\<open>hitl/\<close>). The conversation of the run is a protocol state (\<^verbatim>\<open>runtime_core/conversation_state.py\<close>),
  shortened before every request (\<^verbatim>\<open>context_budget.py\<close>). Around the runs are budgets, a circuit
  breaker and the state machine of a task (\<^verbatim>\<open>core/circuit_breaker.py\<close>, \<^verbatim>\<open>agent/session/\<close>), leases on
  workspaces (\<^verbatim>\<open>application/workspaces/\<close>), and a transactional outbox with its relay
  (\<^verbatim>\<open>infrastructure/outbox/\<close>).

  The theories, and the code each one models.

    \<^item> \<open>Grace_Prelude\<close>: dicts, strings, and the contracts the components share, as locales: an
      invariant kept by every operation, a latch, a quantity that never decreases, an invariant of
      operations that raise. Every component interprets the ones it satisfies.
    \<^item> \<open>Permission_Rules\<close>, \<open>Trust\<close>, \<open>Posix_Path\<close>, \<open>Permission_Pipeline\<close>, \<open>Permission_Properties\<close>:
      \<^verbatim>\<open>hitl/permission_rule.py\<close>, \<^verbatim>\<open>pattern_inference.py\<close>, \<^verbatim>\<open>trust_accumulator.py\<close> and \<^verbatim>\<open>pipeline.py\<close>: the
      six layers of \<open>check\<close>, its configuration and its counters.
    \<^item> \<open>Hook_Registry\<close>, \<open>Json_Values\<close>, \<open>Hook_Dispatch\<close>: \<^verbatim>\<open>hook_core/\<close> and \<^verbatim>\<open>core/json_values.py\<close>: the
      registry and its order, the execution of one hook, the verdicts of processes, both dispatch loops.
    \<^item> \<open>Conversation\<close>, \<open>Context_Budget\<close>, \<open>Tool_Scheduler\<close>, \<open>Step_Loop\<close>: the files of these names in
      \<^verbatim>\<open>runtime_core/\<close>, and \<open>Message_Store\<close>: \<^verbatim>\<open>conversation_store.py\<close> and \<^verbatim>\<open>write_behind_buffer.py\<close>, with \<^verbatim>\<open>native_message.py\<close>, \<^verbatim>\<open>message_validator.py\<close> and \<^verbatim>\<open>outcome.py\<close>.
    \<^item> \<open>Tool_Gate\<close>, \<open>Guarded_Run\<close>: the gate of \<^verbatim>\<open>composition/runtime_composition.py\<close>, and the step loop
      run behind it.
    \<^item> \<open>Circuit_Breaker\<close>, \<open>Exec_Budget\<close>, \<open>Task_Machine\<close>, \<open>Workspace_Lease\<close>: \<^verbatim>\<open>core/circuit_breaker.py\<close>,
      \<^verbatim>\<open>agent/session/execution_budget.py\<close>, \<^verbatim>\<open>agent/session/task_state_machine.py\<close> and
      \<^verbatim>\<open>application/workspaces/workspace_lease_service.py\<close>.
    \<^item> \<open>Workflow\<close>: \<^verbatim>\<open>core/workflow.py\<close>, the graph of a workflow, its layers and its execution.
    \<^item> \<open>Scope_Tree\<close>, \<open>Scoped_Bus\<close>, \<open>Bounded_Channel\<close>: \<^verbatim>\<open>core/eventing/scope.py\<close> and \<^verbatim>\<open>eventing/\<close>: the tree
      of scopes, the subscriptions and synchronous delivery, and the channel to an asynchronous
      consumer as a step relation.
    \<^item> \<open>Resource_Governor\<close>, \<open>Governor_Invariants\<close>, \<open>Governor_Properties\<close>: \<^verbatim>\<open>core/resource_governor.py\<close>, the
      leases on capacities and their queue. \<open>Provider_Governor\<close>: \<^verbatim>\<open>core/provider_governor.py\<close> and
      \<^verbatim>\<open>llm/provider_capacity.py\<close>. \<open>Cancel_Tree\<close>: \<^verbatim>\<open>core/cancellation.py\<close>.
    \<^item> \<open>Run_Coordinator\<close>: \<^verbatim>\<open>application/coordinators/\<close>, \<^verbatim>\<open>application/commands/run_commands.py\<close> and the
      transaction and repository of runs in \<^verbatim>\<open>infrastructure/sqlite/\<close>.
    \<^item> \<open>Tool_Executor\<close>, \<open>Executor_Properties\<close>: \<^verbatim>\<open>core/streaming_executor.py\<close>, the executor of tool calls
      and its threads.
    \<^item> \<open>Phase_Policy\<close>, \<open>Policy_Registry\<close>, \<open>Policy_Properties\<close>: \<^verbatim>\<open>core/policy.py\<close> and
      \<^verbatim>\<open>core/policy_registry.py\<close>, the policies of phases and the registries layered by them.
    \<^item> \<open>Tool_Execution\<close>, \<open>Execution_Properties\<close>: \<^verbatim>\<open>core/tool_execution.py\<close> and
      \<^verbatim>\<open>agent/tool_availability_guard.py\<close>, one call with its gates and retries.
    \<^item> \<open>Call_Validation\<close>: \<^verbatim>\<open>core/schema_validator.py\<close> and \<^verbatim>\<open>llm/tool_call_validator.py\<close>, the check of the
      calls of one action against their schemas.
    \<^item> \<open>Approvals\<close>: \<^verbatim>\<open>server/services/approval_broker.py\<close> as steps of its threads, and
      \<^verbatim>\<open>application/approvals/approval_coordinator.py\<close>.
    \<^item> \<open>Delegation_Store\<close>, \<open>Delegation_Scheduler\<close>, \<open>Delegation_Properties\<close>, \<open>Delegation_Retry\<close>: the
      delegation tables of \<^verbatim>\<open>agent/session/session_store.py\<close> and
      \<^verbatim>\<open>agent/session/delegation_scheduler.py\<close>, the tasks of a run given to child agents.
    \<^item> \<open>Outbox_Store\<close>, \<open>Owner_Lease\<close>, \<open>Outbox_Relay\<close>: \<^verbatim>\<open>infrastructure/outbox/\<close>,
      \<^verbatim>\<open>application/events/schema_registry.py\<close> and \<^verbatim>\<open>listeners/delivery.py\<close>.

  How the code is represented. An object is a record and a method a function from the record to the
  record, with the result or the exception: \<open>None\<close> or \<open>Inl\<close> is the exception. A method that holds
  its object's lock is one step, so that a concurrent execution is a list of steps. A dict is an
  association list in insertion order, a table of the database the list of its rows, and one
  statement one step on it. A float is an exact rational. Strings are lists of characters of code
  points below 256. Clocks, the model, the tools, the processes of hooks, regular expressions and
  digests are parameters.

  What the lemmas show. The properties are marked with their number in the theories. Of the gate: a
  deny rule of the configuration holds for every registered tool any run executes, unless the tool itself requires
  interaction or a function hook returns the \<open>ALLOW\<close> of \<^verbatim>\<open>hitl/pipeline.py\<close>, which skips the pipeline; an
  approval went through each layer, a plan only reads, a child inherits denials. Of a run: it ends with one outcome, every
  request is a well-formed exchange, the store mirrors the conversation. Of the outbox: exclusive
  claims, delivery in the order of versions, bounded retries. Of runs: a submission is atomic and
  idempotent, a session has one active run. Of leases, budgets and governors: no two writers, no
  overcommitment, no more requests or tokens than the limits of a minute, a queue that a release
  drains, a waiter that keeps what it was told. Of cancellation: it reaches the descendants of a handle and no other. Of calls: an exclusive one
  runs alone, every one is answered, its attempts are bounded and each was asked for where a pipeline is set; policies only
  narrow as they are layered, except for the tool that shows differences. Of approvals: only a decision that was given allows a call, and a cancellation ends
  every wait. Of delegations: tasks run after what they depend on, the scheduler ends, a retry replaces the
  seeds and their consumers, moves their dependencies to the replacements and keeps the graph whole, and no version of a run ends twice. Of the formats: rules, messages and values survive their round trips. Errors
  that modelling found are theorems about the code as it is.

  Bounds. Every loop is structural recursion: on the list it reads, or on the turns a run has left,
  which the code bounds by \<open>max_steps\<close>; no definition takes fuel beyond the bound of the code. The loop
  of the delegation scheduler has no bound in the code and is a partial function: that it ends is a
  theorem, under the conditions it names, and so is that it does not without them.

  Not modelled. The adapters to model providers, databases, terminals and the web server; the text
  of prompts and logs; the older loop of \<^verbatim>\<open>agent/core.py\<close> except the guards it registers, and the
  sessions of \<^verbatim>\<open>agent/session/\<close> beside their delegations; the memory
  and compaction that ask a model.
\<close>

end
